(* ===== verification/Prelude.thy ===== *)
theory Prelude
  imports Main "HOL-Library.Word"
begin

text \<open>
  Shared vocabulary of the development: the machine integer types of
  \<^verbatim>\<open>include/types.h\<close>, the error codes and arithmetic macros of
  \<^verbatim>\<open>kernel/include/kernel/common.h\<close>, the page constants of
  \<^verbatim>\<open>kernel/include/kernel/memory.h\<close>, the linker symbols, and the result type every
  fallible operation returns. A C function that can fail, panic or have undefined behaviour
  returns a value of type \<open>'a res\<close>: \<open>Inr\<close> the result, or \<open>Inl\<close> a fault.
\<close>

unbundle bit_operations_syntax

named_theorems res_simps \<open>evaluation of the result monad\<close>
named_theorems unat_simps \<open>transfer of machine arithmetic to natural numbers\<close>

section \<open>Types and results\<close>

type_synonym u8 = "8 word"
type_synonym u16 = "16 word"
type_synonym u32 = "32 word"
type_synonym u64 = "64 word"

type_synonym size_t = u32
type_synonym paddr_t = u32
type_synonym vaddr_t = u32
type_synonym ptr = u32

datatype err_t = E_OK | E_NOMEM | E_DEVICE

text \<open>
  \<open>Panic\<close> is a call of \<^verbatim>\<open>kernel_panic\<close>, which never returns; \<open>Undefined\<close> is
  undefined behaviour of C (an access outside an array, a null dereference, a shift by a negative
  amount); \<open>Diverges\<close> is a loop that does not end.
\<close>

datatype fault = Panic string | Undefined string | Diverges

type_synonym 'a res = "fault + 'a"

definition bindE :: "'a res \<Rightarrow> ('a \<Rightarrow> 'b res) \<Rightarrow> 'b res" where
  "bindE m f = (case m of Inl e \<Rightarrow> Inl e | Inr x \<Rightarrow> f x)"

definition ASSERT :: "bool \<Rightarrow> string \<Rightarrow> unit res" where
  "ASSERT b msg = (if b then Inr () else Inl (Panic msg))"

definition loop_result :: "'a res option \<Rightarrow> 'a res" where
  "loop_result r = (case r of None \<Rightarrow> Inl Diverges | Some x \<Rightarrow> x)"

text \<open>A \<^verbatim>\<open>for\<close> loop over a list of indices that stops at the first fault.\<close>

primrec for_each :: "'i list \<Rightarrow> ('i \<Rightarrow> 's \<Rightarrow> 's res) \<Rightarrow> 's \<Rightarrow> 's res" where
  "for_each [] f s = Inr s"
| "for_each (i # is) f s = bindE (f i s) (for_each is f)"

section \<open>Macros\<close>

definition NULL :: ptr where
  "NULL = 0"

definition MASK :: "nat \<Rightarrow> u32" where
  "MASK bits = push_bit bits 1 - 1"

definition ALIGN_BITS_DOWN :: "u32 \<Rightarrow> nat \<Rightarrow> u32" where
  "ALIGN_BITS_DOWN val bits = val AND NOT (MASK bits)"

definition ALIGN_BITS_UP :: "u32 \<Rightarrow> nat \<Rightarrow> u32" where
  "ALIGN_BITS_UP val bits = (val + MASK bits) AND NOT (MASK bits)"

definition PAGE_BITS :: nat where
  "PAGE_BITS = 12"

definition PAGE_SIZE :: u32 where
  "PAGE_SIZE = push_bit PAGE_BITS 1"

definition PAGE_ALIGN :: "u32 \<Rightarrow> u32" where
  "PAGE_ALIGN addr = ALIGN_BITS_UP addr PAGE_BITS"

definition KiB :: u32 where
  "KiB = 1024"

definition MiB :: u32 where
  "MiB = 0x100000"

text \<open>Symbols defined by \<^verbatim>\<open>kernel/linker.ld\<close>.\<close>

definition KERNEL_OFFSET :: u32 where
  "KERNEL_OFFSET = 0xC0000000"

definition KERNEL_BOOT_MAPPED :: u32 where
  "KERNEL_BOOT_MAPPED = 0xC0800000"

section \<open>The result monad\<close>

lemma bindE_Inl [simp, res_simps]: "bindE (Inl e) f = Inl e"
  by (simp add: bindE_def)

lemma bindE_Inr [simp, res_simps]: "bindE (Inr x) f = f x"
  by (simp add: bindE_def)

lemma bindE_eq_Inr [res_simps]: "bindE m f = Inr y \<longleftrightarrow> (\<exists>x. m = Inr x \<and> f x = Inr y)"
  by (cases m) auto

lemma bindE_cong [fundef_cong]:
  "m = m' \<Longrightarrow> (\<And>x. m' = Inr x \<Longrightarrow> f x = g x) \<Longrightarrow> bindE m f = bindE m' g"
  by (cases m') auto

lemma bindE_assoc: "bindE (bindE m f) g = bindE m (\<lambda>x. bindE (f x) g)"
  by (cases m) simp_all

lemma bindE_Inr_right: "bindE m Inr = m"
  by (cases m) simp_all

lemma ASSERT_True [simp, res_simps]: "ASSERT True msg = Inr ()"
  by (simp add: ASSERT_def)

lemma ASSERT_False [simp, res_simps]: "ASSERT False msg = Inl (Panic msg)"
  by (simp add: ASSERT_def)

lemma ASSERT_eq_Inr [res_simps]: "ASSERT b msg = Inr u \<longleftrightarrow> b"
  by (simp add: ASSERT_def)

lemma loop_result_simps [simp, res_simps]:
  "loop_result None = Inl Diverges" "loop_result (Some r) = r"
  by (simp_all add: loop_result_def)

lemma for_each_append: "for_each (xs @ ys) f s = bindE (for_each xs f s) (for_each ys f)"
  by (induction xs arbitrary: s) (auto simp: bindE_def split: sum.splits)

lemma for_each_snoc: "for_each (xs @ [x]) f s = bindE (for_each xs f s) (f x)"
  by (simp add: for_each_append bindE_def split: sum.splits)

lemma for_each_map: "for_each (List.map h xs) f s = for_each xs (\<lambda>i. f (h i)) s"
  by (induction xs arbitrary: s) (auto simp: bindE_def split: sum.splits)

lemma for_each_cong: "(\<And>i s. i \<in> set xs \<Longrightarrow> f i s = g i s) \<Longrightarrow> for_each xs f s = for_each xs g s"
  by (induction xs arbitrary: s) (auto simp: bindE_def split: sum.splits)

section \<open>Words as natural numbers\<close>

lemma unat_lt_2p32 [simp]: "unat (x :: u32) < 4294967296"
  using unsigned_less [where w = x and 'a = nat] by simp

lemma unat_u32_of_nat [unat_simps]: "n < 4294967296 \<Longrightarrow> unat (of_nat n :: u32) = n"
  by (simp add: unat_of_nat take_bit_eq_mod)

lemma unat_u32_add [unat_simps]:
  "unat a + unat b < 4294967296 \<Longrightarrow> unat (a + b :: u32) = unat a + unat b"
  by (simp add: unat_word_ariths)

lemma unat_u32_mult [unat_simps]:
  "unat a * unat b < 4294967296 \<Longrightarrow> unat (a * b :: u32) = unat a * unat b"
  by (simp add: unat_word_ariths)

lemma unat_u32_diff [unat_simps]: "b \<le> a \<Longrightarrow> unat (a - b :: u32) = unat a - unat b"
  by (rule unat_sub)

lemma unat_u32_numeral_le: "unat (a :: u32) \<le> unat b \<longleftrightarrow> a \<le> b"
  by (simp add: word_le_nat_alt)

lemma unat_u32_Suc [unat_simps]: "i < n \<Longrightarrow> unat (i + 1 :: u32) = Suc (unat i)"
  using le_less_trans [OF Suc_leI unat_lt_2p32 [of n], of "unat i"]
  by (simp add: word_less_nat_alt unat_word_ariths)

lemma loop_measure: "i < n \<Longrightarrow> unat n - unat (i + 1 :: u32) < unat n - unat i"
  by (simp add: unat_u32_Suc word_less_nat_alt)

lemma unat_drop_bit_u32 [unat_simps]: "unat (drop_bit k (x :: u32)) = unat x div 2 ^ k"
  by (metis drop_bit_eq_div unat_drop_bit_eq)

lemma halving_measure: "drop_bit 1 n \<noteq> 0 \<Longrightarrow> unat (drop_bit 1 (n :: u32)) < unat n"
  by (cases "n = 0") (auto simp: unat_drop_bit_u32 unat_gt_0 intro!: div_less_dividend)

lemma unat_push_bit_one [unat_simps]: "k < 32 \<Longrightarrow> unat (push_bit k 1 :: u32) = 2 ^ k"
  by (simp only: unsigned_push_bit_eq)
    (use power_strict_increasing [of k 32 "2 :: nat"] in \<open>simp add: take_bit_eq_mod\<close>)

lemma unat_u32_power [unat_simps]: "k < 32 \<Longrightarrow> unat (2 ^ k :: u32) = 2 ^ k"
  using unat_push_bit_one [of k] by simp

lemma MASK_eq_mask: "k < 32 \<Longrightarrow> MASK k = mask k"
  by (simp add: MASK_def mask_eq_exp_minus_1 push_bit_of_1)

lemma unat_ALIGN_BITS_DOWN [unat_simps]:
  "k < 32 \<Longrightarrow> unat (ALIGN_BITS_DOWN v k) = unat v div 2 ^ k * 2 ^ k"
proof -
  assume k: "k < 32"
  have "v AND NOT (mask k) = push_bit k (drop_bit k v)"
    by (auto simp: bit_eq_iff bit_simps not_less)
  then have "unat (ALIGN_BITS_DOWN v k) = unat (push_bit k (drop_bit k v))"
    using k by (simp add: ALIGN_BITS_DOWN_def MASK_eq_mask)
  also have "\<dots> = take_bit 32 (push_bit k (unat (drop_bit k v)))"
    by (simp add: unsigned_push_bit_eq)
  also have "\<dots> = unat v div 2 ^ k * 2 ^ k"
    by (simp add: unat_drop_bit_u32 push_bit_eq_mult take_bit_eq_mod)
      (meson div_times_less_eq_dividend le_less_trans unat_lt_2p32 mod_less)
  finally show ?thesis .
qed

lemma ALIGN_BITS_UP_eq: "ALIGN_BITS_UP v k = ALIGN_BITS_DOWN (v + MASK k) k"
  by (simp add: ALIGN_BITS_UP_def ALIGN_BITS_DOWN_def)

lemma sint_small: "n < 2 ^ 31 \<Longrightarrow> sint (of_nat n :: 32 word) = int n"
  by (simp add: signed_of_nat signed_take_bit_int_eq_self)

lemma KiB_MiB_eq [simp]: "KiB = 1024" "MiB = 1048576"
  by (simp_all add: KiB_def MiB_def)

lemma PAGE_SIZE_eq [simp]: "PAGE_SIZE = 4096"
  by (simp add: PAGE_SIZE_def PAGE_BITS_def)

end
