(* ===== verification/Bitset.thy ===== *)
theory Bitset
  imports Prelude
begin

text \<open>
  The bit set of \<^verbatim>\<open>libc/bitset/bitset.c\<close>: an array of 32-bit words. The C struct
  holds a pointer and a length; the model keeps the address the pointer holds (\<open>data_ptr\<close>)
  beside the dwords it points to (\<open>data\<close>), and an access outside that block is undefined
  behaviour. The abstraction \<open>bs_set\<close> reads a bit set as the set of its one-bits, and the
  locale \<open>index_set\<close> is the interface the frame allocator relies on.
\<close>

section \<open>Model\<close>

record bitset32_t =
  data_ptr :: u32
  data :: "u32 list"
  len :: size_t

definition BIT_MASK :: "u32 \<Rightarrow> u32" where
  "BIT_MASK b = push_bit (unat (b mod 32)) 1"

definition BIT_SLOT :: "u32 \<Rightarrow> u32" where
  "BIT_SLOT b = b div 32"

definition load_dword :: "bitset32_t \<Rightarrow> u32 \<Rightarrow> u32 res" where
  "load_dword bs i =
     (if unat i < length (data bs) then Inr (data bs ! unat i)
      else Inl (Undefined ''bitset: read outside data''))"

definition store_dword :: "bitset32_t \<Rightarrow> u32 \<Rightarrow> u32 \<Rightarrow> bitset32_t res" where
  "store_dword bs i v =
     (if unat i < length (data bs) then Inr (bs\<lparr>data := (data bs)[unat i := v]\<rparr>)
      else Inl (Undefined ''bitset: write outside data''))"

text \<open>The inner loop of \<^verbatim>\<open>bitset_find\<close>: the first one-bit of a dword.\<close>

function find_bit :: "nat \<Rightarrow> u32 \<Rightarrow> nat option" where
  "find_bit j item =
     (if j < 32 then
        (if item AND 1 \<noteq> 0 then Some j else find_bit (j + 1) (drop_bit 1 item))
      else None)"
  by pat_completeness auto
termination
  by (relation "measure (\<lambda>(j, item). 32 - j)") auto

text \<open>The outer loop: \<open>i\<close> runs over the dwords.\<close>

function find_from :: "bitset32_t \<Rightarrow> u32 \<Rightarrow> size_t option res" where
  "find_from bs i =
     (if i < len bs then
        bindE (load_dword bs i) (\<lambda>item.
          if item \<noteq> 0 then
            (case find_bit 0 item of
               Some j \<Rightarrow> Inr (Some (32 * i + of_nat j))
             | None \<Rightarrow> find_from bs (i + 1))
          else find_from bs (i + 1))
      else Inr None)"
  by pat_completeness auto
termination
  by (relation "measure (\<lambda>(bs, i). unat (len bs) - unat i)")
    (auto simp: loop_measure)

definition bitset_find :: "bitset32_t \<Rightarrow> size_t option res" where
  "bitset_find bs = find_from bs 0"

definition bitset_read :: "bitset32_t \<Rightarrow> size_t \<Rightarrow> bool res" where
  "bitset_read bs idx =
     bindE (load_dword bs (BIT_SLOT idx)) (\<lambda>d. Inr (d AND BIT_MASK idx \<noteq> 0))"

definition bitset_set :: "bitset32_t \<Rightarrow> u32 \<Rightarrow> bitset32_t res" where
  "bitset_set bs idx =
     bindE (load_dword bs (BIT_SLOT idx))
       (\<lambda>d. store_dword bs (BIT_SLOT idx) (d OR BIT_MASK idx))"

definition bitset_clear :: "bitset32_t \<Rightarrow> u32 \<Rightarrow> bitset32_t res" where
  "bitset_clear bs idx =
     bindE (load_dword bs (BIT_SLOT idx))
       (\<lambda>d. store_dword bs (BIT_SLOT idx) (d AND NOT (BIT_MASK idx)))"

definition bitset_write :: "bitset32_t \<Rightarrow> u32 \<Rightarrow> bool \<Rightarrow> bitset32_t res" where
  "bitset_write bs idx state = (if state then bitset_set bs idx else bitset_clear bs idx)"

function fill_from :: "bitset32_t \<Rightarrow> u32 \<Rightarrow> u32 \<Rightarrow> bitset32_t res" where
  "fill_from bs d i =
     (if i < len bs then bindE (store_dword bs i d) (\<lambda>bs'. fill_from bs' d (i + 1))
      else Inr bs)"
  by pat_completeness auto
termination
  by (relation "measure (\<lambda>(bs, d, i). unat (len bs) - unat i)")
    (auto simp: loop_measure store_dword_def split: if_splits)

definition bitset_fill :: "bitset32_t \<Rightarrow> u32 \<Rightarrow> bitset32_t res" where
  "bitset_fill bs d = fill_from bs d 0"

declare find_bit.simps [simp del] find_from.simps [simp del] fill_from.simps [simp del]

text \<open>Abstraction and invariant.\<close>

definition bs_cap :: "bitset32_t \<Rightarrow> nat" where
  "bs_cap bs = 32 * length (data bs)"

definition bs_set :: "bitset32_t \<Rightarrow> nat set" where
  "bs_set bs = {n. n < bs_cap bs \<and> bit (data bs ! (n div 32)) (n mod 32)}"

definition bitset_wf :: "bitset32_t \<Rightarrow> bool" where
  "bitset_wf bs \<longleftrightarrow> length (data bs) = unat (len bs) \<and> length (data bs) \<le> 2 ^ 27"

section \<open>Searching\<close>

lemma and_one_neq_zero: "(x :: u32) AND 1 \<noteq> 0 \<longleftrightarrow> bit x 0"
  by (simp add: and_one_eq bit_0 odd_iff_mod_2_eq_one)

lemma find_bit_step:
  "find_bit j item =
     (if j < 32 then if bit item 0 then Some j else find_bit (j + 1) (drop_bit 1 item) else None)"
  by (subst find_bit.simps) (simp only: and_one_neq_zero)

lemma find_bit_Some:
  "find_bit j item = Some k \<Longrightarrow>
     j \<le> k \<and> k < 32 \<and> bit item (k - j) \<and> (\<forall>m < k - j. \<not> bit item m)"
proof (induction j item arbitrary: k rule: find_bit.induct)
  case (1 j item)
  show ?case
  proof (cases "bit item 0")
    case True
    with "1.prems" show ?thesis
      by (auto simp: find_bit_step [of j] split: if_splits)
  next
    case False
    with "1.prems" have j: "j < 32" and r: "find_bit (j + 1) (drop_bit 1 item) = Some k"
      by (simp_all add: find_bit_step [of j] split: if_splits)
    have a: "\<not> item AND 1 \<noteq> 0" using False by (simp only: and_one_neq_zero simp_thms)
    from "1.IH" [OF j a r]
    have IH: "j + 1 \<le> k" "k < 32" "bit item (k - j)" "\<forall>m < k - (j + 1). \<not> bit item (Suc m)"
      by (auto simp: bit_simps Suc_diff_Suc)
    have "\<not> bit item m" if "m < k - j" for m
      using that IH(4) False by (cases m) auto
    with IH show ?thesis by simp
  qed
qed

lemma find_bit_None:
  "find_bit j item = None \<Longrightarrow> m < 32 - j \<Longrightarrow> \<not> bit item m"
proof (induction j item arbitrary: m rule: find_bit.induct)
  case (1 j item)
  then have j: "j < 32" by simp
  with "1.prems"(1) have b0: "\<not> bit item 0" and r: "find_bit (j + 1) (drop_bit 1 item) = None"
    by (simp_all add: find_bit_step [of j] split: if_splits)
  have a: "\<not> item AND 1 \<noteq> 0" using b0 by (simp only: and_one_neq_zero simp_thms)
  show ?case
  proof (cases m)
    case (Suc m')
    with "1.IH" [OF j a r, of m'] "1.prems"(2) show ?thesis
      by (auto simp: bit_simps)
  qed (simp add: b0)
qed

lemma find_bit_nonzero: "item \<noteq> 0 \<Longrightarrow> \<exists>k. find_bit 0 item = Some k"
proof (rule ccontr)
  assume "item \<noteq> 0" "\<nexists>k. find_bit 0 item = Some k"
  then have "\<forall>m < 32. \<not> bit item m"
    by (auto dest: find_bit_None [of 0 item])
  then have "item = 0" by (simp add: bit_eq_iff)
  with \<open>item \<noteq> 0\<close> show False by simp
qed

lemma bs_setI: "n < bs_cap bs \<Longrightarrow> bit (data bs ! (n div 32)) (n mod 32) \<Longrightarrow> n \<in> bs_set bs"
  by (simp add: bs_set_def)

lemma bs_set_lt_cap: "n \<in> bs_set bs \<Longrightarrow> n < bs_cap bs"
  by (simp add: bs_set_def)

lemma bs_set_slot:
  assumes "i < length (data bs)" "m < 32"
  shows "32 * i + m \<in> bs_set bs \<longleftrightarrow> bit (data bs ! i) m"
proof -
  have "32 * i + m < bs_cap bs" using assms by (simp add: bs_cap_def)
  moreover have "(32 * i + m) div 32 = i" "(32 * i + m) mod 32 = m" using assms by auto
  ultimately show ?thesis by (simp add: bs_set_def)
qed

lemma load_dword_in [simp]: "unat i < length (data bs) \<Longrightarrow> load_dword bs i = Inr (data bs ! unat i)"
  by (simp add: load_dword_def)

text \<open>The search returns the least one-bit at or after the dword it starts from.\<close>

lemma find_from_step:
  assumes "bitset_wf bs" "i < len bs"
  shows "find_from bs i =
    (case find_bit 0 (data bs ! unat i) of
       Some j \<Rightarrow> Inr (Some (32 * i + of_nat j)) | None \<Rightarrow> find_from bs (i + 1))"
proof -
  have "unat i < length (data bs)" using assms by (simp add: bitset_wf_def word_less_nat_alt)
  moreover have "find_bit 0 (0 :: u32) = None"
    by (metis bit_0_eq bot_apply bot_bool_def find_bit_Some not_None_eq)
  ultimately show ?thesis
    using assms(2) by (subst find_from.simps) auto
qed

lemma find_from_end: "\<not> i < len bs \<Longrightarrow> find_from bs i = Inr None"
  by (subst find_from.simps) simp

text \<open>What the search of one slot says of the elements from that slot on.\<close>

lemma slot_above:
  assumes "i < length (data bs)" "\<forall>m < j. \<not> bit (data bs ! i) m" "j \<le> 32" "n \<in> bs_set bs" "32 * i \<le> n"
  shows "32 * i + j \<le> n"
proof (rule ccontr)
  assume "\<not> ?thesis"
  with assms(5) have n: "n = 32 * i + (n - 32 * i)" "n - 32 * i < j" by auto
  with assms(3) bs_set_slot [OF assms(1), of "n - 32 * i"] assms(2,4) show False by simp
qed

lemma find_from_spec:
  assumes "bitset_wf bs"
  shows "\<exists>r. find_from bs i = Inr r \<and>
    (case r of
       None \<Rightarrow> \<forall>n \<in> bs_set bs. n < 32 * unat i
     | Some k \<Rightarrow> unat k \<in> bs_set bs \<and> (\<forall>n \<in> bs_set bs. 32 * unat i \<le> n \<longrightarrow> unat k \<le> n))"
  using assms
proof (induction bs i rule: find_from.induct)
  case (1 bs i)
  have wf: "bitset_wf bs" by (rule "1.prems")
  show ?case
  proof (cases "i < len bs")
    case False
    then have "\<forall>n \<in> bs_set bs. n < 32 * unat i"
      using wf by (auto simp: bitset_wf_def bs_cap_def word_less_nat_alt dest!: bs_set_lt_cap)
    with False show ?thesis by (simp add: find_from_end)
  next
    case True
    then have i: "unat i < length (data bs)" and i27: "unat i < 2 ^ 27"
      using wf by (simp_all add: bitset_wf_def word_less_nat_alt)
    show ?thesis
    proof (cases "find_bit 0 (data bs ! unat i)")
      case None
      have low: "32 * unat i + 32 \<le> n" if "n \<in> bs_set bs" "32 * unat i \<le> n" for n
        using slot_above [OF i _ _ that, of 32] find_bit_None [OF None] by simp
      have z: "data bs ! unat i = 0" using None find_bit_nonzero [of "data bs ! unat i"] by auto
      have ld: "load_dword bs i = Inr (data bs ! unat i)" using i by simp
      from "1.IH"(2) [OF True ld] z wf obtain r where r: "find_from bs (i + 1) = Inr r"
        "case r of None \<Rightarrow> \<forall>n \<in> bs_set bs. n < 32 * unat (i + 1)
         | Some k \<Rightarrow> unat k \<in> bs_set bs \<and> (\<forall>n \<in> bs_set bs. 32 * unat (i + 1) \<le> n \<longrightarrow> unat k \<le> n)"
        by auto
      have "case r of None \<Rightarrow> \<forall>n \<in> bs_set bs. n < 32 * unat i
         | Some k \<Rightarrow> unat k \<in> bs_set bs \<and> (\<forall>n \<in> bs_set bs. 32 * unat i \<le> n \<longrightarrow> unat k \<le> n)"
        using r(2) low True by (cases r) (force simp: unat_u32_Suc)+
      with r(1) None show ?thesis by (simp add: find_from_step [OF wf True])
    next
      case (Some j)
      from find_bit_Some [OF Some] have j: "j < 32" "bit (data bs ! unat i) j"
        "\<forall>m < j. \<not> bit (data bs ! unat i) m" by auto
      have "unat (of_nat j :: u32) = j" using j by (simp add: unat_u32_of_nat)
      then have k: "unat (32 * i + of_nat j) = 32 * unat i + j"
        using i27 j(1) by (simp add: unat_word_ariths)
      have "32 * unat i + j \<le> n" if "n \<in> bs_set bs" "32 * unat i \<le> n" for n
        using slot_above [OF i j(3) _ that] j(1) by simp
      then show ?thesis
        using Some j k bs_set_slot [OF i j(1)] by (simp add: find_from_step [OF wf True])
    qed
  qed
qed

section \<open>Updates\<close>

lemma unat_BIT_SLOT: "unat (BIT_SLOT idx) = unat idx div 32"
  by (simp add: BIT_SLOT_def unat_div)

lemma bit_BIT_MASK: "m < 32 \<Longrightarrow> bit (BIT_MASK idx) m \<longleftrightarrow> m = unat idx mod 32"
  by (auto simp: BIT_MASK_def unat_mod bit_simps)

lemma bitset_update_dword:
  assumes "unat idx < bs_cap bs"
    and "\<And>m. m < 32 \<Longrightarrow> bit v m = (if m = unat idx mod 32 then b else bit (data bs ! (unat idx div 32)) m)"
  shows "bs_set (bs\<lparr>data := (data bs)[unat idx div 32 := v]\<rparr>) =
    (if b then insert (unat idx) (bs_set bs) else bs_set bs - {unat idx})"
proof -
  let ?bs' = "bs\<lparr>data := (data bs)[unat idx div 32 := v]\<rparr>"
  have "n \<in> bs_set ?bs' \<longleftrightarrow> (if n = unat idx then b else n \<in> bs_set bs)" for n
  proof (cases "n div 32 = unat idx div 32")
    case True
    then have "n = unat idx \<longleftrightarrow> n mod 32 = unat idx mod 32"
      by (metis mult_div_mod_eq)
    then show ?thesis
      using assms(1) assms(2) [of "n mod 32"] True by (auto simp: bs_set_def bs_cap_def)
  next
    case False
    then show ?thesis by (auto simp: bs_set_def bs_cap_def)
  qed
  note mem = this
  show ?thesis by (rule set_eqI, subst mem) simp
qed

lemma slot_in_range: "unat idx < bs_cap bs \<Longrightarrow> unat idx div 32 < length (data bs)"
  by (simp add: bs_cap_def)

lemma bitset_set_spec:
  assumes "bitset_wf bs" "unat idx < bs_cap bs"
  shows "\<exists>bs'. bitset_set bs idx = Inr bs' \<and> bitset_wf bs' \<and> bs_cap bs' = bs_cap bs \<and>
    len bs' = len bs \<and> data_ptr bs' = data_ptr bs \<and> bs_set bs' = insert (unat idx) (bs_set bs)"
proof -
  let ?v = "data bs ! (unat idx div 32) OR BIT_MASK idx"
  have "bitset_set bs idx = Inr (bs\<lparr>data := (data bs)[unat idx div 32 := ?v]\<rparr>)"
    using slot_in_range [OF assms(2)]
    by (simp add: bitset_set_def store_dword_def unat_BIT_SLOT)
  moreover have "bs_set (bs\<lparr>data := (data bs)[unat idx div 32 := ?v]\<rparr>) = insert (unat idx) (bs_set bs)"
    using bitset_update_dword [OF assms(2), of ?v True] by (simp add: bit_or_iff bit_BIT_MASK)
  ultimately show ?thesis using assms(1) by (simp add: bitset_wf_def bs_cap_def)
qed

lemma bitset_clear_spec:
  assumes "bitset_wf bs" "unat idx < bs_cap bs"
  shows "\<exists>bs'. bitset_clear bs idx = Inr bs' \<and> bitset_wf bs' \<and> bs_cap bs' = bs_cap bs \<and>
    len bs' = len bs \<and> data_ptr bs' = data_ptr bs \<and> bs_set bs' = bs_set bs - {unat idx}"
proof -
  let ?v = "data bs ! (unat idx div 32) AND NOT (BIT_MASK idx)"
  have "bitset_clear bs idx = Inr (bs\<lparr>data := (data bs)[unat idx div 32 := ?v]\<rparr>)"
    using slot_in_range [OF assms(2)]
    by (simp add: bitset_clear_def store_dword_def unat_BIT_SLOT)
  moreover have "bs_set (bs\<lparr>data := (data bs)[unat idx div 32 := ?v]\<rparr>) = bs_set bs - {unat idx}"
    using bitset_update_dword [OF assms(2), of ?v False]
    by (simp add: bit_and_iff bit_not_iff bit_BIT_MASK)
  ultimately show ?thesis using assms(1) by (simp add: bitset_wf_def bs_cap_def)
qed

lemma bitset_read_spec:
  assumes "bitset_wf bs" "unat idx < bs_cap bs"
  shows "bitset_read bs idx = Inr (unat idx \<in> bs_set bs)"
proof -
  let ?d = "data bs ! (unat idx div 32)"
  have "?d AND BIT_MASK idx \<noteq> 0 \<longleftrightarrow> bit ?d (unat idx mod 32)"
    by (subst bit_eq_iff) (auto simp: bit_and_iff bit_BIT_MASK)
  then show ?thesis
    using slot_in_range [OF assms(2)] assms(2)
    by (simp add: bitset_read_def unat_BIT_SLOT bs_set_def)
qed

lemma bitset_write_spec:
  assumes "bitset_wf bs" "unat idx < bs_cap bs"
  shows "\<exists>bs'. bitset_write bs idx b = Inr bs' \<and> bitset_wf bs' \<and> bs_cap bs' = bs_cap bs \<and>
    bs_set bs' = (if b then insert (unat idx) (bs_set bs) else bs_set bs - {unat idx})"
  using bitset_set_spec [OF assms] bitset_clear_spec [OF assms]
  by (cases b) (auto simp: bitset_write_def)

lemma bitset_oob:
  assumes "\<not> unat idx < bs_cap bs"
  shows "bitset_read bs idx = Inl (Undefined ''bitset: read outside data'')"
    and "bitset_set bs idx = Inl (Undefined ''bitset: read outside data'')"
    and "bitset_clear bs idx = Inl (Undefined ''bitset: read outside data'')"
proof -
  have "\<not> unat (BIT_SLOT idx) < length (data bs)"
    using assms by (simp add: bs_cap_def unat_BIT_SLOT)
  then have "load_dword bs (BIT_SLOT idx) = Inl (Undefined ''bitset: read outside data'')"
    by (simp add: load_dword_def)
  then show "bitset_read bs idx = Inl (Undefined ''bitset: read outside data'')"
    and "bitset_set bs idx = Inl (Undefined ''bitset: read outside data'')"
    and "bitset_clear bs idx = Inl (Undefined ''bitset: read outside data'')"
    by (simp_all add: bitset_read_def bitset_set_def bitset_clear_def)
qed

text \<open>Filling writes every dword and nothing else.\<close>

lemma fill_from_spec:
  "length (data bs) = unat (len bs) \<Longrightarrow> unat i \<le> unat (len bs) \<Longrightarrow>
   fill_from bs d i =
     Inr (bs\<lparr>data := take (unat i) (data bs) @ replicate (unat (len bs) - unat i) d\<rparr>)"
proof (induction bs d i rule: fill_from.induct)
  case (1 bs d i)
  show ?case
  proof (cases "i < len bs")
    case False
    then have "unat i = length (data bs)"
      using "1.prems" by (simp add: word_less_nat_alt)
    then show ?thesis using False "1.prems" by (subst fill_from.simps) simp
  next
    case True
    then have i: "unat i < length (data bs)" using "1.prems" by (simp add: word_less_nat_alt)
    let ?bs = "bs\<lparr>data := (data bs)[unat i := d]\<rparr>"
    have st: "store_dword bs i d = Inr ?bs" using i by (simp add: store_dword_def)
    have "fill_from bs d i = fill_from ?bs d (i + 1)"
      using True st by (subst fill_from.simps) simp
    also have "\<dots> = Inr (?bs\<lparr>data := take (Suc (unat i)) (data ?bs) @
        replicate (unat (len bs) - Suc (unat i)) d\<rparr>)"
      using "1.IH" [OF True st] "1.prems" i by (simp add: unat_u32_Suc [OF True])
    also have "take (Suc (unat i)) (data ?bs) = take (unat i) (data bs) @ [d]"
      using i by (simp add: take_Suc_conv_app_nth)
    finally show ?thesis
      using i "1.prems" by (simp add: Suc_diff_Suc flip: replicate_Suc)
  qed
qed

lemma bitset_fill_spec:
  "bitset_wf bs \<Longrightarrow> bitset_fill bs d = Inr (bs\<lparr>data := replicate (unat (len bs)) d\<rparr>)"
  by (simp add: bitset_fill_def bitset_wf_def fill_from_spec)

lemma bs_set_replicate:
  "bs_set (bs\<lparr>data := replicate n d\<rparr>) = {k. k < 32 * n \<and> bit d (k mod 32)}"
  by (auto simp: bs_set_def bs_cap_def)

section \<open>The interface of a set of indices\<close>

text \<open>
  What a client may rely on: a search that returns the least element, insertion and removal that
  succeed inside the capacity, and a read that is membership.
\<close>

locale index_set =
  fixes find :: "'s \<Rightarrow> size_t option res"
    and read :: "'s \<Rightarrow> u32 \<Rightarrow> bool res"
    and put :: "'s \<Rightarrow> u32 \<Rightarrow> 's res"
    and drop :: "'s \<Rightarrow> u32 \<Rightarrow> 's res"
    and elems :: "'s \<Rightarrow> nat set"
    and cap :: "'s \<Rightarrow> nat"
    and wf :: "'s \<Rightarrow> bool"
  assumes elems_lt_cap: "wf s \<Longrightarrow> n \<in> elems s \<Longrightarrow> n < cap s"
    and find_None: "wf s \<Longrightarrow> elems s = {} \<Longrightarrow> find s = Inr None"
    and find_Some: "wf s \<Longrightarrow> elems s \<noteq> {} \<Longrightarrow>
      \<exists>i. find s = Inr (Some i) \<and> unat i \<in> elems s \<and> (\<forall>n \<in> elems s. unat i \<le> n)"
    and read_elems: "wf s \<Longrightarrow> unat i < cap s \<Longrightarrow> read s i = Inr (unat i \<in> elems s)"
    and put_elems: "wf s \<Longrightarrow> unat i < cap s \<Longrightarrow>
      \<exists>t. put s i = Inr t \<and> wf t \<and> cap t = cap s \<and> elems t = insert (unat i) (elems s)"
    and drop_elems: "wf s \<Longrightarrow> unat i < cap s \<Longrightarrow>
      \<exists>t. drop s i = Inr t \<and> wf t \<and> cap t = cap s \<and> elems t = elems s - {unat i}"
begin

lemma find_cases:
  assumes "wf s"
  obtains "find s = Inr None" "elems s = {}"
    | i where "find s = Inr (Some i)" "unat i \<in> elems s" "\<forall>n \<in> elems s. unat i \<le> n"
      "unat i < cap s"
  using find_None [OF assms] find_Some [OF assms] elems_lt_cap [OF assms] by metis

lemma find_is_Min:
  assumes "wf s" "find s = Inr (Some i)"
  shows "unat i = Min (elems s)"
proof -
  have "finite (elems s)" using elems_lt_cap [OF assms(1)] by (meson bounded_nat_set_is_finite)
  then show ?thesis
    using assms(2) by (cases rule: find_cases [OF assms(1)]) (auto intro!: Min_eqI [symmetric])
qed

lemma claim_least:
  assumes "wf s" "find s = Inr (Some i)"
  shows "\<exists>t. drop s i = Inr t \<and> wf t \<and> cap t = cap s \<and> elems s = insert (unat i) (elems t) \<and>
    unat i \<notin> elems t"
proof -
  have i: "unat i \<in> elems s" "unat i < cap s"
    using assms(2) by (cases rule: find_cases [OF assms(1)]; simp)+
  from drop_elems [OF assms(1) i(2)] i(1) show ?thesis by auto
qed

lemma put_then_drop:
  assumes "wf s" "unat i < cap s" "unat i \<notin> elems s"
  shows "\<exists>t u. put s i = Inr t \<and> drop t i = Inr u \<and> wf u \<and> elems u = elems s"
proof -
  from put_elems [OF assms(1,2)] obtain t where
    t: "put s i = Inr t" "wf t" "cap t = cap s" "elems t = insert (unat i) (elems s)" by blast
  with drop_elems [OF t(2), of i] assms(2,3) show ?thesis by force
qed

end

interpretation bs: index_set bitset_find bitset_read bitset_set bitset_clear bs_set bs_cap bitset_wf
proof
  fix s n assume "bitset_wf s" "n \<in> bs_set s"
  then show "n < bs_cap s" by (simp add: bs_set_lt_cap)
next
  fix s assume wf: "bitset_wf s"
  from find_from_spec [OF wf, of 0]
  show "bs_set s = {} \<Longrightarrow> bitset_find s = Inr None"
    and "bs_set s \<noteq> {} \<Longrightarrow>
      \<exists>i. bitset_find s = Inr (Some i) \<and> unat i \<in> bs_set s \<and> (\<forall>n \<in> bs_set s. unat i \<le> n)"
    by (auto simp: bitset_find_def split: option.splits)
next
  fix s :: bitset32_t and i :: u32
  assume a: "bitset_wf s" "unat i < bs_cap s"
  show "bitset_read s i = Inr (unat i \<in> bs_set s)" by (rule bitset_read_spec [OF a])
  show "\<exists>t. bitset_set s i = Inr t \<and> bitset_wf t \<and> bs_cap t = bs_cap s \<and>
      bs_set t = insert (unat i) (bs_set s)"
    using bitset_set_spec [OF a] by blast
  show "\<exists>t. bitset_clear s i = Inr t \<and> bitset_wf t \<and> bs_cap t = bs_cap s \<and>
      bs_set t = bs_set s - {unat i}"
    using bitset_clear_spec [OF a] by blast
qed

section \<open>Properties\<close>

text \<open>
  \<open>bitset_find\<close> (the nested loops over dwords and bits) returns the least element of the
  set when there is one, and reports failure exactly on the empty set.
\<close>

lemma bitset_find_least:
  assumes "bitset_wf bs"
  shows "bitset_find bs =
    Inr (if bs_set bs = {} then None else Some (of_nat (Min (bs_set bs))))"
proof (cases rule: bs.find_cases [OF assms])
  case (2 i)
  from bs.find_is_Min [OF assms 2(1)] have "of_nat (Min (bs_set bs)) = i"
    by (simp flip: bs.find_is_Min [OF assms 2(1)])
  with 2 show ?thesis by auto
qed simp

text \<open>
  Inside its capacity a bit set refines a set of numbers: \<open>bitset_write\<close> (and through it
  \<open>bitset_set\<close> and \<open>bitset_clear\<close>) changes exactly the named element, and
  \<open>bitset_read\<close> afterwards sees the written value at that index and the old one elsewhere.
\<close>

lemma bitset_write_read:
  assumes "bitset_wf bs" "unat i < bs_cap bs" "unat j < bs_cap bs"
  shows "\<exists>bs'. bitset_write bs i b = Inr bs' \<and> bitset_wf bs' \<and>
    bs_set bs' = (if b then insert (unat i) (bs_set bs) else bs_set bs - {unat i}) \<and>
    bitset_read bs' j = (if j = i then Inr b else bitset_read bs j)"
proof -
  obtain bs' where bs': "bitset_write bs i b = Inr bs'" "bitset_wf bs'" "bs_cap bs' = bs_cap bs"
    "bs_set bs' = (if b then insert (unat i) (bs_set bs) else bs_set bs - {unat i})"
    using bitset_write_spec [OF assms(1,2)] by blast
  have "bitset_read bs' j = (if j = i then Inr b else bitset_read bs j)"
    using assms bs' by (auto simp: bs.read_elems word_unat_eq_iff)
  with bs' show ?thesis by blast
qed

end
