(* ===== verification/Pmm.thy ===== *)
theory Pmm
  imports Bitset
begin

text \<open>
  The physical memory manager of \<^verbatim>\<open>kernel/memory/pmm.c\<close>: seven bit sets, one per block
  size \<open>2 ^ level\<close>, in which a one-bit is a free block. The state record holds the file's
  static variables. \<open>free_frames\<close> is the set of frames covered by a one-bit of some level, and
  the invariant \<open>pmm_inv\<close> says that no frame is covered twice. The locale
  \<open>frame_allocator\<close> is what the virtual memory manager relies on.
\<close>

section \<open>Model\<close>

record pmm_state =
  managed_first :: paddr_t
  managed_last :: paddr_t
  buddies :: "bitset32_t list"
  buddy_base :: paddr_t

definition PMM_NUM_BUDDIES :: nat where
  "PMM_NUM_BUDDIES = 7"

definition pmm_estimate_bytes_required :: "size_t \<Rightarrow> size_t" where
  "pmm_estimate_bytes_required avail =
     (let n_frames = avail div PAGE_SIZE; bytes_required = n_frames div 4 in bytes_required)"

definition pmm_phys2virtual :: "paddr_t \<Rightarrow> vaddr_t" where
  "pmm_phys2virtual addr = addr + KERNEL_OFFSET"

definition pmm_get_border :: "pmm_state \<Rightarrow> vaddr_t" where
  "pmm_get_border s = pmm_phys2virtual (managed_first s)"

text \<open>
  \<open>bitset_at mem ptr n\<close> is the bit set of \<open>n\<close> dwords that starts at address \<open>ptr\<close>
  of the memory \<open>mem\<close>; \<open>p + 4 * n\<close> is C's pointer arithmetic on \<^verbatim>\<open>uint32_t*\<close>.
\<close>

definition bitset_at :: "(u32 \<Rightarrow> u32) \<Rightarrow> u32 \<Rightarrow> size_t \<Rightarrow> bitset32_t" where
  "bitset_at mem ptr n =
     \<lparr>data_ptr = ptr, data = map (\<lambda>k. mem (ptr + 4 * of_nat k)) [0..<unat n], len = n\<rparr>"

definition init_buddy :: "(u32 \<Rightarrow> u32) \<Rightarrow> size_t \<Rightarrow> nat \<Rightarrow> bitset32_t list \<Rightarrow> bitset32_t list" where
  "init_buddy mem n_frames i bs =
     (let prev = bs ! (i - 1) in
      bs[i := bitset_at mem (data_ptr prev + 4 * len prev) (drop_bit (5 + i) n_frames)])"

definition get_buddy :: "pmm_state \<Rightarrow> nat \<Rightarrow> bitset32_t res" where
  "get_buddy s level =
     (if level < length (buddies s) then Inr (buddies s ! level)
      else Inl (Undefined ''buddies: index out of range''))"

definition upd_buddy :: "pmm_state \<Rightarrow> nat \<Rightarrow> (bitset32_t \<Rightarrow> bitset32_t res) \<Rightarrow> pmm_state res" where
  "upd_buddy s level f =
     bindE (get_buddy s level) (\<lambda>b. bindE (f b) (\<lambda>b'. Inr (s\<lparr>buddies := (buddies s)[level := b']\<rparr>)))"

definition pmm_init :: "(u32 \<Rightarrow> u32) \<Rightarrow> paddr_t \<Rightarrow> pmm_state \<Rightarrow> paddr_t \<Rightarrow> pmm_state res" where
  "pmm_init mem KERNEL_END_PHYS s upper_bound =
     (let avail_first = KERNEL_END_PHYS;
          last = upper_bound;
          avail = last - avail_first;
          required = pmm_estimate_bytes_required avail;
          first = PAGE_ALIGN (avail_first + required);
          managed = last - first
      in bindE (ASSERT (first \<le> KERNEL_BOOT_MAPPED) ''managed_first <= KERNEL_BOOT_MAPPED'') (\<lambda>_.
         let n_frames = ALIGN_BITS_DOWN (managed div PAGE_SIZE) (PMM_NUM_BUDDIES - 1 + 5);
             b0 = (buddies s)[0 := bitset_at mem (pmm_phys2virtual avail_first) (n_frames div 32)];
             bs = fold (init_buddy mem n_frames) [1..<PMM_NUM_BUDDIES] b0;
             s1 = s\<lparr>managed_first := first, managed_last := last, buddies := bs\<rparr>
         in bindE (for_each [0..<PMM_NUM_BUDDIES - 1] (\<lambda>i s. upd_buddy s i (\<lambda>b. bitset_fill b 0)) s1)
             (\<lambda>s2. bindE (upd_buddy s2 (PMM_NUM_BUDDIES - 1) (\<lambda>b. bitset_fill b 0xFFFFFFFF))
             (\<lambda>s3. Inr (s3\<lparr>buddy_base := first\<rparr>)))))"

text \<open>A shift by a negative amount is undefined, so a negative \<open>level\<close> is a fault.\<close>

function mark_used :: "pmm_state \<Rightarrow> int \<Rightarrow> size_t \<Rightarrow> size_t \<Rightarrow> pmm_state res" where
  "mark_used s level n_frames idx =
     (if level < 0 \<or> 31 < level then Inl (Undefined ''mark_used: shift amount'')
      else
        let capacity = push_bit (nat level) 1 in
        if n_frames = capacity then upd_buddy s (nat level) (\<lambda>b. bitset_clear b idx)
        else if n_frames = 0 then upd_buddy s (nat level) (\<lambda>b. bitset_set b idx)
        else
          let capacity = capacity div 2 in
          bindE (mark_used s (level - 1) (min n_frames capacity) (idx * 2))
            (\<lambda>s. mark_used s (level - 1) (if n_frames > capacity then n_frames - capacity else 0)
                   (idx * 2 + 1)))"
  by pat_completeness auto
termination
  by (relation "measure (\<lambda>(s, level, n_frames, idx). nat (level + 1))") auto

function log2_loop :: "size_t \<Rightarrow> nat \<Rightarrow> nat" where
  "log2_loop n ans =
     (let n' = drop_bit 1 n in if n' \<noteq> 0 then log2_loop n' (ans + 1) else ans)"
  by pat_completeness auto
termination
  by (relation "measure (\<lambda>(n, ans). unat n)") (auto simp: halving_measure [simplified])

definition log2 :: "size_t \<Rightarrow> nat" where
  "log2 n = log2_loop n 0"

function alloc_from :: "pmm_state \<Rightarrow> size_t \<Rightarrow> nat \<Rightarrow> (err_t \<times> paddr_t \<times> pmm_state) res" where
  "alloc_from s n_frames i =
     (if i < PMM_NUM_BUDDIES then
        bindE (get_buddy s i) (\<lambda>b.
        bindE (bitset_find b) (\<lambda>r. case r of
          Some idx \<Rightarrow>
            bindE (upd_buddy s i (\<lambda>b. bitset_clear b idx)) (\<lambda>s1.
            bindE (mark_used s1 (int i) n_frames idx) (\<lambda>s2.
              Inr (E_OK, buddy_base s2 + push_bit i PAGE_SIZE * idx, s2)))
        | None \<Rightarrow> alloc_from s n_frames (Suc i)))
      else Inr (E_NOMEM, 0, s))"
  by pat_completeness auto
termination
  by (relation "measure (\<lambda>(s, n_frames, i). PMM_NUM_BUDDIES - i)") auto

definition pmm_alloc_buddy :: "pmm_state \<Rightarrow> size_t \<Rightarrow> (err_t \<times> paddr_t \<times> pmm_state) res" where
  "pmm_alloc_buddy s n_frames = (let min_level = log2 n_frames in alloc_from s n_frames min_level)"

definition pmm_alloc :: "pmm_state \<Rightarrow> size_t \<Rightarrow> (err_t \<times> paddr_t \<times> pmm_state) res" where
  "pmm_alloc s n_frames = pmm_alloc_buddy s n_frames"

definition pmm_free :: "pmm_state \<Rightarrow> size_t \<Rightarrow> paddr_t \<Rightarrow> pmm_state res" where
  "pmm_free s n_frames addr =
     (if addr < buddy_base s then Inl (Panic ''Cannot free stolen pages'')
      else
        let frame_no = (addr - buddy_base s) div PAGE_SIZE;
            level = log2 n_frames;
            idx = drop_bit level frame_no
        in upd_buddy s level (\<lambda>b. bitset_set b idx))"

declare mark_used.simps [simp del] log2_loop.simps [simp del] alloc_from.simps [simp del]

text \<open>
  Abstraction: \<open>frames s\<close> is the number of managed frames; frame \<open>f\<close> is free when the
  block that holds it is marked free at some level.
\<close>

definition frames :: "pmm_state \<Rightarrow> nat" where
  "frames s = bs_cap (buddies s ! 0)"

definition marked :: "pmm_state \<Rightarrow> nat \<Rightarrow> nat \<Rightarrow> bool" where
  "marked s level f \<longleftrightarrow> f div 2 ^ level \<in> bs_set (buddies s ! level)"

definition free_frames :: "pmm_state \<Rightarrow> nat set" where
  "free_frames s = {f. \<exists>i < PMM_NUM_BUDDIES. marked s i f}"

definition block :: "nat \<Rightarrow> nat \<Rightarrow> nat set" where
  "block level idx = {f. f div 2 ^ level = idx}"

definition pmm_inv :: "pmm_state \<Rightarrow> bool" where
  "pmm_inv s \<longleftrightarrow>
     length (buddies s) = PMM_NUM_BUDDIES \<and>
     (\<forall>i < PMM_NUM_BUDDIES. bitset_wf (buddies s ! i) \<and> bs_cap (buddies s ! i) = frames s div 2 ^ i) \<and>
     2 ^ 6 dvd frames s \<and>
     unat (buddy_base s) + 4096 * frames s \<le> 2 ^ 32 \<and> 4096 dvd unat (buddy_base s) \<and>
     (\<forall>f i j. i < PMM_NUM_BUDDIES \<longrightarrow> j < PMM_NUM_BUDDIES \<longrightarrow> marked s i f \<longrightarrow> marked s j f \<longrightarrow> i = j)"

text \<open>What no allocation changes.\<close>

definition same_region :: "pmm_state \<Rightarrow> pmm_state \<Rightarrow> bool" where
  "same_region s t \<longleftrightarrow>
     frames t = frames s \<and> buddy_base t = buddy_base s \<and> managed_first t = managed_first s \<and>
     managed_last t = managed_last s"

text \<open>
  \<open>granted s n k a t\<close>: the request for \<open>n\<close> frames was served at address \<open>a\<close> by
  frames that were free, aligned to \<open>2 ^ k\<close>, and exactly those frames left the free set.
\<close>

definition granted :: "pmm_state \<Rightarrow> nat \<Rightarrow> nat \<Rightarrow> paddr_t \<Rightarrow> pmm_state \<Rightarrow> bool" where
  "granted s n k a t \<longleftrightarrow>
     (\<exists>f. a = buddy_base s + 4096 * of_nat f \<and> 2 ^ k dvd f \<and> f + n \<le> frames s \<and>
        {f ..< f + n} \<subseteq> free_frames s \<and> free_frames t = free_frames s - {f ..< f + n} \<and>
        pmm_inv t \<and> same_region s t)"

text \<open>
  What \<open>pmm_init\<close> computes: the bit sets lie one after the other from address \<open>p\<close> on;
  \<open>init_first\<close> is the first managed byte and \<open>init_frames\<close> the number of managed frames.
\<close>

primrec buddy_layout :: "(u32 \<Rightarrow> u32) \<Rightarrow> vaddr_t \<Rightarrow> size_t \<Rightarrow> nat \<Rightarrow> bitset32_t" where
  "buddy_layout mem p n 0 = bitset_at mem p (n div 32)"
| "buddy_layout mem p n (Suc i) =
     (let prev = buddy_layout mem p n i in
      bitset_at mem (data_ptr prev + 4 * len prev) (drop_bit (5 + Suc i) n))"

definition init_first :: "paddr_t \<Rightarrow> paddr_t \<Rightarrow> nat" where
  "init_first e u = (unat e + (unat u - unat e) div 16384 + 4095) div 4096 * 4096"

definition init_frames :: "paddr_t \<Rightarrow> paddr_t \<Rightarrow> nat" where
  "init_frames e u = (unat u - init_first e u) div 8388608 * 2048"

definition initial_buddies :: "(u32 \<Rightarrow> u32) \<Rightarrow> vaddr_t \<Rightarrow> size_t \<Rightarrow> bitset32_t list" where
  "initial_buddies mem p n =
     map (\<lambda>i. (buddy_layout mem p n i)
            \<lparr>data := replicate (unat (drop_bit (5 + i) n)) (if i = 6 then 0xFFFFFFFF else 0)\<rparr>) [0..<7]"

text \<open>
  Clients of the allocator: the states reachable from a successful initialisation by allocating
  blocks of \<open>2 ^ k\<close> frames and releasing blocks that are held. The second argument is the set
  of blocks the clients hold, by level and address.
\<close>

inductive pmm_reach :: "pmm_state \<Rightarrow> (nat \<times> paddr_t) set \<Rightarrow> bool" where
  boot: "length (buddies s0) = PMM_NUM_BUDDIES \<Longrightarrow> e \<le> u \<Longrightarrow> init_first e u \<le> unat u \<Longrightarrow>
    pmm_init mem e s0 u = Inr s \<Longrightarrow> pmm_reach s {}"
| alloc: "pmm_reach s own \<Longrightarrow> k < PMM_NUM_BUDDIES \<Longrightarrow> unat n = 2 ^ k \<Longrightarrow>
    pmm_alloc s n = Inr (E_OK, a, t) \<Longrightarrow> pmm_reach t (insert (k, a) own)"
| nomem: "pmm_reach s own \<Longrightarrow> k < PMM_NUM_BUDDIES \<Longrightarrow> unat n = 2 ^ k \<Longrightarrow>
    pmm_alloc s n = Inr (E_NOMEM, a, t) \<Longrightarrow> pmm_reach t own"
| free: "pmm_reach s own \<Longrightarrow> (k, a) \<in> own \<Longrightarrow> unat n = 2 ^ k \<Longrightarrow>
    pmm_free s n a = Inr t \<Longrightarrow> pmm_reach t (own - {(k, a)})"

definition owned :: "pmm_state \<Rightarrow> nat \<times> paddr_t \<Rightarrow> nat set" where
  "owned s x = (case x of (k, a) \<Rightarrow> block k (unat ((a - buddy_base s) div PAGE_SIZE) div 2 ^ k))"

definition ledger :: "pmm_state \<Rightarrow> (nat \<times> paddr_t) set \<Rightarrow> bool" where
  "ledger s own \<longleftrightarrow> pmm_inv s \<and>
     (\<forall>(k, a) \<in> own. k < PMM_NUM_BUDDIES \<and> (\<exists>f < frames s. a = buddy_base s + 4096 * of_nat f)) \<and>
     (\<forall>x \<in> own. owned s x \<inter> free_frames s = {}) \<and>
     (\<forall>x \<in> own. \<forall>y \<in> own. x \<noteq> y \<longrightarrow> owned s x \<inter> owned s y = {}) \<and>
     free_frames s \<union> (\<Union>x \<in> own. owned s x) = {..< frames s}"

text \<open>A machine with 16 MiB whose kernel image ends at 7 MiB: 2048 managed frames.\<close>

definition pmm_example :: pmm_state where
  "pmm_example =
     \<lparr>managed_first = 0x701000, managed_last = 0x1000000,
      buddies = initial_buddies (\<lambda>_. 0) 0xC0700000 2048, buddy_base = 0x701000\<rparr>"

definition pmm_bss :: pmm_state where
  "pmm_bss =
     \<lparr>managed_first = 0, managed_last = 0,
      buddies = replicate PMM_NUM_BUDDIES \<lparr>data_ptr = 0, data = [], len = 0\<rparr>, buddy_base = 0\<rparr>"

section \<open>Reading and writing one level\<close>

lemma NUM_BUDDIES [simp]: "PMM_NUM_BUDDIES = 7"
  by (simp add: PMM_NUM_BUDDIES_def)

lemma pmm_inv_buddy:
  assumes "pmm_inv s" "i < 7"
  shows "i < length (buddies s)" "bitset_wf (buddies s ! i)"
    "bs_cap (buddies s ! i) = frames s div 2 ^ i" "get_buddy s i = Inr (buddies s ! i)"
  using assms by (auto simp: pmm_inv_def get_buddy_def)

lemma pmm_inv_unique:
  "pmm_inv s \<Longrightarrow> i < 7 \<Longrightarrow> j < 7 \<Longrightarrow> marked s i f \<Longrightarrow> marked s j f \<Longrightarrow> i = j"
  by (auto simp: pmm_inv_def)

lemma marked_free: "i < 7 \<Longrightarrow> marked s i f \<Longrightarrow> f \<in> free_frames s"
  by (auto simp: free_frames_def)

lemma same_region_refl [simp]: "same_region s s"
  by (simp add: same_region_def)

lemma same_region_trans: "same_region s t \<Longrightarrow> same_region t u \<Longrightarrow> same_region s u"
  by (simp add: same_region_def)

lemma block_mem: "f \<in> block l x \<longleftrightarrow> f div 2 ^ l = x"
  by (simp add: block_def)

lemma block_unique: "f \<in> block l x \<Longrightarrow> f \<in> block l y \<Longrightarrow> x = y"
  by (simp add: block_mem)

lemma block_interval: "block l x = {x * 2 ^ l ..< (x + 1) * 2 ^ l}"
proof -
  have "f div 2 ^ l = x \<longleftrightarrow> x * 2 ^ l \<le> f \<and> f < (x + 1) * 2 ^ l" for f
  proof -
    have "f div 2 ^ l = x \<longleftrightarrow> x \<le> f div 2 ^ l \<and> f div 2 ^ l < x + 1" by linarith
    then show ?thesis
      by (simp only: less_eq_div_iff_mult_less_eq [of "2 ^ l" x f]
          div_less_iff_less_mult [of "2 ^ l" f "x + 1"] zero_less_power zero_less_numeral)
  qed
  then show ?thesis by (simp only: block_def atLeastLessThan_def lessThan_def atLeast_def Collect_conj_eq)
qed

text \<open>Replacing the bit set of one level changes what that level marks and nothing else.\<close>

lemma marked_update:
  "i < length (buddies s) \<Longrightarrow> l < length (buddies s) \<Longrightarrow>
   marked (s\<lparr>buddies := (buddies s)[l := b]\<rparr>) i f \<longleftrightarrow>
     (if i = l then f div 2 ^ l \<in> bs_set b else marked s i f)"
  by (auto simp: marked_def)

lemma frames_update:
  "pmm_inv s \<Longrightarrow> l < 7 \<Longrightarrow> bs_cap b = bs_cap (buddies s ! l) \<Longrightarrow>
   frames (s\<lparr>buddies := (buddies s)[l := b]\<rparr>) = frames s"
  using pmm_inv_buddy(1) [of s 0] by (cases "l = 0") (simp_all add: frames_def)

lemma upd_level:
  assumes inv: "pmm_inv s" and l: "l < 7"
    and b: "op (buddies s ! l) = Inr b" "bitset_wf b" "bs_cap b = bs_cap (buddies s ! l)"
    and uniq: "\<And>f j. f div 2 ^ l \<in> bs_set b \<Longrightarrow> j < 7 \<Longrightarrow> j \<noteq> l \<Longrightarrow> \<not> marked s j f"
  shows "\<exists>t. upd_buddy s l op = Inr t \<and> pmm_inv t \<and> same_region s t \<and>
    free_frames t = {f. f div 2 ^ l \<in> bs_set b \<or> (\<exists>j < 7. j \<noteq> l \<and> marked s j f)}"
proof -
  let ?t = "s\<lparr>buddies := (buddies s)[l := b]\<rparr>"
  have len: "length (buddies s) = 7" using inv by (simp add: pmm_inv_def)
  have fr: "frames ?t = frames s" by (rule frames_update [OF inv l b(3)])
  have mk: "i < 7 \<Longrightarrow> marked ?t i f \<longleftrightarrow> (if i = l then f div 2 ^ l \<in> bs_set b else marked s i f)" for i f
    using len l by (simp add: marked_update)
  have "upd_buddy s l op = Inr ?t"
    using pmm_inv_buddy [OF inv l] b(1) by (simp add: upd_buddy_def)
  moreover have "pmm_inv ?t"
    unfolding pmm_inv_def fr NUM_BUDDIES
  proof (intro conjI allI impI)
    fix i :: nat assume "i < 7"
    then show "bitset_wf (buddies ?t ! i)" "bs_cap (buddies ?t ! i) = frames s div 2 ^ i"
      using pmm_inv_buddy [OF inv, of i] b(2,3) by (cases "i = l"; simp)+
  next
    fix f i j assume "i < (7 :: nat)" "j < (7 :: nat)" "marked ?t i f" "marked ?t j f"
    then show "i = j"
      using uniq [of f] pmm_inv_unique [OF inv, of i j f] by (cases "i = l"; cases "j = l"; simp add: mk)
  qed (use inv len in \<open>simp_all add: pmm_inv_def\<close>)
  moreover have "free_frames ?t = {f. f div 2 ^ l \<in> bs_set b \<or> (\<exists>j < 7. j \<noteq> l \<and> marked s j f)}"
    using l by (auto simp: free_frames_def mk split: if_splits)
  ultimately show ?thesis using fr by (auto simp: same_region_def)
qed

lemma upd_set_block:
  assumes inv: "pmm_inv s" and l: "l < 7" and idx: "unat idx < frames s div 2 ^ l"
    and fresh: "block l (unat idx) \<inter> free_frames s = {}"
  shows "\<exists>t. upd_buddy s l (\<lambda>b. bitset_set b idx) = Inr t \<and> pmm_inv t \<and> same_region s t \<and>
    free_frames t = free_frames s \<union> block l (unat idx)"
proof -
  note bd = pmm_inv_buddy [OF inv l]
  obtain b where b: "bitset_set (buddies s ! l) idx = Inr b" "bitset_wf b"
    "bs_cap b = bs_cap (buddies s ! l)" "bs_set b = insert (unat idx) (bs_set (buddies s ! l))"
    using bs.put_elems [OF bd(2), of idx] idx bd(3) by auto
  have "\<exists>t. upd_buddy s l (\<lambda>b. bitset_set b idx) = Inr t \<and> pmm_inv t \<and> same_region s t \<and>
    free_frames t = {f. f div 2 ^ l \<in> bs_set b \<or> (\<exists>j < 7. j \<noteq> l \<and> marked s j f)}"
  proof (rule upd_level [where op = "\<lambda>b. bitset_set b idx", OF inv l b(1-3)])
    fix f j assume "f div 2 ^ l \<in> bs_set b" "j < 7" "j \<noteq> l"
    then show "\<not> marked s j f"
      using pmm_inv_unique [OF inv l] fresh
      by (auto simp: b(4) marked_def [of s l] block_mem dest: marked_free)
  qed
  moreover have "{f. f div 2 ^ l \<in> bs_set b \<or> (\<exists>j < 7. j \<noteq> l \<and> marked s j f)} =
      free_frames s \<union> block l (unat idx)"
    using l by (auto simp: b(4) free_frames_def marked_def block_def)
  ultimately show ?thesis by simp
qed

lemma upd_clear_block:
  assumes inv: "pmm_inv s" and l: "l < 7" and idx: "unat idx < frames s div 2 ^ l"
    and whole: "unat idx \<in> bs_set (buddies s ! l) \<or> block l (unat idx) \<inter> free_frames s = {}"
  shows "\<exists>t. upd_buddy s l (\<lambda>b. bitset_clear b idx) = Inr t \<and> pmm_inv t \<and> same_region s t \<and>
    free_frames t = free_frames s - block l (unat idx)"
proof -
  note bd = pmm_inv_buddy [OF inv l]
  obtain b where b: "bitset_clear (buddies s ! l) idx = Inr b" "bitset_wf b"
    "bs_cap b = bs_cap (buddies s ! l)" "bs_set b = bs_set (buddies s ! l) - {unat idx}"
    using bs.drop_elems [OF bd(2), of idx] idx bd(3) by auto
  have "\<exists>t. upd_buddy s l (\<lambda>b. bitset_clear b idx) = Inr t \<and> pmm_inv t \<and> same_region s t \<and>
    free_frames t = {f. f div 2 ^ l \<in> bs_set b \<or> (\<exists>j < 7. j \<noteq> l \<and> marked s j f)}"
  proof (rule upd_level [where op = "\<lambda>b. bitset_clear b idx", OF inv l b(1-3)])
    fix f j assume "f div 2 ^ l \<in> bs_set b" "j < 7" "j \<noteq> l"
    then show "\<not> marked s j f"
      using pmm_inv_unique [OF inv l] by (auto simp: b(4) marked_def [of s l])
  qed
  moreover have "f div 2 ^ l \<noteq> unat idx" if "j < 7" "j \<noteq> l" "marked s j f" for j f
    using whole that pmm_inv_unique [OF inv l, of j f] marked_free [OF that(1,3)]
    by (auto simp: marked_def [of s l] block_mem)
  then have "{f. f div 2 ^ l \<in> bs_set b \<or> (\<exists>j < 7. j \<noteq> l \<and> marked s j f)} =
      free_frames s - block l (unat idx)"
    using l by (auto simp: b(4) free_frames_def marked_def block_def)
  ultimately show ?thesis by simp
qed

section \<open>Splitting a block\<close>

lemma halves_cases:
  fixes q x :: nat
  shows "q div 2 = x \<longleftrightarrow> q = 2 * x \<or> q = 2 * x + 1"
    and "q div 2 = x \<Longrightarrow> q mod 2 = (if q = 2 * x + 1 then 1 else 0)"
  by presburger+

lemma halves_of_block:
  "f \<in> block (Suc m) x \<longleftrightarrow> f \<in> block m (2 * x) \<or> f \<in> block m (2 * x + 1)"
  by (simp only: block_mem power_Suc2 div_mult2_eq halves_cases(1))

lemma block_offset:
  "f \<in> block m (2 * x) \<Longrightarrow> f mod 2 ^ Suc m = f mod 2 ^ m"
  "f \<in> block m (2 * x + 1) \<Longrightarrow> f mod 2 ^ Suc m = 2 ^ m + f mod 2 ^ m"
proof -
  have "f mod 2 ^ Suc m = 2 ^ m * (f div 2 ^ m mod 2) + f mod 2 ^ m"
    by (simp only: power_Suc2 mod_mult2_eq)
  then show "f \<in> block m (2 * x) \<Longrightarrow> f mod 2 ^ Suc m = f mod 2 ^ m"
    and "f \<in> block m (2 * x + 1) \<Longrightarrow> f mod 2 ^ Suc m = 2 ^ m + f mod 2 ^ m"
    by (simp_all add: block_mem del: power_Suc)
qed

text \<open>The frames of a block from offset \<open>n\<close> on, in terms of its two halves.\<close>

lemma block_tail:
  fixes n m x :: nat
  shows "{f \<in> block (Suc m) x. n \<le> f mod 2 ^ Suc m} =
   {f \<in> block m (2 * x). min n (2 ^ m) \<le> f mod 2 ^ m} \<union>
   {f \<in> block m (2 * x + 1). n - 2 ^ m \<le> f mod 2 ^ m}" (is "?L = ?R")
proof (rule set_eqI)
  fix f :: nat
  have "f mod 2 ^ m < 2 ^ m" by simp
  then show "f \<in> ?L \<longleftrightarrow> f \<in> ?R"
    using block_offset [of f m x] block_unique [of f m "2 * x" "2 * x + 1"]
    by (auto simp only: halves_of_block mem_Collect_eq Un_iff min_le_iff_disj)
qed

lemma half_index_bound:
  fixes x N m :: nat
  assumes "x < N div 2 ^ Suc m" "2 ^ Suc m dvd N"
  shows "2 * x + 1 < N div 2 ^ m"
proof -
  from assms(2) obtain q where N: "N = 2 ^ Suc m * q" by blast
  then have "N div 2 ^ m = 2 * q" by (simp add: mult.assoc)
  with N assms(1) show ?thesis by simp
qed

lemma mark_used_full:
  "l < 32 \<Longrightarrow> unat n = 2 ^ l \<Longrightarrow>
     mark_used s (int l) n idx = upd_buddy s l (\<lambda>b. bitset_clear b idx)"
proof -
  assume a: "l < 32" "unat n = 2 ^ l"
  then have "n = push_bit l 1" by (simp add: word_unat_eq_iff unat_u32_power)
  with a show ?thesis by (subst mark_used.simps) (simp add: Let_def)
qed

lemma mark_used_none:
  "l < 32 \<Longrightarrow> mark_used s (int l) 0 idx = upd_buddy s l (\<lambda>b. bitset_set b idx)"
proof -
  assume a: "l < 32"
  have "(0 :: u32) \<noteq> 2 ^ l" using unat_u32_power [OF a] by (metis power_not_zero unat_0 zero_neq_numeral)
  with a show ?thesis by (subst mark_used.simps) (simp add: Let_def)
qed

lemma mark_used_split:
  assumes "Suc m < 32" "unat n \<noteq> 2 ^ Suc m" "n \<noteq> 0"
  shows "mark_used s (int (Suc m)) n idx =
    bindE (mark_used s (int m) (min n (2 ^ m)) (idx * 2))
      (\<lambda>s. mark_used s (int m) (if n > 2 ^ m then n - 2 ^ m else 0) (idx * 2 + 1))"
proof -
  have "n \<noteq> 2 ^ Suc m" using assms(1,2) unat_u32_power [of "Suc m"] by metis
  moreover have "(2 ^ Suc m :: u32) div 2 = 2 ^ m"
    using assms(1) unat_u32_power [of "Suc m"] unat_u32_power [of m]
    by (simp only: word_unat_eq_iff unat_div) simp
  moreover have pred: "int (Suc m) - 1 = int m" by simp
  ultimately show ?thesis
    using assms(1,3) by (subst mark_used.simps) (simp add: Let_def pred del: power_Suc of_nat_Suc)
qed

lemma pmm_inv_frames:
  assumes "pmm_inv s"
  shows "frames s \<le> 2 ^ 20" and "l < 7 \<Longrightarrow> 2 ^ l dvd frames s"
proof -
  show "frames s \<le> 2 ^ 20" using assms by (simp add: pmm_inv_def)
  show "2 ^ l dvd frames s" if "l < 7"
    using assms that dvd_trans [OF le_imp_power_dvd [of l 6 "2 :: nat"]] by (simp add: pmm_inv_def)
qed

lemma half_indices:
  fixes idx :: u32
  assumes "pmm_inv s" "Suc m < 7" "unat idx < frames s div 2 ^ Suc m"
  shows "unat (idx * 2) = 2 * unat idx" "unat (idx * 2 + 1) = 2 * unat idx + 1"
    "2 * unat idx + 1 < frames s div 2 ^ m"
proof -
  show b: "2 * unat idx + 1 < frames s div 2 ^ m"
    by (rule half_index_bound [OF assms(3) pmm_inv_frames(2) [OF assms(1,2)]])
  then have "2 * unat idx + 1 < 2 ^ 20"
    using pmm_inv_frames(1) [OF assms(1)] div_le_dividend [of "frames s" "2 ^ m"] by linarith
  then show "unat (idx * 2) = 2 * unat idx" "unat (idx * 2 + 1) = 2 * unat idx + 1"
    by (simp_all add: unat_word_ariths)
qed

text \<open>
  The main lemma: on a block that is not free, \<open>mark_used\<close> keeps the first \<open>n\<close> frames in
  use and frees the rest of the block.
\<close>

lemma mark_used_spec:
  assumes "pmm_inv s" "l < 7" "unat idx < frames s div 2 ^ l" "unat n \<le> 2 ^ l"
    and "block l (unat idx) \<inter> free_frames s = {}"
  shows "\<exists>t. mark_used s (int l) n idx = Inr t \<and> pmm_inv t \<and> same_region s t \<and>
    free_frames t = free_frames s \<union> {f \<in> block l (unat idx). unat n \<le> f mod 2 ^ l}"
  using assms
proof (induction l arbitrary: s n idx)
  case 0
  then have "unat n = 2 ^ 0 \<or> n = 0"
    by (metis le_Suc_eq le_zero_eq One_nat_def power_0 unat_eq_zero)
  then show ?case
    using 0 upd_set_block [OF 0(1), of 0 idx] upd_clear_block [OF 0(1), of 0 idx]
    by (auto simp: mark_used_full [of 0, simplified] mark_used_none [of 0, simplified])
next
  case (Suc m)
  consider "unat n = 2 ^ Suc m" | "n = 0" | "unat n < 2 ^ Suc m" "n \<noteq> 0"
    using Suc.prems(4) by linarith
  then show ?case
  proof cases
    case 1
    then have "{f \<in> block (Suc m) (unat idx). unat n \<le> f mod 2 ^ Suc m} = {}"
      by (auto simp: not_le)
    then show ?thesis
      using upd_clear_block [OF Suc.prems(1-3)] Suc.prems(2,5) 1
      by (auto simp: mark_used_full Int_commute Diff_triv simp del: of_nat_Suc power_Suc)
  next
    case 2
    then show ?thesis
      using upd_set_block [OF Suc.prems(1-3,5)] Suc.prems(2)
      by (simp add: mark_used_none del: of_nat_Suc power_Suc)
  next
    case 3
    let ?n1 = "min n (2 ^ m)" and ?n2 = "if n > 2 ^ m then n - 2 ^ m else 0"
    note ix = half_indices [OF Suc.prems(1-3)]
    have m: "m < 7" "unat (2 ^ m :: u32) = 2 ^ m" using Suc.prems(2) by (simp_all add: unat_u32_power)
    have n1: "unat ?n1 = min (unat n) (2 ^ m)" using m(2) by (simp add: min_def word_le_nat_alt)
    have n2: "unat ?n2 = unat n - 2 ^ m" using m(2) by (simp add: word_less_nat_alt unat_sub_if')
    obtain t where t: "mark_used s (int m) ?n1 (idx * 2) = Inr t" "pmm_inv t" "same_region s t"
      "free_frames t = free_frames s \<union> {f \<in> block m (2 * unat idx). unat ?n1 \<le> f mod 2 ^ m}"
      using Suc.IH [OF Suc.prems(1) m(1), of "idx * 2" ?n1] ix n1 Suc.prems(5)
      by (auto simp: halves_of_block disjoint_iff)
    have half: "unat n - 2 ^ m \<le> 2 ^ m" and same: "frames t = frames s"
      using 3(1) t(3) by (simp_all add: same_region_def)
    have "block m (2 * unat idx + 1) \<inter> free_frames t = {}"
      using Suc.prems(5) by (auto simp: t(4) halves_of_block disjoint_iff dest: block_unique)
    then obtain u where u: "mark_used t (int m) ?n2 (idx * 2 + 1) = Inr u" "pmm_inv u" "same_region t u"
      "free_frames u = free_frames t \<union> {f \<in> block m (2 * unat idx + 1). unat ?n2 \<le> f mod 2 ^ m}"
      using Suc.IH [OF t(2) m(1), of "idx * 2 + 1" ?n2] ix n2 half same by auto
    have "free_frames u = free_frames s \<union> {f \<in> block (Suc m) (unat idx). unat n \<le> f mod 2 ^ Suc m}"
      by (simp only: u(4) t(4) n1 n2 block_tail Un_assoc)
    then show ?thesis
      using t(1,3) u(1-3) 3 Suc.prems(2)
      by (auto simp: mark_used_split simp del: of_nat_Suc power_Suc intro: same_region_trans)
  qed
qed

text \<open>On a request that exceeds the block, \<open>mark_used\<close> runs past the smallest level.\<close>

lemma mark_used_overflow:
  assumes "pmm_inv s" "l < 7" "unat idx < frames s div 2 ^ l" "2 ^ l < unat n"
    and "block l (unat idx) \<inter> free_frames s = {}"
  shows "mark_used s (int l) n idx = Inl (Undefined ''mark_used: shift amount'')"
  using assms
proof (induction l arbitrary: s n idx)
  case 0
  then have "n \<noteq> 1" "n \<noteq> 0" by auto
  moreover have "(1 :: u32) div 2 = 0" by simp
  ultimately show ?case
    by (simp add: mark_used.simps [of s 0] mark_used.simps [of s "-1"] Let_def)
next
  case (Suc m)
  let ?n1 = "min n (2 ^ m)" and ?n2 = "if n > 2 ^ m then n - 2 ^ m else 0"
  note ix = half_indices [OF Suc.prems(1-3)]
  have m: "m < 7" "unat (2 ^ m :: u32) = 2 ^ m" using Suc.prems(2) by (simp_all add: unat_u32_power)
  have n1: "unat ?n1 = 2 ^ m" using m(2) Suc.prems(4) by (simp add: min_def word_le_nat_alt)
  have n2: "unat ?n2 = unat n - 2 ^ m" using m(2) by (simp add: word_less_nat_alt unat_sub_if')
  obtain t where t: "mark_used s (int m) ?n1 (idx * 2) = Inr t" "pmm_inv t" "same_region s t"
    "free_frames t = free_frames s \<union> {f \<in> block m (2 * unat idx). unat ?n1 \<le> f mod 2 ^ m}"
    using mark_used_spec [OF Suc.prems(1) m(1), of "idx * 2" ?n1] ix n1 Suc.prems(5)
    by (auto simp: halves_of_block disjoint_iff)
  have "block m (2 * unat idx + 1) \<inter> free_frames t = {}"
    using Suc.prems(5) by (auto simp: t(4) halves_of_block disjoint_iff dest: block_unique)
  then have "mark_used t (int m) ?n2 (idx * 2 + 1) = Inl (Undefined ''mark_used: shift amount'')"
    using Suc.IH [OF t(2) m(1), of "idx * 2 + 1" ?n2] ix n2 t(3) Suc.prems(4)
    by (simp add: same_region_def less_diff_conv)
  moreover have "unat n \<noteq> 2 ^ Suc m" "n \<noteq> 0" using Suc.prems(4) by auto
  ultimately show ?case
    using Suc.prems(2) t(1) by (simp add: mark_used_split del: of_nat_Suc power_Suc)
qed

section \<open>Logarithm\<close>

lemma log2_loop_spec:
  "n \<noteq> 0 \<Longrightarrow> \<exists>k. log2_loop n a = a + k \<and> 2 ^ k \<le> unat n \<and> unat n < 2 ^ Suc k"
proof (induction n a rule: log2_loop.induct)
  case (1 n a)
  let ?h = "drop_bit 1 n"
  have h: "unat ?h = unat n div 2" by (simp only: unat_drop_bit_u32 power_one_right)
  show ?case
  proof (cases "?h = 0")
    case True
    then have "unat n div 2 = 0" using h by (metis unat_0)
    moreover have "unat n \<noteq> 0" using "1.prems" by (simp add: unat_eq_zero)
    ultimately have "unat n = 1" by linarith
    then show ?thesis
      using True by (subst log2_loop.simps, intro exI [of _ 0]) (simp add: Let_def)
  next
    case False
    then obtain k where k: "log2_loop ?h (a + 1) = a + 1 + k" "2 ^ k \<le> unat ?h" "unat ?h < 2 ^ Suc k"
      using "1.IH" [OF refl] by auto
    have "log2_loop n a = a + Suc k"
      using False k(1) by (subst log2_loop.simps) (simp add: Let_def)
    moreover have "2 ^ Suc k \<le> unat n" "unat n < 2 ^ Suc (Suc k)"
      using k(2,3) h by (auto simp: power_Suc)
    ultimately show ?thesis by blast
  qed
qed

lemma log2_spec: "n \<noteq> 0 \<Longrightarrow> 2 ^ log2 n \<le> unat n \<and> unat n < 2 ^ Suc (log2 n)"
  using log2_loop_spec [of n 0] by (auto simp: log2_def)

lemma log2_unique: "2 ^ k \<le> unat n \<Longrightarrow> unat n < 2 ^ Suc k \<Longrightarrow> log2 n = k"
proof -
  assume a: "2 ^ k \<le> unat n" "unat n < 2 ^ Suc k"
  then have "n \<noteq> 0" by auto
  from log2_spec [OF this] have "2 ^ log2 n \<le> unat n" "unat n < 2 ^ Suc (log2 n)" by auto
  with a have "(2 :: nat) ^ k < 2 ^ Suc (log2 n)" "(2 :: nat) ^ log2 n < 2 ^ Suc k" by linarith+
  then show ?thesis by (simp only: power_strict_increasing_iff one_less_numeral_iff semiring_norm)
qed

lemma log2_0 [simp]: "log2 0 = 0"
  by (simp add: log2_def log2_loop.simps [of 0])

section \<open>Allocation\<close>

lemma block_head:
  "n \<le> 2 ^ l \<Longrightarrow> {f \<in> block l x. \<not> n \<le> f mod 2 ^ l} = {x * 2 ^ l ..< x * 2 ^ l + n}"
proof (intro set_eqI iffI)
  fix f :: nat
  assume "f \<in> {f \<in> block l x. \<not> n \<le> f mod 2 ^ l}"
  then show "f \<in> {x * 2 ^ l ..< x * 2 ^ l + n}"
    using div_mult_mod_eq [of f "2 ^ l"] by (auto simp: block_mem)
next
  fix f :: nat
  assume "n \<le> 2 ^ l" and f: "f \<in> {x * 2 ^ l ..< x * 2 ^ l + n}"
  then have b: "f \<in> block l x" by (auto simp: block_interval)
  then show "f \<in> {f \<in> block l x. \<not> n \<le> f mod 2 ^ l}"
    using f div_mult_mod_eq [of f "2 ^ l"] by (auto simp: block_mem)
qed

lemma marked_block_free:
  "l < 7 \<Longrightarrow> x \<in> bs_set (buddies s ! l) \<Longrightarrow> block l x \<subseteq> free_frames s"
  by (auto simp: block_mem marked_def intro!: marked_free)

lemma block_in_region:
  assumes "pmm_inv s" "l < 7" "x < frames s div 2 ^ l"
  shows "(x + 1) * 2 ^ l \<le> frames s"
proof -
  have "(x + 1) * 2 ^ l \<le> frames s div 2 ^ l * 2 ^ l" using assms(3) by (intro mult_le_mono) auto
  then show ?thesis using pmm_inv_frames(2) [OF assms(1,2)] by simp
qed

text \<open>One level of the search: take the least marked block and give back its tail.\<close>

lemma alloc_level:
  assumes inv: "pmm_inv s" and l: "l < 7" and n: "unat n \<le> 2 ^ l"
    and fd: "bitset_find (buddies s ! l) = Inr (Some idx)"
  shows "\<exists>t1 t. upd_buddy s l (\<lambda>b. bitset_clear b idx) = Inr t1 \<and>
    mark_used t1 (int l) n idx = Inr t \<and> pmm_inv t \<and> same_region s t \<and>
    {unat idx * 2 ^ l ..< unat idx * 2 ^ l + unat n} \<subseteq> free_frames s \<and>
    free_frames t = free_frames s - {unat idx * 2 ^ l ..< unat idx * 2 ^ l + unat n} \<and>
    unat idx * 2 ^ l + unat n \<le> frames s"
proof -
  note bd = pmm_inv_buddy [OF inv l]
  have idx: "unat idx \<in> bs_set (buddies s ! l)" "unat idx < frames s div 2 ^ l"
    using fd bd(3) by (cases rule: bs.find_cases [OF bd(2)]; simp)+
  obtain t1 where t1: "upd_buddy s l (\<lambda>b. bitset_clear b idx) = Inr t1" "pmm_inv t1" "same_region s t1"
    "free_frames t1 = free_frames s - block l (unat idx)"
    using upd_clear_block [OF inv l idx(2)] idx(1) by blast
  have fr: "frames t1 = frames s" using t1(3) by (simp add: same_region_def)
  obtain t where t: "mark_used t1 (int l) n idx = Inr t" "pmm_inv t" "same_region t1 t"
    "free_frames t = free_frames t1 \<union> {f \<in> block l (unat idx). unat n \<le> f mod 2 ^ l}"
    using mark_used_spec [OF t1(2) l _ n, of idx] idx(2) fr t1(4) by auto
  have whole: "block l (unat idx) \<subseteq> free_frames s" by (rule marked_block_free [OF l idx(1)])
  then have "free_frames t = free_frames s - {f \<in> block l (unat idx). \<not> unat n \<le> f mod 2 ^ l}"
    by (auto simp: t(4) t1(4))
  moreover have "unat idx * 2 ^ l + unat n \<le> frames s"
    using block_in_region [OF inv l idx(2)] n by simp
  moreover have "{f \<in> block l (unat idx). \<not> unat n \<le> f mod 2 ^ l} \<subseteq> free_frames s"
    using whole by auto
  ultimately show ?thesis
    using t1(1,3) t(1-3) same_region_trans [of s t1 t] by (auto simp only: block_head [OF n])
qed

lemma alloc_from_found:
  assumes "pmm_inv s" "i < 7" "bitset_find (buddies s ! i) = Inr (Some idx)"
    and "upd_buddy s i (\<lambda>b. bitset_clear b idx) = Inr t1" "mark_used t1 (int i) n idx = Inr t"
  shows "alloc_from s n i = Inr (E_OK, buddy_base t + push_bit i PAGE_SIZE * idx, t)"
  using assms pmm_inv_buddy(4) [OF assms(1,2)] by (subst alloc_from.simps) simp

lemma alloc_from_next:
  assumes "pmm_inv s" "i < 7" "bitset_find (buddies s ! i) = Inr None"
  shows "alloc_from s n i = alloc_from s n (Suc i)"
  using assms pmm_inv_buddy(4) [OF assms(1,2)] by (subst alloc_from.simps) simp

lemma alloc_from_end: "\<not> i < 7 \<Longrightarrow> alloc_from s n i = Inr (E_NOMEM, 0, s)"
  by (subst alloc_from.simps) simp

lemma block_address:
  "push_bit i PAGE_SIZE * idx = (4096 * of_nat (unat idx * 2 ^ i) :: u32)"
  by (simp add: push_bit_eq_mult ac_simps)

lemma granted_mono: "granted s n k a t \<Longrightarrow> j \<le> k \<Longrightarrow> granted s n j a t"
  unfolding granted_def using dvd_trans [OF le_imp_power_dvd [of j k "2 :: nat"]] by blast

lemma alloc_from_spec:
  assumes "pmm_inv s" "unat n \<le> 2 ^ i"
  shows "(\<exists>a t. alloc_from s n i = Inr (E_OK, a, t) \<and> granted s (unat n) i a t) \<or>
    alloc_from s n i = Inr (E_NOMEM, 0, s) \<and> (\<forall>j. i \<le> j \<and> j < 7 \<longrightarrow> bs_set (buddies s ! j) = {})"
  using assms
proof (induction s n i rule: alloc_from.induct)
  case (1 s n i)
  show ?case
  proof (cases "i < 7")
    case False
    then show ?thesis by (auto simp: alloc_from_end)
  next
    case True
    note bd = pmm_inv_buddy [OF "1.prems"(1) True]
    show ?thesis
    proof (cases rule: bs.find_cases [OF bd(2)])
      case 1
      have "unat n \<le> 2 ^ Suc i" using "1.prems"(2) by simp
      then have "(\<exists>a t. alloc_from s n (Suc i) = Inr (E_OK, a, t) \<and> granted s (unat n) (Suc i) a t) \<or>
        alloc_from s n (Suc i) = Inr (E_NOMEM, 0, s) \<and>
        (\<forall>j. Suc i \<le> j \<and> j < 7 \<longrightarrow> bs_set (buddies s ! j) = {})"
        using "1.IH" True bd(4) 1(1) "1.prems"(1) by simp
      moreover have "\<forall>j. Suc i \<le> j \<and> j < 7 \<longrightarrow> bs_set (buddies s ! j) = {} \<Longrightarrow>
        \<forall>j. i \<le> j \<and> j < 7 \<longrightarrow> bs_set (buddies s ! j) = {}"
        using 1(2) by (metis Suc_leI le_neq_implies_less)
      ultimately show ?thesis
        using alloc_from_next [OF "1.prems"(1) True 1(1)] granted_mono [of s "unat n" "Suc i" _ _ i]
        by auto
    next
      case (2 idx)
      from alloc_level [OF "1.prems"(1) True "1.prems"(2) 2(1)] obtain t1 t where
        t: "upd_buddy s i (\<lambda>b. bitset_clear b idx) = Inr t1" "mark_used t1 (int i) n idx = Inr t"
        "pmm_inv t" "same_region s t"
        "{unat idx * 2 ^ i ..< unat idx * 2 ^ i + unat n} \<subseteq> free_frames s"
        "free_frames t = free_frames s - {unat idx * 2 ^ i ..< unat idx * 2 ^ i + unat n}"
        "unat idx * 2 ^ i + unat n \<le> frames s" by blast
      then have "granted s (unat n) i (buddy_base s + push_bit i PAGE_SIZE * idx) t"
        unfolding granted_def block_address by (intro exI [of _ "unat idx * 2 ^ i"]) simp
      moreover have "alloc_from s n i = Inr (E_OK, buddy_base s + push_bit i PAGE_SIZE * idx, t)"
        using alloc_from_found [OF "1.prems"(1) True 2(1) t(1,2)] t(4) by (simp add: same_region_def)
      ultimately show ?thesis by blast
    qed
  qed
qed

lemma log2_power: "unat n = 2 ^ k \<Longrightarrow> log2 n = k"
  by (rule log2_unique) auto

lemma no_marks_no_free:
  "pmm_inv s \<Longrightarrow> (\<forall>j < 7. bs_set (buddies s ! j) = {}) \<longleftrightarrow> free_frames s = {}"
proof -
  assume "pmm_inv s"
  have "x * 2 ^ j \<in> free_frames s" if "j < 7" "x \<in> bs_set (buddies s ! j)" for j x
    using that by (auto simp: free_frames_def marked_def)
  then show ?thesis by (auto simp: free_frames_def marked_def)
qed

section \<open>Release\<close>

lemma frame_address:
  assumes "pmm_inv s" "f < frames s"
  shows "unat (buddy_base s + 4096 * of_nat f) = unat (buddy_base s) + 4096 * f"
    "\<not> buddy_base s + 4096 * of_nat f < buddy_base s"
    "(buddy_base s + 4096 * of_nat f - buddy_base s) div PAGE_SIZE = of_nat f"
proof -
  have fb: "f < 2 ^ 20" using assms pmm_inv_frames(1) [OF assms(1)] by linarith
  have top: "unat (buddy_base s) + 4096 * f < 2 ^ 32"
    using assms by (simp add: pmm_inv_def)
  have off: "unat (4096 * of_nat f :: u32) = 4096 * f"
    using fb by (simp add: unat_word_ariths unat_u32_of_nat)
  show a: "unat (buddy_base s + 4096 * of_nat f) = unat (buddy_base s) + 4096 * f"
    using top off by (simp add: unat_u32_add)
  show "\<not> buddy_base s + 4096 * of_nat f < buddy_base s"
    using a by (simp add: word_less_nat_alt)
  have "unat ((4096 * of_nat f :: u32) div 4096) = f" using off by (simp add: unat_div)
  then show "(buddy_base s + 4096 * of_nat f - buddy_base s) div PAGE_SIZE = of_nat f"
    using fb by (simp add: word_unat_eq_iff unat_u32_of_nat)
qed

text \<open>Releasing an aligned block that is in use marks exactly its frames free.\<close>

lemma pmm_free_spec:
  assumes inv: "pmm_inv s" and k: "k < 7" and n: "unat n = 2 ^ k" and f: "f < frames s"
    and used: "block k (f div 2 ^ k) \<inter> free_frames s = {}"
  shows "\<exists>t. pmm_free s n (buddy_base s + 4096 * of_nat f) = Inr t \<and> pmm_inv t \<and>
    same_region s t \<and> free_frames t = free_frames s \<union> block k (f div 2 ^ k)"
proof -
  have "unat (drop_bit k (of_nat f :: u32)) = f div 2 ^ k"
    using f pmm_inv_frames(1) [OF inv] by (simp add: unat_drop_bit_u32 unat_u32_of_nat)
  moreover have "f div 2 ^ k < frames s div 2 ^ k"
    using f pmm_inv_frames(2) [OF inv k] by (intro less_mult_imp_div_less) simp
  ultimately show ?thesis
    using upd_set_block [OF inv k, of "drop_bit k (of_nat f)"] used frame_address [OF inv f]
    by (simp add: pmm_free_def Let_def log2_power [OF n])
qed

section \<open>Initialisation\<close>

lemma len_buddy_layout: "len (buddy_layout mem p n i) = drop_bit (5 + i) n"
  by (cases i) (simp_all add: bitset_at_def Let_def drop_bit_eq_div)

lemma wf_buddy_layout: "bitset_wf (buddy_layout mem p n i)"
proof -
  have "unat (drop_bit (5 + i) n) \<le> unat n div 2 ^ 5"
    by (simp add: unat_drop_bit_u32 power_add div_mult2_eq)
  also have "\<dots> \<le> 2 ^ 27" using unat_lt_2p32 [of n] by (simp del: unat_lt_2p32)
  finally have "unat (drop_bit (5 + i) n) \<le> 2 ^ 27" .
  moreover have "length (data (buddy_layout mem p n i)) = unat (len (buddy_layout mem p n i))"
    by (cases i) (simp_all add: bitset_at_def Let_def)
  ultimately show ?thesis by (simp add: bitset_wf_def len_buddy_layout)
qed

lemma init_buddies_layout:
  fixes mem :: "u32 \<Rightarrow> u32" and p n :: u32
  assumes "length bs = 7" "m \<le> 7" "0 < m"
  defines "b0 \<equiv> bs[0 := bitset_at mem p (n div 32)]"
  shows "length (fold (init_buddy mem n) [1..<m] b0) = 7"
    "i < m \<Longrightarrow> fold (init_buddy mem n) [1..<m] b0 ! i = buddy_layout mem p n i"
proof -
  have "length (fold (init_buddy mem n) [1..<m] b0) = 7 \<and>
    (\<forall>i < m. fold (init_buddy mem n) [1..<m] b0 ! i = buddy_layout mem p n i)"
    using assms(2,3)
  proof (induction m)
    case (Suc m)
    show ?case
    proof (cases "m = 0")
      case True
      then show ?thesis using assms(1) by (simp add: b0_def)
    next
      case False
      then obtain q where q: "m = Suc q" by (cases m) auto
      from Suc.IH Suc.prems False show ?thesis
        by (auto simp: q init_buddy_def Let_def less_Suc_eq nth_list_update)
    qed
  qed simp
  then show "length (fold (init_buddy mem n) [1..<m] b0) = 7"
    "i < m \<Longrightarrow> fold (init_buddy mem n) [1..<m] b0 ! i = buddy_layout mem p n i" by auto
qed

lemma fill_buddies:
  assumes "length (buddies s) = 7" "\<And>i. i < 7 \<Longrightarrow> bitset_wf (buddies s ! i)" "m \<le> 7"
  shows "for_each [0..<m] (\<lambda>i s. upd_buddy s i (\<lambda>b. bitset_fill b d)) s =
    Inr (s\<lparr>buddies := map (\<lambda>b. b\<lparr>data := replicate (unat (len b)) d\<rparr>) (take m (buddies s)) @
      List.drop m (buddies s)\<rparr>)"
  using assms(3)
proof (induction m)
  case (Suc m)
  let ?g = "\<lambda>b. b\<lparr>data := replicate (unat (len b)) d\<rparr>"
  let ?bs = "map ?g (take m (buddies s)) @ List.drop m (buddies s)"
  have m: "m < length (buddies s)" using Suc.prems assms(1) by simp
  then have nth: "?bs ! m = buddies s ! m" by (simp add: nth_append)
  have "for_each [0..<Suc m] (\<lambda>i s. upd_buddy s i (\<lambda>b. bitset_fill b d)) s =
      upd_buddy (s\<lparr>buddies := ?bs\<rparr>) m (\<lambda>b. bitset_fill b d)"
    using Suc by (simp add: for_each_snoc)
  also have "\<dots> = Inr (s\<lparr>buddies := ?bs[m := ?g (buddies s ! m)]\<rparr>)"
    using m assms nth Suc.prems by (simp add: upd_buddy_def get_buddy_def bitset_fill_spec)
  also have "?bs[m := ?g (buddies s ! m)] = map ?g (take (Suc m) (buddies s)) @ List.drop (Suc m) (buddies s)"
    using m by (simp add: list_update_append take_Suc_conv_app_nth flip: Cons_nth_drop_Suc)
  finally show ?case .
qed simp

lemma unat_init_first:
  assumes "e \<le> u" "init_first e u \<le> unat u"
  shows "unat (PAGE_ALIGN (e + pmm_estimate_bytes_required (u - e))) = init_first e u"
proof -
  let ?r = "pmm_estimate_bytes_required (u - e)"
  have r: "unat ?r = (unat u - unat e) div 16384"
    using assms(1) by (simp add: pmm_estimate_bytes_required_def unat_div unat_u32_diff flip: div_mult2_eq)
  have "init_first e u \<le> 4294963200"
    using assms(2) unat_lt_2p32 [of u] by (simp add: init_first_def del: unat_lt_2p32)
  then have b: "unat e + unat ?r + 4095 < 4294967296"
    unfolding r by (simp add: init_first_def)
  have "unat (e + ?r + MASK 12) = unat e + unat ?r + 4095"
    using b by (simp add: unat_word_ariths MASK_def)
  then show ?thesis
    by (simp add: PAGE_ALIGN_def ALIGN_BITS_UP_eq PAGE_BITS_def unat_ALIGN_BITS_DOWN init_first_def r)
qed

lemma unat_init_frames:
  assumes "init_first e u \<le> unat u" "unat first = init_first e u"
  shows "unat (ALIGN_BITS_DOWN ((u - first) div PAGE_SIZE) 11) = init_frames e u"
proof -
  have "first \<le> u" using assms by (simp add: word_le_nat_alt)
  then show ?thesis
    by (simp add: unat_ALIGN_BITS_DOWN unat_div unat_u32_diff assms(2) init_frames_def flip: div_mult2_eq)
qed

lemma data_ptr_layout:
  "data_ptr (buddy_layout mem p n i) = p + 4 * of_nat (\<Sum>j < i. unat n div 2 ^ (5 + j))"
proof (induction i)
  case (Suc i)
  then show ?case
    by (simp add: bitset_at_def [of mem _ "drop_bit _ _"] Let_def len_buddy_layout algebra_simps
        unat_drop_bit_u32 flip: unat_drop_bit_u32)
qed (simp add: bitset_at_def)

lemma layout_fits:
  assumes "e \<le> u" "init_first e u \<le> unat u"
  shows "4 * (\<Sum>j < 7. init_frames e u div 2 ^ (5 + j)) \<le> init_first e u - unat e"
proof -
  define K where "K = (unat u - init_first e u) div 8388608"
  have "init_frames e u = K * 2048" by (simp add: init_frames_def K_def)
  moreover have "{..< 7 :: nat} = {0, 1, 2, 3, 4, 5, 6}" by auto
  ultimately have "(\<Sum>j < 7. init_frames e u div 2 ^ (5 + j)) = 127 * K" by simp
  moreover have "8388608 * K \<le> unat u - unat e"
  proof -
    have "8388608 * K \<le> unat u - init_first e u" by (simp add: K_def)
    also have "unat e \<le> init_first e u" by (simp add: init_first_def)
    then have "unat u - init_first e u \<le> unat u - unat e" by simp
    finally show ?thesis .
  qed
  then have "512 * K \<le> (unat u - unat e) div 16384" by simp
  then have "unat e + 512 * K \<le> init_first e u" by (simp add: init_first_def)
  ultimately show ?thesis by simp
qed

lemma pmm_init_eq:
  fixes s :: pmm_state and e u :: paddr_t
  defines "first \<equiv> PAGE_ALIGN (e + pmm_estimate_bytes_required (u - e))"
  defines "n \<equiv> ALIGN_BITS_DOWN ((u - first) div PAGE_SIZE) 11"
  assumes "length (buddies s) = 7" "first \<le> KERNEL_BOOT_MAPPED"
  shows "pmm_init mem e s u =
    Inr \<lparr>managed_first = first, managed_last = u,
      buddies = initial_buddies mem (pmm_phys2virtual e) n, buddy_base = first\<rparr>"
proof -
  let ?p = "pmm_phys2virtual e"
  define bs where "bs = fold (init_buddy mem n) [1..<7] ((buddies s)[0 := bitset_at mem ?p (n div 32)])"
  define s1 where "s1 = s\<lparr>managed_first := first, managed_last := u, buddies := bs\<rparr>"
  let ?g = "\<lambda>d b. b\<lparr>data := replicate (unat (len b)) d\<rparr>"
  have bs: "length bs = 7" "\<And>i. i < 7 \<Longrightarrow> bs ! i = buddy_layout mem ?p n i"
    using init_buddies_layout [OF assms(3), of 7] by (simp_all add: bs_def)
  define bs2 where "bs2 = map (?g 0) (take 6 bs) @ List.drop 6 bs"
  have fill: "for_each [0..<6] (\<lambda>i s. upd_buddy s i (\<lambda>b. bitset_fill b 0)) s1 = Inr (s1\<lparr>buddies := bs2\<rparr>)"
    using fill_buddies [of s1 6] bs by (simp add: s1_def bs2_def wf_buddy_layout)
  have last: "bs2 ! 6 = bs ! 6" "length bs2 = 7" using bs(1) by (simp_all add: bs2_def nth_append)
  have "bs2[6 := ?g 0xFFFFFFFF (bs ! 6)] = initial_buddies mem ?p n"
  proof (rule nth_equalityI)
    fix i assume "i < length (bs2[6 := ?g 0xFFFFFFFF (bs ! 6)])"
    then have "i < 7" using last(2) by simp
    then show "bs2[6 := ?g 0xFFFFFFFF (bs ! 6)] ! i = initial_buddies mem ?p n ! i"
      using bs last by (cases "i = 6")
        (simp_all add: bs2_def initial_buddies_def nth_append len_buddy_layout)
  qed (simp add: last initial_buddies_def)
  moreover have "upd_buddy (s1\<lparr>buddies := bs2\<rparr>) 6 (\<lambda>b. bitset_fill b 0xFFFFFFFF) =
      Inr (s1\<lparr>buddies := bs2[6 := ?g 0xFFFFFFFF (bs ! 6)]\<rparr>)"
    using last bs by (simp add: upd_buddy_def get_buddy_def bitset_fill_spec wf_buddy_layout)
  ultimately show ?thesis
    using fill assms(4) by (simp add: pmm_init_def Let_def first_def n_def s1_def bs_def)
qed

lemma initial_buddies_nth:
  assumes "i < 7"
  shows "bitset_wf (initial_buddies mem p n ! i)"
    "bs_cap (initial_buddies mem p n ! i) = 32 * (unat n div 2 ^ (5 + i))"
    "bs_set (initial_buddies mem p n ! i) = (if i = 6 then {..< 32 * (unat n div 2 ^ 11)} else {})"
    "data_ptr (initial_buddies mem p n ! i) = p + 4 * of_nat (\<Sum>j < i. unat n div 2 ^ (5 + j))"
    "unat (len (initial_buddies mem p n ! i)) = unat n div 2 ^ (5 + i)"
proof -
  have "bit (0xFFFFFFFF :: u32) k" if "k < 32" for k
  proof -
    have "(0xFFFFFFFF :: u32) = mask 32" by (simp add: mask_eq_exp_minus_1)
    then show ?thesis using that by (simp only: bit_mask_iff) simp
  qed
  then show "bs_set (initial_buddies mem p n ! i) = (if i = 6 then {..< 32 * (unat n div 2 ^ 11)} else {})"
    using assms by (auto simp: initial_buddies_def bs_set_replicate unat_drop_bit_u32)
  show "bitset_wf (initial_buddies mem p n ! i)"
    using assms wf_buddy_layout [of mem p n i]
    by (simp add: initial_buddies_def bitset_wf_def len_buddy_layout)
qed (use assms in \<open>simp_all add: initial_buddies_def bs_cap_def data_ptr_layout len_buddy_layout unat_drop_bit_u32\<close>)

lemma pmm_init_inv:
  assumes "length (buddies s) = 7" "e \<le> u" "init_first e u \<le> unat u" "init_first e u \<le> 0xC0800000"
  shows "\<exists>t. pmm_init mem e s u = Inr t \<and> pmm_inv t \<and>
    unat (managed_first t) = init_first e u \<and> managed_last t = u \<and> buddy_base t = managed_first t \<and>
    frames t = init_frames e u \<and> free_frames t = {..< init_frames e u} \<and>
    (\<forall>i < 7. data_ptr (buddies t ! i) =
       pmm_phys2virtual e + 4 * of_nat (\<Sum>j < i. unat (len (buddies t ! j)))) \<and>
    4 * (\<Sum>j < 7. unat (len (buddies t ! j))) \<le> init_first e u - unat e"
proof -
  define first where "first = PAGE_ALIGN (e + pmm_estimate_bytes_required (u - e))"
  define n where "n = ALIGN_BITS_DOWN ((u - first) div PAGE_SIZE) 11"
  define t where "t = \<lparr>managed_first = first, managed_last = u,
      buddies = initial_buddies mem (pmm_phys2virtual e) n, buddy_base = first\<rparr>"
  have first: "unat first = init_first e u" using unat_init_first [OF assms(2,3)] by (simp add: first_def)
  have n: "unat n = init_frames e u" using unat_init_frames [OF assms(3) first] by (simp add: n_def)
  have "first \<le> KERNEL_BOOT_MAPPED"
    using assms(4) by (simp add: word_le_nat_alt first KERNEL_BOOT_MAPPED_def)
  then have eq: "pmm_init mem e s u = Inr t"
    using pmm_init_eq [OF assms(1)] by (simp add: t_def n_def first_def)
  note ib = initial_buddies_nth [of _ mem "pmm_phys2virtual e" n]
  define K where "K = (unat u - init_first e u) div 8388608"
  have K: "unat n = 2048 * K" by (simp add: n init_frames_def K_def)
  have fr: "frames t = unat n" using ib(2) [of 0] by (simp add: frames_def t_def K)
  have mk: "i < 7 \<Longrightarrow> marked t i f \<longleftrightarrow> i = 6 \<and> f < unat n" for i f
    using ib(3) [of i] by (auto simp: marked_def t_def K div_less_iff_less_mult)
  have "i < 7 \<Longrightarrow> 32 * (unat n div 2 ^ (5 + i)) = frames t div 2 ^ i" for i
  proof -
    assume "i < 7"
    then have "i \<in> {0, 1, 2, 3, 4, 5, 6}" by auto
    then show ?thesis by (auto simp: fr K)
  qed
  moreover have "4096 * unat n \<le> unat u - init_first e u" by (simp add: K K_def)
  then have "unat first + 4096 * frames t \<le> 4294967296"
    using assms(3) less_imp_le [OF unat_lt_2p32 [of u]] first fr by linarith
  moreover have "2 ^ 6 dvd frames t" by (simp add: fr K)
  moreover have "4096 dvd unat first" by (simp add: first init_first_def)
  ultimately have "pmm_inv t"
    unfolding pmm_inv_def using ib(1,2) by (auto simp: mk) (auto simp: t_def initial_buddies_def)
  moreover have "free_frames t = {..< unat n}"
    by (auto simp: free_frames_def mk intro!: exI [of _ 6])
  moreover have "4 * (\<Sum>j < 7. unat (len (buddies t ! j))) \<le> init_first e u - unat e"
    using layout_fits [OF assms(2,3)] ib(5) by (simp add: t_def n)
  moreover have "\<forall>i < 7. data_ptr (buddies t ! i) =
       pmm_phys2virtual e + 4 * of_nat (\<Sum>j < i. unat (len (buddies t ! j)))"
    using ib(4,5) by (auto simp: t_def)
  ultimately show ?thesis using eq first n fr by (intro exI [of _ t]) (simp add: t_def)
qed

lemma pmm_init_boot:
  assumes "length (buddies s) = 7" "e \<le> u" "init_first e u \<le> unat u" "pmm_init mem e s u = Inr t"
  shows "pmm_inv t" "free_frames t = {..< frames t}"
proof -
  have "PAGE_ALIGN (e + pmm_estimate_bytes_required (u - e)) \<le> KERNEL_BOOT_MAPPED"
    using assms(4) by (auto simp: pmm_init_def Let_def bindE_eq_Inr ASSERT_eq_Inr)
  then have "init_first e u \<le> 0xC0800000"
    using unat_init_first [OF assms(2,3)] by (simp add: word_le_nat_alt KERNEL_BOOT_MAPPED_def)
  from pmm_init_inv [OF assms(1-3) this, of mem] assms(4)
  show "pmm_inv t" "free_frames t = {..< frames t}" by auto
qed

section \<open>Requests for a power of two\<close>

lemma pmm_alloc_pow:
  assumes "pmm_inv s" "unat n = 2 ^ k"
  shows "(\<exists>a t. pmm_alloc s n = Inr (E_OK, a, t) \<and> granted s (2 ^ k) k a t) \<or>
    pmm_alloc s n = Inr (E_NOMEM, 0, s) \<and> (\<forall>j. k \<le> j \<and> j < 7 \<longrightarrow> bs_set (buddies s ! j) = {})"
  using alloc_from_spec [OF assms(1), of n k] assms(2)
  by (simp add: pmm_alloc_def pmm_alloc_buddy_def Let_def log2_power)

lemma pmm_alloc_OK_granted:
  "pmm_inv s \<Longrightarrow> unat n = 2 ^ k \<Longrightarrow> pmm_alloc s n = Inr (E_OK, a, t) \<Longrightarrow> granted s (2 ^ k) k a t"
  using pmm_alloc_pow [of s n k] by auto

lemma pmm_alloc_NOMEM_same:
  "pmm_inv s \<Longrightarrow> unat n = 2 ^ k \<Longrightarrow> pmm_alloc s n = Inr (E_NOMEM, a, t) \<Longrightarrow> t = s"
  using pmm_alloc_pow [of s n k] by auto

lemma aligned_block: "2 ^ k dvd f \<Longrightarrow> {f ..< f + 2 ^ k} = block k (f div 2 ^ k)"
  by (auto simp: block_interval elim!: dvdE)

lemma owned_eq:
  assumes "pmm_inv s" "f < frames s"
  shows "owned s (k, buddy_base s + 4096 * of_nat f) = block k (f div 2 ^ k)"
proof -
  have "f < 4294967296" using assms(2) pmm_inv_frames(1) [OF assms(1)] by simp
  then show ?thesis
    using frame_address(3) [OF assms] by (simp add: owned_def unat_u32_of_nat)
qed

lemma owned_cong: "same_region s t \<Longrightarrow> owned t x = owned s x"
  by (simp add: owned_def same_region_def split: prod.splits)

lemma ledger_alloc:
  assumes led: "ledger s own" and k: "k < 7" and gr: "granted s (2 ^ k) k a t"
  shows "ledger t (insert (k, a) own)"
proof -
  from gr obtain f where f: "a = buddy_base s + 4096 * of_nat f" "2 ^ k dvd f" "f + 2 ^ k \<le> frames s"
    "{f ..< f + 2 ^ k} \<subseteq> free_frames s" "free_frames t = free_frames s - {f ..< f + 2 ^ k}"
    "pmm_inv t" "same_region s t" by (auto simp: granted_def)
  have inv: "pmm_inv s" using led by (simp add: ledger_def)
  have "f < frames s" using f(3) by (metis less_le_trans less_add_same_cancel1 zero_less_power zero_less_numeral)
  then have new: "owned s (k, a) = {f ..< f + 2 ^ k}"
    using owned_eq [OF inv, of f k] f(1,2) by (simp add: aligned_block)
  have region: "frames t = frames s" "buddy_base t = buddy_base s" using f(7) by (simp_all add: same_region_def)
  have dis: False if "x \<in> own" "y \<in> owned s x" "f \<le> y" "y < f + 2 ^ k" for x y
    using led that f(4) by (force simp: ledger_def)
  have "free_frames t \<union> (\<Union>x \<in> insert (k, a) own. owned s x) =
      free_frames s \<union> (\<Union>x \<in> own. owned s x)"
    using f(4) by (auto simp: f(5) new)
  then show ?thesis
    using led f(5) new k \<open>f < frames s\<close> f(1,6)
    unfolding ledger_def owned_cong [OF f(7)] region by (auto dest: dis)
qed

lemma ledger_free:
  assumes led: "ledger s own" and own: "(k, a) \<in> own" and n: "unat n = 2 ^ k"
  shows "\<exists>t. pmm_free s n a = Inr t \<and> ledger t (own - {(k, a)})"
proof -
  have inv: "pmm_inv s" using led by (simp add: ledger_def)
  from led own obtain f where f: "k < 7" "f < frames s" "a = buddy_base s + 4096 * of_nat f"
    by (auto simp: ledger_def)
  have ow: "owned s (k, a) = block k (f div 2 ^ k)" using owned_eq [OF inv f(2)] f(3) by simp
  have "block k (f div 2 ^ k) \<inter> free_frames s = {}" using led own ow by (auto simp: ledger_def)
  from pmm_free_spec [OF inv f(1) n f(2) this] obtain t where
    t: "pmm_free s n a = Inr t" "pmm_inv t" "same_region s t"
    "free_frames t = free_frames s \<union> owned s (k, a)" unfolding ow unfolding f(3) by blast
  have region: "frames t = frames s" "buddy_base t = buddy_base s" using t(3) by (simp_all add: same_region_def)
  have dis: "owned s x \<inter> owned s (k, a) = {}" if "x \<in> own - {(k, a)}" for x
    using led that own by (auto simp: ledger_def)
  have "free_frames t \<union> (\<Union>x \<in> own - {(k, a)}. owned s x) =
      free_frames s \<union> (\<Union>x \<in> own. owned s x)"
    using own by (auto simp: t(4))
  then have "ledger t (own - {(k, a)})"
    using led t(2) dis unfolding ledger_def owned_cong [OF t(3)] region t(4) by auto
  with t(1) show ?thesis by blast
qed

lemma pmm_reach_ledger: "pmm_reach s own \<Longrightarrow> ledger s own"
proof (induction rule: pmm_reach.induct)
  case (boot s0 e u mem s)
  from pmm_init_boot [of s0 e u mem s] boot show ?case by (simp add: ledger_def)
next
  case (alloc s own k n a t)
  then have "granted s (2 ^ k) k a t" by (intro pmm_alloc_OK_granted) (auto simp: ledger_def)
  with alloc show ?case by (simp add: ledger_alloc)
next
  case (nomem s own k n a t)
  then have "t = s" by (intro pmm_alloc_NOMEM_same) (auto simp: ledger_def)
  with nomem show ?case by simp
next
  case (free s own k a n t)
  then show ?case using ledger_free [of s own k a n] by auto
qed

section \<open>The interface of a frame allocator\<close>

text \<open>
  What the virtual memory manager needs of its frame allocator: single frames are granted while
  any is free, are taken out of the free set, and can be given back.
\<close>

locale frame_allocator =
  fixes alloc :: "'s \<Rightarrow> size_t \<Rightarrow> (err_t \<times> paddr_t \<times> 's) res"
    and release :: "'s \<Rightarrow> size_t \<Rightarrow> paddr_t \<Rightarrow> 's res"
    and free_set :: "'s \<Rightarrow> nat set"
    and base :: "'s \<Rightarrow> paddr_t"
    and capacity :: "'s \<Rightarrow> nat"
    and inv :: "'s \<Rightarrow> bool"
  assumes alloc_one: "inv s \<Longrightarrow> free_set s \<noteq> {} \<Longrightarrow>
      \<exists>f t. alloc s 1 = Inr (E_OK, base s + 4096 * of_nat f, t) \<and> f \<in> free_set s \<and> inv t \<and>
        free_set t = free_set s - {f} \<and> base t = base s \<and> capacity t = capacity s"
    and alloc_none: "inv s \<Longrightarrow> free_set s = {} \<Longrightarrow> alloc s 1 = Inr (E_NOMEM, 0, s)"
    and release_one: "inv s \<Longrightarrow> f < capacity s \<Longrightarrow> f \<notin> free_set s \<Longrightarrow>
      \<exists>t. release s 1 (base s + 4096 * of_nat f) = Inr t \<and> inv t \<and>
        free_set t = insert f (free_set s) \<and> base t = base s \<and> capacity t = capacity s"
    and free_bound: "inv s \<Longrightarrow> f \<in> free_set s \<Longrightarrow> f < capacity s"
    and frame_addr: "inv s \<Longrightarrow> f < capacity s \<Longrightarrow>
      unat (base s + 4096 * of_nat f) = unat (base s) + 4096 * f \<and> 4096 dvd unat (base s)"
begin

lemma finite_free: "inv s \<Longrightarrow> finite (free_set s)"
  using free_bound by (meson bounded_nat_set_is_finite)

lemma frame_addr_inj:
  assumes "inv s" "f < capacity s" "g < capacity s"
    and "base s + 4096 * of_nat f = base s + 4096 * of_nat g"
  shows "f = g"
proof -
  have "unat (base s) + 4096 * f = unat (base s) + 4096 * g"
    using frame_addr [OF assms(1,2)] frame_addr [OF assms(1,3)] assms(4) by metis
  then show ?thesis by simp
qed

lemma frame_addr_aligned:
  assumes "inv s" "f < capacity s"
  shows "4096 dvd unat (base s + 4096 * of_nat f)"
  using frame_addr [OF assms] by (simp add: dvd_add)

lemma alloc_then_release:
  assumes "inv s" "alloc s 1 = Inr (E_OK, a, t)"
  shows "\<exists>u. release t 1 a = Inr u \<and> inv u \<and> free_set u = free_set s"
proof (cases "free_set s = {}")
  case True
  with alloc_none [OF assms(1)] assms(2) show ?thesis by simp
next
  case False
  from alloc_one [OF assms(1) False] assms(2) obtain f where
    f: "a = base t + 4096 * of_nat f" "f \<in> free_set s" "inv t" "free_set t = free_set s - {f}"
    "capacity t = capacity s" by auto
  with free_bound [OF assms(1) f(2)] release_one [OF f(3), of f] show ?thesis by auto
qed

end

lemma granted_one:
  assumes "pmm_inv s" "free_frames s \<noteq> {}"
  shows "\<exists>f t. pmm_alloc s 1 = Inr (E_OK, buddy_base s + 4096 * of_nat f, t) \<and> f \<in> free_frames s \<and>
    pmm_inv t \<and> free_frames t = free_frames s - {f} \<and> buddy_base t = buddy_base s \<and> frames t = frames s"
proof -
  have "\<not> (\<forall>j. 0 \<le> j \<and> j < 7 \<longrightarrow> bs_set (buddies s ! j) = {})"
    using no_marks_no_free [OF assms(1)] assms(2) by simp
  with pmm_alloc_pow [OF assms(1), of 1 0] obtain a t where
    "pmm_alloc s 1 = Inr (E_OK, a, t)" "granted s 1 0 a t" by auto
  then show ?thesis by (auto simp: granted_def same_region_def)
qed

lemma free_frames_bound: "pmm_inv s \<Longrightarrow> f \<in> free_frames s \<Longrightarrow> f < frames s"
proof -
  assume inv: "pmm_inv s" and "f \<in> free_frames s"
  then obtain i where i: "i < 7" "f div 2 ^ i < frames s div 2 ^ i"
    using pmm_inv_buddy(3) [OF inv] bs_set_lt_cap by (fastforce simp: free_frames_def marked_def)
  then have "f < frames s div 2 ^ i * 2 ^ i" by (simp only: div_less_iff_less_mult zero_less_power zero_less_numeral)
  then show ?thesis using pmm_inv_frames(2) [OF inv i(1)] by simp
qed

interpretation pm: frame_allocator pmm_alloc pmm_free free_frames buddy_base frames pmm_inv
proof
  fix s assume "pmm_inv s" "free_frames s \<noteq> {}"
  then show "\<exists>f t. pmm_alloc s 1 = Inr (E_OK, buddy_base s + 4096 * of_nat f, t) \<and> f \<in> free_frames s \<and>
    pmm_inv t \<and> free_frames t = free_frames s - {f} \<and> buddy_base t = buddy_base s \<and> frames t = frames s"
    by (rule granted_one)
next
  fix s assume "pmm_inv s" "free_frames s = {}"
  then show "pmm_alloc s 1 = Inr (E_NOMEM, 0, s)"
    using pmm_alloc_pow [of s 1 0] by (auto simp: granted_def)
next
  fix s f assume "pmm_inv s" "f < frames s" "f \<notin> free_frames s"
  then show "\<exists>t. pmm_free s 1 (buddy_base s + 4096 * of_nat f) = Inr t \<and> pmm_inv t \<and>
      free_frames t = insert f (free_frames s) \<and> buddy_base t = buddy_base s \<and> frames t = frames s"
    using pmm_free_spec [of s 0 1 f] by (auto simp: block_def same_region_def)
next
  fix s f assume "pmm_inv s" "f \<in> free_frames s"
  then show "f < frames s" by (rule free_frames_bound)
next
  fix s f assume "pmm_inv s" "f < frames s"
  then show "unat (buddy_base s + 4096 * of_nat f) = unat (buddy_base s) + 4096 * f \<and>
      4096 dvd unat (buddy_base s)"
    using frame_address(1) [of s f] by (simp add: pmm_inv_def)
qed

section \<open>Properties\<close>

lemma pmm_example_boot: "pmm_init (\<lambda>_. 0) 0x700000 pmm_bss 0x1000000 = Inr pmm_example"
proof -
  have f: "PAGE_ALIGN (0x700000 + pmm_estimate_bytes_required (0x1000000 - 0x700000)) = 0x701000"
    by (simp add: PAGE_ALIGN_def ALIGN_BITS_UP_def PAGE_BITS_def MASK_def pmm_estimate_bytes_required_def)
  have n: "ALIGN_BITS_DOWN ((0x1000000 - 0x701000) div PAGE_SIZE) 11 = 2048"
    by (simp add: ALIGN_BITS_DOWN_def MASK_def)
  have "length (buddies pmm_bss) = 7" by (simp add: pmm_bss_def)
  from pmm_init_eq [OF this, of "0x700000" "0x1000000" "\<lambda>_. 0"] show ?thesis
    unfolding f n by (simp add: pmm_example_def pmm_phys2virtual_def KERNEL_OFFSET_def KERNEL_BOOT_MAPPED_def)
qed

lemma pmm_example_facts: "pmm_inv pmm_example" "free_frames pmm_example = {..< 2048}" "frames pmm_example = 2048"
proof -
  have "length (buddies pmm_bss) = 7" by (simp add: pmm_bss_def)
  from pmm_init_inv [OF this, of "0x700000" "0x1000000" "\<lambda>_. 0"] pmm_example_boot
  show "pmm_inv pmm_example" "free_frames pmm_example = {..< 2048}" "frames pmm_example = 2048"
    by (auto simp: word_le_nat_alt init_first_def init_frames_def)
qed

lemma pmm_example_alloc: "\<exists>a t. pmm_alloc pmm_example 1 = Inr (E_OK, a, t)"
proof -
  have "free_frames pmm_example \<noteq> {}" by (simp add: pmm_example_facts lessThan_empty_iff)
  from granted_one [OF pmm_example_facts(1) this] show ?thesis by blast
qed

lemma pmm_example_reach: "pmm_reach pmm_example {}"
  by (rule pmm_reach.boot [OF _ _ _ pmm_example_boot])
    (simp_all add: pmm_bss_def word_le_nat_alt init_first_def)

text \<open>
  C1. No frame is lost and none is handed out twice: in every state reachable by allocating blocks
  of a power of two and releasing held blocks, the free frames and the frames of the held blocks
  partition the managed frames, an allocation returns (with success or out of memory), and
  releasing any held block succeeds.
\<close>

theorem pmm_conservation:
  assumes "pmm_reach s own"
  shows "free_frames s \<union> (\<Union>x \<in> own. owned s x) = {..< frames s} \<and>
    (\<forall>x \<in> own. owned s x \<inter> free_frames s = {}) \<and>
    (\<forall>x \<in> own. \<forall>y \<in> own. x \<noteq> y \<longrightarrow> owned s x \<inter> owned s y = {}) \<and>
    (\<forall>n k. unat n = 2 ^ k \<longrightarrow> (\<exists>err a t. pmm_alloc s n = Inr (err, a, t))) \<and>
    (\<forall>(k, a) \<in> own. \<forall>n. unat n = 2 ^ k \<longrightarrow> (\<exists>t. pmm_free s n a = Inr t))"
proof (intro conjI)
  have led: "ledger s own" by (rule pmm_reach_ledger [OF assms])
  then show "free_frames s \<union> (\<Union>x \<in> own. owned s x) = {..< frames s}"
    and "\<forall>x \<in> own. owned s x \<inter> free_frames s = {}"
    and "\<forall>x \<in> own. \<forall>y \<in> own. x \<noteq> y \<longrightarrow> owned s x \<inter> owned s y = {}"
    by (simp_all add: ledger_def)
  show "\<forall>n k. unat n = 2 ^ k \<longrightarrow> (\<exists>err a t. pmm_alloc s n = Inr (err, a, t))"
  proof (intro allI impI)
    fix n :: u32 and k :: nat
    assume "unat n = 2 ^ k"
    with led pmm_alloc_pow [of s n k] show "\<exists>err a t. pmm_alloc s n = Inr (err, a, t)"
      by (auto simp: ledger_def)
  qed
  show "\<forall>(k, a) \<in> own. \<forall>n. unat n = 2 ^ k \<longrightarrow> (\<exists>t. pmm_free s n a = Inr t)"
    using ledger_free [OF led] by blast
qed

theorem pmm_conservation_witness:
  "\<exists>a t. pmm_alloc pmm_example 1 = Inr (E_OK, a, t) \<and> pmm_reach t {(0, a)} \<and>
    free_frames t \<union> (\<Union>x \<in> {(0, a)}. owned t x) = {..< frames t}"
proof -
  obtain a t where a: "pmm_alloc pmm_example 1 = Inr (E_OK, a, t)"
    using pmm_example_alloc by blast
  have r: "pmm_reach t {(0, a)}"
    by (rule pmm_reach.alloc [OF pmm_example_reach _ _ a, of 0]) simp_all
  from pmm_conservation [OF r] a r show ?thesis by blast
qed

text \<open>
  C13. Functional behaviour of \<open>pmm_alloc\<close> for \<open>2 ^ k\<close> frames, on both outcomes: either it
  returns the address of a run of free frames aligned to \<open>2 ^ k\<close>, which are exactly the frames
  that stop being free, and keeps the invariant, or it reports \<open>E_NOMEM\<close>, changes nothing, and
  there is no free block of \<open>2 ^ k\<close> frames or more. It never faults.
\<close>

theorem pmm_alloc_power_of_two:
  assumes "pmm_inv s" "unat n = 2 ^ k"
  shows "(\<exists>a t. pmm_alloc s n = Inr (E_OK, a, t) \<and> granted s (2 ^ k) k a t) \<or>
    (pmm_alloc s n = Inr (E_NOMEM, 0, s) \<and>
     (\<forall>j. k \<le> j \<and> j < PMM_NUM_BUDDIES \<longrightarrow> bs_set (buddies s ! j) = {}))"
  using pmm_alloc_pow [OF assms] by simp

theorem pmm_alloc_power_of_two_witness:
  "pmm_inv pmm_example \<and> unat (16 :: u32) = 2 ^ 4 \<and>
   ((\<exists>a t. pmm_alloc pmm_example 16 = Inr (E_OK, a, t) \<and> granted pmm_example (2 ^ 4) 4 a t) \<or>
    (pmm_alloc pmm_example 16 = Inr (E_NOMEM, 0, pmm_example) \<and>
     (\<forall>j. 4 \<le> j \<and> j < PMM_NUM_BUDDIES \<longrightarrow> bs_set (buddies pmm_example ! j) = {})))"
  using pmm_alloc_power_of_two [OF pmm_example_facts(1), of 16 4] pmm_example_facts(1) by simp

text \<open>
  Round trip: releasing what an allocation of \<open>2 ^ k\<close> frames returned succeeds and restores
  the set of free frames (the blocks may stay split, since the code does not recombine them).
\<close>

lemma pmm_alloc_free_roundtrip:
  assumes "pmm_inv s" "k < PMM_NUM_BUDDIES" "unat n = 2 ^ k" "pmm_alloc s n = Inr (E_OK, a, t)"
  shows "\<exists>u. pmm_free t n a = Inr u \<and> pmm_inv u \<and> free_frames u = free_frames s \<and> same_region s u"
proof -
  from pmm_alloc_OK_granted [OF assms(1,3,4)] obtain f where
    f: "a = buddy_base s + 4096 * of_nat f" "2 ^ k dvd f" "f + 2 ^ k \<le> frames s"
    "{f ..< f + 2 ^ k} \<subseteq> free_frames s" "free_frames t = free_frames s - {f ..< f + 2 ^ k}"
    "pmm_inv t" "same_region s t" by (auto simp: granted_def)
  have b: "{f ..< f + 2 ^ k} = block k (f div 2 ^ k)" by (rule aligned_block [OF f(2)])
  have "f < frames t" using f(3,7) by (simp add: same_region_def)
    (metis less_le_trans less_add_same_cancel1 zero_less_power zero_less_numeral)
  moreover have "block k (f div 2 ^ k) \<inter> free_frames t = {}" by (auto simp: f(5) b)
  ultimately obtain u where u: "pmm_free t n a = Inr u" "pmm_inv u" "same_region t u"
    "free_frames u = free_frames t \<union> block k (f div 2 ^ k)"
    using pmm_free_spec [OF f(6) _ assms(3), of f] assms(2) f(1,7) by (auto simp: same_region_def)
  have "free_frames u = free_frames s" using f(4) by (auto simp: u(4) f(5) b)
  with u(1,2) same_region_trans [OF f(7) u(3)] show ?thesis by blast
qed

text \<open>
  Initialisation: when the kernel image ends below the top of memory and the bookkeeping area
  fits below it, \<open>pmm_init\<close> succeeds, establishes the invariant with every managed frame free,
  and lays out the seven bit sets one after the other inside the area reserved for them between
  the kernel image and the first managed frame (so they do not overlap each other or a frame).
\<close>

lemma pmm_init_establishes:
  assumes "length (buddies s) = PMM_NUM_BUDDIES" "e \<le> u" "init_first e u \<le> unat u"
    and "init_first e u \<le> unat KERNEL_BOOT_MAPPED"
  shows "\<exists>t. pmm_init mem e s u = Inr t \<and> pmm_inv t \<and>
    unat (managed_first t) = init_first e u \<and> managed_last t = u \<and> buddy_base t = managed_first t \<and>
    frames t = init_frames e u \<and> free_frames t = {..< init_frames e u} \<and>
    (\<forall>i < PMM_NUM_BUDDIES. data_ptr (buddies t ! i) =
       pmm_phys2virtual e + 4 * of_nat (\<Sum>j < i. unat (len (buddies t ! j)))) \<and>
    4 * (\<Sum>j < PMM_NUM_BUDDIES. unat (len (buddies t ! j))) \<le> init_first e u - unat e"
  using pmm_init_inv [of s e u mem] assms by (simp add: KERNEL_BOOT_MAPPED_def)

text \<open>
  C39. \<open>pmm_alloc_buddy\<close> rounds the request down to a level, so a request that is not a power of
  two runs into undefined behaviour (a shift by -1, then an access of \<open>buddies[-1]\<close>) as soon as
  that level has a free block.
\<close>

theorem pmm_alloc_not_power_undefined:
  assumes "pmm_inv s" "k < PMM_NUM_BUDDIES" "2 ^ k < unat n" "unat n < 2 ^ Suc k"
    and "bs_set (buddies s ! k) \<noteq> {}"
  shows "pmm_alloc s n = Inl (Undefined ''mark_used: shift amount'')"
proof -
  have k: "k < 7" using assms(2) by simp
  note bd = pmm_inv_buddy [OF assms(1) k]
  from bs.find_Some [OF bd(2) assms(5)] obtain idx where
    idx: "bitset_find (buddies s ! k) = Inr (Some idx)" "unat idx \<in> bs_set (buddies s ! k)" by blast
  have ub: "unat idx < frames s div 2 ^ k" using bs_set_lt_cap [OF idx(2)] bd(3) by simp
  obtain t where t: "upd_buddy s k (\<lambda>b. bitset_clear b idx) = Inr t" "pmm_inv t" "same_region s t"
    "free_frames t = free_frames s - block k (unat idx)"
    using upd_clear_block [OF assms(1) k ub] idx(2) by blast
  have "mark_used t (int k) n idx = Inl (Undefined ''mark_used: shift amount'')"
    using mark_used_overflow [OF t(2) k _ assms(3)] ub t(3,4) by (auto simp: same_region_def)
  moreover have "log2 n = k" by (rule log2_unique) (use assms in auto)
  ultimately show ?thesis
    using k bd(4) idx(1) t(1)
    by (simp add: pmm_alloc_def pmm_alloc_buddy_def Let_def alloc_from.simps [of s n k])
qed

theorem pmm_alloc_not_power_undefined_witness:
  "pmm_alloc pmm_example 100 = Inl (Undefined ''mark_used: shift amount'')"
proof (rule pmm_alloc_not_power_undefined [OF pmm_example_facts(1), of 6])
  show "bs_set (buddies pmm_example ! 6) \<noteq> {}"
    using initial_buddies_nth(3) [of 6] by (simp add: pmm_example_def lessThan_empty_iff)
qed simp_all

text \<open>
  The splitting of a block: on a block of \<open>2 ^ l\<close> frames none of which is free,
  \<open>mark_used\<close> with \<open>n \<le> 2 ^ l\<close> leaves exactly the first \<open>n\<close> frames in use
  and frees the rest, without an access outside the bit sets.
\<close>

lemma mark_used_keeps_prefix:
  assumes "pmm_inv s" "l < PMM_NUM_BUDDIES" "unat idx < frames s div 2 ^ l" "unat n \<le> 2 ^ l"
    and "block l (unat idx) \<inter> free_frames s = {}"
  shows "\<exists>t. mark_used s (int l) n idx = Inr t \<and> pmm_inv t \<and> same_region s t \<and>
    free_frames t = free_frames s \<union> {unat idx * 2 ^ l + unat n ..< (unat idx + 1) * 2 ^ l}"
proof -
  have "{f \<in> block l (unat idx). unat n \<le> f mod 2 ^ l} =
      block l (unat idx) - {f \<in> block l (unat idx). \<not> unat n \<le> f mod 2 ^ l}" by auto
  also have "\<dots> = {unat idx * 2 ^ l + unat n ..< (unat idx + 1) * 2 ^ l}"
    unfolding block_head [OF assms(4)] unfolding block_interval by auto
  finally show ?thesis using mark_used_spec [of s l idx n] assms by simp
qed

end
