(* ===== verification/Vm_List.thy ===== *)
theory Vm_List
  imports Prelude
begin

text \<open>
  The doubly linked lists of \<^verbatim>\<open>vm_free_bucket_t\<close> in \<^verbatim>\<open>kernel/memory/vm.c\<close>
  (\<^verbatim>\<open>ll_remove_item\<close>, \<^verbatim>\<open>ll_insert_before\<close>, \<^verbatim>\<open>ll_append_notempty\<close>,
  \<^verbatim>\<open>ll_push_item\<close>, \<^verbatim>\<open>ll_pop_item\<close>) over an explicit heap of buckets. A C parameter
  \<^verbatim>\<open>vm_free_bucket_t** list\<close> is the head pointer, passed in and returned. The predicate
  \<open>dseg\<close> relates a heap to the list of the nodes' addresses; each operation is shown to
  perform the corresponding list operation and to leave every other node alone.
\<close>

section \<open>Model\<close>

record vm_free_bucket_t =
  pageno :: size_t
  bk_size :: size_t
  next_ptr :: ptr
  prev_ptr :: ptr

type_synonym bheap = "ptr \<Rightarrow> vm_free_bucket_t option"

definition load :: "bheap \<Rightarrow> ptr \<Rightarrow> vm_free_bucket_t res" where
  "load h p =
     (if p = NULL then Inl (Undefined ''null dereference'')
      else case h p of None \<Rightarrow> Inl (Undefined ''invalid bucket pointer'') | Some b \<Rightarrow> Inr b)"

definition store :: "bheap \<Rightarrow> ptr \<Rightarrow> (vm_free_bucket_t \<Rightarrow> vm_free_bucket_t) \<Rightarrow> bheap res" where
  "store h p f = bindE (load h p) (\<lambda>b. Inr (h(p \<mapsto> f b)))"

definition ll_remove_item :: "bheap \<Rightarrow> ptr \<Rightarrow> ptr \<Rightarrow> (bheap \<times> ptr) res" where
  "ll_remove_item h list item =
     bindE (load h item) (\<lambda>it.
     bindE (if next_ptr it \<noteq> NULL then store h (next_ptr it) (\<lambda>b. b\<lparr>prev_ptr := prev_ptr it\<rparr>) else Inr h)
       (\<lambda>h1.
     bindE (load h1 item) (\<lambda>it1.
     bindE (if prev_ptr it1 \<noteq> NULL
            then bindE (store h1 (prev_ptr it1) (\<lambda>b. b\<lparr>next_ptr := next_ptr it1\<rparr>)) (\<lambda>h2. Inr (h2, list))
            else Inr (h1, next_ptr it1)) (\<lambda>(h2, list1).
     bindE (store h2 item (\<lambda>b. b\<lparr>next_ptr := NULL, prev_ptr := NULL\<rparr>)) (\<lambda>h3. Inr (h3, list1))))))"

definition ll_insert_before :: "bheap \<Rightarrow> ptr \<Rightarrow> ptr \<Rightarrow> ptr \<Rightarrow> (bheap \<times> ptr) res" where
  "ll_insert_before h list newitem olditem =
     bindE (store h newitem (\<lambda>b. b\<lparr>next_ptr := olditem\<rparr>)) (\<lambda>h1.
     bindE (load h1 olditem) (\<lambda>old.
     bindE (store h1 newitem (\<lambda>b. b\<lparr>prev_ptr := prev_ptr old\<rparr>)) (\<lambda>h2.
     bindE (load h2 olditem) (\<lambda>old2.
     bindE (if prev_ptr old2 \<noteq> NULL
            then bindE (store h2 (prev_ptr old2) (\<lambda>b. b\<lparr>next_ptr := newitem\<rparr>)) (\<lambda>h3. Inr (h3, list))
            else Inr (h2, newitem)) (\<lambda>(h3, list1).
     bindE (store h3 olditem (\<lambda>b. b\<lparr>prev_ptr := newitem\<rparr>)) (\<lambda>h4. Inr (h4, list1)))))))"

definition ll_append_notempty :: "bheap \<Rightarrow> ptr \<Rightarrow> ptr \<Rightarrow> bheap res" where
  "ll_append_notempty h newitem olditem =
     bindE (ASSERT (olditem \<noteq> NULL) ''olditem'') (\<lambda>_.
     bindE (store h olditem (\<lambda>b. b\<lparr>next_ptr := newitem\<rparr>)) (\<lambda>h1.
     store h1 newitem (\<lambda>b. b\<lparr>prev_ptr := olditem\<rparr>)))"

definition ll_push_item :: "bheap \<Rightarrow> ptr \<Rightarrow> ptr \<Rightarrow> (bheap \<times> ptr) res" where
  "ll_push_item h list item =
     bindE (load h item) (\<lambda>it.
     bindE (ASSERT (prev_ptr it = NULL) ''item->prev == NULL'') (\<lambda>_.
     bindE (ASSERT (next_ptr it = NULL) ''item->next == NULL'') (\<lambda>_.
     bindE (if list \<noteq> NULL
            then bindE (store h list (\<lambda>b. b\<lparr>prev_ptr := item\<rparr>))
                   (\<lambda>h1. store h1 item (\<lambda>b. b\<lparr>next_ptr := list\<rparr>))
            else Inr h) (\<lambda>h2.
     Inr (h2, item)))))"

text \<open>Returns the popped item, or \<open>NULL\<close>, with the new heap and the new head.\<close>

definition ll_pop_item :: "bheap \<Rightarrow> ptr \<Rightarrow> (ptr \<times> bheap \<times> ptr) res" where
  "ll_pop_item h list =
     (let item = list in
      if item \<noteq> NULL then
        bindE (load h item) (\<lambda>it.
        bindE (ASSERT (prev_ptr it = NULL) ''item->prev == NULL'') (\<lambda>_.
        bindE (store h item (\<lambda>b. b\<lparr>next_ptr := NULL\<rparr>)) (\<lambda>h1.
        Inr (item, h1, next_ptr it))))
      else Inr (item, h, list))"

text \<open>
  \<open>dseg h q p xs r\<close>: from \<open>p\<close> the \<open>next\<close> pointers lead through the nodes \<open>xs\<close> to
  \<open>r\<close>, and the \<open>prev\<close> pointers lead back from them to \<open>q\<close>. \<open>dll\<close> is a whole
  list; \<open>bvals\<close> are the contents of the heap's nodes without their links.
\<close>

primrec dseg :: "bheap \<Rightarrow> ptr \<Rightarrow> ptr \<Rightarrow> ptr list \<Rightarrow> ptr \<Rightarrow> bool" where
  "dseg h q p [] r \<longleftrightarrow> p = r"
| "dseg h q p (x # xs) r \<longleftrightarrow>
     p = x \<and> x \<noteq> NULL \<and> (\<exists>b. h x = Some b \<and> prev_ptr b = q \<and> dseg h x (next_ptr b) xs r)"

definition last_of :: "ptr \<Rightarrow> ptr list \<Rightarrow> ptr" where
  "last_of q xs = (if xs = [] then q else last xs)"

definition dll :: "bheap \<Rightarrow> ptr \<Rightarrow> ptr list \<Rightarrow> bool" where
  "dll h p xs \<longleftrightarrow> dseg h NULL p xs NULL \<and> distinct xs"

definition unlinked :: "bheap \<Rightarrow> ptr \<Rightarrow> bool" where
  "unlinked h x \<longleftrightarrow> x \<noteq> NULL \<and> (\<exists>b. h x = Some b \<and> next_ptr b = NULL \<and> prev_ptr b = NULL)"

definition bvals :: "bheap \<Rightarrow> ptr \<Rightarrow> (size_t \<times> size_t) option" where
  "bvals h x = map_option (\<lambda>b. (pageno b, bk_size b)) (h x)"

definition agree :: "ptr set \<Rightarrow> bheap \<Rightarrow> bheap \<Rightarrow> bool" where
  "agree S h h' \<longleftrightarrow> (\<forall>z. z \<notin> S \<longrightarrow> h' z = h z)"

text \<open>An example heap: four nodes, the first two linked in a list, the others unlinked.\<close>

definition list_example :: bheap where
  "list_example = [
     0x100 \<mapsto> \<lparr>pageno = 10, bk_size = 2, next_ptr = 0x110, prev_ptr = 0\<rparr>,
     0x110 \<mapsto> \<lparr>pageno = 20, bk_size = 5, next_ptr = 0, prev_ptr = 0x100\<rparr>,
     0x120 \<mapsto> \<lparr>pageno = 0, bk_size = 0, next_ptr = 0, prev_ptr = 0\<rparr>,
     0x130 \<mapsto> \<lparr>pageno = 0, bk_size = 0, next_ptr = 0, prev_ptr = 0\<rparr>]"

section \<open>Heap lemmas\<close>

lemma load_Some [simp]: "h p = Some b \<Longrightarrow> p \<noteq> NULL \<Longrightarrow> load h p = Inr b"
  by (simp add: load_def)

lemma store_Some [simp]: "h p = Some b \<Longrightarrow> p \<noteq> NULL \<Longrightarrow> store h p f = Inr (h(p \<mapsto> f b))"
  by (simp add: store_def)

lemma dseg_frame [simp]: "u \<notin> set xs \<Longrightarrow> dseg (h(u := v)) q p xs r = dseg h q p xs r"
  by (induction xs arbitrary: q p) auto

lemma dseg_agree: "agree S h h' \<Longrightarrow> S \<inter> set xs = {} \<Longrightarrow> dseg h' q p xs r = dseg h q p xs r"
  by (induction xs arbitrary: q p) (auto simp: agree_def)

lemma last_of_simps [simp]: "last_of q [] = q" "last_of q (x # xs) = last_of x xs" "last_of q (xs @ [x]) = x"
  by (simp_all add: last_of_def)

lemma dseg_append:
  "dseg h q p (xs @ ys) r \<longleftrightarrow> (\<exists>m. dseg h q p xs m \<and> dseg h (last_of q xs) m ys r)"
  by (induction xs arbitrary: q p) auto

lemma dseg_not_null: "dseg h q p xs r \<Longrightarrow> x \<in> set xs \<Longrightarrow> x \<noteq> NULL \<and> h x \<noteq> None"
  by (induction xs arbitrary: q p) auto

lemma dseg_set_next:
  "dseg h q p (xs @ [w]) r \<Longrightarrow> w \<notin> set xs \<Longrightarrow> h w = Some b \<Longrightarrow>
   dseg (h(w \<mapsto> b\<lparr>next_ptr := r'\<rparr>)) q p (xs @ [w]) r'"
  by (auto simp: dseg_append)

lemma dseg_set_prev:
  "dseg h q p (y # ys) r \<Longrightarrow> y \<notin> set ys \<Longrightarrow> h y = Some b \<Longrightarrow>
   dseg (h(y \<mapsto> b\<lparr>prev_ptr := q'\<rparr>)) q' p (y # ys) r"
  by auto

lemma bvals_link [simp]:
  "h x = Some b \<Longrightarrow> bvals (h(x \<mapsto> b\<lparr>next_ptr := n\<rparr>)) = bvals h"
  "h x = Some b \<Longrightarrow> bvals (h(x \<mapsto> b\<lparr>prev_ptr := n\<rparr>)) = bvals h"
  "h x = Some b \<Longrightarrow> bvals (h(x \<mapsto> b\<lparr>next_ptr := n, prev_ptr := m\<rparr>)) = bvals h"
  by (auto simp: bvals_def fun_eq_iff)

lemma agree_refl [simp]: "agree S h h"
  by (simp add: agree_def)

lemma agree_trans: "agree S h h' \<Longrightarrow> agree S h' h'' \<Longrightarrow> agree S h h''"
  by (simp add: agree_def)

lemma agree_mono: "agree S h h' \<Longrightarrow> S \<subseteq> T \<Longrightarrow> agree T h h'"
  by (auto simp: agree_def)

lemma agree_upd [simp]: "x \<in> S \<Longrightarrow> agree S h (h(x := v))"
  by (simp add: agree_def)

text \<open>Relinking the front of the second segment and the end of the first.\<close>

lemma relink_back:
  assumes "dseg h q p ys r" "distinct ys" "r = NULL"
  shows "\<exists>h'. (if p \<noteq> NULL then store h p (\<lambda>b. b\<lparr>prev_ptr := q'\<rparr>) else Inr h) = Inr h' \<and>
    dseg h' q' p ys r \<and> bvals h' = bvals h \<and> agree (set (take 1 ys)) h h'"
  using assms by (cases ys) auto

lemma relink_front:
  assumes "dseg h NULL p xs r" "distinct xs"
  shows "\<exists>h' p'. (if last_of NULL xs \<noteq> NULL
       then bindE (store h (last_of NULL xs) (\<lambda>b. b\<lparr>next_ptr := r'\<rparr>)) (\<lambda>h'. Inr (h', p))
       else Inr (h, r')) = Inr (h', p') \<and>
    dseg h' NULL p' xs r' \<and> bvals h' = bvals h \<and> agree (set xs \<inter> {last_of NULL xs}) h h'"
proof (cases xs rule: rev_cases)
  case (snoc ys w)
  with assms have "w \<noteq> NULL" "h w \<noteq> None" by (auto simp: dseg_append)
  then obtain b where b: "h w = Some b" "w \<noteq> NULL" by auto
  with assms snoc have "dseg (h(w \<mapsto> b\<lparr>next_ptr := r'\<rparr>)) NULL p (ys @ [w]) r'"
    by (intro dseg_set_next) auto
  then show ?thesis using b snoc by auto
qed simp

section \<open>The operations as list operations\<close>

lemma dll_split:
  assumes "dll h p (xs @ x # ys)"
  obtains b where "h x = Some b" "x \<noteq> NULL" "prev_ptr b = last_of NULL xs"
    "dseg h NULL p xs x" "dseg h x (next_ptr b) ys NULL" "distinct xs" "distinct ys"
    "x \<notin> set xs" "x \<notin> set ys" "set xs \<inter> set ys = {}"
  using assms by (auto simp: dll_def dseg_append)

lemma dll_join:
  assumes "dseg h NULL p xs m" "dseg h (last_of NULL xs) m ys NULL"
    and "distinct xs" "distinct ys" "set xs \<inter> set ys = {}"
  shows "dll h p (xs @ ys)"
  using assms by (auto simp: dll_def dseg_append)

lemma agree_nth: "agree S h h' \<Longrightarrow> z \<notin> S \<Longrightarrow> h' z = h z"
  by (simp add: agree_def)

lemma set_take_subset_set: "set (take n xs) \<subseteq> set xs"
  by (rule set_take_subset)

lemma remove_spec:
  assumes "dll h p (xs @ x # ys)"
  shows "\<exists>h' p'. ll_remove_item h p x = Inr (h', p') \<and> dll h' p' (xs @ ys) \<and> unlinked h' x \<and>
    bvals h' = bvals h \<and> agree (set (xs @ x # ys)) h h'"
proof -
  from assms obtain b where b: "h x = Some b" "x \<noteq> NULL" "prev_ptr b = last_of NULL xs"
    "dseg h NULL p xs x" "dseg h x (next_ptr b) ys NULL" "distinct xs" "distinct ys"
    "x \<notin> set xs" "x \<notin> set ys" "set xs \<inter> set ys = {}" by (rule dll_split)
  from relink_back [OF b(5,7) refl, of "last_of NULL xs"] obtain h1 where
    h1: "(if next_ptr b \<noteq> NULL then store h (next_ptr b) (\<lambda>c. c\<lparr>prev_ptr := last_of NULL xs\<rparr>) else Inr h) = Inr h1"
    "dseg h1 (last_of NULL xs) (next_ptr b) ys NULL" "bvals h1 = bvals h" "agree (set ys) h h1"
    using agree_mono [OF _ set_take_subset_set] by blast
  have x1: "h1 x = Some b" using agree_nth [OF h1(4) b(9)] b(1) by simp
  have "dseg h1 NULL p xs x" using b(4,10) dseg_agree [OF h1(4)] by (simp add: Int_commute)
  from relink_front [OF this b(6), of "next_ptr b"] obtain h2 p' where
    h2: "(if last_of NULL xs \<noteq> NULL
       then bindE (store h1 (last_of NULL xs) (\<lambda>c. c\<lparr>next_ptr := next_ptr b\<rparr>)) (\<lambda>h'. Inr (h', p))
       else Inr (h1, next_ptr b)) = Inr (h2, p')"
    "dseg h2 NULL p' xs (next_ptr b)" "bvals h2 = bvals h1" "agree (set xs) h1 h2"
    using agree_mono [of "set xs \<inter> {last_of NULL xs}" _ _ "set xs"] by blast
  have x2: "h2 x = Some b" using agree_nth [OF h2(4) b(8)] x1 by simp
  have "dseg h2 (last_of NULL xs) (next_ptr b) ys NULL" using h1(2) b(10) dseg_agree [OF h2(4)] by simp
  with h2(2) have "dll (h2(x \<mapsto> b\<lparr>next_ptr := NULL, prev_ptr := NULL\<rparr>)) p' (xs @ ys)"
    using b by (intro dll_join [of _ _ _ "next_ptr b"]) auto
  moreover have "agree (set (xs @ x # ys)) h (h2(x \<mapsto> b\<lparr>next_ptr := NULL, prev_ptr := NULL\<rparr>))"
    using h1(4) h2(4) by (auto simp: agree_def)
  moreover have "ll_remove_item h p x = Inr (h2(x \<mapsto> b\<lparr>next_ptr := NULL, prev_ptr := NULL\<rparr>), p')"
    using b(1,2) x1 x2
    by (simp add: ll_remove_item_def h1(1) [folded b(3)] h2(1) [folded b(3)] split del: if_split)
  ultimately show ?thesis using b(2) h1(3) h2(3) x2 by (auto simp: unlinked_def)
qed

lemma insert_before_spec:
  assumes "dll h p (xs @ y # ys)" "n \<notin> set (xs @ y # ys)" "n \<noteq> NULL" "h n \<noteq> None"
  shows "\<exists>h' p'. ll_insert_before h p n y = Inr (h', p') \<and> dll h' p' (xs @ n # y # ys) \<and>
    bvals h' = bvals h \<and> agree (insert n (set (xs @ y # ys))) h h'"
proof -
  from assms(1) obtain b where b: "h y = Some b" "y \<noteq> NULL" "prev_ptr b = last_of NULL xs"
    "dseg h NULL p xs y" "dseg h y (next_ptr b) ys NULL" "distinct xs" "distinct ys"
    "y \<notin> set xs" "y \<notin> set ys" "set xs \<inter> set ys = {}" by (rule dll_split)
  from assms obtain c where c: "h n = Some c" by auto
  have ny: "n \<noteq> y" "n \<notin> set xs" "n \<notin> set ys" using assms(2) by auto
  let ?c = "c\<lparr>next_ptr := y, prev_ptr := last_of NULL xs\<rparr>"
  let ?h2 = "h(n \<mapsto> ?c)"
  have "dseg ?h2 NULL p xs y" using b(4) ny by simp
  from relink_front [OF this b(6), of n] obtain h3 p' where
    h3: "(if last_of NULL xs \<noteq> NULL
       then bindE (store ?h2 (last_of NULL xs) (\<lambda>b. b\<lparr>next_ptr := n\<rparr>)) (\<lambda>h'. Inr (h', p))
       else Inr (?h2, n)) = Inr (h3, p')"
    "dseg h3 NULL p' xs n" "bvals h3 = bvals ?h2" "agree (set xs) ?h2 h3"
    using agree_mono [of "set xs \<inter> {last_of NULL xs}" _ _ "set xs"] by blast
  have yn: "h3 y = Some b" "h3 n = Some ?c"
    using agree_nth [OF h3(4)] b(1,8) ny by auto
  have tail: "dseg h3 y (next_ptr b) ys NULL"
    using dseg_agree [OF h3(4)] b(5,10) ny by simp
  let ?h4 = "h3(y \<mapsto> b\<lparr>prev_ptr := n\<rparr>)"
  have "dll ?h4 p' (xs @ n # y # ys)"
    using h3(2) yn tail b assms(3) ny by (intro dll_join [of _ _ _ n]) auto
  moreover have "ll_insert_before h p n y = Inr (?h4, p')"
    using b(1,2) c ny assms(3) yn(1)
    by (simp add: ll_insert_before_def h3(1) [folded b(3)] split del: if_split)
  moreover have "bvals ?h4 = bvals h"
    using yn(1) h3(3) c by (simp add: bvals_def fun_eq_iff)
  moreover have "agree (insert n (set (xs @ y # ys))) h ?h4"
    using h3(4) by (auto simp: agree_def)
  ultimately show ?thesis by blast
qed

text \<open>
  Pushing needs an unlinked item; the old first node may have any \<open>prev\<close> pointer, which the
  push overwrites. Popping leaves the new first node with its stale \<open>prev\<close> pointer.
\<close>

lemma push_spec:
  assumes "dseg h q p xs NULL" "distinct xs" "unlinked h x" "x \<notin> set xs"
  shows "\<exists>h'. ll_push_item h p x = Inr (h', x) \<and> dll h' x (x # xs) \<and> bvals h' = bvals h \<and>
    agree (set (x # xs)) h h'"
proof -
  from assms(3) obtain b where b: "h x = Some b" "x \<noteq> NULL" "next_ptr b = NULL" "prev_ptr b = NULL"
    by (auto simp: unlinked_def)
  show ?thesis
  proof (cases xs)
    case Nil
    then have "p = NULL" using assms(1) by simp
    with Nil b show ?thesis by (auto simp: ll_push_item_def dll_def)
  next
    case (Cons y ys)
    with assms(1) obtain c where c: "p = y" "y \<noteq> NULL" "h y = Some c" "dseg h y (next_ptr c) ys NULL" by auto
    let ?h = "h(y \<mapsto> c\<lparr>prev_ptr := x\<rparr>, x \<mapsto> b\<lparr>next_ptr := y\<rparr>)"
    have "ll_push_item h p x = Inr (?h, x)" using b c Cons assms(4) by (simp add: ll_push_item_def)
    moreover have "dll ?h x (x # xs)" using b c Cons assms(2,4) by (auto simp: dll_def)
    moreover have "bvals ?h = bvals h" using b c Cons assms(4) by (auto simp: bvals_def fun_eq_iff)
    ultimately show ?thesis using Cons by (auto simp: agree_def)
  qed
qed

lemma pop_spec:
  assumes "dll h p (x # xs)"
  shows "\<exists>h' p'. ll_pop_item h p = Inr (x, h', p') \<and> dseg h' x p' xs NULL \<and> unlinked h' x \<and>
    bvals h' = bvals h \<and> agree {x} h h'"
proof -
  from assms obtain b where b: "p = x" "x \<noteq> NULL" "h x = Some b" "prev_ptr b = NULL"
    "dseg h x (next_ptr b) xs NULL" "x \<notin> set xs" by (auto simp: dll_def)
  then show ?thesis by (auto simp: ll_pop_item_def unlinked_def)
qed

lemma pop_stale_panics:
  assumes "dseg h q p (x # xs) r" "q \<noteq> NULL"
  shows "ll_pop_item h p = Inl (Panic ''item->prev == NULL'')"
  using assms by (auto simp: ll_pop_item_def)

lemma dll_head: "dll h p xs \<Longrightarrow> p = (case xs of [] \<Rightarrow> NULL | x # _ \<Rightarrow> x)"
  by (cases xs) (auto simp: dll_def)

lemma dll_example:
  "dll list_example 0x100 [0x100, 0x110]" "unlinked list_example 0x120" "unlinked list_example 0x130"
  by (simp_all add: dll_def list_example_def NULL_def unlinked_def)

section \<open>Properties\<close>

text \<open>
  \<^verbatim>\<open>ll_remove_item\<close> on any node of a well-formed list, first, middle or last, gives the list
  without that node: the head pointer is the new first node, both directions of links are
  consistent, the removed node is unlinked, no page range changes and no node outside the list is
  written.
\<close>

lemma ll_remove_item_correct:
  assumes "dll h p (xs @ x # ys)"
  shows "\<exists>h' p'. ll_remove_item h p x = Inr (h', p') \<and> dll h' p' (xs @ ys) \<and> unlinked h' x \<and>
    bvals h' = bvals h \<and> agree (set (xs @ x # ys)) h h'"
  by (rule remove_spec [OF assms])

text \<open>
  Inserting an item before a node with \<^verbatim>\<open>ll_insert_before\<close> puts it exactly there, and
  removing it again restores the list with the same head pointer and the same page ranges.
\<close>

lemma ll_insert_remove_roundtrip:
  assumes "dll h p (xs @ y # ys)" "unlinked h n" "n \<notin> set (xs @ y # ys)"
  shows "\<exists>h1 p1 h2. ll_insert_before h p n y = Inr (h1, p1) \<and> dll h1 p1 (xs @ n # y # ys) \<and>
    ll_remove_item h1 p1 n = Inr (h2, p) \<and> dll h2 p (xs @ y # ys) \<and> unlinked h2 n \<and> bvals h2 = bvals h"
proof -
  have "n \<noteq> NULL" "h n \<noteq> None" using assms(2) by (auto simp: unlinked_def)
  from insert_before_spec [OF assms(1,3) this] obtain h1 p1 where
    i: "ll_insert_before h p n y = Inr (h1, p1)" "dll h1 p1 (xs @ n # y # ys)" "bvals h1 = bvals h" by blast
  from remove_spec [OF i(2)] obtain h2 p2 where
    r: "ll_remove_item h1 p1 n = Inr (h2, p2)" "dll h2 p2 (xs @ y # ys)" "unlinked h2 n" "bvals h2 = bvals h1"
    by blast
  have "p2 = p" using dll_head [OF r(2)] dll_head [OF assms(1)] by simp
  then show ?thesis using i r by auto
qed

text \<open>
  \<^verbatim>\<open>ll_pop_item\<close> leaves the \<^verbatim>\<open>prev\<close> pointer of the new first item as it was, so after two
  pushes the first pop returns the item pushed last and the second pop fails its assertion
  \<^verbatim>\<open>item->prev == NULL\<close>: a waiting list of two items cannot be emptied.
\<close>

lemma ll_pop_twice_panics:
  assumes "unlinked h a" "unlinked h b" "a \<noteq> b"
  shows "\<exists>h1 h2 h3. ll_push_item h NULL a = Inr (h1, a) \<and> ll_push_item h1 a b = Inr (h2, b) \<and>
    ll_pop_item h2 b = Inr (b, h3, a) \<and> ll_pop_item h3 a = Inl (Panic ''item->prev == NULL'')"
proof -
  have "dseg h NULL NULL [] NULL" by simp
  from push_spec [OF this _ assms(1)] obtain h1 where
    h1: "ll_push_item h NULL a = Inr (h1, a)" "dll h1 a [a]" "agree {a} h h1" by auto
  have "unlinked h1 b" using assms(2,3) agree_nth [OF h1(3)] by (simp add: unlinked_def)
  with push_spec [of h1 NULL a "[a]" b] h1(2) assms(3) obtain h2 where
    h2: "ll_push_item h1 a b = Inr (h2, b)" "dll h2 b [b, a]" by (auto simp: dll_def)
  from pop_spec [OF h2(2)] obtain h3 p where
    h3: "ll_pop_item h2 b = Inr (b, h3, p)" "dseg h3 b p [a] NULL" by blast
  have "p = a" "b \<noteq> NULL" using h3(2) assms(2) by (auto simp: unlinked_def)
  with h1 h2 h3 pop_stale_panics [OF h3(2)] show ?thesis by blast
qed

end
