(* ===== verification/Vm_Bucket.thy ===== *)
theory Vm_Bucket
  imports Vm_List
begin

text \<open>
  The lists of free page ranges of \<^verbatim>\<open>kernel/memory/vm.c\<close>: reserving pages first-fit
  (\<^verbatim>\<open>vm_reserve_pages\<close>), and the insertion and merging that
  \<^verbatim>\<open>vm_return_pages\<close> and \<^verbatim>\<open>vm_optimize\<close> perform. The operations take the heap, the
  head of the bucket list and the head of the waiting list, and return them updated. The abstract
  specification is a sorted list of pairs (first page, number of pages), with the reference
  functions \<open>first_fit\<close> and \<open>free_insert\<close>.
\<close>

section \<open>Model\<close>

text \<open>The search loop of \<^verbatim>\<open>vm_reserve_pages\<close>; it ends with the node or with \<open>NULL\<close>.\<close>

partial_function (option) find_fit :: "bheap \<Rightarrow> ptr \<Rightarrow> size_t \<Rightarrow> ptr res option" where
  "find_fit h head pages =
     (if head = NULL then Some (Inr NULL)
      else case load h head of
        Inl e \<Rightarrow> Some (Inl e)
      | Inr b \<Rightarrow> if pages \<le> bk_size b then Some (Inr head) else find_fit h (next_ptr b) pages)"

text \<open>
  The result holds the error code, the page number written to \<^verbatim>\<open>*pageno_out\<close> (if any), the
  heap, \<^verbatim>\<open>*buckets\<close> and \<^verbatim>\<open>vm_waiting_list\<close>.
\<close>

definition vm_reserve_pages ::
  "bheap \<Rightarrow> ptr \<Rightarrow> ptr \<Rightarrow> size_t \<Rightarrow> (err_t \<times> size_t option \<times> bheap \<times> ptr \<times> ptr) res" where
  "vm_reserve_pages h buckets waiting pages =
     bindE (loop_result (find_fit h buckets pages)) (\<lambda>head.
     if head = NULL then Inr (E_NOMEM, None, h, buckets, waiting)
     else bindE (load h head) (\<lambda>b.
       if bk_size b = pages then
         bindE (store h head (\<lambda>b. b\<lparr>pageno := 0, bk_size := 0\<rparr>)) (\<lambda>h1.
         bindE (ll_remove_item h1 buckets head) (\<lambda>(h2, buckets1).
         bindE (ll_push_item h2 waiting head) (\<lambda>(h3, waiting1).
         Inr (E_OK, Some (pageno b), h3, buckets1, waiting1))))
       else
         bindE (store h head (\<lambda>b. b\<lparr>pageno := pageno b + pages, bk_size := bk_size b - pages\<rparr>)) (\<lambda>h1.
         Inr (E_OK, Some (pageno b), h1, buckets, waiting))))"

text \<open>The two merging blocks of \<^verbatim>\<open>vm_optimize\<close>, and the function.\<close>

definition merge_front :: "bheap \<Rightarrow> ptr \<Rightarrow> ptr \<Rightarrow> ptr \<Rightarrow> (bheap \<times> ptr \<times> ptr) res" where
  "merge_front h buckets waiting item =
     bindE (load h item) (\<lambda>it.
     let tmp = prev_ptr it in
     bindE (load h tmp) (\<lambda>t.
     bindE (store h item (\<lambda>b. b\<lparr>pageno := pageno t, bk_size := bk_size b + bk_size t\<rparr>)) (\<lambda>h1.
     bindE (ll_remove_item h1 buckets tmp) (\<lambda>(h2, buckets1).
     bindE (ll_push_item h2 waiting tmp) (\<lambda>(h3, waiting1). Inr (h3, buckets1, waiting1))))))"

definition merge_back :: "bheap \<Rightarrow> ptr \<Rightarrow> ptr \<Rightarrow> ptr \<Rightarrow> (bheap \<times> ptr \<times> ptr) res" where
  "merge_back h buckets waiting item =
     bindE (load h item) (\<lambda>it.
     let tmp = next_ptr it in
     bindE (load h tmp) (\<lambda>t.
     bindE (store h item (\<lambda>b. b\<lparr>bk_size := bk_size b + bk_size t\<rparr>)) (\<lambda>h1.
     bindE (ll_remove_item h1 buckets tmp) (\<lambda>(h2, buckets1).
     bindE (ll_push_item h2 waiting tmp) (\<lambda>(h3, waiting1). Inr (h3, buckets1, waiting1))))))"

definition vm_optimize :: "bheap \<Rightarrow> ptr \<Rightarrow> ptr \<Rightarrow> ptr \<Rightarrow> (bheap \<times> ptr \<times> ptr) res" where
  "vm_optimize h buckets waiting item =
     bindE (load h item) (\<lambda>it.
     bindE (if prev_ptr it \<noteq> NULL
            then bindE (load h (prev_ptr it)) (\<lambda>pv. Inr (pageno pv + bk_size pv = pageno it))
            else Inr False) (\<lambda>can_merge_front.
     bindE (if next_ptr it \<noteq> NULL
            then bindE (load h (next_ptr it)) (\<lambda>nx. Inr (pageno it + bk_size it = pageno nx))
            else Inr False) (\<lambda>can_merge_back.
     bindE (if can_merge_front then merge_front h buckets waiting item else Inr (h, buckets, waiting))
       (\<lambda>(h, buckets, waiting).
     if can_merge_back then merge_back h buckets waiting item else Inr (h, buckets, waiting)))))"

text \<open>The loop of \<^verbatim>\<open>vm_return_pages\<close>: the first node with a larger page number, or \<open>NULL\<close>.\<close>

partial_function (option) find_behind :: "bheap \<Rightarrow> ptr \<Rightarrow> size_t \<Rightarrow> ptr res option" where
  "find_behind h node pno =
     (if node = NULL then Some (Inr NULL)
      else case load h node of
        Inl e \<Rightarrow> Some (Inl e)
      | Inr b \<Rightarrow> if pageno b \<le> pno then find_behind h (next_ptr b) pno else Some (Inr node))"

text \<open>\<^verbatim>\<open>vm_return_pages\<close> after \<^verbatim>\<open>item = vm_item()\<close>.\<close>

definition return_item ::
  "bheap \<Rightarrow> ptr \<Rightarrow> ptr \<Rightarrow> ptr \<Rightarrow> size_t \<Rightarrow> size_t \<Rightarrow> (bheap \<times> ptr \<times> ptr) res" where
  "return_item h buckets waiting item pages pno =
     bindE (ASSERT (item \<noteq> NULL) ''item'') (\<lambda>_.
     bindE (store h item (\<lambda>b. b\<lparr>pageno := pno, bk_size := pages\<rparr>)) (\<lambda>h1.
     if buckets \<noteq> NULL then
       bindE (loop_result (find_behind h1 buckets pno)) (\<lambda>node.
       bindE (if node \<noteq> NULL then ll_insert_before h1 buckets item node
              else bindE (ll_append_notempty h1 item node) (\<lambda>h2. Inr (h2, buckets))) (\<lambda>(h2, buckets1).
       vm_optimize h2 buckets1 waiting item))
     else
       bindE (ll_push_item h1 buckets item) (\<lambda>(h2, buckets1). Inr (h2, buckets1, waiting))))"

section \<open>Abstract specification\<close>

type_synonym range = "nat \<times> nat"

fun first_fit :: "nat \<Rightarrow> range list \<Rightarrow> (nat \<times> range list) option" where
  "first_fit n [] = None"
| "first_fit n ((p, s) # rs) =
     (if n \<le> s then Some (p, if s = n then rs else (p + n, s - n) # rs)
      else map_option (\<lambda>(q, rs'). (q, (p, s) # rs')) (first_fit n rs))"

fun free_insert :: "nat \<Rightarrow> nat \<Rightarrow> range list \<Rightarrow> range list" where
  "free_insert p n [] = [(p, n)]"
| "free_insert p n ((p0, s0) # rs) =
     (if p < p0 then (if p + n = p0 then (p, n + s0) # rs else (p, n) # (p0, s0) # rs)
      else if p0 + s0 = p then
        (case rs of
           (p1, s1) # rs' \<Rightarrow> if p + n = p1 then (p0, s0 + n + s1) # rs' else (p0, s0 + n) # rs
         | [] \<Rightarrow> [(p0, s0 + n)])
      else (p0, s0) # free_insert p n rs)"

text \<open>Whether the range of an item touches the one before it and the one behind it.\<close>

definition touches_front :: "range list \<Rightarrow> range \<Rightarrow> bool" where
  "touches_front ls r \<longleftrightarrow> ls \<noteq> [] \<and> fst (last ls) + snd (last ls) = fst r"

definition touches_back :: "range \<Rightarrow> range list \<Rightarrow> bool" where
  "touches_back r rs \<longleftrightarrow> rs \<noteq> [] \<and> fst r + snd r = fst (hd rs)"

text \<open>
  Merging the range between the ranges \<open>ls\<close> before it and the ranges \<open>rs\<close> behind it with its
  neighbours, where they touch.
\<close>

definition merge_at :: "range list \<Rightarrow> range \<Rightarrow> range list \<Rightarrow> range list" where
  "merge_at ls r rs =
     (let front = touches_front ls r; back = touches_back r rs
      in (if front then butlast ls else ls) @
         (if front then fst (last ls) else fst r,
          (if front then snd (last ls) else 0) + snd r + (if back then snd (hd rs) else 0)) #
         (if back then tl rs else rs))"

definition covered :: "range list \<Rightarrow> nat set" where
  "covered rs = (\<Union>(p, s) \<in> set rs. {p ..< p + s})"

fun coalesced :: "range list \<Rightarrow> bool" where
  "coalesced [] \<longleftrightarrow> True"
| "coalesced [(p, s)] \<longleftrightarrow> 0 < s"
| "coalesced ((p, s) # (p', s') # rs) \<longleftrightarrow> 0 < s \<and> p + s < p' \<and> coalesced ((p', s') # rs)"

definition range_at :: "bheap \<Rightarrow> ptr \<Rightarrow> range" where
  "range_at h x = (case bvals h x of Some (p, s) \<Rightarrow> (unat p, unat s) | None \<Rightarrow> (0, 0))"

definition ranges :: "bheap \<Rightarrow> ptr list \<Rightarrow> range list" where
  "ranges h xs = map (range_at h) xs"

text \<open>
  \<open>vm_lists h b xs w ws\<close>: the bucket list from \<open>b\<close> is \<open>xs\<close>, the waiting list from \<open>w\<close>
  is \<open>ws\<close> (its first node may have a stale \<open>prev\<close> pointer), and they share no node.
\<close>

definition vm_lists :: "bheap \<Rightarrow> ptr \<Rightarrow> ptr list \<Rightarrow> ptr \<Rightarrow> ptr list \<Rightarrow> bool" where
  "vm_lists h b xs w ws \<longleftrightarrow>
     dll h b xs \<and> (\<exists>q. dseg h q w ws NULL) \<and> distinct ws \<and> set xs \<inter> set ws = {}"

definition ranges_fit :: "range list \<Rightarrow> bool" where
  "ranges_fit rs \<longleftrightarrow> (\<forall>(p, s) \<in> set rs. p + s < 2 ^ 32)"

text \<open>
  \<open>bucket_repr (h, b, w) F\<close>: the bucket list from \<open>b\<close> is well formed and its ranges, which
  neither touch nor overlap, are exactly the pages \<open>F\<close>. \<open>reserve_op\<close> is
  \<^verbatim>\<open>vm_reserve_pages\<close> as a partial operation on the triple.
\<close>

type_synonym bucket_state = "bheap \<times> ptr \<times> ptr"

fun bucket_repr :: "bucket_state \<Rightarrow> nat set \<Rightarrow> bool" where
  "bucket_repr (h, b, w) F \<longleftrightarrow> (\<exists>xs ws. vm_lists h b xs w ws \<and> coalesced (ranges h xs) \<and>
     ranges_fit (ranges h xs) \<and> covered (ranges h xs) = F)"

fun reserve_op :: "size_t \<Rightarrow> bucket_state \<Rightarrow> (nat \<times> bucket_state) option" where
  "reserve_op n (h, b, w) =
     (case vm_reserve_pages h b w n of
        Inr (E_OK, Some q, h', b', w') \<Rightarrow> Some (unat q, (h', b', w'))
      | _ \<Rightarrow> None)"

text \<open>An example: the pages 10, 11 and 20 to 24 are free, and two spare buckets are waiting.\<close>

definition bucket_example :: bheap where
  "bucket_example = [
     0x100 \<mapsto> \<lparr>pageno = 10, bk_size = 2, next_ptr = 0x110, prev_ptr = 0\<rparr>,
     0x110 \<mapsto> \<lparr>pageno = 20, bk_size = 5, next_ptr = 0, prev_ptr = 0x100\<rparr>,
     0x120 \<mapsto> \<lparr>pageno = 0, bk_size = 0, next_ptr = 0, prev_ptr = 0\<rparr>,
     0x130 \<mapsto> \<lparr>pageno = 0, bk_size = 0, next_ptr = 0, prev_ptr = 0\<rparr>]"

section \<open>The interface to clients that reserve page ranges\<close>

text \<open>
  What a client may rely on: a successful reservation hands out free pages and takes exactly
  these out of the free set, and a request fails only when no run of that many free pages exists.
\<close>

locale page_source =
  fixes repr :: "'s \<Rightarrow> nat set \<Rightarrow> bool"
    and reserve :: "size_t \<Rightarrow> 's \<Rightarrow> (nat \<times> 's) option"
  assumes reserve_some: "repr s F \<Longrightarrow> reserve n s = Some (q, s') \<Longrightarrow>
      {q ..< q + unat n} \<subseteq> F \<and> repr s' (F - {q ..< q + unat n})"
    and reserve_complete: "repr s F \<Longrightarrow> 0 < n \<Longrightarrow> {q ..< q + unat n} \<subseteq> F \<Longrightarrow> reserve n s \<noteq> None"
begin

lemma reserve_twice_disjoint:
  assumes "repr s F" "reserve n s = Some (q, s')" "reserve m s' = Some (q', s'')"
  shows "{q ..< q + unat n} \<inter> {q' ..< q' + unat m} = {} \<and>
    repr s'' (F - {q ..< q + unat n} - {q' ..< q' + unat m})"
  using reserve_some [OF assms(1,2)] reserve_some [OF _ assms(3)] by blast

lemma reserve_fails_iff:
  assumes "repr s F" "0 < n"
  shows "reserve n s = None \<longleftrightarrow> (\<forall>q. \<not> {q ..< q + unat n} \<subseteq> F)"
proof
  assume "\<forall>q. \<not> {q ..< q + unat n} \<subseteq> F"
  then show "reserve n s = None" using reserve_some [OF assms(1)] by (cases "reserve n s") fastforce+
qed (use reserve_complete [OF assms] in blast)

end

section \<open>The abstract operations\<close>

lemma covered_simps [simp]:
  "covered [] = {}" "covered ((p, s) # rs) = {p ..< p + s} \<union> covered rs"
  "covered (rs @ rs') = covered rs \<union> covered rs'"
  by (auto simp: covered_def)

lemma coalesced_Cons:
  "coalesced ((p, s) # rs) \<longleftrightarrow> 0 < s \<and> coalesced rs \<and> (\<forall>(p', s') \<in> set rs. p + s < p')"
proof (induction rs arbitrary: p s)
  case (Cons r rs)
  show ?case using Cons by (cases r) fastforce
qed simp

declare coalesced.simps(3) [simp del]

lemma coalesced_pos: "coalesced rs \<Longrightarrow> (p, s) \<in> set rs \<Longrightarrow> 0 < s"
  by (induction rs) (auto simp: coalesced_Cons)

lemma covered_above: "\<forall>(p', s') \<in> set rs. m < p' \<Longrightarrow> x \<in> covered rs \<Longrightarrow> m < x"
  by (auto simp: covered_def)

lemma first_fit_mem:
  "first_fit n rs = Some (q, rs') \<Longrightarrow> (p', s') \<in> set rs' \<Longrightarrow> \<exists>(p, s) \<in> set rs. p \<le> p'"
  by (induction n rs arbitrary: rs' rule: first_fit.induct) (force split: if_splits)+

lemma first_fit_spec:
  assumes "coalesced rs" "first_fit n rs = Some (q, rs')"
  shows "coalesced rs' \<and> covered rs = covered rs' \<union> {q ..< q + n} \<and> covered rs' \<inter> {q ..< q + n} = {}"
  using assms
proof (induction n rs arbitrary: rs' rule: first_fit.induct)
  case (2 n p s rs)
  have c: "0 < s" "coalesced rs" "\<forall>(p', s') \<in> set rs. p + s < p'" using "2.prems"(1) by (auto simp: coalesced_Cons)
  show ?case
  proof (cases "n \<le> s")
    case True
    have above: "p + s < x" if "x \<in> covered rs" for x using covered_above [OF c(3) that] .
    show ?thesis
    proof (cases "s = n")
      case True
      with "2.prems"(2) c(2) above show ?thesis by fastforce
    next
      case False
      with \<open>n \<le> s\<close> "2.prems"(2) have "q = p" "rs' = (p + n, s - n) # rs" "n < s" by auto
      with c above show ?thesis by (fastforce simp: coalesced_Cons)
    qed
  next
    case False
    with "2.prems"(2) obtain rs1 where r: "first_fit n rs = Some (q, rs1)" "rs' = (p, s) # rs1" by auto
    from "2.IH" [OF False c(2) r(1)]
    have IH: "coalesced rs1" "covered rs = covered rs1 \<union> {q ..< q + n}" "covered rs1 \<inter> {q ..< q + n} = {}" by auto
    have "\<forall>(p', s') \<in> set rs1. p + s < p'" using first_fit_mem [OF r(1)] c(3) by fastforce
    moreover have "p + s < x" if "x \<in> {q ..< q + n}" for x
      using covered_above [OF c(3)] that IH(2) by blast
    ultimately show ?thesis using IH c(1) r(2) by (fastforce simp: coalesced_Cons)
  qed
qed simp

lemma first_fit_at:
  assumes "\<forall>r \<in> set as. snd r < n" "n \<le> s"
  shows "first_fit n (as @ (p, s) # bs) = Some (p, as @ (if s = n then bs else (p + n, s - n) # bs))"
  using assms by (induction as) auto

lemma first_fit_none: "\<forall>r \<in> set rs. snd r < n \<Longrightarrow> first_fit n rs = None"
  by (induction rs) auto

lemma free_insert_fst: "r \<in> set (free_insert p n rs) \<Longrightarrow> fst r = p \<or> fst r \<in> fst ` set rs"
proof (induction p n rs rule: free_insert.induct)
  case (2 p n p0 s0 rs)
  show ?case
  proof (cases "p < p0 \<or> p0 + s0 = p")
    case True
    with "2.prems" show ?thesis by (auto split: if_splits list.splits)
  next
    case False
    with 2 show ?thesis by auto
  qed
qed simp

lemma disjoint_before:
  assumes "{p ..< p + n} \<inter> {q ..< q + s} = {}" "p < q" "0 < s"
  shows "p + n \<le> (q :: nat)"
proof (rule ccontr)
  assume "\<not> p + n \<le> q"
  then have "q \<in> {p ..< p + n} \<inter> {q ..< q + s}" using assms by auto
  then show False using assms by auto
qed

text \<open>The cases of the insertion: before the first range, or right behind it.\<close>

lemma free_insert_before:
  assumes "coalesced ((p0, s0) # rs)" "0 < n" "p < p0" "{p ..< p + n} \<inter> {p0 ..< p0 + s0} = {}"
  shows "coalesced (free_insert p n ((p0, s0) # rs)) \<and>
    covered (free_insert p n ((p0, s0) # rs)) = covered ((p0, s0) # rs) \<union> {p ..< p + n}"
proof -
  have c: "0 < s0" "coalesced rs" "\<forall>(p', s') \<in> set rs. p0 + s0 < p'" using assms(1) by (auto simp: coalesced_Cons)
  have "p + n \<le> p0" using disjoint_before assms(3,4) c(1) by blast
  moreover have "\<forall>(p', s') \<in> set rs. p + n < p'" if "p + n \<le> p0" using that c(3) by fastforce
  ultimately show ?thesis using assms(2,3) c by (cases "p + n = p0") (auto simp: coalesced_Cons)
qed

lemma free_insert_behind:
  assumes "coalesced ((p0, s0) # rs)" "{p0 + s0 ..< p0 + s0 + n} \<inter> covered rs = {}"
  shows "coalesced (free_insert (p0 + s0) n ((p0, s0) # rs)) \<and>
    covered (free_insert (p0 + s0) n ((p0, s0) # rs)) = covered ((p0, s0) # rs) \<union> {p0 + s0 ..< p0 + s0 + n}"
proof -
  have c: "0 < s0" "coalesced rs" "\<forall>(p', s') \<in> set rs. p0 + s0 < p'" using assms(1) by (auto simp: coalesced_Cons)
  show ?thesis
  proof (cases rs)
    case Nil
    then show ?thesis using c by auto
  next
    case (Cons r rs')
    obtain p1 s1 where r: "r = (p1, s1)" by (cases r)
    have c1: "0 < s1" "p0 + s0 < p1" "coalesced rs'" "\<forall>(p', s') \<in> set rs'. p1 + s1 < p'"
      using c Cons r by (auto simp: coalesced_Cons)
    have "covered rs = {p1 ..< p1 + s1} \<union> covered rs'" using Cons r by simp
    with assms(2) have "{p0 + s0 ..< p0 + s0 + n} \<inter> {p1 ..< p1 + s1} = {}" by blast
    then have "p0 + s0 + n \<le> p1" using disjoint_before c1(1,2) by blast
    moreover have "\<forall>(p', s') \<in> set rs'. p0 + s0 + n < p'" if "p0 + s0 + n \<le> p1" using that c1(4) by fastforce
    ultimately show ?thesis using c1 c(1) Cons r by (cases "p0 + s0 + n = p1") (auto simp: coalesced_Cons)
  qed
qed

lemma free_insert_spec:
  assumes "coalesced rs" "0 < n" "{p ..< p + n} \<inter> covered rs = {}"
  shows "coalesced (free_insert p n rs) \<and> covered (free_insert p n rs) = covered rs \<union> {p ..< p + n}"
  using assms
proof (induction p n rs rule: free_insert.induct)
  case (2 p n p0 s0 rs)
  have c: "0 < s0" "coalesced rs" "\<forall>(p', s') \<in> set rs. p0 + s0 < p'"
    using "2.prems"(1) by (auto simp: coalesced_Cons)
  have d: "{p ..< p + n} \<inter> {p0 ..< p0 + s0} = {}" "{p ..< p + n} \<inter> covered rs = {}"
    using "2.prems"(3) unfolding covered_simps by blast+
  consider (before) "p < p0" | (behind) "p = p0 + s0" | (later) "\<not> p < p0" "p0 + s0 \<noteq> p" by fastforce
  then show ?case
  proof cases
    case before
    then show ?thesis using free_insert_before "2.prems"(1,2) d(1) by blast
  next
    case behind
    then show ?thesis using free_insert_behind [OF "2.prems"(1)] d(2) by blast
  next
    case later
    have "p0 \<noteq> p" using d(1) c(1) "2.prems"(2) by (auto simp: disjoint_iff)
    then have "p0 + s0 \<le> p" using disjoint_before [of p0 s0 p n] later(1) d(1) "2.prems"(2) by (simp add: Int_commute)
    then have "p0 + s0 < fst r" if "r \<in> set (free_insert p n rs)" for r
      using free_insert_fst [OF that] c(3) later(2) by fastforce
    with "2.IH" [OF later c(2) "2.prems"(2) d(2)] c(1) show ?thesis using later by (auto simp: coalesced_Cons)
  qed
qed simp

section \<open>The concrete operations\<close>

lemma range_at_Some: "h x = Some b \<Longrightarrow> range_at h x = (unat (pageno b), unat (bk_size b))"
  by (simp add: range_at_def bvals_def)

lemma ranges_simps [simp]:
  "ranges h [] = []" "ranges h (x # xs) = range_at h x # ranges h xs"
  "ranges h (xs @ ys) = ranges h xs @ ranges h ys"
  by (simp_all add: ranges_def)

lemma ranges_bvals: "bvals h' = bvals h \<Longrightarrow> ranges h' xs = ranges h xs"
  by (simp add: ranges_def range_at_def)

lemma ranges_upd [simp]: "x \<notin> set xs \<Longrightarrow> ranges (h(x := v)) xs = ranges h xs"
  by (auto simp: ranges_def range_at_def bvals_def)

text \<open>Changing the page number and the size of a node keeps every list.\<close>

lemma dseg_values:
  "h x = Some b \<Longrightarrow> next_ptr b' = next_ptr b \<Longrightarrow> prev_ptr b' = prev_ptr b \<Longrightarrow>
   dseg (h(x \<mapsto> b')) q p xs r = dseg h q p xs r"
  by (induction xs arbitrary: q p) auto

lemma lists_values:
  "h x = Some b \<Longrightarrow> next_ptr b' = next_ptr b \<Longrightarrow> prev_ptr b' = prev_ptr b \<Longrightarrow>
   vm_lists (h(x \<mapsto> b')) bk xs w ws = vm_lists h bk xs w ws"
  by (simp add: vm_lists_def dll_def dseg_values)

lemma dseg_mid:
  assumes "dseg h q p (xs @ x # ys) r"
  obtains b where "h x = Some b" "x \<noteq> NULL" "prev_ptr b = last_of q xs" "dseg h x (next_ptr b) ys r"
  using assms by (auto simp: dseg_append)

text \<open>Taking a bucket out of the list and keeping it for later use.\<close>

lemma retire_spec:
  assumes "vm_lists h b (xs @ x # ys) w ws"
  shows "\<exists>h1 b1 h2. ll_remove_item h b x = Inr (h1, b1) \<and> ll_push_item h1 w x = Inr (h2, x) \<and>
    vm_lists h2 b1 (xs @ ys) x (x # ws) \<and> bvals h2 = bvals h \<and>
    agree (set (xs @ x # ys) \<union> set ws) h h2"
proof -
  from assms obtain q where l: "dll h b (xs @ x # ys)" "dseg h q w ws NULL" "distinct ws"
    "set (xs @ x # ys) \<inter> set ws = {}" unfolding vm_lists_def by blast
  from remove_spec [OF l(1)] obtain h1 b1 where
    h1: "ll_remove_item h b x = Inr (h1, b1)" "dll h1 b1 (xs @ ys)" "unlinked h1 x"
    "bvals h1 = bvals h" "agree (set (xs @ x # ys)) h h1" by blast
  have "dseg h1 q w ws NULL" using dseg_agree [OF h1(5) l(4)] l(2) by simp
  from push_spec [OF this l(3) h1(3)] l(4) obtain h2 where
    h2: "ll_push_item h1 w x = Inr (h2, x)" "dll h2 x (x # ws)" "bvals h2 = bvals h1"
    "agree (set (x # ws)) h1 h2" by auto
  have "x \<notin> set (xs @ ys)" using l(1) by (auto simp: dll_def)
  then have disj: "set (x # ws) \<inter> set (xs @ ys) = {}" using l(4) by auto
  have "dll h2 b1 (xs @ ys)" using h1(2) dseg_agree [OF h2(4) disj] by (simp add: dll_def)
  then have "vm_lists h2 b1 (xs @ ys) x (x # ws)"
    using h2(2) disj by (auto simp: vm_lists_def dll_def)
  moreover have "agree (set (xs @ x # ys) \<union> set ws) h h2"
    using h1(5) h2(4) by (auto simp: agree_def)
  ultimately show ?thesis using h1 h2 by auto
qed

lemma find_fit_spec:
  assumes "dseg h q p xs NULL"
  shows "\<exists>r. find_fit h p n = Some (Inr r) \<and>
    (r = NULL \<and> (\<forall>y \<in> set (ranges h xs). snd y < unat n) \<or>
     (\<exists>as bs. xs = as @ r # bs \<and> r \<noteq> NULL \<and> unat n \<le> snd (range_at h r) \<and>
       (\<forall>y \<in> set (ranges h as). snd y < unat n)))"
  using assms
proof (induction xs arbitrary: q p)
  case Nil
  then show ?case by (simp add: find_fit.simps)
next
  case (Cons x xs)
  then obtain b where b: "p = x" "x \<noteq> NULL" "h x = Some b" "dseg h x (next_ptr b) xs NULL" by auto
  show ?case
  proof (cases "n \<le> bk_size b")
    case True
    then have "find_fit h p n = Some (Inr x)" using b by (simp add: find_fit.simps)
    moreover have "unat n \<le> snd (range_at h x)" using True b by (simp add: range_at_Some word_le_nat_alt)
    ultimately show ?thesis using b by (intro exI [of _ x]) (auto intro: exI [of _ "[]"])
  next
    case False
    then have f: "find_fit h p n = find_fit h (next_ptr b) n" using b by (subst find_fit.simps) simp
    have small: "snd (range_at h x) < unat n" using False b by (simp add: range_at_Some word_le_nat_alt)
    from Cons.IH [OF b(4)] obtain r where r: "find_fit h (next_ptr b) n = Some (Inr r)"
      "r = NULL \<and> (\<forall>y \<in> set (ranges h xs). snd y < unat n) \<or>
       (\<exists>as bs. xs = as @ r # bs \<and> r \<noteq> NULL \<and> unat n \<le> snd (range_at h r) \<and>
         (\<forall>y \<in> set (ranges h as). snd y < unat n))" by blast
    from r(2) show ?thesis
    proof (elim disjE exE conjE)
      assume "r = NULL" "\<forall>y \<in> set (ranges h xs). snd y < unat n"
      then show ?thesis using r(1) f small by auto
    next
      fix as bs
      assume "xs = as @ r # bs" "r \<noteq> NULL" "unat n \<le> snd (range_at h r)"
        "\<forall>y \<in> set (ranges h as). snd y < unat n"
      then have "x # xs = (x # as) @ r # bs" "\<forall>y \<in> set (ranges h (x # as)). snd y < unat n"
        using small by auto
      then show ?thesis using r(1) f \<open>r \<noteq> NULL\<close> \<open>unat n \<le> snd (range_at h r)\<close> by (metis (no_types))
    qed
  qed
qed

lemma lists_mid:
  assumes "vm_lists h b (xs @ x # ys) w ws"
  obtains bx where "h x = Some bx" "x \<noteq> NULL" "prev_ptr bx = last_of NULL xs"
    "next_ptr bx = (case ys of [] \<Rightarrow> NULL | y # zs \<Rightarrow> y)"
proof -
  from assms have "dll h b (xs @ x # ys)" by (simp add: vm_lists_def)
  then obtain bx where "h x = Some bx" "x \<noteq> NULL" "prev_ptr bx = last_of NULL xs"
    "dseg h x (next_ptr bx) ys NULL" by (rule dll_split)
  then show thesis using that by (cases ys) auto
qed

lemma lists_at:
  assumes "vm_lists h b xs w ws" "x \<in> set xs"
  obtains bx where "h x = Some bx" "x \<noteq> NULL" "range_at h x = (unat (pageno bx), unat (bk_size bx))"
  using assms by (metis lists_mid range_at_Some split_list)

lemma absorb_spec:
  assumes "vm_lists h b (xs @ x # ys) w ws" "h z = Some bz" "next_ptr bz' = next_ptr bz" "prev_ptr bz' = prev_ptr bz"
    and "z \<in> set (xs @ x # ys) \<union> set ws"
  shows "\<exists>h1 b1 h2. ll_remove_item (h(z \<mapsto> bz')) b x = Inr (h1, b1) \<and> ll_push_item h1 w x = Inr (h2, x) \<and>
    vm_lists h2 b1 (xs @ ys) x (x # ws) \<and> bvals h2 = bvals (h(z \<mapsto> bz')) \<and>
    agree (set (xs @ x # ys) \<union> set ws) h h2"
proof -
  have "vm_lists (h(z \<mapsto> bz')) b (xs @ x # ys) w ws" using assms lists_values by blast
  from retire_spec [OF this] obtain h1 b1 h2 where
    r: "ll_remove_item (h(z \<mapsto> bz')) b x = Inr (h1, b1)" "ll_push_item h1 w x = Inr (h2, x)"
    "vm_lists h2 b1 (xs @ ys) x (x # ws)" "bvals h2 = bvals (h(z \<mapsto> bz'))"
    "agree (set (xs @ x # ys) \<union> set ws) (h(z \<mapsto> bz')) h2" by blast
  moreover have "agree (set (xs @ x # ys) \<union> set ws) h h2" using r(5) assms(5) by (auto simp: agree_def)
  ultimately show ?thesis by blast
qed

lemma lists_distinct: "vm_lists h b (xs @ x # ys) w ws \<Longrightarrow> x \<notin> set xs \<and> x \<notin> set ys \<and> x \<notin> set ws"
  by (auto simp: vm_lists_def dll_def)

text \<open>A range of exactly the requested size leaves the list; a larger one loses its first pages.\<close>

lemma reserve_whole:
  assumes l: "vm_lists h b (as @ r # bs) w ws" and f: "find_fit h b (bk_size br) = Some (Inr r)" and br: "h r = Some br"
  obtains h' b' where "vm_reserve_pages h b w (bk_size br) = Inr (E_OK, Some (pageno br), h', b', r)"
    "vm_lists h' b' (as @ bs) r (r # ws)" "ranges h' (as @ bs) = ranges h as @ ranges h bs" "agree (set (as @ r # bs) \<union> set ws) h h'"
proof -
  have d: "r \<notin> set as" "r \<notin> set bs" "r \<notin> set ws" using lists_distinct l by blast+
  have rn: "r \<noteq> NULL" by (rule lists_mid [OF l])
  from absorb_spec [OF l br, of "br\<lparr>pageno := 0, bk_size := 0\<rparr>"]
  obtain h1 b1 h2 where s: "ll_remove_item (h(r \<mapsto> br\<lparr>pageno := 0, bk_size := 0\<rparr>)) b r = Inr (h1, b1)"
    "ll_push_item h1 w r = Inr (h2, r)" "vm_lists h2 b1 (as @ bs) r (r # ws)"
    "bvals h2 = bvals (h(r \<mapsto> br\<lparr>pageno := 0, bk_size := 0\<rparr>))" "agree (set (as @ r # bs) \<union> set ws) h h2" by auto
  have "vm_reserve_pages h b w (bk_size br) = Inr (E_OK, Some (pageno br), h2, b1, r)"
    using f rn br s(1,2) by (simp add: vm_reserve_pages_def)
  moreover have "ranges h2 (as @ bs) = ranges h as @ ranges h bs" using ranges_bvals [OF s(4)] d by simp
  ultimately show thesis using that s(3,5) by blast
qed

lemma reserve_part:
  assumes l: "vm_lists h b (as @ r # bs) w ws" and f: "find_fit h b n = Some (Inr r)" and br: "h r = Some br"
    and n: "n \<le> bk_size br" "bk_size br \<noteq> n" "unat (pageno br) + unat (bk_size br) < 2 ^ 32"
  defines "h' \<equiv> h(r \<mapsto> br\<lparr>pageno := pageno br + n, bk_size := bk_size br - n\<rparr>)"
  shows "vm_reserve_pages h b w n = Inr (E_OK, Some (pageno br), h', b, w)" "vm_lists h' b (as @ r # bs) w ws"
    "ranges h' (as @ r # bs) = ranges h as @ (unat (pageno br) + unat n, unat (bk_size br) - unat n) # ranges h bs"
    "agree (set (as @ r # bs) \<union> set ws) h h'"
proof -
  let ?br = "br\<lparr>pageno := pageno br + n, bk_size := bk_size br - n\<rparr>"
  have d: "r \<notin> set as" "r \<notin> set bs" using lists_distinct l by blast+
  have rn: "r \<noteq> NULL" by (rule lists_mid [OF l])
  have u: "unat (pageno br + n) = unat (pageno br) + unat n" "unat (bk_size br - n) = unat (bk_size br) - unat n"
    using n by (auto simp: unat_simps word_le_nat_alt)
  show "vm_reserve_pages h b w n = Inr (E_OK, Some (pageno br), h', b, w)" using f rn br n(2) by (simp add: vm_reserve_pages_def h'_def)
  show "vm_lists h' b (as @ r # bs) w ws" using l lists_values [of h r br ?br] br by (simp add: h'_def)
  show "ranges h' (as @ r # bs) = ranges h as @ (unat (pageno br) + unat n, unat (bk_size br) - unat n) # ranges h bs"
    using d u by (simp add: range_at_Some h'_def)
  show "agree (set (as @ r # bs) \<union> set ws) h h'" by (simp add: h'_def)
qed

text \<open>Reserving pages is first fit.\<close>

lemma reserve_refines:
  assumes "vm_lists h b xs w ws" "ranges_fit (ranges h xs)"
  shows "case first_fit (unat n) (ranges h xs) of
      None \<Rightarrow> vm_reserve_pages h b w n = Inr (E_NOMEM, None, h, b, w)
    | Some (q, rs) \<Rightarrow> \<exists>h' b' w' xs' ws'.
        vm_reserve_pages h b w n = Inr (E_OK, Some (of_nat q), h', b', w') \<and>
        vm_lists h' b' xs' w' ws' \<and> ranges h' xs' = rs \<and>
        set xs' \<union> set ws' = set xs \<union> set ws \<and> agree (set xs \<union> set ws) h h'"
proof -
  have "dseg h NULL b xs NULL" using assms by (simp add: vm_lists_def dll_def)
  from find_fit_spec [OF this, of n] consider "find_fit h b n = Some (Inr NULL)" "\<forall>y \<in> set (ranges h xs). snd y < unat n"
    | as r bs where "find_fit h b n = Some (Inr r)" "xs = as @ r # bs" "unat n \<le> snd (range_at h r)" "\<forall>y \<in> set (ranges h as). snd y < unat n"
    by blast
  then show ?thesis
  proof cases
    case 1
    then show ?thesis by (simp add: first_fit_none vm_reserve_pages_def)
  next
    case (2 as r bs)
    note l = assms(1) [unfolded 2(2)]
    from assms(1) 2(2) obtain br where br: "h r = Some br"
      and rr: "range_at h r = (unat (pageno br), unat (bk_size br))" by (auto elim: lists_at)
    have ff: "first_fit (unat n) (ranges h xs) = Some (unat (pageno br), ranges h as @
        (if unat (bk_size br) = unat n then ranges h bs
         else (unat (pageno br) + unat n, unat (bk_size br) - unat n) # ranges h bs))"
      using first_fit_at [OF 2(4)] 2(2,3) rr by simp
    show ?thesis
    proof (cases "bk_size br = n")
      case True
      from reserve_whole [OF l 2(1) [folded True] br] obtain h' b' where
        "vm_reserve_pages h b w n = Inr (E_OK, Some (pageno br), h', b', r)" "vm_lists h' b' (as @ bs) r (r # ws)"
        "ranges h' (as @ bs) = ranges h as @ ranges h bs" "agree (set (as @ r # bs) \<union> set ws) h h'" using True by metis
      then show ?thesis using True 2(2) unfolding ff option.case prod.case
        by (intro exI [of _ h'] exI [of _ b'] exI [of _ r] exI [of _ "as @ bs"] exI [of _ "r # ws"]) auto
    next
      case False
      have n: "n \<le> bk_size br" "unat (pageno br) + unat (bk_size br) < 2 ^ 32"
        using 2(2,3) rr assms(2) by (auto simp: word_le_nat_alt ranges_fit_def)
      have "unat (bk_size br) \<noteq> unat n" using False by (metis word_unat_eq_iff)
      then show ?thesis using reserve_part [OF l 2(1) br n(1) False n(2)] 2(2) unfolding ff option.case prod.case by fastforce
    qed
  qed
qed

text \<open>Merging an item with its neighbours.\<close>

lemma last_ranges: "xs \<noteq> [] \<Longrightarrow> last (ranges h xs) = range_at h (last xs)"
  by (simp add: ranges_def last_map)

lemma butlast_ranges: "butlast (ranges h xs) = ranges h (butlast xs)"
  by (simp add: ranges_def map_butlast)

lemma touch_iff:
  assumes "unat p + unat s < 2 ^ 32"
  shows "(p + s = (q :: u32)) = (unat p + unat s = unat q)"
proof -
  have "unat (p + s) = unat p + unat s" using assms by (simp add: unat_simps)
  then show ?thesis by (metis word_unat_eq_iff)
qed

lemma absorb_ranges:
  assumes "vm_lists h b (us @ t # vs) w ws" "x \<in> set (us @ vs)" "h x = Some bx"
    and "next_ptr bx' = next_ptr bx" "prev_ptr bx' = prev_ptr bx"
  shows "\<exists>h1 b1 h2. ll_remove_item (h(x \<mapsto> bx')) b t = Inr (h1, b1) \<and> ll_push_item h1 w t = Inr (h2, t) \<and>
    vm_lists h2 b1 (us @ vs) t (t # ws) \<and> (\<forall>zs. x \<notin> set zs \<longrightarrow> ranges h2 zs = ranges h zs) \<and>
    range_at h2 x = (unat (pageno bx'), unat (bk_size bx')) \<and> agree (set (us @ t # vs) \<union> set ws) h h2"
proof -
  from absorb_spec [OF assms(1,3-5)] assms(2) obtain h1 b1 h2 where
    s: "ll_remove_item (h(x \<mapsto> bx')) b t = Inr (h1, b1)" "ll_push_item h1 w t = Inr (h2, t)"
    "vm_lists h2 b1 (us @ vs) t (t # ws)" "bvals h2 = bvals (h(x \<mapsto> bx'))"
    "agree (set (us @ t # vs) \<union> set ws) h h2" by auto
  moreover have "\<forall>zs. x \<notin> set zs \<longrightarrow> ranges h2 zs = ranges h zs" using ranges_bvals [OF s(4)] by simp
  moreover have "range_at h2 x = (unat (pageno bx'), unat (bk_size bx'))"
    using s(4) by (simp add: range_at_def bvals_def)
  ultimately show ?thesis by blast
qed

text \<open>The two halves of \<^verbatim>\<open>vm_optimize\<close>: what it does before and after the first merge.\<close>

lemma optimize_front:
  assumes "vm_lists h b (as @ t # x # bs) w ws" "h x = Some bx" "h t = Some bt"
    and "unat (bk_size bt) + unat (bk_size bx) < 2 ^ 32"
  shows "\<exists>h1 b1 h2. ll_remove_item (h(x \<mapsto> bx\<lparr>pageno := pageno bt, bk_size := bk_size bx + bk_size bt\<rparr>)) b t
      = Inr (h1, b1) \<and> ll_push_item h1 w t = Inr (h2, t) \<and>
    vm_lists h2 b1 (as @ x # bs) t (t # ws) \<and> ranges h2 as = ranges h as \<and> ranges h2 bs = ranges h bs \<and>
    range_at h2 x = (unat (pageno bt), unat (bk_size bt) + unat (bk_size bx)) \<and>
    agree (set (as @ t # x # bs) \<union> set ws) h h2"
proof -
  have d: "x \<notin> set as" "x \<notin> set bs" using lists_distinct [of h b "as @ [t]" x bs] assms(1) by auto
  have "unat (bk_size bx + bk_size bt) = unat (bk_size bt) + unat (bk_size bx)"
    using assms(4) by (simp add: unat_simps)
  with absorb_ranges [OF assms(1) _ assms(2), of "bx\<lparr>pageno := pageno bt, bk_size := bk_size bx + bk_size bt\<rparr>"] d
  show ?thesis by fastforce
qed

lemma optimize_back:
  assumes "vm_lists h b (as @ x # t # bs) w ws" "h x = Some bx" "h t = Some bt"
    and "unat (bk_size bx) + unat (bk_size bt) < 2 ^ 32"
  shows "\<exists>h1 b1 h2. ll_remove_item (h(x \<mapsto> bx\<lparr>bk_size := bk_size bx + bk_size bt\<rparr>)) b t
      = Inr (h1, b1) \<and> ll_push_item h1 w t = Inr (h2, t) \<and>
    vm_lists h2 b1 (as @ x # bs) t (t # ws) \<and> ranges h2 as = ranges h as \<and> ranges h2 bs = ranges h bs \<and>
    range_at h2 x = (unat (pageno bx), unat (bk_size bx) + unat (bk_size bt)) \<and>
    agree (set (as @ x # t # bs) \<union> set ws) h h2"
proof -
  have d: "x \<notin> set as" "x \<notin> set bs" using lists_distinct [of h b as x "t # bs"] assms(1) by auto
  have "unat (bk_size bx + bk_size bt) = unat (bk_size bx) + unat (bk_size bt)"
    using assms(4) by (simp add: unat_simps)
  moreover have "vm_lists h b ((as @ [x]) @ t # bs) w ws" using assms(1) by simp
  note absorb_ranges [OF this _ assms(2), of "bx\<lparr>bk_size := bk_size bx + bk_size bt\<rparr>"]
  ultimately show ?thesis using d by fastforce
qed

lemma optimize_conditions:
  assumes "vm_lists h b (as @ x # bs) w ws" "ranges_fit (ranges h (as @ x # bs))" "h x = Some bx"
    and "prev_ptr bx = last_of NULL as" "next_ptr bx = (case bs of [] \<Rightarrow> NULL | y # zs \<Rightarrow> y)"
  shows "(if prev_ptr bx \<noteq> NULL
      then bindE (load h (prev_ptr bx)) (\<lambda>pv. Inr (pageno pv + bk_size pv = pageno bx)) else Inr False)
      = Inr (touches_front (ranges h as) (range_at h x))"
    and "(if next_ptr bx \<noteq> NULL
      then bindE (load h (next_ptr bx)) (\<lambda>nx. Inr (pageno bx + bk_size bx = pageno nx)) else Inr False)
      = Inr (touches_back (range_at h x) (ranges h bs))"
proof -
  have rx: "range_at h x = (unat (pageno bx), unat (bk_size bx))" using assms(3) by (rule range_at_Some)
  show "(if prev_ptr bx \<noteq> NULL
      then bindE (load h (prev_ptr bx)) (\<lambda>pv. Inr (pageno pv + bk_size pv = pageno bx)) else Inr False)
      = Inr (touches_front (ranges h as) (range_at h x))"
  proof (cases as rule: rev_cases)
    case (snoc us t)
    then obtain bt where bt: "h t = Some bt" "t \<noteq> NULL" "range_at h t = (unat (pageno bt), unat (bk_size bt))"
      using assms(1) by (auto elim: lists_at)
    moreover from this have "unat (pageno bt) + unat (bk_size bt) < 2 ^ 32"
      using assms(2) snoc by (auto simp: ranges_fit_def)
    ultimately show ?thesis using snoc assms(4) rx by (simp add: touches_front_def touch_iff)
  qed (use assms(4) in \<open>simp add: touches_front_def\<close>)
  show "(if next_ptr bx \<noteq> NULL
      then bindE (load h (next_ptr bx)) (\<lambda>nx. Inr (pageno bx + bk_size bx = pageno nx)) else Inr False)
      = Inr (touches_back (range_at h x) (ranges h bs))"
  proof (cases bs)
    case (Cons t us)
    then obtain bt where bt: "h t = Some bt" "t \<noteq> NULL" "range_at h t = (unat (pageno bt), unat (bk_size bt))"
      using assms(1) by (auto elim: lists_at)
    moreover have "unat (pageno bx) + unat (bk_size bx) < 2 ^ 32"
      using assms(2) rx by (auto simp: ranges_fit_def)
    ultimately show ?thesis using Cons assms(5) rx by (simp add: touches_back_def touch_iff)
  qed (use assms(5) in \<open>simp add: touches_back_def\<close>)
qed

lemma optimize_step_front:
  assumes "vm_lists h b (as @ x # bs) w ws" "ranges_fit (ranges h (as @ x # bs))" "h x = Some bx"
    and "prev_ptr bx = last_of NULL as"
  defines "f \<equiv> touches_front (ranges h as) (range_at h x)"
  shows "\<exists>h1 b1 w1 as1 ws1.
    (if f then merge_front h b w x else Inr (h, b, w)) = Inr (h1, b1, w1) \<and>
    vm_lists h1 b1 (as1 @ x # bs) w1 ws1 \<and>
    ranges h1 as1 = (if f then butlast (ranges h as) else ranges h as) \<and> ranges h1 bs = ranges h bs \<and>
    range_at h1 x = (if f then fst (last (ranges h as)) else fst (range_at h x),
      (if f then snd (last (ranges h as)) else 0) + snd (range_at h x)) \<and>
    set (as1 @ x # bs) \<union> set ws1 = set (as @ x # bs) \<union> set ws \<and> agree (set (as @ x # bs) \<union> set ws) h h1"
proof (cases f)
  case False
  with assms(1) show ?thesis by (intro exI [of _ h] exI [of _ b] exI [of _ w] exI [of _ as] exI [of _ ws]) simp
next
  case True
  then obtain us t where as: "as = us @ [t]" by (cases as rule: rev_cases) (auto simp: f_def touches_front_def)
  have rx: "range_at h x = (unat (pageno bx), unat (bk_size bx))" using assms(3) by (rule range_at_Some)
  obtain bt where bt: "h t = Some bt" "t \<noteq> NULL" "range_at h t = (unat (pageno bt), unat (bk_size bt))"
    using assms(1) as by (auto elim: lists_at)
  have x0: "x \<noteq> NULL" using assms(1) by (auto elim: lists_mid)
  have "unat (pageno bt) + unat (bk_size bt) = unat (pageno bx)"
    using True as bt(3) rx by (simp add: f_def touches_front_def)
  moreover have "unat (pageno bx) + unat (bk_size bx) < 2 ^ 32" using assms(2) rx by (auto simp: ranges_fit_def)
  ultimately have "unat (bk_size bt) + unat (bk_size bx) < 2 ^ 32" by linarith
  moreover have "vm_lists h b (us @ t # x # bs) w ws" using assms(1) as by simp
  ultimately obtain h1 b1 h2 where
    s: "ll_remove_item (h(x \<mapsto> bx\<lparr>pageno := pageno bt, bk_size := bk_size bx + bk_size bt\<rparr>)) b t = Inr (h1, b1)"
    "ll_push_item h1 w t = Inr (h2, t)"
    "vm_lists h2 b1 (us @ x # bs) t (t # ws)" "ranges h2 us = ranges h us" "ranges h2 bs = ranges h bs"
    "range_at h2 x = (unat (pageno bt), unat (bk_size bt) + unat (bk_size bx))"
    "agree (set (us @ t # x # bs) \<union> set ws) h h2"
    using optimize_front [of h b us t x bs w ws bx bt] assms(3) bt(1) by blast
  have "set (us @ x # bs) \<union> set (t # ws) = set (as @ x # bs) \<union> set ws" using as by auto
  then show ?thesis using s True as bt rx assms(3,4) x0
    by (intro exI [of _ h2] exI [of _ b1] exI [of _ t] exI [of _ us] exI [of _ "t # ws"])
      (simp add: merge_front_def Let_def insert_commute)
qed

lemma optimize_step_back:
  assumes "vm_lists h b (as @ x # t # bs) w ws"
    and "snd (range_at h x) + snd (range_at h t) < 2 ^ 32"
  shows "\<exists>h1 b1 w1 ws1.
    merge_back h b w x = Inr (h1, b1, w1) \<and>
    vm_lists h1 b1 (as @ x # bs) w1 ws1 \<and> ranges h1 as = ranges h as \<and> ranges h1 bs = ranges h bs \<and>
    range_at h1 x = (fst (range_at h x), snd (range_at h x) + snd (range_at h t)) \<and>
    set (as @ x # bs) \<union> set ws1 = set (as @ x # t # bs) \<union> set ws \<and>
    agree (set (as @ x # t # bs) \<union> set ws) h h1"
proof -
  from assms(1) obtain bx where bx: "h x = Some bx" "x \<noteq> NULL" "next_ptr bx = t" by (auto elim: lists_mid)
  obtain bt where bt: "h t = Some bt" "t \<noteq> NULL" "range_at h t = (unat (pageno bt), unat (bk_size bt))"
    using assms(1) by (auto elim: lists_at)
  have rx: "range_at h x = (unat (pageno bx), unat (bk_size bx))" using bx(1) by (rule range_at_Some)
  obtain h1 b1 h2 where
    s: "ll_remove_item (h(x \<mapsto> bx\<lparr>bk_size := bk_size bx + bk_size bt\<rparr>)) b t = Inr (h1, b1)"
    "ll_push_item h1 w t = Inr (h2, t)"
    "vm_lists h2 b1 (as @ x # bs) t (t # ws)" "ranges h2 as = ranges h as" "ranges h2 bs = ranges h bs"
    "range_at h2 x = (unat (pageno bx), unat (bk_size bx) + unat (bk_size bt))"
    "agree (set (as @ x # t # bs) \<union> set ws) h h2"
    using optimize_back [OF assms(1) bx(1) bt(1)] assms(2) bt(3) rx by auto
  have "set (as @ x # bs) \<union> set (t # ws) = set (as @ x # t # bs) \<union> set ws" by auto
  then show ?thesis using s bx bt rx
    by (intro exI [of _ h2] exI [of _ b1] exI [of _ t] exI [of _ "t # ws"]) (simp add: merge_back_def Let_def)
qed

lemma optimize_spec:
  assumes "vm_lists h b (as @ x # bs) w ws" "ranges_fit (ranges h (as @ x # bs))"
  shows "\<exists>h' b' w' xs' ws'. vm_optimize h b w x = Inr (h', b', w') \<and> vm_lists h' b' xs' w' ws' \<and>
    ranges h' xs' = merge_at (ranges h as) (range_at h x) (ranges h bs) \<and>
    set xs' \<union> set ws' = set (as @ x # bs) \<union> set ws \<and> agree (set (as @ x # bs) \<union> set ws) h h'"
proof -
  let ?S = "set (as @ x # bs) \<union> set ws"
  from assms(1) obtain bx where bx: "h x = Some bx" "x \<noteq> NULL" "prev_ptr bx = last_of NULL as"
    "next_ptr bx = (case bs of [] \<Rightarrow> NULL | y # zs \<Rightarrow> y)" by (rule lists_mid)
  note cond = optimize_conditions [OF assms bx(1,3,4)]
  let ?f = "touches_front (ranges h as) (range_at h x)"
  let ?g = "touches_back (range_at h x) (ranges h bs)"
  from optimize_step_front [OF assms bx(1,3)] obtain h1 b1 w1 as1 ws1 where
    s1: "(if ?f then merge_front h b w x else Inr (h, b, w)) = Inr (h1, b1, w1)"
    and l1: "vm_lists h1 b1 (as1 @ x # bs) w1 ws1"
    and r1: "ranges h1 as1 = (if ?f then butlast (ranges h as) else ranges h as)" "ranges h1 bs = ranges h bs"
      "range_at h1 x = (if ?f then fst (last (ranges h as)) else fst (range_at h x),
        (if ?f then snd (last (ranges h as)) else 0) + snd (range_at h x))"
    and u1: "set (as1 @ x # bs) \<union> set ws1 = ?S" and a1: "agree ?S h h1" by blast
  have run: "vm_optimize h b w x = (if ?g then merge_back h1 b1 w1 x else Inr (h1, b1, w1))"
    unfolding vm_optimize_def load_Some [of h, OF bx(1,2)] bindE_Inr cond s1 prod.case by (rule refl)
  show ?thesis
  proof (cases ?g)
    case False
    then show ?thesis using run l1 r1 u1 a1
      by (intro exI [of _ h1] exI [of _ b1] exI [of _ w1] exI [of _ "as1 @ x # bs"] exI [of _ ws1])
        (simp add: merge_at_def Let_def)
  next
    case True
    then obtain t cs where bs: "bs = t # cs" by (cases bs) (auto simp: touches_back_def)
    have rt: "range_at h1 t = range_at h t" "ranges h1 cs = ranges h cs" using r1(2) bs by auto
    have e: "snd (range_at h1 x) \<le> fst (range_at h x) + snd (range_at h x)"
      using r1(3) by (auto simp: touches_front_def)
    have "fst (range_at h x) + snd (range_at h x) = fst (range_at h t)" using True bs by (simp add: touches_back_def)
    moreover have "fst (range_at h t) + snd (range_at h t) < 2 ^ 32"
      using assms(2) bs by (auto simp: ranges_fit_def split: prod.splits)
    ultimately have "snd (range_at h1 x) + snd (range_at h1 t) < 2 ^ 32" using e by (simp add: rt)
    from optimize_step_back [OF l1 [unfolded bs] this] obtain h2 b2 w2 ws2 where
      s2: "merge_back h1 b1 w1 x = Inr (h2, b2, w2)"
      and l2: "vm_lists h2 b2 (as1 @ x # cs) w2 ws2"
      and r2: "ranges h2 as1 = ranges h1 as1" "ranges h2 cs = ranges h1 cs"
        "range_at h2 x = (fst (range_at h1 x), snd (range_at h1 x) + snd (range_at h1 t))"
      and u2: "set (as1 @ x # cs) \<union> set ws2 = set (as1 @ x # t # cs) \<union> set ws1"
      and a2: "agree (set (as1 @ x # t # cs) \<union> set ws1) h1 h2" by blast
    have "agree ?S h1 h2" using a2 unfolding u1 [unfolded bs] bs .
    then have "agree ?S h h2" by (rule agree_trans [OF a1])
    moreover have "ranges h2 (as1 @ x # cs) = merge_at (ranges h as) (range_at h x) (ranges h bs)"
      using r1 r2 rt True bs by (simp add: merge_at_def Let_def)
    moreover have "set (as1 @ x # cs) \<union> set ws2 = ?S" using u2 u1 bs by simp
    moreover have "vm_optimize h b w x = Inr (h2, b2, w2)" using run True s2 by simp
    ultimately show ?thesis using l2 by blast
  qed
qed

text \<open>Returning pages: the search, the merge as the reference insertion, and the whole operation.\<close>

lemma find_behind_spec:
  assumes "dseg h q p xs NULL"
  shows "\<exists>r. find_behind h p n = Some (Inr r) \<and>
    (r = NULL \<and> (\<forall>y \<in> set (ranges h xs). fst y \<le> unat n) \<or>
     (\<exists>as bs. xs = as @ r # bs \<and> r \<noteq> NULL \<and> unat n < fst (range_at h r) \<and>
       (\<forall>y \<in> set (ranges h as). fst y \<le> unat n)))"
  using assms
proof (induction xs arbitrary: q p)
  case Nil
  then show ?case by (simp add: find_behind.simps)
next
  case (Cons x xs)
  then obtain b where b: "p = x" "x \<noteq> NULL" "h x = Some b" "dseg h x (next_ptr b) xs NULL" by auto
  show ?case
  proof (cases "pageno b \<le> n")
    case False
    then have "find_behind h p n = Some (Inr x)" using b by (simp add: find_behind.simps)
    moreover have "unat n < fst (range_at h x)" using False b by (simp add: range_at_Some word_le_nat_alt)
    ultimately show ?thesis using b by (intro exI [of _ x]) (auto intro: exI [of _ "[]"])
  next
    case True
    then have f: "find_behind h p n = find_behind h (next_ptr b) n" using b by (subst find_behind.simps) simp
    have small: "fst (range_at h x) \<le> unat n" using True b by (simp add: range_at_Some word_le_nat_alt)
    from Cons.IH [OF b(4)] obtain r where r: "find_behind h (next_ptr b) n = Some (Inr r)"
      "r = NULL \<and> (\<forall>y \<in> set (ranges h xs). fst y \<le> unat n) \<or>
       (\<exists>as bs. xs = as @ r # bs \<and> r \<noteq> NULL \<and> unat n < fst (range_at h r) \<and>
         (\<forall>y \<in> set (ranges h as). fst y \<le> unat n))" by blast
    from r(2) show ?thesis
    proof (elim disjE exE conjE)
      assume "r = NULL" "\<forall>y \<in> set (ranges h xs). fst y \<le> unat n"
      then show ?thesis using r(1) f small by auto
    next
      fix as bs
      assume "xs = as @ r # bs" "r \<noteq> NULL" "unat n < fst (range_at h r)"
        "\<forall>y \<in> set (ranges h as). fst y \<le> unat n"
      then have "x # xs = (x # as) @ r # bs" "\<forall>y \<in> set (ranges h (x # as)). fst y \<le> unat n"
        using small by auto
      then show ?thesis using r(1) f \<open>r \<noteq> NULL\<close> \<open>unat n < fst (range_at h r)\<close> by (metis (no_types))
    qed
  qed
qed

lemma find_behind_some:
  assumes "dseg h q p xs NULL" "\<exists>y \<in> set (ranges h xs). unat n < fst y"
  obtains r as bs where "find_behind h p n = Some (Inr r)" "xs = as @ r # bs" "r \<noteq> NULL"
    "unat n < fst (range_at h r)" "\<forall>y \<in> set (ranges h as). fst y \<le> unat n"
proof -
  have "\<not> (\<forall>y \<in> set (ranges h xs). fst y \<le> unat n)" using assms(2) by (meson leD)
  then show thesis using find_behind_spec [OF assms(1), of n] that by blast
qed

lemma find_behind_none:
  assumes "dseg h q p xs NULL" "\<forall>y \<in> set (ranges h xs). fst y \<le> unat n"
  shows "find_behind h p n = Some (Inr NULL)"
proof (rule ccontr)
  assume *: "find_behind h p n \<noteq> Some (Inr NULL)"
  from find_behind_spec [OF assms(1), of n] obtain r where
    r: "find_behind h p n = Some (Inr r)" "r = NULL \<and> (\<forall>y \<in> set (ranges h xs). fst y \<le> unat n) \<or>
     (\<exists>as bs. xs = as @ r # bs \<and> r \<noteq> NULL \<and> unat n < fst (range_at h r) \<and>
       (\<forall>y \<in> set (ranges h as). fst y \<le> unat n))" by blast
  from * r(1) have "r \<noteq> NULL" by auto
  with r(2) obtain as bs where x: "xs = as @ r # bs" "unat n < fst (range_at h r)" by blast
  have "range_at h r \<in> set (ranges h xs)" using x(1) by simp
  with assms(2) have "fst (range_at h r) \<le> unat n" by blast
  with x(2) show False by simp
qed

lemma merge_at_Cons: "ls \<noteq> [] \<Longrightarrow> merge_at (l # ls) r rs = l # merge_at ls r rs"
  by (simp add: merge_at_def touches_front_def Let_def)

lemma merge_at_free_insert:
  assumes "coalesced (ls @ rs)" "\<forall>y \<in> set ls. fst y \<le> p" "rs = [] \<or> p < fst (hd rs)"
  shows "merge_at ls (p, n) rs = free_insert p n (ls @ rs)"
  using assms
proof (induction ls)
  case Nil
  then show ?case by (cases rs) (auto simp: merge_at_def touches_front_def touches_back_def Let_def)
next
  case (Cons l ls)
  obtain p0 s0 where l: "l = (p0, s0)" by (cases l)
  have c: "\<forall>(p', s') \<in> set (ls @ rs). p0 + s0 < p'" "coalesced (ls @ rs)"
    using Cons.prems(1) l by (simp_all add: coalesced_Cons)
  have IH: "merge_at ls (p, n) rs = free_insert p n (ls @ rs)" using Cons c(2) by simp
  show ?case
  proof (cases ls)
    case Nil
    have *: "merge_at [] (p, n) rs = free_insert p n rs" using IH Nil by simp
    show ?thesis
    proof (cases "p0 + s0 = p")
      case True
      then show ?thesis using Nil l Cons.prems(2)
        by (cases rs) (auto simp: merge_at_def touches_front_def touches_back_def Let_def)
    next
      case False
      then have "merge_at [l] (p, n) rs = l # merge_at [] (p, n) rs"
        using l by (simp add: merge_at_def touches_front_def Let_def)
      then show ?thesis using False Nil l * Cons.prems(2) by simp
    qed
  next
    case (Cons m ms)
    then have "p0 + s0 < p" using c(1) \<open>\<forall>y \<in> set (l # ls). fst y \<le> p\<close> by fastforce
    then show ?thesis using IH Cons l merge_at_Cons [of ls l] by simp
  qed
qed

lemma return_found:
  assumes "vm_lists h b (as @ r # bs) w ws" "it \<noteq> NULL" "h it = Some bi" "it \<notin> set (as @ r # bs) \<union> set ws"
    and "ranges_fit (ranges h (as @ r # bs))" "fst (range_at h it) + snd (range_at h it) < 2 ^ 32"
  shows "\<exists>h1 b1 h' b' w' xs' ws'. ll_insert_before h b it r = Inr (h1, b1) \<and>
    vm_optimize h1 b1 w it = Inr (h', b', w') \<and> vm_lists h' b' xs' w' ws' \<and>
    ranges h' xs' = merge_at (ranges h as) (range_at h it) (ranges h (r # bs)) \<and>
    set xs' \<union> set ws' = insert it (set (as @ r # bs) \<union> set ws) \<and>
    agree (insert it (set (as @ r # bs) \<union> set ws)) h h'"
proof -
  let ?S = "insert it (set (as @ r # bs) \<union> set ws)"
  from assms(1) obtain q where l: "dll h b (as @ r # bs)" "dseg h q w ws NULL" "distinct ws"
    "set (as @ r # bs) \<inter> set ws = {}" unfolding vm_lists_def by blast
  have "it \<notin> set (as @ r # bs)" "h it \<noteq> None" using assms(3,4) by auto
  from insert_before_spec [OF l(1) this(1) assms(2) this(2)] obtain h1 b1 where
    h1: "ll_insert_before h b it r = Inr (h1, b1)" "dll h1 b1 (as @ it # r # bs)" "bvals h1 = bvals h"
    "agree (insert it (set (as @ r # bs))) h h1" by blast
  have "insert it (set (as @ r # bs)) \<inter> set ws = {}" using l(4) assms(4) by blast
  then have "dseg h1 q w ws NULL" using dseg_agree [OF h1(4)] l(2) by blast
  then have l1: "vm_lists h1 b1 (as @ it # r # bs) w ws" using h1(2) l(3,4) assms(4) by (auto simp: vm_lists_def)
  have e: "range_at h1 it = range_at h it" "ranges h1 zs = ranges h zs" for zs
    using h1(3) ranges_bvals [OF h1(3)] by (simp_all add: range_at_def)
  have "ranges_fit (ranges h1 (as @ it # r # bs))"
    using assms(5,6) unfolding e(2) by (auto simp: ranges_fit_def split: prod.splits)
  from optimize_spec [OF l1 this] obtain h' b' w' xs' ws' where
    o: "vm_optimize h1 b1 w it = Inr (h', b', w')" "vm_lists h' b' xs' w' ws'"
    "ranges h' xs' = merge_at (ranges h1 as) (range_at h1 it) (ranges h1 (r # bs))"
    "set xs' \<union> set ws' = set (as @ it # r # bs) \<union> set ws" "agree (set (as @ it # r # bs) \<union> set ws) h1 h'"
    by blast
  have s: "set (as @ it # r # bs) \<union> set ws = ?S" by auto
  have "agree ?S h h1" by (rule agree_mono [OF h1(4)]) auto
  then have "agree ?S h h'" using o(5) agree_trans unfolding s by blast
  then show ?thesis using h1(1) o(1-4) unfolding e s by blast
qed

lemma return_empty:
  assumes "vm_lists h NULL [] w ws" "unlinked h it" "it \<notin> set ws"
  shows "\<exists>h'. ll_push_item h NULL it = Inr (h', it) \<and> vm_lists h' it [it] w ws \<and>
    ranges h' [it] = ranges h [it] \<and> agree {it} h h'"
proof -
  from assms(1) obtain q where l: "dseg h NULL NULL [] NULL" "dseg h q w ws NULL" "distinct ws"
    by (auto simp: vm_lists_def dll_def)
  from push_spec [OF l(1) _ assms(2)] obtain h2 where
    h2: "ll_push_item h NULL it = Inr (h2, it)" "dll h2 it [it]" "bvals h2 = bvals h" "agree {it} h h2" by auto
  have "dseg h2 q w ws NULL" using dseg_agree [OF h2(4)] assms(3) l(2) by simp
  then have "vm_lists h2 it [it] w ws" using h2(2) l(3) assms(3) by (auto simp: vm_lists_def)
  then show ?thesis using h2 ranges_bvals by blast
qed

lemma return_refines:
  assumes "vm_lists h b xs w ws" "unlinked h it" "it \<notin> set xs \<union> set ws"
    and "coalesced (ranges h xs)" "ranges_fit (ranges h xs)" "unat p + unat n < 2 ^ 32"
    and "xs = [] \<or> (\<exists>y \<in> set (ranges h xs). unat p < fst y)"
  shows "\<exists>h' b' w' xs' ws'. return_item h b w it n p = Inr (h', b', w') \<and> vm_lists h' b' xs' w' ws' \<and>
    ranges h' xs' = free_insert (unat p) (unat n) (ranges h xs) \<and>
    set xs' \<union> set ws' = insert it (set xs \<union> set ws) \<and> agree (insert it (set xs \<union> set ws)) h h'"
proof -
  let ?S = "insert it (set xs \<union> set ws)"
  from assms(2) obtain bi where bi: "h it = Some bi" "it \<noteq> NULL" "next_ptr bi = NULL" "prev_ptr bi = NULL"
    by (auto simp: unlinked_def)
  define bi' where "bi' = bi\<lparr>pageno := p, bk_size := n\<rparr>"
  define h1 where "h1 = h(it \<mapsto> bi')"
  have l1: "vm_lists h1 b xs w ws" using assms(1) bi(1) lists_values [of h it bi bi'] by (simp add: bi'_def h1_def)
  have r1: "ranges h1 xs = ranges h xs" "range_at h1 it = (unat p, unat n)" "h1 it = Some bi'"
    using assms(3) by (simp_all add: h1_def range_at_Some bi'_def)
  have st: "store h it (\<lambda>b. b\<lparr>pageno := p, bk_size := n\<rparr>) = Inr h1" using bi by (simp add: h1_def bi'_def)
  have a1: "agree ?S h h1" by (simp add: h1_def)
  have d: "dseg h1 NULL b xs NULL" using l1 by (simp add: vm_lists_def dll_def)
  show ?thesis
  proof (cases "xs = []")
    case True
    then have b: "b = NULL" using d by simp
    have "unlinked h1 it" using bi by (simp add: unlinked_def h1_def bi'_def)
    with return_empty [of h1 w ws it] l1 True b assms(3) obtain h2 where
      h2: "ll_push_item h1 NULL it = Inr (h2, it)" "vm_lists h2 it [it] w ws"
        "ranges h2 [it] = ranges h1 [it]" "agree {it} h1 h2" by blast
    have "agree ?S h h2" using a1 agree_mono [OF h2(4), of ?S] by (auto intro: agree_trans)
    moreover have "return_item h b w it n p = Inr (h2, it, w)"
      using st h2(1) b bi(2) by (simp add: return_item_def)
    ultimately show ?thesis using True h2 r1
      by (intro exI [of _ h2] exI [of _ it] exI [of _ w] exI [of _ "[it]"] exI [of _ ws]) simp
  next
    case False
    then have "\<exists>y \<in> set (ranges h1 xs). unat p < fst y" using assms(7) r1(1) by simp
    from find_behind_some [OF d this] obtain r as bs where
      r: "find_behind h1 b p = Some (Inr r)" "xs = as @ r # bs" "r \<noteq> NULL" "unat p < fst (range_at h1 r)"
        "\<forall>y \<in> set (ranges h1 as). fst y \<le> unat p" .
    have fit: "ranges_fit (ranges h1 (as @ r # bs))" "fst (range_at h1 it) + snd (range_at h1 it) < 2 ^ 32"
      using assms(5,6) r1 r(2) by simp_all
    from return_found [OF l1 [unfolded r(2)] bi(2) r1(3) assms(3) [unfolded r(2)] fit, folded r(2)]
    obtain h2 b1 h' b' w' xs' ws' where
      o: "ll_insert_before h1 b it r = Inr (h2, b1)" "vm_optimize h2 b1 w it = Inr (h', b', w')"
        "vm_lists h' b' xs' w' ws'" "set xs' \<union> set ws' = ?S" "agree ?S h1 h'"
        "ranges h' xs' = merge_at (ranges h1 as) (range_at h1 it) (ranges h1 (r # bs))" by blast
    have "ranges h' xs' = free_insert (unat p) (unat n) (ranges h xs)"
      using merge_at_free_insert [of "ranges h1 as" "ranges h1 (r # bs)"] assms(4) r o(6) r1 by simp
    moreover have "b \<noteq> NULL" using d False by (cases xs) auto
    then have "return_item h b w it n p = Inr (h', b', w')"
      using st bi(2) r(1,3) o(1,2) by (simp add: return_item_def)
    ultimately show ?thesis using o(3-5) agree_trans [OF a1] by blast
  qed
qed

text \<open>Without a bucket behind the returned pages the list is non-empty and the append panics.\<close>

lemma return_panics:
  assumes "vm_lists h b xs w ws" "h it = Some bi" "it \<noteq> NULL" "it \<notin> set xs" "xs \<noteq> []"
    and "\<forall>y \<in> set (ranges h xs). fst y \<le> unat p"
  shows "return_item h b w it n p = Inl (Panic ''olditem'')"
proof -
  let ?h = "h(it \<mapsto> bi\<lparr>pageno := p, bk_size := n\<rparr>)"
  have d: "dseg ?h NULL b xs NULL" "ranges ?h xs = ranges h xs"
    using assms(1,4) by (simp_all add: vm_lists_def dll_def)
  have "find_behind ?h b p = Some (Inr NULL)" using find_behind_none [OF d(1)] assms(6) d(2) by simp
  moreover have "b \<noteq> NULL" using d(1) assms(5) by (cases xs) auto
  ultimately show ?thesis using assms(2,3) by (simp add: return_item_def ll_append_notempty_def)
qed

section \<open>Interpretations\<close>

lemma coalesced_run:
  assumes "coalesced rs" "0 < n" "{q ..< q + n} \<subseteq> covered rs"
  shows "\<exists>r \<in> set rs. n \<le> snd r"
  using assms
proof (induction rs)
  case (Cons r rs)
  obtain p s where r: "r = (p, s)" by (cases r)
  have c: "coalesced rs" "\<forall>(p', s') \<in> set rs. p + s < p'" using Cons.prems(1) r by (simp_all add: coalesced_Cons)
  have gap: "p + s \<notin> covered (r # rs)" using covered_above [OF c(2), of "p + s"] r by auto
  show ?case
  proof (cases "q < p + s")
    case True
    have "q + n \<le> p + s" using gap Cons.prems(3) True by (metis atLeastLessThan_iff less_or_eq_imp_le not_less subsetD)
    moreover have "p \<le> q"
    proof -
      have "q \<in> covered (r # rs)" using Cons.prems(2,3) by auto
      then show ?thesis using covered_above [OF c(2), of q] r True by auto
    qed
    ultimately show ?thesis using r by auto
  next
    case False
    then have "{q ..< q + n} \<subseteq> covered rs" using Cons.prems(3) r by auto
    then show ?thesis using Cons.IH [OF c(1) Cons.prems(2)] by auto
  qed
qed simp

lemma first_fit_complete: "r \<in> set rs \<Longrightarrow> n \<le> snd r \<Longrightarrow> first_fit n rs \<noteq> None"
  by (induction rs) auto

lemma first_fit_fit: "first_fit n rs = Some (q, rs') \<Longrightarrow> ranges_fit rs \<Longrightarrow> ranges_fit rs' \<and> q < 2 ^ 32"
  by (induction n rs arbitrary: q rs' rule: first_fit.induct) (auto simp: ranges_fit_def split: if_splits)

interpretation ff: page_source "\<lambda>rs F. coalesced rs \<and> covered rs = F" "\<lambda>n. first_fit (unat n)"
proof
  fix s :: "range list" and F n q s'
  assume "coalesced s \<and> covered s = F" "first_fit (unat n) s = Some (q, s')"
  then show "{q ..< q + unat n} \<subseteq> F \<and> coalesced s' \<and> covered s' = F - {q ..< q + unat n}"
    using first_fit_spec [of s "unat n" q s'] by blast
next
  fix s :: "range list" and F and n :: size_t and q
  assume "coalesced s \<and> covered s = F" "0 < n" "{q ..< q + unat n} \<subseteq> F"
  then show "first_fit (unat n) s \<noteq> None"
    using coalesced_run [of s "unat n" q] first_fit_complete by (metis unat_gt_0 word_neq_0_conv)
qed

lemma reserve_op_cases:
  assumes "vm_lists h b xs w ws" "ranges_fit (ranges h xs)"
  shows "reserve_op n (h, b, w) = None \<longleftrightarrow> first_fit (unat n) (ranges h xs) = None"
    and "reserve_op n (h, b, w) = Some (q, h', b', w') \<Longrightarrow>
      \<exists>xs' ws'. first_fit (unat n) (ranges h xs) = Some (q, ranges h' xs') \<and> vm_lists h' b' xs' w' ws'"
  using reserve_refines [OF assms, of n] first_fit_fit [OF _ assms(2), of "unat n"]
  by (auto split: option.splits simp: unat_u32_of_nat) (metis (no_types))

interpretation vb: page_source bucket_repr reserve_op
proof
  fix s F n q s'
  assume a: "bucket_repr s F" "reserve_op n s = Some (q, s')"
  obtain h b w h' b' w' where s: "s = (h, b, w)" "s' = (h', b', w')" by (metis prod_cases3)
  with a obtain xs ws where x: "vm_lists h b xs w ws" "coalesced (ranges h xs)" "ranges_fit (ranges h xs)"
    "covered (ranges h xs) = F" by auto
  from reserve_op_cases(2) [OF x(1,3)] a(2) s obtain xs' ws' where
    r: "first_fit (unat n) (ranges h xs) = Some (q, ranges h' xs')" "vm_lists h' b' xs' w' ws'" by blast
  show "{q ..< q + unat n} \<subseteq> F \<and> bucket_repr s' (F - {q ..< q + unat n})"
    using ff.reserve_some [of "ranges h xs" F n q] first_fit_fit [OF r(1) x(3)] r x s by auto
next
  fix s F q and n :: size_t
  assume a: "bucket_repr s F" "0 < n" "{q ..< q + unat n} \<subseteq> F"
  obtain h b w where s: "s = (h, b, w)" by (metis prod_cases3)
  with a obtain xs ws where x: "vm_lists h b xs w ws" "coalesced (ranges h xs)" "ranges_fit (ranges h xs)"
    "covered (ranges h xs) = F" by auto
  then show "reserve_op n s \<noteq> None"
    using ff.reserve_complete [of "ranges h xs" F n q] a(2,3) reserve_op_cases(1) [OF x(1,3)] s by simp
qed

section \<open>Properties\<close>

lemma bucket_example_lists:
  "vm_lists bucket_example 0x100 [0x100, 0x110] 0x120 [0x120]" "unlinked bucket_example 0x130"
  by (simp_all add: vm_lists_def dll_def bucket_example_def NULL_def unlinked_def)

lemma bucket_example_ranges: "ranges bucket_example [0x100, 0x110] = [(10, 2), (20, 5)]"
  by (simp add: range_at_def bvals_def bucket_example_def)

lemma bucket_example_fit: "ranges_fit [(10, 2), (20, 5)]" "coalesced [(10, 2), (20, 5)]"
  by (simp_all add: ranges_fit_def coalesced_Cons)

text \<open>
  On well-formed lists \<^verbatim>\<open>vm_reserve_pages\<close> refines first fit on the list of free ranges:
  it returns \<^verbatim>\<open>E_NOMEM\<close> and changes nothing when no range is large enough; otherwise it returns
  \<^verbatim>\<open>E_OK\<close> with the first page of the first range that fits, shortens this range, or moves its
  bucket to the waiting list when it is used up, and leaves all other memory alone.
\<close>

lemma vm_reserve_pages_first_fit:
  assumes "vm_lists h b xs w ws" "ranges_fit (ranges h xs)"
  shows "case first_fit (unat n) (ranges h xs) of
      None \<Rightarrow> vm_reserve_pages h b w n = Inr (E_NOMEM, None, h, b, w)
    | Some (q, rs) \<Rightarrow> \<exists>h' b' w' xs' ws'.
        vm_reserve_pages h b w n = Inr (E_OK, Some (of_nat q), h', b', w') \<and>
        vm_lists h' b' xs' w' ws' \<and> ranges h' xs' = rs \<and>
        set xs' \<union> set ws' = set xs \<union> set ws \<and> agree (set xs \<union> set ws) h h'"
  by (rule reserve_refines [OF assms])



text \<open>
  C12. Returning a page range that overlaps no free page, with a free range behind it or with an
  empty list, makes exactly these pages free: the list is still sorted, and ranges that touch are
  merged into one, their spare buckets moving to the waiting list.
\<close>

theorem vm_return_pages_merges:
  assumes "vm_lists h b xs w ws" "unlinked h it" "it \<notin> set xs \<union> set ws"
    and "coalesced (ranges h xs)" "ranges_fit (ranges h xs)" "unat p + unat n < 2 ^ 32" "0 < n"
    and "{unat p ..< unat p + unat n} \<inter> covered (ranges h xs) = {}"
    and "xs = [] \<or> (\<exists>y \<in> set (ranges h xs). unat p < fst y)"
  shows "\<exists>h' b' w' xs' ws'. return_item h b w it n p = Inr (h', b', w') \<and> vm_lists h' b' xs' w' ws' \<and>
    coalesced (ranges h' xs') \<and>
    covered (ranges h' xs') = covered (ranges h xs) \<union> {unat p ..< unat p + unat n} \<and>
    set xs' \<union> set ws' = insert it (set xs \<union> set ws) \<and> agree (insert it (set xs \<union> set ws)) h h'"
proof -
  have "0 < unat n" using assms(7) by (simp add: unat_gt_0)
  from free_insert_spec [OF assms(4) this assms(8)] return_refines [OF assms(1-6,9)]
  show ?thesis by (metis (no_types, lifting))
qed

theorem vm_return_pages_merges_witness:
  "unlinked bucket_example 0x130 \<and>
   (\<exists>h' b' w' xs' ws'. return_item bucket_example 0x100 0x120 0x130 8 12 = Inr (h', b', w') \<and>
     vm_lists h' b' xs' w' ws' \<and> coalesced (ranges h' xs') \<and> covered (ranges h' xs') = {10 ..< 25})"
proof -
  have F: "covered [(10, 2), (20, 5)] \<union> {unat (12 :: size_t) ..< unat (12 :: size_t) + unat (8 :: size_t)} = {10 ..< 25}"
    by auto
  have D: "{12 ..< 20} \<inter> ({10 ..< 12} \<union> {20 ..< 25}) = ({} :: nat set)" by auto
  show ?thesis
    using vm_return_pages_merges [of bucket_example "0x100" "[0x100, 0x110]" "0x120" "[0x120]" "0x130" 12 8]
      bucket_example_lists bucket_example_fit D unfolding bucket_example_ranges F by simp (metis (no_types))
qed

text \<open>
  When the returned pages lie behind the last free range, \<^verbatim>\<open>vm_return_pages\<close> calls
  \<^verbatim>\<open>ll_append_notempty\<close> with the null pointer its search loop ended with, and the kernel panics:
  only a range with a free range behind it can be given back to a non-empty list.
\<close>

lemma vm_return_pages_last_panics:
  assumes "vm_lists h b xs w ws" "unlinked h it" "it \<notin> set xs" "xs \<noteq> []"
    and "\<forall>y \<in> set (ranges h xs). fst y \<le> unat p"
  shows "return_item h b w it n p = Inl (Panic ''olditem'')"
  using return_panics [OF assms(1) _ _ assms(3-5)] assms(2) by (auto simp: unlinked_def)

end
