(* ===== verification/Paging.thy ===== *)
theory Paging
  imports Prelude
begin

text \<open>
  The page tables of \<^verbatim>\<open>kernel/memory/vm.c\<close>: \<^verbatim>\<open>as_map_kernel_table\<close>,
  \<^verbatim>\<open>switch_as\<close>, \<^verbatim>\<open>vm_map_page\<close> and \<^verbatim>\<open>vm_unmap_page\<close> on the statically
  allocated page directory and page tables, whose addresses the linker chooses. The specification
  is \<open>walk\<close>, the translation the processor performs from the control register \<^verbatim>\<open>cr3\<close>.
\<close>

section \<open>Model\<close>

text \<open>The bit fields of \<^verbatim>\<open>vm.h\<close>, at their widths.\<close>

record pte_t =
  pte_present :: "1 word"
  pte_rw :: "1 word"
  pte_user :: "1 word"
  pte_pwt :: "1 word"
  pte_pcd :: "1 word"
  pte_accessed :: "1 word"
  pte_dirty :: "1 word"
  pte_pat :: "1 word"
  pte_global :: "1 word"
  pte_ignored :: "3 word"
  pte_frame :: "20 word"

record pde_t =
  pde_present :: "1 word"
  pde_rw :: "1 word"
  pde_user :: "1 word"
  pde_pwt :: "1 word"
  pde_pcd :: "1 word"
  pde_accessed :: "1 word"
  pde_dirty :: "1 word"
  pde_page_size :: "1 word"
  pde_ignored :: "4 word"
  pde_page_table :: "20 word"

type_synonym page_table_t = "pte_t list"

type_synonym page_directory_t = "pde_t list"

record as_t =
  directory :: vaddr_t
  directory_phys :: paddr_t
  tables :: "vaddr_t list"

text \<open>
  The addresses of \<^verbatim>\<open>KERNEL_PAGE_DIRECTORY\<close>, \<^verbatim>\<open>KERNEL_PAGE_TABLES\<close> and
  \<^verbatim>\<open>vm_first_bucket\<close>. A pointer to an address space is null or points to
  \<^verbatim>\<open>vm_first_as\<close>, the only one there is.
\<close>

record linkage =
  KERNEL_PAGE_DIRECTORY :: vaddr_t
  KERNEL_PAGE_TABLES :: vaddr_t
  first_bucket_addr :: vaddr_t

datatype as_ptr = AS_NULL | AS_FIRST

record paging_state =
  page_directory :: page_directory_t
  page_tables :: "page_table_t list"
  vm_first_as :: as_t
  current_as :: as_ptr
  cr3 :: paddr_t

definition virtual2phys :: "vaddr_t \<Rightarrow> paddr_t" where
  "virtual2phys ptr = ptr - KERNEL_OFFSET"

definition deref_as :: "as_ptr \<Rightarrow> paging_state \<Rightarrow> as_t res" where
  "deref_as r s = (case r of AS_NULL \<Rightarrow> Inl (Undefined ''null address space'') | AS_FIRST \<Rightarrow> Inr (vm_first_as s))"

text \<open>The number of the page table a pointer points to, if it points to one.\<close>

definition table_addr :: "linkage \<Rightarrow> nat \<Rightarrow> vaddr_t" where
  "table_addr L i = KERNEL_PAGE_TABLES L + 4096 * of_nat i"

definition table_no :: "linkage \<Rightarrow> vaddr_t \<Rightarrow> nat option" where
  "table_no L t =
     (let d = unat (t - KERNEL_PAGE_TABLES L) in
      if t \<noteq> 0 \<and> d mod 4096 = 0 \<and> d div 4096 < 1024 then Some (d div 4096) else None)"

definition deref_table :: "linkage \<Rightarrow> vaddr_t \<Rightarrow> nat res" where
  "deref_table L t = (case table_no L t of None \<Rightarrow> Inl (Undefined ''invalid page table'') | Some i \<Rightarrow> Inr i)"

definition as_map_kernel_table :: "linkage \<Rightarrow> as_ptr \<Rightarrow> nat \<Rightarrow> pde_t \<Rightarrow> paging_state \<Rightarrow> paging_state res" where
  "as_map_kernel_table L r index flags s =
     (let table = table_addr L index in
      bindE (ASSERT (table = PAGE_ALIGN table) ''Table must be page-aligned'') (\<lambda>_.
      let flags = flags\<lparr>pde_page_table := ucast (drop_bit PAGE_BITS (virtual2phys table))\<rparr> in
      bindE (deref_as r s) (\<lambda>as.
      if directory as \<noteq> KERNEL_PAGE_DIRECTORY L \<or> 1024 \<le> index then Inl (Undefined ''page directory'')
      else Inr (s\<lparr>page_directory := (page_directory s)[index := flags],
                  vm_first_as := as\<lparr>tables := (tables as)[index := table]\<rparr>\<rparr>))))"

text \<open>\<^verbatim>\<open>set_page_directory\<close> of \<^verbatim>\<open>paging.asm\<close> loads \<^verbatim>\<open>cr3\<close>.\<close>

definition set_page_directory :: "paddr_t \<Rightarrow> paging_state \<Rightarrow> paging_state" where
  "set_page_directory addr s = s\<lparr>cr3 := addr\<rparr>"

definition switch_as :: "as_ptr \<Rightarrow> paging_state \<Rightarrow> paging_state res" where
  "switch_as new_as s =
     (let s1 = s\<lparr>current_as := new_as\<rparr> in
      bindE (deref_as new_as s1) (\<lambda>as. Inr (set_page_directory (directory_phys as) s1)))"

definition dir_idx :: "vaddr_t \<Rightarrow> nat" where
  "dir_idx vaddr = unat (drop_bit 22 vaddr)"

definition tab_idx :: "vaddr_t \<Rightarrow> nat" where
  "tab_idx vaddr = unat (drop_bit 12 vaddr AND 0x3FF)"

definition vm_map_page :: "linkage \<Rightarrow> as_ptr \<Rightarrow> paddr_t \<Rightarrow> vaddr_t \<Rightarrow> paging_state \<Rightarrow> paging_state res" where
  "vm_map_page L r paddr vaddr s =
     (let di = dir_idx vaddr; ti = tab_idx vaddr in
      bindE (ASSERT (paddr = PAGE_ALIGN paddr) ''paddr must be page-aligned'') (\<lambda>_.
      bindE (deref_as r s) (\<lambda>as.
      if directory as \<noteq> KERNEL_PAGE_DIRECTORY L then Inl (Undefined ''page directory'')
      else if pde_present (page_directory s ! di) = 0 then
        (if 0x300 \<le> di then Inl (Panic ''Kernel directory entry should always be present'')
         else Inl (Panic ''Not implemented''))
      else
        bindE (deref_table L (tables as ! di)) (\<lambda>t.
        let e = page_tables s ! t ! ti;
            e' = e\<lparr>pte_frame := ucast (drop_bit PAGE_BITS paddr), pte_present := 1, pte_rw := 1\<rparr>
        in Inr (s\<lparr>page_tables := (page_tables s)[t := (page_tables s ! t)[ti := e']]\<rparr>)))))"

definition vm_unmap_page :: "linkage \<Rightarrow> vaddr_t \<Rightarrow> paging_state \<Rightarrow> (paddr_t \<times> paging_state) res" where
  "vm_unmap_page L vaddr s =
     (let di = dir_idx vaddr; ti = tab_idx vaddr in
      bindE (deref_as (current_as s) s) (\<lambda>as.
      bindE (deref_table L (tables as ! di)) (\<lambda>t.
      let e = page_tables s ! t ! ti;
          paddr = push_bit PAGE_BITS (ucast (pte_frame e));
          e' = e\<lparr>pte_present := 0, pte_frame := 0\<rparr>
      in Inr (paddr, s\<lparr>page_tables := (page_tables s)[t := (page_tables s ! t)[ti := e']]\<rparr>))))"

text \<open>
  \<^verbatim>\<open>vm_dma\<close> maps whole pages only: a size that is not a multiple of the page size loses its
  tail.
\<close>

definition vm_dma :: "linkage \<Rightarrow> paddr_t \<Rightarrow> vaddr_t \<Rightarrow> size_t \<Rightarrow> paging_state \<Rightarrow> paging_state res" where
  "vm_dma L paddr vaddr sz s =
     (let pages = sz div PAGE_SIZE in
      for_each [0..<unat pages]
        (\<lambda>i s. vm_map_page L (current_as s) (paddr + of_nat i * PAGE_SIZE) (vaddr + of_nat i * PAGE_SIZE) s) s)"

text \<open>
  The part of \<^verbatim>\<open>vm_init\<close> that fills the page structures: the address space gets its
  directory, every directory entry of the kernel half its table, and the memory the boot code
  mapped is mapped again page by page.
\<close>

function map_boot :: "linkage \<Rightarrow> vaddr_t \<Rightarrow> paging_state \<Rightarrow> paging_state res" where
  "map_boot L va s =
     (if va < KERNEL_BOOT_MAPPED
      then bindE (vm_map_page L AS_FIRST (virtual2phys va) va s) (map_boot L (va + PAGE_SIZE))
      else Inr s)"
  by pat_completeness auto
termination
  by (relation "measure (\<lambda>(L, va, s). unat KERNEL_BOOT_MAPPED - unat va)")
    (auto simp: KERNEL_BOOT_MAPPED_def word_less_nat_alt unat_word_ariths)

declare map_boot.simps [simp del]

definition pde_zero :: pde_t where
  "pde_zero = \<lparr>pde_present = 0, pde_rw = 0, pde_user = 0, pde_pwt = 0, pde_pcd = 0, pde_accessed = 0,
     pde_dirty = 0, pde_page_size = 0, pde_ignored = 0, pde_page_table = 0\<rparr>"

definition pte_zero :: pte_t where
  "pte_zero = \<lparr>pte_present = 0, pte_rw = 0, pte_user = 0, pte_pwt = 0, pte_pcd = 0, pte_accessed = 0,
     pte_dirty = 0, pte_pat = 0, pte_global = 0, pte_ignored = 0, pte_frame = 0\<rparr>"

definition init_paging :: "linkage \<Rightarrow> paging_state \<Rightarrow> paging_state res" where
  "init_paging L s =
     (let s1 = s\<lparr>vm_first_as := (vm_first_as s)\<lparr>directory := KERNEL_PAGE_DIRECTORY L,
                   directory_phys := virtual2phys (KERNEL_PAGE_DIRECTORY L)\<rparr>\<rparr>;
          d = pde_zero\<lparr>pde_present := 1, pde_rw := 1\<rparr>
      in bindE (for_each [0x300..<0x400] (\<lambda>i. as_map_kernel_table L AS_FIRST i d) s1)
           (map_boot L KERNEL_OFFSET))"

text \<open>
  The state the boot code leaves: zeroed directory and tables, no address space, and
  \<^verbatim>\<open>cr3\<close> at the boot page directory.
\<close>

definition paging_boot :: "paddr_t \<Rightarrow> paging_state" where
  "paging_boot boot_directory =
     \<lparr>page_directory = replicate 1024 pde_zero, page_tables = replicate 1024 (replicate 1024 pte_zero),
      vm_first_as = \<lparr>directory = 0, directory_phys = 0, tables = replicate 1024 0\<rparr>,
      current_as = AS_NULL, cr3 = boot_directory\<rparr>"

text \<open>An example: the tables of a kernel whose bss section starts at 2 MiB.\<close>

definition linkage_example :: linkage where
  "linkage_example = \<lparr>KERNEL_PAGE_DIRECTORY = 0xC0205000, KERNEL_PAGE_TABLES = 0xC0206000,
     first_bucket_addr = 0xC0606000\<rparr>"

section \<open>Specification\<close>

text \<open>
  The address translation of the processor with 4 KiB pages: \<open>walk L s va\<close> is the physical
  address, or \<open>None\<close> for a page fault. The physical address of a page table is found in the
  directory entry; the only tables there are lie in the array \<^verbatim>\<open>KERNEL_PAGE_TABLES\<close>.
\<close>

definition page_off :: "vaddr_t \<Rightarrow> u32" where
  "page_off va = va AND MASK 12"

definition table_walk :: "linkage \<Rightarrow> paging_state \<Rightarrow> nat \<Rightarrow> nat option" where
  "table_walk L s di =
     (let e = page_directory s ! di in
      if pde_present e = 0 \<or> pde_page_size e \<noteq> 0 then None
      else table_no L (push_bit 12 (ucast (pde_page_table e)) + KERNEL_OFFSET))"

definition walk :: "linkage \<Rightarrow> paging_state \<Rightarrow> vaddr_t \<Rightarrow> paddr_t option" where
  "walk L s va =
     (if cr3 s \<noteq> virtual2phys (KERNEL_PAGE_DIRECTORY L) then None
      else case table_walk L s (dir_idx va) of
        None \<Rightarrow> None
      | Some t \<Rightarrow>
          let e = page_tables s ! t ! tab_idx va in
          if pte_present e = 0 then None
          else Some (push_bit 12 (ucast (pte_frame e)) + page_off va))"

definition page_of :: "vaddr_t \<Rightarrow> nat" where
  "page_of va = unat va div 4096"

text \<open>
  The linker places the tables on page boundaries in the kernel's half of the address space.
  \<open>paging_wf\<close> is the shape of the data; \<open>kernel_mapped\<close> says that every directory entry of
  the kernel half points to its own table, in the directory and in \<^verbatim>\<open>as->tables\<close>, and that the
  lower half is not mapped.
\<close>

definition linkage_ok :: "linkage \<Rightarrow> bool" where
  "linkage_ok L \<longleftrightarrow>
     4096 dvd unat (KERNEL_PAGE_TABLES L) \<and> 4096 dvd unat (KERNEL_PAGE_DIRECTORY L) \<and>
     KERNEL_OFFSET < KERNEL_PAGE_TABLES L \<and> unat (KERNEL_PAGE_TABLES L) + 2 ^ 22 < 2 ^ 32"

definition paging_wf :: "linkage \<Rightarrow> paging_state \<Rightarrow> bool" where
  "paging_wf L s \<longleftrightarrow>
     length (page_directory s) = 1024 \<and> length (page_tables s) = 1024 \<and>
     (\<forall>i < 1024. length (page_tables s ! i) = 1024) \<and> length (tables (vm_first_as s)) = 1024 \<and>
     directory (vm_first_as s) = KERNEL_PAGE_DIRECTORY L \<and>
     directory_phys (vm_first_as s) = virtual2phys (KERNEL_PAGE_DIRECTORY L)"

definition kernel_entry :: "linkage \<Rightarrow> paging_state \<Rightarrow> nat \<Rightarrow> bool" where
  "kernel_entry L s i \<longleftrightarrow>
     pde_present (page_directory s ! i) = 1 \<and> pde_page_size (page_directory s ! i) = 0 \<and>
     pde_page_table (page_directory s ! i) = ucast (drop_bit 12 (virtual2phys (table_addr L i))) \<and>
     tables (vm_first_as s) ! i = table_addr L i"

definition kernel_mapped :: "linkage \<Rightarrow> paging_state \<Rightarrow> bool" where
  "kernel_mapped L s \<longleftrightarrow>
     (\<forall>i. 0x300 \<le> i \<longrightarrow> i < 0x400 \<longrightarrow> kernel_entry L s i) \<and>
     (\<forall>i < 0x300. pde_present (page_directory s ! i) = 0)"

text \<open>Address space active: the state after \<^verbatim>\<open>vm_init\<close>.\<close>

definition paging_inv :: "linkage \<Rightarrow> paging_state \<Rightarrow> bool" where
  "paging_inv L s \<longleftrightarrow> paging_wf L s \<and> kernel_mapped L s \<and> current_as s = AS_FIRST \<and>
     cr3 s = virtual2phys (KERNEL_PAGE_DIRECTORY L)"

text \<open>The state with the address space switched on, and the state of the tables' directory.\<close>

definition activate :: "linkage \<Rightarrow> paging_state \<Rightarrow> paging_state" where
  "activate L s = s\<lparr>current_as := AS_FIRST, cr3 := virtual2phys (KERNEL_PAGE_DIRECTORY L)\<rparr>"

text \<open>Writing one entry of a kernel page table.\<close>

definition set_pte :: "nat \<Rightarrow> nat \<Rightarrow> pte_t \<Rightarrow> paging_state \<Rightarrow> paging_state" where
  "set_pte t ti e s = s\<lparr>page_tables := (page_tables s)[t := (page_tables s ! t)[ti := e]]\<rparr>"

section \<open>Indices and addresses\<close>

lemma one_neq_zero_1word [simp]: "(1 :: 1 word) \<noteq> 0"
  by simp

lemma dir_idx_nat: "dir_idx va = page_of va div 1024"
  by (simp add: dir_idx_def page_of_def unat_drop_bit_u32 div_mult2_eq [symmetric])

lemma tab_idx_nat: "tab_idx va = page_of va mod 1024"
proof -
  have "drop_bit 12 va AND 0x3FF = take_bit 10 (drop_bit 12 va)"
    by (simp add: take_bit_eq_mask mask_eq_exp_minus_1)
  then have "tab_idx va = take_bit 10 (unat (drop_bit 12 va))"
    by (simp only: tab_idx_def unsigned_take_bit_eq)
  then show ?thesis by (simp add: page_of_def take_bit_eq_mod unat_drop_bit_u32)
qed

lemma dir_idx_bound [simp]: "dir_idx va < 1024"
proof -
  have "unat va < 2 ^ 32" by simp
  then show ?thesis unfolding dir_idx_nat page_of_def by (simp add: div_mult2_eq [symmetric] div_less_iff_less_mult)
qed

lemma tab_idx_bound [simp]: "tab_idx va < 1024"
  by (simp add: tab_idx_nat)

lemma same_page: "dir_idx va = dir_idx va' \<and> tab_idx va = tab_idx va' \<longleftrightarrow> page_of va = page_of va'"
  unfolding dir_idx_nat tab_idx_nat by (metis div_mult_mod_eq)

lemma dir_idx_kernel: "KERNEL_OFFSET \<le> va \<Longrightarrow> 0x300 \<le> dir_idx va"
  by (simp add: KERNEL_OFFSET_def dir_idx_nat page_of_def word_le_nat_alt less_eq_div_iff_mult_less_eq)

lemma unat_page_off: "unat (page_off va) = unat va mod 4096"
proof -
  have "page_off va = take_bit 12 va"
    by (simp add: page_off_def MASK_eq_mask take_bit_eq_mask)
  then have "unat (page_off va) = take_bit 12 (unat va)" by (simp only: unsigned_take_bit_eq)
  then show ?thesis by (simp add: take_bit_eq_mod)
qed

lemma unat_frame_field: "unat (ucast (drop_bit 12 (p :: u32)) :: 20 word) = unat p div 4096"
proof -
  have "unat p div 4096 < 2 ^ 20" using unat_lt_2p32 [of p] by (simp add: div_less_iff_less_mult del: unat_lt_2p32)
  then show ?thesis by (simp add: unsigned_ucast_eq take_bit_eq_mod unat_drop_bit_u32)
qed

lemma unat_field_addr: "unat (push_bit 12 (ucast (f :: 20 word)) :: u32) = unat f * 4096"
proof -
  have "unat f < 2 ^ 20" using unsigned_less [where w = f and 'a = nat] by simp
  moreover have "unat (push_bit 12 (ucast f) :: u32) = take_bit 32 (push_bit 12 (unat (ucast f :: u32)))"
    by (simp only: unsigned_push_bit_eq len_of_numeral_defs) simp
  ultimately show ?thesis
    by (simp only: unsigned_ucast_eq push_bit_eq_mult take_bit_eq_mod) simp
qed

lemma field_roundtrip:
  assumes "4096 dvd unat p"
  shows "push_bit 12 (ucast (ucast (drop_bit 12 (p :: u32)) :: 20 word)) = p"
  by (rule word_unat_eq_iff [THEN iffD2]) (use assms in \<open>simp add: unat_field_addr unat_frame_field\<close>)

lemma unat_field_roundtrip:
  "unat (push_bit 12 (ucast (ucast (drop_bit 12 (p :: u32)) :: 20 word)) :: u32) = unat p div 4096 * 4096"
  by (simp add: unat_field_addr unat_frame_field)

lemma PAGE_ALIGN_iff: "p = PAGE_ALIGN p \<longleftrightarrow> 4096 dvd unat p"
proof
  assume "p = PAGE_ALIGN p"
  then have "p = ALIGN_BITS_DOWN (p + MASK 12) 12" by (simp add: PAGE_ALIGN_def PAGE_BITS_def ALIGN_BITS_UP_eq)
  then have "unat p = unat (p + MASK 12) div 4096 * 4096"
    using unat_ALIGN_BITS_DOWN [of 12 "p + MASK 12"] by simp
  then show "4096 dvd unat p" by simp
next
  assume "4096 dvd unat p"
  then obtain k where k: "unat p = 4096 * k" by blast
  then have "k < 1048576" using unat_lt_2p32 [of p] by simp
  then have "unat (p + MASK 12) = 4096 * k + 4095"
    using k by (simp add: MASK_def unat_word_ariths)
  then have "unat (PAGE_ALIGN p) = unat p"
    using k by (simp add: PAGE_ALIGN_def PAGE_BITS_def ALIGN_BITS_UP_eq unat_ALIGN_BITS_DOWN)
  then show "p = PAGE_ALIGN p" by (simp add: word_unat_eq_iff)
qed

lemma unat_table_addr:
  "linkage_ok L \<Longrightarrow> i < 1024 \<Longrightarrow> unat (table_addr L i) = unat (KERNEL_PAGE_TABLES L) + 4096 * i"
  by (simp add: table_addr_def linkage_ok_def unat_word_ariths unat_of_nat take_bit_eq_mod)

lemma table_addr_aligned: "linkage_ok L \<Longrightarrow> i < 1024 \<Longrightarrow> 4096 dvd unat (table_addr L i)"
  by (simp add: unat_table_addr linkage_ok_def)

lemma table_no_addr: "linkage_ok L \<Longrightarrow> i < 1024 \<Longrightarrow> table_no L (table_addr L i) = Some i"
proof -
  assume a: "linkage_ok L" "i < 1024"
  have "table_addr L i \<noteq> 0"
    using unat_table_addr [OF a] a(1) by (auto simp: linkage_ok_def word_less_nat_alt)
  moreover have "unat (table_addr L i - KERNEL_PAGE_TABLES L) = 4096 * i"
    using a(2) by (simp add: table_addr_def unat_word_ariths unat_of_nat take_bit_eq_mod)
  ultimately show ?thesis using a(2) by (simp add: table_no_def)
qed

lemma phys_table_aligned:
  assumes "linkage_ok L" "i < 1024"
  shows "4096 dvd unat (virtual2phys (table_addr L i))"
proof -
  have "KERNEL_OFFSET \<le> table_addr L i"
    using assms unat_table_addr [OF assms] by (simp add: linkage_ok_def word_le_nat_alt word_less_nat_alt)
  then have "unat (virtual2phys (table_addr L i)) = unat (table_addr L i) - unat KERNEL_OFFSET"
    by (simp add: virtual2phys_def unat_sub)
  then show ?thesis using table_addr_aligned [OF assms] by (simp add: KERNEL_OFFSET_def dvd_diff_nat)
qed

lemma kernel_entry_walk:
  assumes "linkage_ok L" "i < 1024" "kernel_entry L s i"
  shows "table_walk L s i = Some i"
  using assms field_roundtrip [OF phys_table_aligned [OF assms(1,2)]] table_no_addr [OF assms(1,2)]
  by (simp add: table_walk_def kernel_entry_def virtual2phys_def)

lemma paging_invD:
  assumes "paging_inv L s"
  shows "current_as s = AS_FIRST" "deref_as (current_as s) s = Inr (vm_first_as s)"
    "directory (vm_first_as s) = KERNEL_PAGE_DIRECTORY L"
    "cr3 s = virtual2phys (KERNEL_PAGE_DIRECTORY L)"
    "\<And>i. 0x300 \<le> i \<Longrightarrow> i < 0x400 \<Longrightarrow> kernel_entry L s i"
    "\<And>i. i < 0x300 \<Longrightarrow> pde_present (page_directory s ! i) = 0"
    "length (page_tables s) = 1024" "\<And>i. i < 1024 \<Longrightarrow> length (page_tables s ! i) = 1024"
  using assms by (auto simp: paging_inv_def paging_wf_def kernel_mapped_def deref_as_def)

lemma walk_user: "paging_inv L s \<Longrightarrow> dir_idx va < 0x300 \<Longrightarrow> walk L s va = None"
  by (simp add: walk_def table_walk_def paging_invD)

lemma walk_kernel:
  assumes "linkage_ok L" "paging_inv L s" "0x300 \<le> dir_idx va"
  shows "walk L s va = (let e = page_tables s ! dir_idx va ! tab_idx va in
    if pte_present e = 0 then None else Some (push_bit 12 (ucast (pte_frame e)) + page_off va))"
  using kernel_entry_walk [OF assms(1) dir_idx_bound paging_invD(5) [OF assms(2,3)]] paging_invD(4) [OF assms(2)]
  by (simp add: walk_def)

text \<open>Writing one entry of a kernel page table changes the translation of one page.\<close>

lemma length_set_row:
  "length rows = n \<Longrightarrow> i < n \<Longrightarrow> length (rows[t := (rows ! t)[ti := e]] ! i) = length (rows ! i)"
  by (cases "t = i") simp_all

lemma set_pte_inv: "paging_inv L s \<Longrightarrow> paging_inv L (set_pte t ti e s)"
  by (auto simp: set_pte_def paging_inv_def paging_wf_def kernel_mapped_def kernel_entry_def
      length_set_row [of _ 1024])

lemma walk_set_pte:
  assumes "linkage_ok L" "paging_inv L s" "0x300 \<le> dir_idx va"
  shows "walk L (set_pte (dir_idx va) (tab_idx va) e s) va' =
    (if page_of va' = page_of va
     then (if pte_present e = 0 then None else Some (push_bit 12 (ucast (pte_frame e)) + page_off va'))
     else walk L s va')"
proof (cases "dir_idx va' < 0x300")
  case True
  then have "page_of va' \<noteq> page_of va" using assms(3) same_page [of va' va] by auto
  then show ?thesis using True walk_user [OF assms(2)] walk_user [OF set_pte_inv [OF assms(2)]] by simp
next
  case False
  then have k: "0x300 \<le> dir_idx va'" by simp
  note len = paging_invD(7,8) [OF assms(2)]
  show ?thesis
    unfolding walk_kernel [OF assms(1) set_pte_inv [OF assms(2)] k] walk_kernel [OF assms(1,2) k]
    using same_page [of va' va] len by (auto simp: set_pte_def nth_list_update Let_def)
qed

section \<open>Mapping and unmapping\<close>

lemma deref_kernel_table:
  assumes "linkage_ok L" "paging_inv L s" "0x300 \<le> dir_idx va"
  shows "deref_table L (tables (vm_first_as s) ! dir_idx va) = Inr (dir_idx va)"
    and "pde_present (page_directory s ! dir_idx va) = 1"
  using paging_invD(5) [OF assms(2,3)] table_no_addr [OF assms(1) dir_idx_bound]
  by (simp_all add: kernel_entry_def deref_table_def)

lemma map_page_eq:
  assumes "linkage_ok L" "paging_inv L s" "KERNEL_OFFSET \<le> va" "4096 dvd unat pa"
  shows "vm_map_page L (current_as s) pa va s =
    Inr (set_pte (dir_idx va) (tab_idx va)
      ((page_tables s ! dir_idx va ! tab_idx va)
         \<lparr>pte_frame := ucast (drop_bit 12 pa), pte_present := 1, pte_rw := 1\<rparr>) s)"
  using assms deref_kernel_table [OF assms(1,2) dir_idx_kernel [OF assms(3)]] PAGE_ALIGN_iff [of pa] paging_invD [OF assms(2)]
  by (simp add: vm_map_page_def set_pte_def Let_def PAGE_BITS_def)

lemma unmap_page_eq:
  assumes "linkage_ok L" "paging_inv L s" "KERNEL_OFFSET \<le> va"
  shows "vm_unmap_page L va s =
    Inr (push_bit 12 (ucast (pte_frame (page_tables s ! dir_idx va ! tab_idx va))),
      set_pte (dir_idx va) (tab_idx va)
        ((page_tables s ! dir_idx va ! tab_idx va)\<lparr>pte_present := 0, pte_frame := 0\<rparr>) s)"
  using deref_kernel_table [OF assms(1,2) dir_idx_kernel [OF assms(3)]] paging_invD [OF assms(2)]
  by (simp add: vm_unmap_page_def set_pte_def Let_def PAGE_BITS_def)

lemma map_page_spec:
  assumes "linkage_ok L" "paging_inv L s" "KERNEL_OFFSET \<le> va" "4096 dvd unat pa"
  shows "\<exists>s'. vm_map_page L (current_as s) pa va s = Inr s' \<and> paging_inv L s' \<and>
    (\<forall>va'. walk L s' va' = (if page_of va' = page_of va then Some (pa + page_off va') else walk L s va'))"
  using map_page_eq [OF assms] set_pte_inv [OF assms(2)] walk_set_pte [OF assms(1,2) dir_idx_kernel [OF assms(3)]]
    field_roundtrip [OF assms(4)] by simp

lemma unmap_page_spec:
  assumes "linkage_ok L" "paging_inv L s" "KERNEL_OFFSET \<le> va"
  shows "\<exists>pa s'. vm_unmap_page L va s = Inr (pa, s') \<and> paging_inv L s' \<and> 4096 dvd unat pa \<and>
    (walk L s va \<noteq> None \<longrightarrow> walk L s va = Some (pa + page_off va)) \<and>
    (\<forall>va'. walk L s' va' = (if page_of va' = page_of va then None else walk L s va'))"
  using unmap_page_eq [OF assms] set_pte_inv [OF assms(2)] walk_set_pte [OF assms(1,2) dir_idx_kernel [OF assms(3)]]
    walk_kernel [OF assms(1,2) dir_idx_kernel [OF assms(3)]] by (simp add: Let_def unat_field_addr)

text \<open>Mapping a run of pages.\<close>

lemma page_of_offset:
  "unat va + 4096 * i < 2 ^ 32 \<Longrightarrow> page_of (va + of_nat i * 4096) = page_of va + i"
  by (simp add: page_of_def unat_word_ariths unat_of_nat take_bit_eq_mod)

lemma aligned_offset: "4096 dvd unat pa \<Longrightarrow> 4096 dvd unat (pa + of_nat i * 4096 :: u32)"
  by (simp add: unat_word_ariths unat_of_nat take_bit_eq_mod dvd_mod mod_mult_left_eq)

lemma offset_ge: "unat va + 4096 * i < 2 ^ 32 \<Longrightarrow> K \<le> va \<Longrightarrow> K \<le> (va + of_nat i * 4096 :: u32)"
  by (simp add: word_le_nat_alt unat_word_ariths unat_of_nat take_bit_eq_mod)

lemma map_range_spec:
  assumes "linkage_ok L" "paging_inv L s" "KERNEL_OFFSET \<le> va" "4096 dvd unat pa"
    and "unat va + 4096 * n \<le> 2 ^ 32"
  shows "\<exists>s'. for_each [0..<n] (\<lambda>i s. vm_map_page L (current_as s) (pa + of_nat i * PAGE_SIZE)
        (va + of_nat i * PAGE_SIZE) s) s = Inr s' \<and> paging_inv L s' \<and>
    (\<forall>va'. walk L s' va' =
       (if page_of va \<le> page_of va' \<and> page_of va' < page_of va + n
        then Some (pa + of_nat (page_of va' - page_of va) * 4096 + page_off va') else walk L s va'))"
  using assms(5)
proof (induction n)
  case 0
  then show ?case using assms(2) by auto
next
  case (Suc n)
  then obtain s1 where s1: "for_each [0..<n] (\<lambda>i s. vm_map_page L (current_as s) (pa + of_nat i * PAGE_SIZE)
        (va + of_nat i * PAGE_SIZE) s) s = Inr s1" "paging_inv L s1"
    "\<And>va'. walk L s1 va' =
       (if page_of va \<le> page_of va' \<and> page_of va' < page_of va + n
        then Some (pa + of_nat (page_of va' - page_of va) * 4096 + page_off va') else walk L s va')" by auto
  have b: "unat va + 4096 * n < 2 ^ 32" using Suc.prems by simp
  from map_page_spec [OF assms(1) s1(2) offset_ge [OF b assms(3)] aligned_offset [OF assms(4)]]
  obtain s2 where s2: "vm_map_page L (current_as s1) (pa + of_nat n * 4096) (va + of_nat n * 4096) s1 = Inr s2"
    "paging_inv L s2" "\<And>va'. walk L s2 va' = (if page_of va' = page_of va + n
       then Some (pa + of_nat n * 4096 + page_off va') else walk L s1 va')"
    unfolding page_of_offset [OF b] by blast
  have "walk L s2 va' = (if page_of va \<le> page_of va' \<and> page_of va' < page_of va + Suc n
        then Some (pa + of_nat (page_of va' - page_of va) * 4096 + page_off va') else walk L s va')" for va'
    using s1(3) [of va'] s2(3) [of va'] by auto
  then show ?case using s1(1) s2(1,2) by (simp add: for_each_append)
qed

section \<open>Initialisation\<close>

lemma walk_base:
  assumes "4096 dvd unat va" "page_of va' = page_of va"
  shows "va + page_off va' = va'"
proof -
  have e: "unat va = page_of va * 4096" "unat va' = page_of va' * 4096 + unat va' mod 4096"
    using assms(1) by (simp_all add: page_of_def)
  then have "unat va + unat (page_off va') = unat va'" using assms(2) by (simp add: unat_page_off)
  then show ?thesis using unat_lt_2p32 [of va'] by (metis unat_u32_add word_unat_eq_iff)
qed

lemma map_page_activate:
  "vm_map_page L AS_FIRST pa va (activate L s) = bindE (vm_map_page L AS_FIRST pa va s) (\<lambda>s'. Inr (activate L s'))"
  by (simp add: vm_map_page_def activate_def deref_as_def Let_def bindE_def ASSERT_def split: sum.splits)

lemma boot_mapped_step:
  assumes "4096 dvd unat va" "va < KERNEL_BOOT_MAPPED"
  shows "4096 dvd unat (va + 4096)" "va + 4096 \<le> KERNEL_BOOT_MAPPED" "page_of (va + 4096) = Suc (page_of va)"
proof -
  from assms(1) obtain k where k: "unat va = 4096 * k" by blast
  then have "k < 0xC0800" using assms(2) by (simp add: KERNEL_BOOT_MAPPED_def word_less_nat_alt)
  moreover from this have "unat (va + 4096) = 4096 * Suc k" using k by (simp add: unat_word_ariths)
  ultimately show "4096 dvd unat (va + 4096)" "va + 4096 \<le> KERNEL_BOOT_MAPPED"
    "page_of (va + 4096) = Suc (page_of va)"
    using k by (simp_all add: KERNEL_BOOT_MAPPED_def word_le_nat_alt page_of_def)
qed

lemma map_boot_spec:
  assumes "linkage_ok L" "paging_inv L (activate L s)" "KERNEL_OFFSET \<le> va" "4096 dvd unat va"
    and "va \<le> KERNEL_BOOT_MAPPED"
  shows "\<exists>s'. map_boot L va s = Inr s' \<and> paging_inv L (activate L s') \<and>
    (\<forall>va'. walk L (activate L s') va' =
      (if page_of va \<le> page_of va' \<and> page_of va' < page_of KERNEL_BOOT_MAPPED
       then Some (virtual2phys va') else walk L (activate L s) va'))"
  using assms
proof (induction L va s rule: map_boot.induct)
  case (1 L va s)
  show ?case
  proof (cases "va < KERNEL_BOOT_MAPPED")
    case False
    then have "va = KERNEL_BOOT_MAPPED" using "1.prems"(5) by simp
    moreover have "map_boot L va s = Inr s" using False by (subst map_boot.simps) simp
    ultimately show ?thesis using "1.prems"(2) by (intro exI [of _ s]) (auto dest: leD)
  next
    case True
    note step = boot_mapped_step [OF "1.prems"(4) True]
    have "unat (virtual2phys va) = unat va - unat KERNEL_OFFSET"
      using "1.prems"(3) by (simp add: virtual2phys_def unat_sub)
    then have al: "4096 dvd unat (virtual2phys va)" using "1.prems"(4) by (simp add: KERNEL_OFFSET_def dvd_diff_nat)
    have cur: "current_as (activate L s) = AS_FIRST" by (simp add: activate_def)
    from map_page_spec [OF "1.prems"(1,2,3) al] obtain s1 where
      s1: "vm_map_page L AS_FIRST (virtual2phys va) va s = Inr s1" "paging_inv L (activate L s1)"
      "\<And>va'. walk L (activate L s1) va' =
         (if page_of va' = page_of va then Some (virtual2phys va + page_off va') else walk L (activate L s) va')"
      by (auto simp: cur map_page_activate bindE_eq_Inr)
    have "KERNEL_OFFSET \<le> va + 4096"
      using offset_ge [of va 1 KERNEL_OFFSET] "1.prems"(3) True by (simp add: KERNEL_BOOT_MAPPED_def word_less_nat_alt)
    from "1.IH" [OF True s1(1) "1.prems"(1) s1(2), unfolded PAGE_SIZE_eq, OF this step(1,2)] obtain s' where
      s': "map_boot L (va + 4096) s1 = Inr s'" "paging_inv L (activate L s')"
      "\<And>va'. walk L (activate L s') va' =
        (if Suc (page_of va) \<le> page_of va' \<and> page_of va' < page_of KERNEL_BOOT_MAPPED
         then Some (virtual2phys va') else walk L (activate L s1) va')" unfolding step(3) by blast
    have lt: "page_of va < page_of KERNEL_BOOT_MAPPED"
      using True "1.prems"(4) by (auto simp: page_of_def KERNEL_BOOT_MAPPED_def word_less_nat_alt)
    have eq: "virtual2phys va + page_off va' = virtual2phys va'" if "page_of va' = page_of va" for va'
      using walk_base [OF "1.prems"(4) that] by (simp add: virtual2phys_def algebra_simps)
    have "walk L (activate L s') va' = (if page_of va \<le> page_of va' \<and> page_of va' < page_of KERNEL_BOOT_MAPPED
       then Some (virtual2phys va') else walk L (activate L s) va')" for va'
      using s'(3) [of va'] s1(3) [of va'] eq [of va'] lt by auto
    then show ?thesis using s'(1,2) s1(1) True by (auto simp: map_boot.simps [of L va s])
  qed
qed

lemma map_kernel_table_eq:
  assumes "linkage_ok L" "i < 1024" "directory (vm_first_as s) = KERNEL_PAGE_DIRECTORY L"
  shows "as_map_kernel_table L AS_FIRST i d s = Inr (s\<lparr>
    page_directory := (page_directory s)[i := d\<lparr>pde_page_table := ucast (drop_bit 12 (virtual2phys (table_addr L i)))\<rparr>],
    vm_first_as := (vm_first_as s)\<lparr>tables := (tables (vm_first_as s))[i := table_addr L i]\<rparr>\<rparr>)"
  using assms PAGE_ALIGN_iff [of "table_addr L i"] table_addr_aligned [OF assms(1,2)]
  by (simp add: as_map_kernel_table_def deref_as_def Let_def PAGE_BITS_def)

lemma map_kernel_tables_spec:
  assumes "linkage_ok L" "paging_wf L s" "n \<le> 256"
    and "pde_present d = 1" "pde_page_size d = 0"
    and "\<forall>i < 0x300. pde_present (page_directory s ! i) = 0"
  shows "\<exists>s'. for_each [0x300..<0x300 + n] (\<lambda>i. as_map_kernel_table L AS_FIRST i d) s = Inr s' \<and>
    paging_wf L s' \<and> page_tables s' = page_tables s \<and>
    (\<forall>i. 0x300 \<le> i \<longrightarrow> i < 0x300 + n \<longrightarrow> kernel_entry L s' i) \<and>
    (\<forall>i < 0x300. pde_present (page_directory s' ! i) = 0)"
  using assms(3)
proof (induction n)
  case 0
  then show ?case using assms(2,6) by simp
next
  case (Suc n)
  then obtain s1 where s1: "for_each [0x300..<0x300 + n] (\<lambda>i. as_map_kernel_table L AS_FIRST i d) s = Inr s1"
    "paging_wf L s1" "page_tables s1 = page_tables s"
    "\<And>i. 0x300 \<le> i \<Longrightarrow> i < 0x300 + n \<Longrightarrow> kernel_entry L s1 i"
    "\<And>i. i < 0x300 \<Longrightarrow> pde_present (page_directory s1 ! i) = 0" by auto
  let ?i = "0x300 + n"
  let ?s2 = "s1\<lparr>
    page_directory := (page_directory s1)[?i := d\<lparr>pde_page_table := ucast (drop_bit 12 (virtual2phys (table_addr L ?i)))\<rparr>],
    vm_first_as := (vm_first_as s1)\<lparr>tables := (tables (vm_first_as s1))[?i := table_addr L ?i]\<rparr>\<rparr>"
  have len: "length (page_directory s1) = 1024" "length (tables (vm_first_as s1)) = 1024"
    "directory (vm_first_as s1) = KERNEL_PAGE_DIRECTORY L" using s1(2) by (simp_all add: paging_wf_def)
  have step: "as_map_kernel_table L AS_FIRST ?i d s1 = Inr ?s2"
    using map_kernel_table_eq [OF assms(1) _ len(3), of ?i] Suc.prems by simp
  have "kernel_entry L ?s2 i" if "0x300 \<le> i" "i < 0x300 + Suc n" for i
    using s1(4) [of i] that len assms(4,5) Suc.prems by (cases "i = ?i") (simp_all add: kernel_entry_def)
  moreover have "paging_wf L ?s2" using s1(2) by (simp add: paging_wf_def)
  moreover have "[0x300..<0x300 + Suc n] = [0x300..<0x300 + n] @ [?i]" by (simp only: add_Suc_right upt_Suc_append le_add1)
  then have "for_each [0x300..<0x300 + Suc n] (\<lambda>i. as_map_kernel_table L AS_FIRST i d) s = Inr ?s2"
    using s1(1) step by (simp only: for_each_append bindE_Inr for_each.simps)
  moreover have "pde_present (page_directory ?s2 ! i) = 0" if "i < 0x300" for i using s1(5) that by simp
  ultimately show ?case using s1(3) by (intro exI [of _ ?s2]) simp
qed

lemma paging_boot_wf:
  "paging_wf L ((paging_boot c)\<lparr>vm_first_as := (vm_first_as (paging_boot c))\<lparr>directory := KERNEL_PAGE_DIRECTORY L,
     directory_phys := virtual2phys (KERNEL_PAGE_DIRECTORY L)\<rparr>\<rparr>)"
  by (simp add: paging_wf_def paging_boot_def)

lemma init_paging_spec:
  assumes "linkage_ok L"
  shows "\<exists>s. init_paging L (paging_boot c) = Inr s \<and> paging_inv L (activate L s) \<and>
    switch_as AS_FIRST s = Inr (activate L s) \<and>
    (\<forall>va. walk L (activate L s) va =
       (if KERNEL_OFFSET \<le> va \<and> va < KERNEL_BOOT_MAPPED then Some (virtual2phys va) else None))"
proof -
  let ?s1 = "(paging_boot c)\<lparr>vm_first_as := (vm_first_as (paging_boot c))\<lparr>directory := KERNEL_PAGE_DIRECTORY L,
     directory_phys := virtual2phys (KERNEL_PAGE_DIRECTORY L)\<rparr>\<rparr>"
  let ?d = "pde_zero\<lparr>pde_present := 1, pde_rw := 1\<rparr>"
  from map_kernel_tables_spec [OF assms paging_boot_wf, of 256 ?d c] obtain s2 where
    s2: "for_each [0x300..<0x400] (\<lambda>i. as_map_kernel_table L AS_FIRST i ?d) ?s1 = Inr s2" "paging_wf L s2"
      "page_tables s2 = replicate 1024 (replicate 1024 pte_zero)"
      "\<And>i. 0x300 \<le> i \<Longrightarrow> i < 0x400 \<Longrightarrow> kernel_entry L s2 i"
      "\<And>i. i < 0x300 \<Longrightarrow> pde_present (page_directory s2 ! i) = 0"
    by (auto simp: pde_zero_def paging_boot_def)
  have i2: "paging_inv L (activate L s2)"
    using s2(2,4,5) by (simp add: paging_inv_def activate_def paging_wf_def kernel_mapped_def kernel_entry_def)
  have w2: "walk L (activate L s2) va = None" for va
  proof (cases "dir_idx va < 0x300")
    case True
    then show ?thesis by (rule walk_user [OF i2])
  next
    case False
    then show ?thesis using walk_kernel [OF assms i2, of va] s2(3)
      by (simp add: activate_def pte_zero_def)
  qed
  have "4096 dvd unat KERNEL_OFFSET" "KERNEL_OFFSET \<le> KERNEL_BOOT_MAPPED"
    by (simp_all add: KERNEL_OFFSET_def KERNEL_BOOT_MAPPED_def)
  from map_boot_spec [OF assms i2 order_refl this] obtain s where
    s: "map_boot L KERNEL_OFFSET s2 = Inr s" "paging_inv L (activate L s)"
      "\<And>va. walk L (activate L s) va =
        (if page_of KERNEL_OFFSET \<le> page_of va \<and> page_of va < page_of KERNEL_BOOT_MAPPED
         then Some (virtual2phys va) else None)" unfolding w2 by blast
  have pg: "page_of KERNEL_OFFSET \<le> page_of va \<longleftrightarrow> KERNEL_OFFSET \<le> va"
    "page_of va < page_of KERNEL_BOOT_MAPPED \<longleftrightarrow> va < KERNEL_BOOT_MAPPED" for va
    by (simp_all add: page_of_def KERNEL_OFFSET_def KERNEL_BOOT_MAPPED_def word_le_nat_alt word_less_nat_alt
        less_eq_div_iff_mult_less_eq div_less_iff_less_mult)
  have "switch_as AS_FIRST s = Inr (activate L s)"
    using s(2) by (simp add: switch_as_def deref_as_def set_page_directory_def activate_def paging_inv_def paging_wf_def)
  then show ?thesis using s s2(1) by (auto simp: init_paging_def Let_def pg)
qed

section \<open>Properties\<close>

lemma linkage_example_ok: "linkage_ok linkage_example"
  by (simp add: linkage_ok_def linkage_example_def KERNEL_OFFSET_def)

lemma paging_example: "\<exists>s. paging_inv linkage_example s \<and> walk linkage_example s 0xC0001000 = Some 0x1000"
  using init_paging_spec [OF linkage_example_ok, of 0]
  by (auto simp: KERNEL_OFFSET_def KERNEL_BOOT_MAPPED_def virtual2phys_def)

text \<open>
  C15. \<^verbatim>\<open>vm_map_page\<close> on a page-aligned physical address and an address of the kernel half maps
  exactly one page: afterwards the processor translates every address of that page to the same
  offset in the frame, every other address as before, and the invariant of the page structures
  holds.
\<close>

theorem vm_map_page_correct:
  assumes "linkage_ok L" "paging_inv L s" "KERNEL_OFFSET \<le> va" "4096 dvd unat pa"
  shows "\<exists>s'. vm_map_page L (current_as s) pa va s = Inr s' \<and> paging_inv L s' \<and>
    (\<forall>va'. walk L s' va' = (if page_of va' = page_of va then Some (pa + page_off va') else walk L s va'))"
  by (rule map_page_spec [OF assms])

theorem vm_map_page_correct_witness:
  "\<exists>s s'. vm_map_page linkage_example (current_as s) 0x5000 0xD0000000 s = Inr s' \<and>
     walk linkage_example s' 0xD0000123 = Some 0x5123"
proof -
  obtain s where s: "paging_inv linkage_example s" using paging_example by blast
  have "page_of 0xD0000123 = page_of 0xD0000000" "page_off 0xD0000123 = 0x123"
    by (simp_all add: page_of_def page_off_def MASK_def)
  moreover obtain s' where "vm_map_page linkage_example (current_as s) 0x5000 0xD0000000 s = Inr s'"
    "\<forall>va'. walk linkage_example s' va' =
       (if page_of va' = page_of 0xD0000000 then Some (0x5000 + page_off va') else walk linkage_example s va')"
    using vm_map_page_correct [OF linkage_example_ok s, of "0xD0000000" "0x5000"] by (auto simp: KERNEL_OFFSET_def)
  ultimately show ?thesis by (intro exI [of _ s] exI [of _ s']) simp
qed

text \<open>
  Mapping a page and unmapping it again returns the physical address it was mapped to and
  leaves the page unmapped; every other page is translated as before. What \<^verbatim>\<open>vm_unmap_page\<close>
  returns is the frame the processor used.
\<close>

lemma vm_map_unmap_roundtrip:
  assumes "linkage_ok L" "paging_inv L s" "KERNEL_OFFSET \<le> va" "4096 dvd unat pa"
  shows "\<exists>s1 s2. vm_map_page L (current_as s) pa va s = Inr s1 \<and> vm_unmap_page L va s1 = Inr (pa, s2) \<and>
    paging_inv L s2 \<and> (\<forall>va'. walk L s2 va' = (if page_of va' = page_of va then None else walk L s va'))"
proof -
  from map_page_spec [OF assms] obtain s1 where
    s1: "vm_map_page L (current_as s) pa va s = Inr s1" "paging_inv L s1"
    "\<And>va'. walk L s1 va' = (if page_of va' = page_of va then Some (pa + page_off va') else walk L s va')" by blast
  from unmap_page_spec [OF assms(1) s1(2) assms(3)] obtain pa' s2 where
    s2: "vm_unmap_page L va s1 = Inr (pa', s2)" "paging_inv L s2" "walk L s1 va = Some (pa' + page_off va)"
    "\<And>va'. walk L s2 va' = (if page_of va' = page_of va then None else walk L s1 va')"
    using s1(3) [of va] by auto
  have "pa' = pa" using s1(3) [of va] s2(3) by simp
  then show ?thesis using s1 s2 by auto
qed

text \<open>
  The error paths of \<^verbatim>\<open>vm_map_page\<close>: an address that is not page-aligned fails the
  assertion, and an address below the kernel half, where no page table exists, panics with
  "Not implemented".
\<close>

lemma vm_map_page_errors:
  assumes "paging_inv L s"
  shows "(\<not> 4096 dvd unat pa \<longrightarrow>
      vm_map_page L (current_as s) pa va s = Inl (Panic ''paddr must be page-aligned'')) \<and>
    (4096 dvd unat pa \<and> va < KERNEL_OFFSET \<longrightarrow>
      vm_map_page L (current_as s) pa va s = Inl (Panic ''Not implemented''))"
proof (intro conjI impI)
  assume "\<not> 4096 dvd unat pa"
  then show "vm_map_page L (current_as s) pa va s = Inl (Panic ''paddr must be page-aligned'')"
    using PAGE_ALIGN_iff [of pa] by (simp add: vm_map_page_def Let_def)
next
  assume a: "4096 dvd unat pa \<and> va < KERNEL_OFFSET"
  then have "dir_idx va < 0x300"
    by (simp add: KERNEL_OFFSET_def dir_idx_nat page_of_def word_less_nat_alt div_less_iff_less_mult)
  then show "vm_map_page L (current_as s) pa va s = Inl (Panic ''Not implemented'')"
    using a PAGE_ALIGN_iff [of pa] paging_invD [OF assms] by (simp add: vm_map_page_def Let_def)
qed

lemma vm_dma_spec:
  assumes "linkage_ok L" "paging_inv L s" "KERNEL_OFFSET \<le> va" "4096 dvd unat va" "4096 dvd unat pa"
    and "unat va + unat sz \<le> 2 ^ 32"
  obtains s' where "vm_dma L pa va sz s = Inr s'" "paging_inv L s'"
    "\<And>k. k < unat sz \<Longrightarrow> walk L s' (va + of_nat k) =
       (if k < unat sz div 4096 * 4096 then Some (pa + of_nat k) else walk L s (va + of_nat k))"
    "\<And>va'. page_of va' < page_of va \<or> page_of va + unat sz div 4096 \<le> page_of va' \<Longrightarrow> walk L s' va' = walk L s va'"
proof -
  have n: "unat (sz div 4096) = unat sz div 4096" by (simp add: unat_div)
  have "unat va + 4096 * (unat sz div 4096) \<le> 2 ^ 32" using assms(6) by (metis (no_types) add_left_mono
      le_trans times_div_less_eq_dividend)
  from map_range_spec [OF assms(1-3,5) this] obtain s' where
    s': "vm_dma L pa va sz s = Inr s'" "paging_inv L s'"
    "\<And>va'. walk L s' va' = (if page_of va \<le> page_of va' \<and> page_of va' < page_of va + unat sz div 4096
        then Some (pa + of_nat (page_of va' - page_of va) * 4096 + page_off va') else walk L s va')"
    by (auto simp: vm_dma_def n)
  have "walk L s' (va + of_nat k) =
       (if k < unat sz div 4096 * 4096 then Some (pa + of_nat k) else walk L s (va + of_nat k))"
    if k: "k < unat sz" for k
  proof -
    obtain v where v: "unat va = 4096 * v" using assms(4) by blast
    have u: "unat (va + of_nat k) = 4096 * v + k"
      using v k assms(6) by (simp add: unat_word_ariths unat_of_nat take_bit_eq_mod)
    have p: "page_of va = v" "page_of (va + of_nat k) = v + k div 4096" using u v by (simp_all add: page_of_def)
    have "of_nat (k div 4096) * 4096 + page_off (va + of_nat k) = (of_nat k :: u32)"
    proof -
      have "page_off (va + of_nat k) = of_nat (k mod 4096)"
        using unat_page_off [of "va + of_nat k"] u
        by (intro word_unat_eq_iff [THEN iffD2]) (simp add: unat_of_nat take_bit_eq_mod)
      then show ?thesis by (metis div_mult_mod_eq of_nat_add of_nat_mult of_nat_numeral)
    qed
    moreover have "k div 4096 < unat sz div 4096 \<longleftrightarrow> k < unat sz div 4096 * 4096"
      by (simp add: div_less_iff_less_mult)
    ultimately show ?thesis unfolding s'(3) p by (simp add: add.assoc)
  qed
  moreover have "walk L s' va' = walk L s va'" if "page_of va' < page_of va \<or> page_of va + unat sz div 4096 \<le> page_of va'" for va'
    using that by (auto simp: s'(3))
  ultimately show thesis using that [OF s'(1,2)] by blast
qed

text \<open>
  \<^verbatim>\<open>vm_dma\<close> maps the pages that lie wholly inside the region one to one and no others: an
  address in the last, partial page of a region whose size is not a multiple of the page size is
  translated as before the call, so it faults if it was not mapped.
\<close>

lemma vm_dma_maps_whole_pages:
  assumes "linkage_ok L" "paging_inv L s" "KERNEL_OFFSET \<le> va" "4096 dvd unat va" "4096 dvd unat pa"
    and "unat va + unat sz \<le> 2 ^ 32"
  shows "\<exists>s'. vm_dma L pa va sz s = Inr s' \<and> paging_inv L s' \<and>
    (\<forall>k < unat sz. walk L s' (va + of_nat k) =
       (if k < unat sz div 4096 * 4096 then Some (pa + of_nat k) else walk L s (va + of_nat k)))"
proof -
  obtain s' where "vm_dma L pa va sz s = Inr s'" "paging_inv L s'"
    "\<And>k. k < unat sz \<Longrightarrow> walk L s' (va + of_nat k) =
       (if k < unat sz div 4096 * 4096 then Some (pa + of_nat k) else walk L s (va + of_nat k))"
    by (rule vm_dma_spec [OF assms]) (rule that)
  then show ?thesis by blast
qed

end
