(* ===== verification/Cstring.thy ===== *)
theory Cstring
  imports Prelude
begin

text \<open>
  \<^verbatim>\<open>libc/string/string.c\<close> and \<^verbatim>\<open>libc/string/memcpy.asm\<close>: \<^verbatim>\<open>strlen\<close>,
  \<^verbatim>\<open>memset\<close>, \<^verbatim>\<open>memcpy\<close> and \<^verbatim>\<open>memcpy_aligned\<close>. The functions take the
  byte load and store of the machine as arguments, because the kernel calls them on memory that is
  translated by page tables. The locale \<open>byte_memory\<close> states what they rely on: an address
  denotes a cell or nothing, and storing changes the contents of one cell. Two addresses may denote
  the same cell.
\<close>

section \<open>Model\<close>

type_synonym 's loadb = "u32 \<Rightarrow> 's \<Rightarrow> u8 res"
type_synonym 's storeb = "u32 \<Rightarrow> u8 \<Rightarrow> 's \<Rightarrow> 's res"

partial_function (option) strlen_loop :: "'s loadb \<Rightarrow> u32 \<Rightarrow> size_t \<Rightarrow> 's \<Rightarrow> size_t res option" where
  "strlen_loop ld str n s =
     (case ld (str + n) s of
        Inl e \<Rightarrow> Some (Inl e)
      | Inr c \<Rightarrow> if c \<noteq> 0 then strlen_loop ld str (n + 1) s else Some (Inr n))"

definition strlen :: "'s loadb \<Rightarrow> u32 \<Rightarrow> 's \<Rightarrow> size_t res" where
  "strlen ld str s = loop_result (strlen_loop ld str 0 s)"

text \<open>The value is an \<^verbatim>\<open>int\<close> converted to \<^verbatim>\<open>unsigned char\<close>.\<close>

definition memset :: "'s storeb \<Rightarrow> u32 \<Rightarrow> 32 word \<Rightarrow> size_t \<Rightarrow> 's \<Rightarrow> 's res" where
  "memset st bufptr v n s = for_each [0..<unat n] (\<lambda>i. st (bufptr + of_nat i) (ucast v)) s"

text \<open>One byte, and one double word (four bytes in little-endian order) from \<open>src\<close> to \<open>dest\<close>.\<close>

definition copy_byte :: "'s loadb \<Rightarrow> 's storeb \<Rightarrow> u32 \<Rightarrow> u32 \<Rightarrow> 's \<Rightarrow> 's res" where
  "copy_byte ld st dest src s = bindE (ld src s) (\<lambda>c. st dest c s)"

definition copy_dword :: "'s loadb \<Rightarrow> 's storeb \<Rightarrow> u32 \<Rightarrow> u32 \<Rightarrow> 's \<Rightarrow> 's res" where
  "copy_dword ld st dest src s =
     bindE (ld src s) (\<lambda>c0. bindE (ld (src + 1) s) (\<lambda>c1.
     bindE (ld (src + 2) s) (\<lambda>c2. bindE (ld (src + 3) s) (\<lambda>c3.
     bindE (st dest c0 s) (\<lambda>s. bindE (st (dest + 1) c1 s) (\<lambda>s.
     bindE (st (dest + 2) c2 s) (\<lambda>s. st (dest + 3) c3 s)))))))"

text \<open>
  The loop of \<^verbatim>\<open>memcpy.asm\<close> decrements \<^verbatim>\<open>ecx\<close> after each copy and stops at zero, so a
  size below four would run through the whole counter.
\<close>

function memcpy_aligned_loop ::
  "'s loadb \<Rightarrow> 's storeb \<Rightarrow> u32 \<Rightarrow> u32 \<Rightarrow> u32 \<Rightarrow> 's \<Rightarrow> 's res" where
  "memcpy_aligned_loop ld st edi esi ecx s =
     bindE (copy_dword ld st edi esi s) (\<lambda>s.
     let esi = esi + 4; edi = edi + 4; ecx = ecx - 1 in
     if ecx \<noteq> 0 then memcpy_aligned_loop ld st edi esi ecx s else Inr s)"
  by pat_completeness auto
termination
proof (relation "measure (\<lambda>(ld, st, edi, esi, ecx, s). unat (ecx - 1))", goal_cases)
  case (2 ld st edi esi ecx s s' esi' edi' ecx')
  then have e: "ecx - 1 \<noteq> 0" by simp
  then have "0 < unat (ecx - 1)" using unat_gt_0 by blast
  then have "unat (ecx - 1 - 1) < unat (ecx - 1)" using unat_minus_one [OF e] by linarith
  then show ?case using 2 by simp
qed simp

definition memcpy_aligned :: "'s loadb \<Rightarrow> 's storeb \<Rightarrow> u32 \<Rightarrow> u32 \<Rightarrow> size_t \<Rightarrow> 's \<Rightarrow> 's res" where
  "memcpy_aligned ld st dest src n s = memcpy_aligned_loop ld st dest src (drop_bit 2 n) s"

definition memcpy :: "'s loadb \<Rightarrow> 's storeb \<Rightarrow> u32 \<Rightarrow> u32 \<Rightarrow> size_t \<Rightarrow> 's \<Rightarrow> 's res" where
  "memcpy ld st dest src n s =
     (if n < 16 then for_each [0..<unat n] (\<lambda>i. copy_byte ld st (dest + of_nat i) (src + of_nat i)) s
      else
        let n_aligned = n AND 0xFFFFFFFC in
        bindE (memcpy_aligned ld st dest src n_aligned s) (\<lambda>s.
        for_each [unat n_aligned..<unat n] (\<lambda>i. copy_byte ld st (dest + of_nat i) (src + of_nat i)) s))"

declare memcpy_aligned_loop.simps [simp del]

section \<open>Specification\<close>

text \<open>
  \<open>copyable\<close>: the source and destination bytes denote cells, no destination byte is a source
  byte (the \<^verbatim>\<open>restrict\<close> of the signature), and no two destination bytes are the same cell.
  \<open>copied\<close>: the first \<open>n\<close> bytes have arrived and no other cell has changed.
\<close>

definition copyable :: "('s \<Rightarrow> u32 \<Rightarrow> 'c option) \<Rightarrow> 's \<Rightarrow> u32 \<Rightarrow> u32 \<Rightarrow> nat \<Rightarrow> bool" where
  "copyable cell s dest src n \<longleftrightarrow>
     (\<forall>i < n. cell s (dest + of_nat i) \<noteq> None \<and> cell s (src + of_nat i) \<noteq> None) \<and>
     (\<forall>i < n. \<forall>j < n. cell s (dest + of_nat i) \<noteq> cell s (src + of_nat j)) \<and>
     (\<forall>i < n. \<forall>j < n. i \<noteq> j \<longrightarrow> cell s (dest + of_nat i) \<noteq> cell s (dest + of_nat j))"

definition copied ::
  "('s \<Rightarrow> u32 \<Rightarrow> 'c option) \<Rightarrow> ('s \<Rightarrow> 'c \<Rightarrow> u8) \<Rightarrow> u32 \<Rightarrow> u32 \<Rightarrow> nat \<Rightarrow> 's \<Rightarrow> 's \<Rightarrow> bool" where
  "copied cell content dest src n s s' \<longleftrightarrow> cell s' = cell s \<and>
     (\<forall>i < n. \<forall>d c. cell s (dest + of_nat i) = Some d \<longrightarrow> cell s (src + of_nat i) = Some c \<longrightarrow>
        content s' d = content s c) \<and>
     (\<forall>d. (\<forall>i < n. cell s (dest + of_nat i) \<noteq> Some d) \<longrightarrow> content s' d = content s d)"

text \<open>Memory without translation.\<close>

definition flat_load :: "(u32 \<Rightarrow> u8) loadb" where
  "flat_load a m = Inr (m a)"

definition flat_store :: "(u32 \<Rightarrow> u8) storeb" where
  "flat_store a v m = Inr (m(a := v))"

section \<open>The interface to memory\<close>

locale byte_memory =
  fixes ld :: "'s loadb" and st :: "'s storeb"
    and cell :: "'s \<Rightarrow> u32 \<Rightarrow> 'c option"
    and content :: "'s \<Rightarrow> 'c \<Rightarrow> u8"
    and frame :: "'s \<Rightarrow> 'r"
  assumes load_cell: "cell s a = Some c \<Longrightarrow> ld a s = Inr (content s c)"
    and store_cell: "cell s a = Some c \<Longrightarrow> \<exists>s'. st a v s = Inr s' \<and> cell s' = cell s \<and> frame s' = frame s \<and>
      content s' = (content s)(c := v)"
    and store_fault: "cell s a = None \<Longrightarrow> \<exists>e. st a v s = Inl e"
begin

lemma fill_spec:
  assumes "\<forall>i < n. cell s (p + of_nat i) \<noteq> None"
  shows "\<exists>s'. for_each [0..<n] (\<lambda>i. st (p + of_nat i) v) s = Inr s' \<and> cell s' = cell s \<and> frame s' = frame s \<and>
    content s' = (\<lambda>c. if \<exists>i < n. cell s (p + of_nat i) = Some c then v else content s c)"
  using assms
proof (induction n)
  case (Suc n)
  then obtain s1 where s1: "for_each [0..<n] (\<lambda>i. st (p + of_nat i) v) s = Inr s1" "cell s1 = cell s"
    "frame s1 = frame s"
    "content s1 = (\<lambda>c. if \<exists>i < n. cell s (p + of_nat i) = Some c then v else content s c)" by auto
  from Suc.prems obtain c where c: "cell s (p + of_nat n) = Some c" by auto
  with s1(2) store_cell [of s1 "p + of_nat n" c v] obtain s2 where
    s2: "st (p + of_nat n) v s1 = Inr s2" "cell s2 = cell s" "frame s2 = frame s" "content s2 = (content s1)(c := v)"
    using s1(3) by auto
  have "content s2 = (\<lambda>d. if \<exists>i < Suc n. cell s (p + of_nat i) = Some d then v else content s d)"
    using c s1(4) s2(4) by (auto simp: fun_eq_iff less_Suc_eq)
  then show ?case using s1(1) s2(1-3) by (simp add: for_each_append)
qed simp

lemma memset_spec:
  assumes "\<forall>i < unat n. cell s (p + of_nat i) \<noteq> None"
  shows "\<exists>s'. memset st p v n s = Inr s' \<and> cell s' = cell s \<and> frame s' = frame s \<and>
    content s' = (\<lambda>c. if \<exists>i < unat n. cell s (p + of_nat i) = Some c then ucast v else content s c)"
  unfolding memset_def by (rule fill_spec [OF assms])

lemma load_copied:
  assumes "copyable cell s dest src n" "copied cell content dest src k s s1" "k \<le> n" "i < n"
  obtains c where "cell s (src + of_nat i) = Some c" "ld (src + of_nat i) s1 = Inr (content s c)"
proof -
  from assms(1,4) obtain c where c: "cell s (src + of_nat i) = Some c" by (auto simp: copyable_def)
  have "cell s (dest + of_nat j) \<noteq> Some c" if "j < k" for j
    using assms(1,3,4) c that unfolding copyable_def by (metis order.strict_trans2)
  then have "content s1 c = content s c" "cell s1 = cell s" using assms(2) by (auto simp: copied_def)
  then show thesis using that [OF c] load_cell [of s1 "src + of_nat i" c] c by simp
qed

lemma store_copied:
  assumes "copyable cell s dest src n" "copied cell content dest src k s s1" "k < n"
    and "cell s (src + of_nat k) = Some c"
  shows "\<exists>s2. st (dest + of_nat k) (content s c) s1 = Inr s2 \<and> copied cell content dest src (Suc k) s s2 \<and>
    frame s2 = frame s1"
proof -
  from assms(1,3) obtain d where d: "cell s (dest + of_nat k) = Some d" by (auto simp: copyable_def)
  have e: "cell s1 = cell s" using assms(2) by (simp add: copied_def)
  from store_cell [of s1 "dest + of_nat k" d "content s c"] d e obtain s2 where
    s2: "st (dest + of_nat k) (content s c) s1 = Inr s2" "cell s2 = cell s" "frame s2 = frame s1"
    "content s2 = (content s1)(d := content s c)" by auto
  have "cell s (dest + of_nat i) \<noteq> Some d" if "i < k" for i
    using assms(1,3) d that unfolding copyable_def by (metis less_trans less_irrefl)
  then have "copied cell content dest src (Suc k) s s2"
    using assms(2,4) d s2(2,4) unfolding copied_def by (auto simp: less_Suc_eq)
  then show ?thesis using s2 by blast
qed

lemma copy_byte_copied:
  assumes "copyable cell s dest src n" "copied cell content dest src k s s1" "k < n"
  shows "\<exists>s2. copy_byte ld st (dest + of_nat k) (src + of_nat k) s1 = Inr s2 \<and>
    copied cell content dest src (Suc k) s s2 \<and> frame s2 = frame s1"
proof -
  from load_copied [OF assms(1,2) less_imp_le [OF assms(3)] assms(3)] obtain c where
    "cell s (src + of_nat k) = Some c" "ld (src + of_nat k) s1 = Inr (content s c)" .
  then show ?thesis using store_copied [OF assms] by (simp add: copy_byte_def)
qed

lemma copy_bytes_copied:
  assumes "copyable cell s dest src n" "copied cell content dest src k s s1" "k \<le> m" "m \<le> n"
  shows "\<exists>s2. for_each [k..<m] (\<lambda>i. copy_byte ld st (dest + of_nat i) (src + of_nat i)) s1 = Inr s2 \<and>
    copied cell content dest src m s s2 \<and> frame s2 = frame s1"
  using assms(3,4)
proof (induction m rule: dec_induct)
  case base
  then show ?case using assms(2) by simp
next
  case (step m)
  then obtain s2 where s2: "for_each [k..<m] (\<lambda>i. copy_byte ld st (dest + of_nat i) (src + of_nat i)) s1 = Inr s2"
    "copied cell content dest src m s s2" "frame s2 = frame s1" by auto
  from copy_byte_copied [OF assms(1) s2(2)] step.prems obtain s3 where
    "copy_byte ld st (dest + of_nat m) (src + of_nat m) s2 = Inr s3" "copied cell content dest src (Suc m) s s3"
    "frame s3 = frame s2" by auto
  then show ?case using s2 step.hyps by (simp add: for_each_append)
qed

lemma copy_dword_copied:
  assumes "copyable cell s dest src n" "copied cell content dest src k s s1" "k + 4 \<le> n"
  shows "\<exists>s2. copy_dword ld st (dest + of_nat k) (src + of_nat k) s1 = Inr s2 \<and>
    copied cell content dest src (k + 4) s s2 \<and> frame s2 = frame s1"
proof -
  have b: "k \<le> n" "k < n" "Suc k < n" "Suc (Suc k) < n" "Suc (Suc (Suc k)) < n" using assms(3) by simp_all
  note load = load_copied [OF assms(1,2) b(1)]
  obtain c0 c1 c2 c3 where
    l: "cell s (src + of_nat k) = Some c0" "ld (src + of_nat k) s1 = Inr (content s c0)"
    "cell s (src + of_nat (Suc k)) = Some c1" "ld (src + of_nat (Suc k)) s1 = Inr (content s c1)"
    "cell s (src + of_nat (Suc (Suc k))) = Some c2" "ld (src + of_nat (Suc (Suc k))) s1 = Inr (content s c2)"
    "cell s (src + of_nat (Suc (Suc (Suc k)))) = Some c3"
    "ld (src + of_nat (Suc (Suc (Suc k)))) s1 = Inr (content s c3)"
    using load [OF b(2)] load [OF b(3)] load [OF b(4)] load [OF b(5)] by metis
  obtain t1 where t1: "st (dest + of_nat k) (content s c0) s1 = Inr t1"
    "copied cell content dest src (Suc k) s t1" "frame t1 = frame s1"
    using store_copied [OF assms(1,2) _ l(1)] assms(3) by auto
  obtain t2 where t2: "st (dest + of_nat (Suc k)) (content s c1) t1 = Inr t2"
    "copied cell content dest src (Suc (Suc k)) s t2" "frame t2 = frame s1"
    using store_copied [OF assms(1) t1(2) _ l(3)] assms(3) t1(3) by auto
  obtain t3 where t3: "st (dest + of_nat (Suc (Suc k))) (content s c2) t2 = Inr t3"
    "copied cell content dest src (Suc (Suc (Suc k))) s t3" "frame t3 = frame s1"
    using store_copied [OF assms(1) t2(2) _ l(5)] assms(3) t2(3) by auto
  obtain t4 where t4: "st (dest + of_nat (Suc (Suc (Suc k)))) (content s c3) t3 = Inr t4"
    "copied cell content dest src (Suc (Suc (Suc (Suc k)))) s t4" "frame t4 = frame s1"
    using store_copied [OF assms(1) t3(2) _ l(7)] assms(3) t3(3) by auto
  have k4: "Suc (Suc (Suc (Suc k))) = k + 4" by simp
  show ?thesis using l t1 t2 t3 t4(1,3) t4(2) [unfolded k4] by (simp add: copy_dword_def add_ac)
qed

lemma memcpy_aligned_copied:
  assumes "copyable cell s dest src n" "copied cell content dest src (4 * k) s s1"
    and "0 < unat m" "4 * (k + unat m) \<le> n"
  shows "\<exists>s2. memcpy_aligned_loop ld st (dest + of_nat (4 * k)) (src + of_nat (4 * k)) m s1 = Inr s2 \<and>
    copied cell content dest src (4 * (k + unat m)) s s2 \<and> frame s2 = frame s1"
  using assms(2-4)
proof (induction "unat m" arbitrary: m k s1)
  case (Suc l)
  have "4 * k + 4 \<le> n" and k4: "4 * k + 4 = 4 * Suc k" using Suc.prems(2,3) by simp_all
  from copy_dword_copied [OF assms(1) Suc.prems(1) this(1), unfolded k4] obtain s2 where
    s2: "copy_dword ld st (dest + of_nat (4 * k)) (src + of_nat (4 * k)) s1 = Inr s2"
    "copied cell content dest src (4 * Suc k) s s2" "frame s2 = frame s1" by blast
  have m: "unat (m - 1) = l" using Suc.hyps(2) by (metis diff_Suc_1 nat.distinct(1) unat_0 unat_minus_one)
  have ad: "dest + of_nat (4 * k) + 4 = dest + of_nat (4 * Suc k)" "src + of_nat (4 * k) + 4 = src + of_nat (4 * Suc k)"
    by simp_all
  show ?case
  proof (cases "l = 0")
    case True
    then have "m - 1 = 0" using m by (simp add: unat_eq_zero)
    then have "memcpy_aligned_loop ld st (dest + of_nat (4 * k)) (src + of_nat (4 * k)) m s1 = Inr s2"
      by (subst memcpy_aligned_loop.simps) (simp only: s2(1) bindE_Inr Let_def if_False simp_thms)
    moreover have "k + unat m = Suc k" using True Suc.hyps(2) by simp
    ultimately show ?thesis using s2(2,3) by metis
  next
    case False
    then have "m - 1 \<noteq> 0" using m by auto
    then have "memcpy_aligned_loop ld st (dest + of_nat (4 * k)) (src + of_nat (4 * k)) m s1 =
      memcpy_aligned_loop ld st (dest + of_nat (4 * Suc k)) (src + of_nat (4 * Suc k)) (m - 1) s2"
      by (subst memcpy_aligned_loop.simps) (simp only: s2(1) bindE_Inr Let_def if_True simp_thms ad)
    moreover have "4 * (Suc k + unat (m - 1)) \<le> n" using Suc.prems(3) Suc.hyps(2) m by simp
    moreover have "k + unat m = Suc k + unat (m - 1)" using Suc.hyps(2) m by simp
    ultimately show ?thesis using Suc.hyps(1) [OF m [symmetric] s2(2)] False m s2(3) by simp
  qed
qed simp

lemma memcpy_spec:
  assumes "copyable cell s dest src (unat n)"
  shows "\<exists>s'. memcpy ld st dest src n s = Inr s' \<and> copied cell content dest src (unat n) s s' \<and> frame s' = frame s"
proof -
  have z: "copied cell content dest src 0 s s" by (simp add: copied_def)
  show ?thesis
  proof (cases "n < 16")
    case True
    then show ?thesis using copy_bytes_copied [OF assms z] by (simp add: memcpy_def)
  next
    case False
    define a where "a = n AND 0xFFFFFFFC"
    have m4: "(0xFFFFFFFC :: u32) = - 4" using eq_neg_iff_add_eq_0 [of "0xFFFFFFFC :: u32" 4] by simp
    have "a = ALIGN_BITS_DOWN n 2" unfolding a_def m4 by (simp add: ALIGN_BITS_DOWN_def MASK_def)
    then have a: "unat a = 4 * (unat n div 4)" by (simp add: unat_ALIGN_BITS_DOWN)
    then have q: "unat (drop_bit 2 a) = unat n div 4" by (simp add: unat_drop_bit_u32)
    have "0 < unat (drop_bit 2 a)" "4 * (0 + unat (drop_bit 2 a)) \<le> unat n"
      using False by (auto simp: q word_less_nat_alt div_greater_zero_iff)
    from memcpy_aligned_copied [OF assms _ this, of s] z obtain s1 where
      s1: "memcpy_aligned ld st dest src a s = Inr s1"
      "copied cell content dest src (unat a) s s1" "frame s1 = frame s"
      by (auto simp: memcpy_aligned_def q a)
    from copy_bytes_copied [OF assms s1(2), of "unat n"] a obtain s2 where
      "for_each [unat a..<unat n] (\<lambda>i. copy_byte ld st (dest + of_nat i) (src + of_nat i)) s1 = Inr s2"
      "copied cell content dest src (unat n) s s2" "frame s2 = frame s" using s1(3) by auto
    then show ?thesis using False s1(1) by (simp add: memcpy_def a_def [symmetric] Let_def)
  qed
qed

lemma strlen_loop_spec:
  assumes "\<forall>i < k. \<exists>c. cell s (str + of_nat i) = Some c \<and> content s c \<noteq> 0"
    and "cell s (str + of_nat k) = Some z" "content s z = 0" "k < 2 ^ 32" "j \<le> k"
  shows "strlen_loop ld str (of_nat j) s = Some (Inr (of_nat k))"
  using assms(5)
proof (induction "k - j" arbitrary: j)
  case 0
  then have "j = k" by simp
  then show ?case using assms(2,3) by (simp add: strlen_loop.simps load_cell)
next
  case (Suc l)
  then have "j < k" by simp
  with assms(1) obtain c where "cell s (str + of_nat j) = Some c" "content s c \<noteq> 0" by auto
  then have "strlen_loop ld str (of_nat j) s = strlen_loop ld str (of_nat (Suc j)) s"
    by (subst strlen_loop.simps) (simp add: load_cell add.commute)
  then show ?case using Suc.hyps(1) [of "Suc j"] Suc.hyps(2) \<open>j < k\<close> by simp
qed

end

interpretation flat: byte_memory flat_load flat_store "\<lambda>m a. Some a" "\<lambda>m. m" "\<lambda>m. ()"
  by unfold_locales (auto simp: flat_load_def flat_store_def)

section \<open>Properties\<close>

text \<open>
  C20. \<^verbatim>\<open>memcpy\<close>, with the byte loop for short copies and with the double word loop and its
  byte tail for longer ones, copies exactly the requested bytes between regions that do not overlap
  and changes nothing else.
\<close>

theorem memcpy_correct:
  assumes "\<forall>i < unat n. \<forall>j < unat n. dest + of_nat i \<noteq> src + of_nat j"
  shows "\<exists>m'. memcpy flat_load flat_store dest src n m = Inr m' \<and>
    (\<forall>i < unat n. m' (dest + of_nat i) = m (src + of_nat i)) \<and>
    (\<forall>a. (\<forall>i < unat n. a \<noteq> dest + of_nat i) \<longrightarrow> m' a = m a)"
proof -
  have "(of_nat i :: u32) = of_nat j \<longleftrightarrow> i = j" if "i < unat n" "j < unat n" for i j
    using that less_trans [OF _ unat_lt_2p32 [of n]] unat_u32_of_nat by metis
  then have "copyable (\<lambda>m a. Some a) m dest src (unat n)" using assms by (auto simp: copyable_def)
  from flat.memcpy_spec [OF this] obtain m' where
    "memcpy flat_load flat_store dest src n m = Inr m'" "copied (\<lambda>m a. Some a) (\<lambda>m. m) dest src (unat n) m m'" by blast
  then show ?thesis by (intro exI [of _ m']) (simp add: copied_def eq_commute)
qed

theorem memcpy_correct_witness:
  "\<exists>m'. memcpy flat_load flat_store 0x100 0x200 19 (\<lambda>a. ucast a) = Inr m' \<and> m' 0x112 = 0x12"
proof -
  have "0x100 + of_nat i \<noteq> (0x200 + of_nat j :: u32)" if "i < 19" "j < 19" for i j :: nat
  proof
    assume "0x100 + of_nat i = (0x200 + of_nat j :: u32)"
    then have "unat (0x100 + of_nat i :: u32) = unat (0x200 + of_nat j :: u32)" by simp
    then show False using that by (simp add: unat_word_ariths unat_of_nat take_bit_eq_mod)
  qed
  then show ?thesis using memcpy_correct [of 19 "0x100" "0x200" "\<lambda>a. ucast a"]
    by (auto dest!: spec [of _ "18 :: nat"])
qed

text \<open>
  \<^verbatim>\<open>strlen\<close> ends and returns the position of the first zero byte, for every string whose
  terminator lies within the address space.
\<close>

lemma strlen_correct:
  assumes "\<forall>i < k. m (str + of_nat i) \<noteq> 0" "m (str + of_nat k) = 0" "k < 2 ^ 32"
  shows "strlen flat_load str m = Inr (of_nat k)"
  using flat.strlen_loop_spec [where j = 0 and k = k and str = str and s = m] assms by (simp add: strlen_def)

end
