(* ===== verification/Vm.thy ===== *)
theory Vm
  imports Pmm Vm_Bucket Paging Cstring
begin

text \<open>
  The kernel's virtual memory manager, \<^verbatim>\<open>kernel/memory/vm.c\<close>: \<^verbatim>\<open>vm_init\<close>,
  \<^verbatim>\<open>vm_alloc_kpages\<close>, \<^verbatim>\<open>vm_free_kpages\<close>, \<^verbatim>\<open>vm_kernel_stealmem\<close>,
  \<^verbatim>\<open>vm_item\<close> and \<^verbatim>\<open>vm_return_pages\<close>, over the free page ranges, the page
  tables, the frame allocator and physical memory. Bytes are read and written through the
  processor's translation, so an access to an unmapped page is a fault. The buckets of the range
  lists are objects of their own; a bucket made from stolen memory starts with the bytes found there.
\<close>

section \<open>Model\<close>

record vm_state =
  bucket_heap :: bheap
  vm_kernel_buckets :: ptr
  vm_waiting_list :: ptr
  vm_steal_next :: vaddr_t
  vm_steal_remaining :: size_t
  paging :: paging_state
  pmm :: pmm_state
  pmem :: "paddr_t \<Rightarrow> u8"

definition vm_load :: "linkage \<Rightarrow> vm_state loadb" where
  "vm_load L a s =
     (case walk L (paging s) a of None \<Rightarrow> Inl (Undefined ''page fault'') | Some pa \<Rightarrow> Inr (pmem s pa))"

definition vm_store :: "linkage \<Rightarrow> vm_state storeb" where
  "vm_store L a v s =
     (case walk L (paging s) a of
        None \<Rightarrow> Inl (Undefined ''page fault'')
      | Some pa \<Rightarrow> Inr (s\<lparr>pmem := (pmem s)(pa := v)\<rparr>))"

definition vm_init :: "linkage \<Rightarrow> vm_state \<Rightarrow> vm_state res" where
  "vm_init L s =
     (let s = s\<lparr>vm_steal_next := pmm_get_border (pmm s)\<rparr>;
          managed_start = KERNEL_BOOT_MAPPED;
          managed_end = 0xFF000000;
          s = s\<lparr>vm_steal_remaining := managed_start - vm_steal_next s\<rparr>
      in bindE (init_paging L (paging s)) (\<lambda>pg.
         let s = s\<lparr>paging := pg,
                   bucket_heap := (bucket_heap s)(first_bucket_addr L \<mapsto>
                     \<lparr>pageno = drop_bit PAGE_BITS managed_start,
                      bk_size = drop_bit PAGE_BITS (managed_start - managed_end),
                      next_ptr = NULL, prev_ptr = NULL\<rparr>),
                   vm_kernel_buckets := first_bucket_addr L\<rparr>
         in bindE (switch_as AS_FIRST (paging s)) (\<lambda>pg. Inr (s\<lparr>paging := pg\<rparr>))))"

text \<open>The body of the loop of \<^verbatim>\<open>vm_alloc_kpages\<close>, and the function.\<close>

definition alloc_page :: "linkage \<Rightarrow> size_t \<Rightarrow> nat \<Rightarrow> vm_state \<Rightarrow> vm_state res" where
  "alloc_page L pno i s =
     bindE (pmm_alloc (pmm s) 1) (\<lambda>(err, paddr, p).
     let s = s\<lparr>pmm := p\<rparr> in
     bindE (ASSERT (err = E_OK) ''Out of physical memory'') (\<lambda>_.
     bindE (vm_map_page L (current_as (paging s)) paddr ((pno + of_nat i) * PAGE_SIZE) (paging s)) (\<lambda>pg.
     Inr (s\<lparr>paging := pg\<rparr>))))"

definition vm_alloc_kpages :: "linkage \<Rightarrow> size_t \<Rightarrow> vm_state \<Rightarrow> (vaddr_t \<times> vm_state) res" where
  "vm_alloc_kpages L pages s =
     bindE (vm_reserve_pages (bucket_heap s) (vm_kernel_buckets s) (vm_waiting_list s) pages)
       (\<lambda>(err, out, h, b, w).
     let s = s\<lparr>bucket_heap := h, vm_kernel_buckets := b, vm_waiting_list := w\<rparr> in
     bindE (ASSERT (err = E_OK) ''Out of virtual memory'') (\<lambda>_.
     case out of
       None \<Rightarrow> Inl (Undefined ''pageno'')
     | Some pno \<Rightarrow>
         bindE (for_each [0..<unat pages] (alloc_page L pno) s) (\<lambda>s.
         let ptr = pno * PAGE_SIZE in
         bindE (memset (vm_store L) ptr 0xAA (pages * PAGE_SIZE) s) (\<lambda>s. Inr (ptr, s)))))"

definition vm_kernel_stealmem :: "linkage \<Rightarrow> size_t \<Rightarrow> vm_state \<Rightarrow> (vaddr_t \<times> vm_state) res" where
  "vm_kernel_stealmem L sz s =
     bindE (ASSERT (sz \<le> PAGE_SIZE) ''size <= PAGE_SIZE'') (\<lambda>_.
     bindE (if vm_steal_remaining s < sz
            then bindE (vm_alloc_kpages L 1 s)
                   (\<lambda>(p, s). Inr (s\<lparr>vm_steal_next := p, vm_steal_remaining := PAGE_SIZE\<rparr>))
            else Inr s) (\<lambda>s.
     let addr = vm_steal_next s in
     bindE (memset (vm_store L) addr 0 sz s) (\<lambda>s.
     Inr (addr, s\<lparr>vm_steal_next := vm_steal_next s + sz,
                  vm_steal_remaining := vm_steal_remaining s - sz\<rparr>))))"

text \<open>A bucket made of the sixteen bytes at an address.\<close>

definition load_dword :: "linkage \<Rightarrow> vaddr_t \<Rightarrow> vm_state \<Rightarrow> u32 res" where
  "load_dword L a s =
     bindE (vm_load L a s) (\<lambda>c0. bindE (vm_load L (a + 1) s) (\<lambda>c1.
     bindE (vm_load L (a + 2) s) (\<lambda>c2. bindE (vm_load L (a + 3) s) (\<lambda>c3.
     Inr (ucast c0 + push_bit 8 (ucast c1) + push_bit 16 (ucast c2) + push_bit 24 (ucast c3))))))"

definition bucket_of_bytes :: "linkage \<Rightarrow> vaddr_t \<Rightarrow> vm_state \<Rightarrow> vm_free_bucket_t res" where
  "bucket_of_bytes L a s =
     bindE (load_dword L a s) (\<lambda>p. bindE (load_dword L (a + 4) s) (\<lambda>z.
     bindE (load_dword L (a + 8) s) (\<lambda>n. bindE (load_dword L (a + 12) s) (\<lambda>v.
     Inr \<lparr>pageno = p, bk_size = z, next_ptr = n, prev_ptr = v\<rparr>))))"

definition sizeof_vm_free_bucket_t :: size_t where
  "sizeof_vm_free_bucket_t = 16"

definition vm_item :: "linkage \<Rightarrow> vm_state \<Rightarrow> (ptr \<times> vm_state) res" where
  "vm_item L s =
     (if vm_waiting_list s \<noteq> NULL then
        bindE (ll_pop_item (bucket_heap s) (vm_waiting_list s)) (\<lambda>(it, h, w).
        Inr (it, s\<lparr>bucket_heap := h, vm_waiting_list := w\<rparr>))
      else
        bindE (vm_kernel_stealmem L sizeof_vm_free_bucket_t s) (\<lambda>(a, s).
        bindE (bucket_of_bytes L a s) (\<lambda>b.
        Inr (a, s\<lparr>bucket_heap := (bucket_heap s)(a \<mapsto> b)\<rparr>))))"

definition vm_return_pages :: "linkage \<Rightarrow> size_t \<Rightarrow> size_t \<Rightarrow> vm_state \<Rightarrow> vm_state res" where
  "vm_return_pages L pages pno s =
     bindE (vm_item L s) (\<lambda>(it, s).
     bindE (return_item (bucket_heap s) (vm_kernel_buckets s) (vm_waiting_list s) it pages pno) (\<lambda>(h, b, w).
     Inr (s\<lparr>bucket_heap := h, vm_kernel_buckets := b, vm_waiting_list := w\<rparr>)))"

text \<open>
  The loop of \<^verbatim>\<open>vm_free_kpages\<close> unmaps the pages from the last to the first and keeps the
  last physical address it got, if any.
\<close>

definition unmap_step ::
  "linkage \<Rightarrow> size_t \<Rightarrow> vaddr_t \<Rightarrow> nat \<Rightarrow> paddr_t option \<times> vm_state \<Rightarrow> (paddr_t option \<times> vm_state) res" where
  "unmap_step L pages addr i ps =
     (let j = pages - of_nat i - 1; s = snd ps in
      bindE (vm_unmap_page L (addr + j * PAGE_SIZE) (paging s)) (\<lambda>(paddr, pg).
      Inr (Some paddr, s\<lparr>paging := pg\<rparr>)))"

definition vm_free_kpages :: "linkage \<Rightarrow> size_t \<Rightarrow> vaddr_t \<Rightarrow> vm_state \<Rightarrow> vm_state res" where
  "vm_free_kpages L pages addr s =
     (let pno = drop_bit PAGE_BITS addr in
      bindE (for_each [0..<unat pages] (unmap_step L pages addr) (None, s)) (\<lambda>(paddr, s).
      bindE (vm_return_pages L pages pno s) (\<lambda>s.
      case paddr of
        None \<Rightarrow> Inl (Undefined ''paddr'')
      | Some pa \<Rightarrow> bindE (pmm_free (pmm s) pages pa) (\<lambda>p. Inr (s\<lparr>pmm := p\<rparr>)))))"

section \<open>Specification\<close>

text \<open>The invariant, with the lists of the buckets and of the spare buckets.\<close>

definition vm_inv :: "linkage \<Rightarrow> vm_state \<Rightarrow> ptr list \<Rightarrow> ptr list \<Rightarrow> bool" where
  "vm_inv L s xs ws \<longleftrightarrow>
     paging_inv L (paging s) \<and> pmm_inv (pmm s) \<and>
     vm_lists (bucket_heap s) (vm_kernel_buckets s) xs (vm_waiting_list s) ws \<and>
     coalesced (ranges (bucket_heap s) xs) \<and> ranges_fit (ranges (bucket_heap s) xs)"

definition free_ranges :: "vm_state \<Rightarrow> ptr list \<Rightarrow> range list" where
  "free_ranges s xs = ranges (bucket_heap s) xs"

text \<open>
  \<open>backed L s s' q fs\<close>: the pages from number \<open>q\<close> on are mapped to the frames \<open>fs\<close>,
  which were free and are no longer; every other page is translated as before.
\<close>

definition frame_paddr :: "vm_state \<Rightarrow> nat \<Rightarrow> paddr_t" where
  "frame_paddr s f = buddy_base (pmm s) + 4096 * of_nat f"

definition backed :: "linkage \<Rightarrow> vm_state \<Rightarrow> vm_state \<Rightarrow> nat \<Rightarrow> nat list \<Rightarrow> bool" where
  "backed L s s' q fs \<longleftrightarrow>
     distinct fs \<and> set fs \<subseteq> free_frames (pmm s) \<and>
     free_frames (pmm s') = free_frames (pmm s) - set fs \<and>
     buddy_base (pmm s') = buddy_base (pmm s) \<and> frames (pmm s') = frames (pmm s) \<and>
     (\<forall>va. walk L (paging s') va =
        (if q \<le> page_of va \<and> page_of va < q + length fs
         then Some (frame_paddr s (fs ! (page_of va - q)) + page_off va)
         else walk L (paging s) va))"

text \<open>\<open>mapped_run L s q fs\<close>: the pages from \<open>q\<close> on are mapped to the frames \<open>fs\<close>.\<close>

definition mapped_run :: "linkage \<Rightarrow> vm_state \<Rightarrow> nat \<Rightarrow> nat list \<Rightarrow> bool" where
  "mapped_run L s q fs \<longleftrightarrow>
     (\<forall>i < length fs. walk L (paging s) (of_nat (q + i) * 4096) = Some (frame_paddr s (fs ! i)))"

text \<open>
  \<open>steal_ready L s xs q n\<close>: the stealing area has room for a bucket whose bytes are mapped, lie
  outside the pages \<open>q\<close> to \<open>q + n - 1\<close> and hold none of the buckets \<open>xs\<close>.
\<close>

definition steal_ready :: "linkage \<Rightarrow> vm_state \<Rightarrow> ptr list \<Rightarrow> nat \<Rightarrow> nat \<Rightarrow> bool" where
  "steal_ready L s xs q n \<longleftrightarrow>
     16 \<le> vm_steal_remaining s \<and> vm_steal_next s \<noteq> NULL \<and> vm_steal_next s \<notin> set xs \<and>
     (\<forall>i < 16. walk L (paging s) (vm_steal_next s + of_nat i) \<noteq> None \<and>
        \<not> (q \<le> page_of (vm_steal_next s + of_nat i) \<and> page_of (vm_steal_next s + of_nat i) < q + n))"

text \<open>The state before \<^verbatim>\<open>vm_init\<close>.\<close>

definition vm_boot :: "paddr_t \<Rightarrow> pmm_state \<Rightarrow> (paddr_t \<Rightarrow> u8) \<Rightarrow> vm_state" where
  "vm_boot c p m = \<lparr>bucket_heap = (\<lambda>_. None), vm_kernel_buckets = NULL, vm_waiting_list = NULL,
     vm_steal_next = 0, vm_steal_remaining = 0, paging = paging_boot c, pmm = p, pmem = m\<rparr>"

section \<open>Memory through the page tables\<close>

interpretation vmm: byte_memory "vm_load L" "vm_store L" "\<lambda>s. walk L (paging s)" pmem "\<lambda>s. s\<lparr>pmem := \<lambda>_. 0\<rparr>" for L
  by unfold_locales (auto simp: vm_load_def vm_store_def)

lemma vm_state_frame:
  assumes "s'\<lparr>pmem := \<lambda>_. 0\<rparr> = s\<lparr>pmem := \<lambda>_. 0\<rparr>"
  shows "s' = s\<lparr>pmem := pmem s'\<rparr>"
proof -
  have "s'\<lparr>pmem := \<lambda>_. 0, pmem := pmem s'\<rparr> = s\<lparr>pmem := \<lambda>_. 0, pmem := pmem s'\<rparr>" using assms by simp
  then show ?thesis by simp
qed

lemma memset_vm:
  assumes "\<forall>i < unat n. walk L (paging s) (p + of_nat i) \<noteq> None"
  shows "\<exists>m. memset (vm_store L) p v n s = Inr (s\<lparr>pmem := m\<rparr>) \<and>
    m = (\<lambda>c. if \<exists>i < unat n. walk L (paging s) (p + of_nat i) = Some c then ucast v else pmem s c)"
proof -
  from vmm.memset_spec [OF assms, of v] obtain s' where
    s': "memset (vm_store L) p v n s = Inr s'" "s'\<lparr>pmem := \<lambda>_. 0\<rparr> = s\<lparr>pmem := \<lambda>_. 0\<rparr>"
    "pmem s' = (\<lambda>c. if \<exists>i < unat n. walk L (paging s) (p + of_nat i) = Some c then ucast v else pmem s c)" by blast
  note e = vm_state_frame [OF s'(2)]
  show ?thesis
  proof (intro exI conjI)
    show "memset (vm_store L) p v n s = Inr (s\<lparr>pmem := pmem s'\<rparr>)" using s'(1) by (simp only: e [symmetric])
  qed (rule s'(3))
qed

section \<open>Initialisation\<close>

lemma vm_init_spec:
  assumes "linkage_ok L" "first_bucket_addr L \<noteq> NULL" "pmm_inv p"
  shows "\<exists>s. vm_init L (vm_boot c p m) = Inr s \<and> vm_inv L s [first_bucket_addr L] [] \<and>
    free_ranges s [first_bucket_addr L] = [(0xC0800, 0xC1800)] \<and>
    (\<forall>va. walk L (paging s) va =
       (if KERNEL_OFFSET \<le> va \<and> va < KERNEL_BOOT_MAPPED then Some (virtual2phys va) else None)) \<and>
    vm_steal_next s = managed_first p + KERNEL_OFFSET \<and>
    vm_steal_remaining s = KERNEL_BOOT_MAPPED - vm_steal_next s \<and> pmm s = p \<and> pmem s = m"
proof -
  from init_paging_spec [OF assms(1), of c] obtain pg where
    pg: "init_paging L (paging_boot c) = Inr pg" "paging_inv L (activate L pg)"
    "switch_as AS_FIRST pg = Inr (activate L pg)"
    "\<forall>va. walk L (activate L pg) va =
       (if KERNEL_OFFSET \<le> va \<and> va < KERNEL_BOOT_MAPPED then Some (virtual2phys va) else None)" by blast
  show ?thesis
    using pg assms(2,3)
    by (simp add: vm_init_def vm_boot_def Let_def vm_inv_def free_ranges_def vm_lists_def dll_def
        range_at_Some ranges_fit_def KERNEL_BOOT_MAPPED_def PAGE_BITS_def pmm_get_border_def pmm_phys2virtual_def
        unat_drop_bit_u32)
qed

section \<open>Allocating pages\<close>

lemma page_addr:
  assumes "q + i < 2 ^ 20"
  shows "unat ((of_nat q + of_nat i) * 4096 :: u32) = 4096 * (q + i)" "page_of ((of_nat q + of_nat i) * 4096) = q + i"
proof -
  have e: "(of_nat q + of_nat i :: u32) = of_nat (q + i)" by simp
  show u: "unat ((of_nat q + of_nat i) * 4096 :: u32) = 4096 * (q + i)"
    using assms unfolding e by (simp add: unat_word_ariths unat_of_nat take_bit_eq_mod del: of_nat_add)
  show "page_of ((of_nat q + of_nat i) * 4096) = q + i" unfolding page_of_def u by simp
qed

lemma alloc_page_spec:
  assumes "linkage_ok L" "paging_inv L (paging s)" "pmm_inv (pmm s)" "free_frames (pmm s) \<noteq> {}"
    and "0xC0000 \<le> q" "q + i < 2 ^ 20"
  shows "\<exists>f pg p. alloc_page L (of_nat q) i s = Inr (s\<lparr>pmm := p, paging := pg\<rparr>) \<and> paging_inv L pg \<and> pmm_inv p \<and>
    f \<in> free_frames (pmm s) \<and> free_frames p = free_frames (pmm s) - {f} \<and>
    buddy_base p = buddy_base (pmm s) \<and> frames p = frames (pmm s) \<and>
    (\<forall>va. walk L pg va = (if page_of va = q + i then Some (frame_paddr s f + page_off va) else walk L (paging s) va))"
proof -
  from pm.alloc_one [OF assms(3,4)] obtain f p where
    a: "pmm_alloc (pmm s) 1 = Inr (E_OK, buddy_base (pmm s) + 4096 * of_nat f, p)" "f \<in> free_frames (pmm s)"
    "pmm_inv p" "free_frames p = free_frames (pmm s) - {f}" "buddy_base p = buddy_base (pmm s)"
    "frames p = frames (pmm s)" by blast
  have al: "4096 dvd unat (buddy_base (pmm s) + 4096 * of_nat f)"
    using pm.frame_addr_aligned [OF assms(3) pm.free_bound [OF assms(3) a(2)]] .
  have "KERNEL_OFFSET \<le> (of_nat q + of_nat i) * 4096"
    using page_addr(1) [OF assms(6)] assms(5) by (simp add: word_le_nat_alt KERNEL_OFFSET_def)
  from map_page_spec [OF assms(1,2) this al] obtain pg where
    pg: "vm_map_page L (current_as (paging s)) (buddy_base (pmm s) + 4096 * of_nat f) ((of_nat q + of_nat i) * 4096) (paging s)
      = Inr pg" "paging_inv L pg" "\<forall>va. walk L pg va = (if page_of va = q + i
      then Some (buddy_base (pmm s) + 4096 * of_nat f + page_off va) else walk L (paging s) va)"
    unfolding page_addr(2) [OF assms(6)] by blast
  have "alloc_page L (of_nat q) i s = Inr (s\<lparr>pmm := p, paging := pg\<rparr>)"
    using a(1) pg(1) by (simp add: alloc_page_def Let_def)
  then show ?thesis using a(2-6) pg(2,3)
    by (intro exI [of _ f] exI [of _ pg] exI [of _ p]) (simp add: frame_paddr_def)
qed

lemma alloc_pages_spec:
  assumes "linkage_ok L" "paging_inv L (paging s)" "pmm_inv (pmm s)" "n \<le> card (free_frames (pmm s))"
    and "0xC0000 \<le> q" "q + n \<le> 2 ^ 20"
  shows "\<exists>fs pg p. for_each [0..<n] (alloc_page L (of_nat q)) s = Inr (s\<lparr>pmm := p, paging := pg\<rparr>) \<and>
    paging_inv L pg \<and> pmm_inv p \<and> length fs = n \<and> backed L s (s\<lparr>pmm := p, paging := pg\<rparr>) q fs"
  using assms(4,6)
proof (induction n)
  case 0
  show ?case using assms(2,3)
    by (intro exI [of _ "[]"] exI [of _ "paging s"] exI [of _ "pmm s"]) (auto simp: backed_def)
next
  case (Suc n)
  then obtain fs pg p where IH: "for_each [0..<n] (alloc_page L (of_nat q)) s = Inr (s\<lparr>pmm := p, paging := pg\<rparr>)"
    "paging_inv L pg" "pmm_inv p" "length fs = n" "backed L s (s\<lparr>pmm := p, paging := pg\<rparr>) q fs" by auto
  let ?s = "s\<lparr>pmm := p, paging := pg\<rparr>"
  have b: "distinct fs" "set fs \<subseteq> free_frames (pmm s)" "free_frames p = free_frames (pmm s) - set fs"
    "buddy_base p = buddy_base (pmm s)" "frames p = frames (pmm s)"
    "\<And>va. walk L pg va = (if q \<le> page_of va \<and> page_of va < q + n
       then Some (frame_paddr s (fs ! (page_of va - q)) + page_off va) else walk L (paging s) va)"
    using IH(4,5) by (auto simp: backed_def)
  have "card (free_frames p) = card (free_frames (pmm s)) - n"
    using b(1-3) IH(4) by (simp add: card_Diff_subset distinct_card)
  then have ne: "free_frames p \<noteq> {}" using Suc.prems(1) by auto
  have qn: "q + n < 2 ^ 20" using Suc.prems(2) by simp
  have sel: "pmm ?s = p" "paging ?s = pg" "\<And>x y. ?s\<lparr>pmm := x, paging := y\<rparr> = s\<lparr>pmm := x, paging := y\<rparr>"
    by simp_all
  obtain f pg' p' where
    st: "alloc_page L (of_nat q) n ?s = Inr (s\<lparr>pmm := p', paging := pg'\<rparr>)" "paging_inv L pg'" "pmm_inv p'"
    "f \<in> free_frames p" "free_frames p' = free_frames p - {f}" "buddy_base p' = buddy_base p" "frames p' = frames p"
    "\<And>va. walk L pg' va = (if page_of va = q + n then Some (frame_paddr ?s f + page_off va) else walk L pg va)"
    using alloc_page_spec [of L ?s q n, unfolded sel, OF assms(1) IH(2,3) ne assms(5) qn] by blast
  have fp: "frame_paddr ?s = frame_paddr s" using b(4) by (simp add: frame_paddr_def fun_eq_iff)
  have "walk L pg' va = (if q \<le> page_of va \<and> page_of va < q + Suc n
       then Some (frame_paddr s ((fs @ [f]) ! (page_of va - q)) + page_off va) else walk L (paging s) va)" for va
    using b(6) [of va] st(8) [of va] IH(4) by (auto simp: fp nth_append)
  then have "backed L s (s\<lparr>pmm := p', paging := pg'\<rparr>) q (fs @ [f])"
    using b(1-5) st(4-7) IH(4) by (auto simp: backed_def)
  moreover have "for_each [0..<Suc n] (alloc_page L (of_nat q)) s = Inr (s\<lparr>pmm := p', paging := pg'\<rparr>)"
    using IH(1) st(1) by (simp add: for_each_append)
  ultimately show ?case using st(2,3) IH(4) by (intro exI [of _ "fs @ [f]"]) auto
qed

lemma run_addresses:
  assumes "q + n \<le> 2 ^ 20"
  shows "q \<le> page_of va \<and> page_of va < q + n \<longleftrightarrow> (\<exists>i < n * 4096. va = of_nat q * 4096 + of_nat i)"
proof
  assume a: "q \<le> page_of va \<and> page_of va < q + n"
  then have b: "4096 * q \<le> unat va" "unat va < 4096 * (q + n)"
    by (auto simp: page_of_def less_eq_div_iff_mult_less_eq div_less_iff_less_mult)
  let ?i = "unat va - 4096 * q"
  have "of_nat (4096 * q + ?i) = va" using b(1) by simp
  then have "va = of_nat q * 4096 + of_nat ?i" by (simp add: mult.commute)
  moreover have "?i < n * 4096" using b by (simp add: algebra_simps)
  ultimately show "\<exists>i < n * 4096. va = of_nat q * 4096 + of_nat i" by blast
next
  assume "\<exists>i < n * 4096. va = of_nat q * 4096 + of_nat i"
  then obtain i where i: "i < n * 4096" "va = of_nat (q * 4096 + i)" by auto
  then have "unat va = q * 4096 + i" using assms unat_u32_of_nat [of "q * 4096 + i"] by simp
  then have "page_of va = q + i div 4096" by (simp add: page_of_def)
  then show "q \<le> page_of va \<and> page_of va < q + n" using i(1) by (simp add: div_less_iff_less_mult)
qed

lemma fill_pages:
  assumes "q + unat n \<le> 2 ^ 20" "0xC0000 \<le> q"
    and "\<And>va. q \<le> page_of va \<Longrightarrow> page_of va < q + unat n \<Longrightarrow> walk L (paging s) va \<noteq> None"
  shows "\<exists>m. memset (vm_store L) (of_nat q * 4096) v (n * 4096) s = Inr (s\<lparr>pmem := m\<rparr>) \<and>
    (\<forall>va. q \<le> page_of va \<and> page_of va < q + unat n \<longrightarrow> vm_load L va (s\<lparr>pmem := m\<rparr>) = Inr (ucast v)) \<and>
    (\<forall>pa. (\<forall>va. q \<le> page_of va \<and> page_of va < q + unat n \<longrightarrow> walk L (paging s) va \<noteq> Some pa) \<longrightarrow> m pa = pmem s pa)"
proof -
  have sz: "unat (n * 4096) = unat n * 4096" using assms(1,2) by (simp add: unat_word_ariths)
  note run = run_addresses [OF assms(1)]
  have "\<forall>i < unat (n * 4096). walk L (paging s) (of_nat q * 4096 + of_nat i) \<noteq> None"
    using assms(3) run unfolding sz by blast
  from memset_vm [OF this, of v] obtain m where
    m: "memset (vm_store L) (of_nat q * 4096) v (n * 4096) s = Inr (s\<lparr>pmem := m\<rparr>)"
    "m = (\<lambda>c. if \<exists>i < unat n * 4096. walk L (paging s) (of_nat q * 4096 + of_nat i) = Some c then ucast v else pmem s c)"
    unfolding sz by blast
  have "vm_load L va (s\<lparr>pmem := m\<rparr>) = Inr (ucast v)" if "q \<le> page_of va" "page_of va < q + unat n" for va
    using assms(3) [OF that] run [of va] that by (auto simp: vm_load_def m(2))
  moreover have "m pa = pmem s pa"
    if "\<And>va. q \<le> page_of va \<Longrightarrow> page_of va < q + unat n \<Longrightarrow> walk L (paging s) va \<noteq> Some pa" for pa
    using that run by (auto simp: m(2))
  ultimately show ?thesis using m(1) by blast
qed

lemma alloc_kpages_spec:
  assumes "linkage_ok L" "vm_inv L s xs ws" "first_fit (unat n) (free_ranges s xs) = Some (q, rs)"
    and "0xC0000 \<le> q" "q + unat n \<le> 2 ^ 20" "unat n \<le> card (free_frames (pmm s))"
  shows "\<exists>s' xs' ws' fs. vm_alloc_kpages L n s = Inr (of_nat q * 4096, s') \<and> vm_inv L s' xs' ws' \<and>
    free_ranges s' xs' = rs \<and> length fs = unat n \<and> backed L s s' q fs \<and>
    set xs' \<union> set ws' = set xs \<union> set ws \<and>
    vm_steal_next s' = vm_steal_next s \<and> vm_steal_remaining s' = vm_steal_remaining s \<and>
    (\<forall>va. q \<le> page_of va \<and> page_of va < q + unat n \<longrightarrow> vm_load L va s' = Inr 0xAA) \<and>
    (\<forall>pa. (\<forall>va. q \<le> page_of va \<and> page_of va < q + unat n \<longrightarrow> walk L (paging s') va \<noteq> Some pa) \<longrightarrow> pmem s' pa = pmem s pa)"
proof -
  from assms(2) have inv: "paging_inv L (paging s)" "pmm_inv (pmm s)"
    "vm_lists (bucket_heap s) (vm_kernel_buckets s) xs (vm_waiting_list s) ws"
    "coalesced (ranges (bucket_heap s) xs)" "ranges_fit (ranges (bucket_heap s) xs)" by (auto simp: vm_inv_def)
  have ff: "first_fit (unat n) (ranges (bucket_heap s) xs) = Some (q, rs)" using assms(3) by (simp add: free_ranges_def)
  from reserve_refines [OF inv(3,5), of n] obtain h b w xs' ws' where
    r: "vm_reserve_pages (bucket_heap s) (vm_kernel_buckets s) (vm_waiting_list s) n = Inr (E_OK, Some (of_nat q), h, b, w)"
    "vm_lists h b xs' w ws'" "ranges h xs' = rs" "set xs' \<union> set ws' = set xs \<union> set ws" unfolding ff by auto
  let ?s1 = "s\<lparr>bucket_heap := h, vm_kernel_buckets := b, vm_waiting_list := w\<rparr>"
  from alloc_pages_spec [of L ?s1 "unat n" q] assms(1,4-6) inv obtain fs pg p where
    a: "for_each [0..<unat n] (alloc_page L (of_nat q)) ?s1 = Inr (?s1\<lparr>pmm := p, paging := pg\<rparr>)"
    "paging_inv L pg" "pmm_inv p" "length fs = unat n" "backed L ?s1 (?s1\<lparr>pmm := p, paging := pg\<rparr>) q fs" by auto
  let ?s2 = "?s1\<lparr>pmm := p, paging := pg\<rparr>"
  have mapped: "walk L (paging ?s2) va \<noteq> None" if "q \<le> page_of va" "page_of va < q + unat n" for va
    using a(4,5) that by (simp add: backed_def)
  from fill_pages [OF assms(5,4) mapped, of "0xAA"] obtain m where
    m: "memset (vm_store L) (of_nat q * 4096) 0xAA (n * 4096) ?s2 = Inr (?s2\<lparr>pmem := m\<rparr>)"
    "\<forall>va. q \<le> page_of va \<and> page_of va < q + unat n \<longrightarrow> vm_load L va (?s2\<lparr>pmem := m\<rparr>) = Inr 0xAA"
    "\<forall>pa. (\<forall>va. q \<le> page_of va \<and> page_of va < q + unat n \<longrightarrow> walk L pg va \<noteq> Some pa) \<longrightarrow> m pa = pmem s pa" by auto
  have "vm_alloc_kpages L n s = Inr (of_nat q * 4096, ?s2\<lparr>pmem := m\<rparr>)"
    using r(1) a(1) m(1) by (simp add: vm_alloc_kpages_def Let_def)
  moreover have "vm_inv L (?s2\<lparr>pmem := m\<rparr>) xs' ws'"
    using a(2,3) r(2,3) first_fit_spec [OF inv(4) ff] first_fit_fit [OF ff inv(5)] by (simp add: vm_inv_def)
  moreover have "backed L s (?s2\<lparr>pmem := m\<rparr>) q fs" using a(5) by (simp add: backed_def frame_paddr_def)
  moreover have "free_ranges (?s2\<lparr>pmem := m\<rparr>) xs' = rs" using r(3) by (simp add: free_ranges_def)
  ultimately show ?thesis using a(4) m(2,3) r(4)
    by (intro exI [of _ "?s2\<lparr>pmem := m\<rparr>"] exI [of _ xs'] exI [of _ ws'] exI [of _ fs]) simp
qed

section \<open>Stealing memory and returning pages\<close>

lemma stealmem_direct:
  assumes "sz \<le> 4096" "sz \<le> vm_steal_remaining s"
    and "\<forall>i < unat sz. walk L (paging s) (vm_steal_next s + of_nat i) \<noteq> None"
  shows "\<exists>m. vm_kernel_stealmem L sz s = Inr (vm_steal_next s,
      s\<lparr>pmem := m, vm_steal_next := vm_steal_next s + sz, vm_steal_remaining := vm_steal_remaining s - sz\<rparr>) \<and>
    m = (\<lambda>c. if \<exists>i < unat sz. walk L (paging s) (vm_steal_next s + of_nat i) = Some c then 0 else pmem s c)"
proof -
  have z: "ucast (0 :: 32 word) = (0 :: u8)" by simp
  from memset_vm [OF assms(3), of 0, unfolded z] obtain m where
    "memset (vm_store L) (vm_steal_next s) 0 sz s = Inr (s\<lparr>pmem := m\<rparr>)"
    "m = (\<lambda>c. if \<exists>i < unat sz. walk L (paging s) (vm_steal_next s + of_nat i) = Some c then 0 else pmem s c)" by blast
  moreover have "\<not> vm_steal_remaining s < sz" using assms(2) by (simp add: not_less)
  ultimately show ?thesis using assms(1) by (intro exI [of _ m]) (simp add: vm_kernel_stealmem_def Let_def)
qed

lemma load_dword_zero:
  assumes "\<And>i. i < 4 \<Longrightarrow> vm_load L (a + of_nat i) s = Inr 0"
  shows "load_dword L a s = Inr 0"
  using assms [of 0] assms [of 1] assms [of 2] assms [of 3] by (simp add: load_dword_def)

lemma bucket_of_zero_bytes:
  assumes "\<And>i. i < 16 \<Longrightarrow> vm_load L (a + of_nat i) s = Inr 0"
  shows "bucket_of_bytes L a s = Inr \<lparr>pageno = 0, bk_size = 0, next_ptr = 0, prev_ptr = 0\<rparr>"
proof -
  have "load_dword L (a + of_nat k) s = Inr 0" if "k \<le> 12" for k :: nat
  proof (rule load_dword_zero)
    fix i :: nat assume "i < 4"
    then show "vm_load L (a + of_nat k + of_nat i) s = Inr 0" using assms [of "k + i"] that by (simp add: add.assoc)
  qed
  from this [of 0] this [of 4] this [of 8] this [of 12] show ?thesis by (simp add: bucket_of_bytes_def)
qed

text \<open>With an empty waiting list and room in the stealing area, \<^verbatim>\<open>vm_item\<close> makes a fresh bucket.\<close>

lemma vm_item_steals:
  assumes "vm_waiting_list s = NULL" "16 \<le> vm_steal_remaining s" "vm_steal_next s \<noteq> NULL"
    and "\<forall>i < 16. walk L (paging s) (vm_steal_next s + of_nat i) \<noteq> None"
  shows "\<exists>m. vm_item L s = Inr (vm_steal_next s, s\<lparr>pmem := m, vm_steal_next := vm_steal_next s + 16,
      vm_steal_remaining := vm_steal_remaining s - 16,
      bucket_heap := (bucket_heap s)(vm_steal_next s \<mapsto> \<lparr>pageno = 0, bk_size = 0, next_ptr = NULL, prev_ptr = NULL\<rparr>)\<rparr>)"
proof -
  let ?a = "vm_steal_next s"
  have "\<forall>i < unat (16 :: size_t). walk L (paging s) (?a + of_nat i) \<noteq> None" using assms(4) by simp
  from stealmem_direct [OF _ assms(2) this] obtain m where
    m: "vm_kernel_stealmem L 16 s = Inr (?a, s\<lparr>pmem := m, vm_steal_next := ?a + 16,
      vm_steal_remaining := vm_steal_remaining s - 16\<rparr>)"
    "m = (\<lambda>c. if \<exists>i < 16. walk L (paging s) (?a + of_nat i) = Some c then 0 else pmem s c)" by auto
  let ?s = "s\<lparr>pmem := m, vm_steal_next := ?a + 16, vm_steal_remaining := vm_steal_remaining s - 16\<rparr>"
  have "vm_load L (?a + of_nat i) ?s = Inr 0" if i: "i < 16" for i
  proof -
    obtain c where c: "walk L (paging s) (?a + of_nat i) = Some c" using assms(4) i by auto
    then have "m c = 0" using i unfolding m(2) by auto
    then show ?thesis using c by (simp add: vm_load_def)
  qed
  then have "bucket_of_bytes L ?a ?s = Inr \<lparr>pageno = 0, bk_size = 0, next_ptr = 0, prev_ptr = 0\<rparr>"
    by (rule bucket_of_zero_bytes)
  then show ?thesis using assms(1) m(1) by (auto simp: vm_item_def sizeof_vm_free_bucket_t_def NULL_def)
qed

lemma return_pages_steals:
  assumes "vm_inv L s xs []" "vm_waiting_list s = NULL" "16 \<le> vm_steal_remaining s" "vm_steal_next s \<noteq> NULL"
    and "\<forall>i < 16. walk L (paging s) (vm_steal_next s + of_nat i) \<noteq> None"
    and "vm_steal_next s \<notin> set xs" "unat p + unat n < 2 ^ 32" "0 < n"
    and "{unat p ..< unat p + unat n} \<inter> covered (free_ranges s xs) = {}"
    and "xs = [] \<or> (\<exists>y \<in> set (free_ranges s xs). unat p < fst y)"
  shows "\<exists>s' xs' ws'. vm_return_pages L n p s = Inr s' \<and>
    vm_lists (bucket_heap s') (vm_kernel_buckets s') xs' (vm_waiting_list s') ws' \<and>
    coalesced (free_ranges s' xs') \<and> free_ranges s' xs' = free_insert (unat p) (unat n) (free_ranges s xs) \<and>
    paging s' = paging s \<and> pmm s' = pmm s"
proof -
  let ?a = "vm_steal_next s"
  let ?z = "\<lparr>pageno = 0, bk_size = 0, next_ptr = NULL, prev_ptr = NULL\<rparr> :: vm_free_bucket_t"
  let ?h = "(bucket_heap s)(?a \<mapsto> ?z)"
  from vm_item_steals [OF assms(2-5)] obtain m where
    it: "vm_item L s = Inr (?a, s\<lparr>pmem := m, vm_steal_next := ?a + 16,
      vm_steal_remaining := vm_steal_remaining s - 16, bucket_heap := ?h\<rparr>)" by blast
  have l: "vm_lists ?h (vm_kernel_buckets s) xs (vm_waiting_list s) []" "ranges ?h xs = free_ranges s xs"
    using assms(1,6) by (simp_all add: vm_inv_def vm_lists_def dll_def free_ranges_def)
  have c: "coalesced (ranges ?h xs)" "ranges_fit (ranges ?h xs)"
    using assms(1) unfolding l(2) by (simp_all add: vm_inv_def free_ranges_def)
  have "unlinked ?h ?a" "?a \<notin> set xs \<union> set []" using assms(4,6) by (simp_all add: unlinked_def)
  from return_refines [OF l(1) this c assms(7)] assms(10) obtain h b w xs' ws' where
    r: "return_item ?h (vm_kernel_buckets s) (vm_waiting_list s) ?a n p = Inr (h, b, w)"
      "vm_lists h b xs' w ws'" "ranges h xs' = free_insert (unat p) (unat n) (free_ranges s xs)"
    unfolding l(2) by blast
  have "0 < unat n" using assms(8) by (simp add: unat_gt_0)
  with free_insert_spec [OF c(1) [unfolded l(2)] _ assms(9)] it r show ?thesis
    by (intro exI [of _ "s\<lparr>pmem := m, vm_steal_next := ?a + 16, vm_steal_remaining := vm_steal_remaining s - 16,
        bucket_heap := h, vm_kernel_buckets := b, vm_waiting_list := w\<rparr>"] exI [of _ xs'] exI [of _ ws'])
      (simp add: vm_return_pages_def free_ranges_def)
qed

lemma ranges_fit_covered:
  assumes "coalesced rs"
  shows "ranges_fit rs \<longleftrightarrow> (\<forall>x \<in> covered rs. x + 1 < 2 ^ 32)"
proof
  assume "\<forall>x \<in> covered rs. x + 1 < 2 ^ 32"
  moreover have "p + s - 1 \<in> covered rs" "0 < s" if "(p, s) \<in> set rs" for p s
    using coalesced_pos [OF assms that] that by (auto simp: covered_def intro!: bexI [OF _ that])
  ultimately show "ranges_fit rs" by (fastforce simp: ranges_fit_def)
qed (auto simp: ranges_fit_def covered_def)

lemma unmap_step_spec:
  assumes "linkage_ok L" "paging_inv L (paging s)" "0xC0000 \<le> q" "q + unat n \<le> 2 ^ 20" "i < unat n"
    and "walk L (paging s) (of_nat (q + (unat n - Suc i)) * 4096) = Some (frame_paddr s f)"
  shows "\<exists>pg. unmap_step L n (of_nat q * 4096) i (pa, s) = Inr (Some (frame_paddr s f), s\<lparr>paging := pg\<rparr>) \<and>
    paging_inv L pg \<and>
    (\<forall>va. walk L pg va = (if page_of va = q + (unat n - Suc i) then None else walk L (paging s) va))"
proof -
  let ?k = "unat n - Suc i"
  let ?va = "of_nat (q + ?k) * 4096 :: vaddr_t"
  have d: "n - of_nat i - 1 = of_nat ?k" using assms(5) by (simp add: of_nat_diff)
  have e: "of_nat q * 4096 + (n - of_nat i - 1) * PAGE_SIZE = ?va" unfolding d by (simp add: distrib_right)
  have b: "q + ?k < 2 ^ 20" using assms(4,5) by simp
  have ua: "unat ?va = 4096 * (q + ?k)" "page_of ?va = q + ?k" using page_addr [OF b] by (simp_all add: algebra_simps)
  have "page_off ?va = 0" using unat_page_off [of ?va] ua(1) by (simp add: unat_eq_zero)
  moreover have "KERNEL_OFFSET \<le> ?va" using ua(1) assms(3) by (simp add: word_le_nat_alt KERNEL_OFFSET_def)
  ultimately obtain pg where pg: "vm_unmap_page L ?va (paging s) = Inr (frame_paddr s f, pg)" "paging_inv L pg"
    "\<And>va. walk L pg va = (if page_of va = q + ?k then None else walk L (paging s) va)"
    using unmap_page_spec [OF assms(1,2), of ?va] assms(6) ua(2) by auto
  have "unmap_step L n (of_nat q * 4096) i (pa, s) = Inr (Some (frame_paddr s f), s\<lparr>paging := pg\<rparr>)"
    unfolding unmap_step_def Let_def snd_conv e pg(1) bindE_Inr prod.case by (rule refl)
  then show ?thesis using pg(2,3) by blast
qed

lemma unmap_loop:
  assumes "linkage_ok L" "paging_inv L (paging s)" "0xC0000 \<le> q" "q + unat n \<le> 2 ^ 20"
    and "mapped_run L s q fs" "length fs = unat n" "k \<le> unat n"
  shows "\<exists>pg. for_each [0..<k] (unmap_step L n (of_nat q * 4096)) (None, s) =
      Inr (if k = 0 then None else Some (frame_paddr s (fs ! (unat n - k))), s\<lparr>paging := pg\<rparr>) \<and>
    paging_inv L pg \<and> (\<forall>va. walk L pg va =
      (if q + (unat n - k) \<le> page_of va \<and> page_of va < q + unat n then None else walk L (paging s) va))"
  using assms(7)
proof (induction k)
  case 0
  show ?case using assms(2) by (intro exI [of _ "paging s"]) auto
next
  case (Suc k)
  then obtain pg where IH: "for_each [0..<k] (unmap_step L n (of_nat q * 4096)) (None, s) =
      Inr (if k = 0 then None else Some (frame_paddr s (fs ! (unat n - k))), s\<lparr>paging := pg\<rparr>)"
    "paging_inv L pg" "\<And>va. walk L pg va =
      (if q + (unat n - k) \<le> page_of va \<and> page_of va < q + unat n then None else walk L (paging s) va)" by auto
  let ?j = "unat n - Suc k"
  let ?va = "of_nat (q + ?j) * 4096 :: vaddr_t"
  have j: "?j < unat n" "unat n - k = Suc ?j" using Suc.prems by simp_all
  have pv: "page_of ?va = q + ?j" using page_addr(2) [of q ?j] assms(4) j(1) by (simp add: algebra_simps)
  have fp: "frame_paddr (s\<lparr>paging := pg\<rparr>) = frame_paddr s" by (simp add: frame_paddr_def fun_eq_iff)
  have "walk L (paging s) ?va = Some (frame_paddr s (fs ! ?j))" using assms(5,6) j(1) by (simp add: mapped_run_def)
  then have "walk L pg ?va = Some (frame_paddr s (fs ! ?j))" using IH(3) [of ?va] pv j by simp
  with unmap_step_spec [of L "s\<lparr>paging := pg\<rparr>" q n k "fs ! ?j"] assms(1,3,4) IH(2) Suc.prems obtain pg' where
    st: "\<And>pa. unmap_step L n (of_nat q * 4096) k (pa, s\<lparr>paging := pg\<rparr>) = Inr (Some (frame_paddr s (fs ! ?j)), s\<lparr>paging := pg'\<rparr>)"
    "paging_inv L pg'" "\<And>va. walk L pg' va = (if page_of va = q + ?j then None else walk L pg va)"
    by (fastforce simp: fp unmap_step_def Let_def)
  have "walk L pg' va = (if q + ?j \<le> page_of va \<and> page_of va < q + unat n then None else walk L (paging s) va)" for va
    using st(3) [of va] IH(3) [of va] j by auto
  then show ?case using IH(1) st(1,2) by (auto simp: for_each_append)
qed

lemma free_kpages_spec:
  assumes "linkage_ok L" "vm_inv L s xs []" "0xC0000 \<le> q" "q + unat n \<le> 2 ^ 20" "0 < n"
    and "mapped_run L s q fs" "length fs = unat n" "steal_ready L s xs q (unat n)"
    and "{q ..< q + unat n} \<inter> covered (free_ranges s xs) = {}" "\<exists>y \<in> set (free_ranges s xs). q < fst y"
    and "pmm_free (pmm s) n (frame_paddr s (fs ! 0)) = Inr p" "pmm_inv p"
  shows "\<exists>s' xs' ws'. vm_free_kpages L n (of_nat q * 4096) s = Inr s' \<and> vm_inv L s' xs' ws' \<and> pmm s' = p \<and>
    free_ranges s' xs' = free_insert q (unat n) (free_ranges s xs) \<and>
    covered (free_ranges s' xs') = covered (free_ranges s xs) \<union> {q ..< q + unat n} \<and>
    (\<forall>va. walk L (paging s') va = (if q \<le> page_of va \<and> page_of va < q + unat n then None else walk L (paging s) va))"
proof -
  let ?addr = "of_nat q * 4096 :: vaddr_t"
  from assms(2) have inv: "paging_inv L (paging s)"
    "vm_lists (bucket_heap s) (vm_kernel_buckets s) xs (vm_waiting_list s) []"
    "coalesced (free_ranges s xs)" "ranges_fit (free_ranges s xs)" by (auto simp: vm_inv_def free_ranges_def)
  have n0: "0 < unat n" using assms(5) by (simp add: unat_gt_0)
  from unmap_loop [OF assms(1) inv(1) assms(3,4,6,7) order_refl] n0 obtain pg where
    pg: "for_each [0..<unat n] (unmap_step L n ?addr) (None, s) = Inr (Some (frame_paddr s (fs ! 0)), s\<lparr>paging := pg\<rparr>)"
      "paging_inv L pg" "\<And>va. walk L pg va =
        (if q \<le> page_of va \<and> page_of va < q + unat n then None else walk L (paging s) va)" by auto
  have "q < 2 ^ 20" using assms(4) n0 by linarith
  then have up: "unat (drop_bit PAGE_BITS ?addr) = q"
    using page_addr(1) [of q 0] by (simp add: PAGE_BITS_def unat_drop_bit_u32)
  let ?s = "s\<lparr>paging := pg\<rparr>"
  have fr: "free_ranges ?s xs = free_ranges s xs" by (simp add: free_ranges_def)
  have inv': "vm_inv L ?s xs []" using assms(2) pg(2) by (simp add: vm_inv_def)
  have wl: "vm_waiting_list ?s = NULL" using inv(2) by (auto simp: vm_lists_def)
  have st: "16 \<le> vm_steal_remaining ?s" "vm_steal_next ?s \<noteq> NULL" "vm_steal_next ?s \<notin> set xs"
    "\<forall>i < 16. walk L (paging ?s) (vm_steal_next ?s + of_nat i) \<noteq> None"
    using assms(8) pg(3) by (auto simp: steal_ready_def)
  have lim: "q + unat n < 2 ^ 32" using assms(4) by simp
  from return_pages_steals [OF inv' wl st(1,2,4,3), of "drop_bit PAGE_BITS ?addr" n, unfolded fr up,
      OF lim assms(5,9) disjI2 [OF assms(10)]] obtain s1 xs' ws' where
    s1: "vm_return_pages L n (drop_bit PAGE_BITS ?addr) ?s = Inr s1"
      "vm_lists (bucket_heap s1) (vm_kernel_buckets s1) xs' (vm_waiting_list s1) ws'"
      "coalesced (free_ranges s1 xs')" "free_ranges s1 xs' = free_insert q (unat n) (free_ranges s xs)"
      "paging s1 = pg" "pmm s1 = pmm s" by auto
  have cov: "covered (free_ranges s1 xs') = covered (free_ranges s xs) \<union> {q ..< q + unat n}"
    using free_insert_spec [OF inv(3) n0 assms(9)] s1(4) by simp
  have "x + 1 < 2 ^ 32" if "x \<in> covered (free_ranges s1 xs')" for x
    using that inv(3,4) lim assms(4) unfolding cov by (auto simp: ranges_fit_covered)
  then have fit: "ranges_fit (free_ranges s1 xs')" using ranges_fit_covered [OF s1(3)] by blast
  have "vm_inv L (s1\<lparr>pmm := p\<rparr>) xs' ws'"
    using pg(2) s1 assms(12) fit by (simp add: vm_inv_def free_ranges_def)
  moreover have "vm_free_kpages L n ?addr s = Inr (s1\<lparr>pmm := p\<rparr>)"
    using pg(1) s1(1,6) assms(11) by (simp add: vm_free_kpages_def Let_def)
  ultimately show ?thesis using cov s1(4,5) pg(3)
    by (intro exI [of _ "s1\<lparr>pmm := p\<rparr>"] exI [of _ xs'] exI [of _ ws']) (simp add: free_ranges_def)
qed

lemma page_base:
  assumes "q < 2 ^ 20"
  shows "page_of (of_nat q * 4096) = q" "page_off (of_nat q * 4096) = 0"
proof -
  have u: "unat (of_nat q * 4096 :: vaddr_t) = 4096 * q" using page_addr(1) [of q 0] assms by simp
  show "page_of (of_nat q * 4096) = q" "page_off (of_nat q * 4096) = 0"
    using u unat_page_off [of "of_nat q * 4096"] by (simp_all add: page_of_def unat_eq_zero)
qed

lemma backed_mapped_run:
  assumes "backed L s s' q fs" "q + length fs \<le> 2 ^ 20"
  shows "mapped_run L s' q fs"
proof -
  have "frame_paddr s' = frame_paddr s" using assms(1) by (simp add: backed_def frame_paddr_def fun_eq_iff)
  moreover have "walk L (paging s') (of_nat (q + i) * 4096) = Some (frame_paddr s (fs ! i))" if "i < length fs" for i
    using assms page_base [of "q + i"] that by (simp add: backed_def del: of_nat_add)
  ultimately show ?thesis by (simp add: mapped_run_def)
qed

lemma first_fit_shrinks:
  "first_fit n rs = Some (q, rs') \<Longrightarrow> length rs' = length rs \<Longrightarrow> \<exists>z. (q + n, z) \<in> set rs'"
  by (induction n rs arbitrary: rs' rule: first_fit.induct) (auto split: if_splits)

lemma no_spare_buckets:
  assumes "vm_lists h b xs' w ws'" "set xs' \<union> set ws' = set xs" "distinct xs" "length xs' = length xs"
  shows "ws' = []"
proof -
  have "distinct xs'" "distinct ws'" "set xs' \<inter> set ws' = {}" using assms(1) by (auto simp: vm_lists_def dll_def)
  then have "card (set xs' \<union> set ws') = length xs' + length ws'" by (simp add: card_Un_disjoint distinct_card)
  then show ?thesis using assms(2-4) by (simp add: distinct_card)
qed

lemma steal_ready_after:
  assumes "steal_ready L s xs q n" "set xs' \<subseteq> set xs" "vm_steal_next s' = vm_steal_next s"
    and "vm_steal_remaining s' = vm_steal_remaining s" "backed L s s' q fs" "length fs = n"
  shows "steal_ready L s' xs' q n"
  using assms by (auto simp: steal_ready_def backed_def)

lemma alloc_pages_no_frames:
  assumes "pmm_inv (pmm s)" "free_frames (pmm s) = {}" "0 < unat n"
  shows "for_each [0..<unat n] (alloc_page L q) s = Inl (Panic ''Out of physical memory'')"
proof -
  have "[0..<unat n] = 0 # [1..<unat n]" using assms(3) by (simp add: upt_conv_Cons)
  then show ?thesis using pm.alloc_none [OF assms(1,2)] by (simp add: alloc_page_def)
qed

section \<open>Properties\<close>

lemma vm_example:
  "\<exists>s. vm_init linkage_example (vm_boot 0 pmm_example (\<lambda>_. 0)) = Inr s \<and>
    vm_inv linkage_example s [0xC0606000] [] \<and> free_ranges s [0xC0606000] = [(0xC0800, 0xC1800)] \<and>
    (\<forall>va. walk linkage_example (paging s) va =
       (if KERNEL_OFFSET \<le> va \<and> va < KERNEL_BOOT_MAPPED then Some (virtual2phys va) else None)) \<and>
    vm_steal_next s = 0xC0701000 \<and> vm_steal_remaining s = 0xFF000 \<and> pmm s = pmm_example"
proof -
  have "managed_first pmm_example + KERNEL_OFFSET = 0xC0701000" by (simp add: pmm_example_def KERNEL_OFFSET_def)
  with vm_init_spec [OF linkage_example_ok _ pmm_example_facts(1), of 0 "\<lambda>_. 0"] show ?thesis
    by (auto simp: linkage_example_def NULL_def KERNEL_BOOT_MAPPED_def)
qed

lemma steal_ready_example:
  assumes "vm_steal_next s = 0xC0701000" "vm_steal_remaining s = 0xFF000" "n \<le> 0x1000"
    and "\<forall>va. KERNEL_OFFSET \<le> va \<and> va < KERNEL_BOOT_MAPPED \<longrightarrow> walk linkage_example (paging s) va \<noteq> None"
  shows "steal_ready linkage_example s [0xC0606000] 0xC0800 n"
proof -
  have u: "unat (0xC0701000 + of_nat i :: vaddr_t) = 0xC0701000 + i" if "i < 16" for i
    using that by (simp add: unat_word_ariths unat_of_nat take_bit_eq_mod)
  have pg: "page_of (0xC0701000 + of_nat i) = 0xC0701" if "i < 16" for i using u [OF that] that by (simp add: page_of_def)
  have "walk linkage_example (paging s) (0xC0701000 + of_nat i) \<noteq> None" if "i < 16" for i
    using assms(4) u [OF that] that
    by (simp add: word_le_nat_alt word_less_nat_alt KERNEL_OFFSET_def KERNEL_BOOT_MAPPED_def)
  then show ?thesis using assms(1,2) pg by (simp add: steal_ready_def NULL_def)
qed

text \<open>A frame allocator with no frame left.\<close>

lemma pmm_exhausted:
  assumes "pmm_inv s"
  shows "\<exists>t. pmm_inv t \<and> free_frames t = {} \<and> buddy_base t = buddy_base s \<and> frames t = frames s"
  using assms
proof (induction "card (free_frames s)" arbitrary: s)
  case 0
  then have "free_frames s = {}" using pm.finite_free by auto
  then show ?case using 0 by blast
next
  case (Suc n)
  then have "free_frames s \<noteq> {}" by auto
  from pm.alloc_one [OF Suc.prems this] obtain f t where t: "pmm_inv t" "f \<in> free_frames s"
    "free_frames t = free_frames s - {f}" "buddy_base t = buddy_base s" "frames t = frames s" by blast
  then have "n = card (free_frames t)" using Suc.hyps(2) pm.finite_free [OF Suc.prems] by simp
  then show ?case using Suc.hyps(1) [OF _ t(1)] t(4,5) by auto
qed

text \<open>
  C2. \<^verbatim>\<open>vm_alloc_kpages\<close> finds the first free range that is large enough, maps its first pages
  to frames that were free and are pairwise distinct, fills all of their bytes with 0xAA, and returns
  the address of the first page. No other page changes its translation, no other byte of memory
  changes, exactly these frames and pages leave the free sets, and the invariant is kept.
\<close>

theorem vm_alloc_kpages_correct:
  assumes "linkage_ok L" "vm_inv L s xs ws" "first_fit (unat n) (free_ranges s xs) = Some (q, rs)"
    and "0xC0000 \<le> q" "q + unat n \<le> 2 ^ 20" "unat n \<le> card (free_frames (pmm s))"
  shows "\<exists>s' xs' ws' fs. vm_alloc_kpages L n s = Inr (of_nat q * 4096, s') \<and> vm_inv L s' xs' ws' \<and>
    free_ranges s' xs' = rs \<and> length fs = unat n \<and> backed L s s' q fs \<and>
    (\<forall>va. q \<le> page_of va \<and> page_of va < q + unat n \<longrightarrow> vm_load L va s' = Inr 0xAA) \<and>
    (\<forall>pa. (\<forall>va. q \<le> page_of va \<and> page_of va < q + unat n \<longrightarrow> walk L (paging s') va \<noteq> Some pa) \<longrightarrow>
      pmem s' pa = pmem s pa)"
  using alloc_kpages_spec [OF assms] by blast

theorem vm_alloc_kpages_correct_witness:
  "\<exists>s s' xs'. vm_alloc_kpages linkage_example 4 s = Inr (of_nat 0xC0800 * 4096, s') \<and>
     free_ranges s' xs' = [(0xC0804, 0xC17FC)] \<and> vm_load linkage_example 0xC0801234 s' = Inr 0xAA"
proof -
  obtain s where s: "vm_inv linkage_example s [0xC0606000] []"
    "free_ranges s [0xC0606000] = [(0xC0800, 0xC1800)]" "pmm s = pmm_example" using vm_example by blast
  have ff: "first_fit (unat (4 :: size_t)) (free_ranges s [0xC0606000]) = Some (0xC0800, [(0xC0804, 0xC17FC)])"
    using s(2) by simp
  have fr: "unat (4 :: size_t) \<le> card (free_frames (pmm s))" using s(3) by (simp add: pmm_example_facts)
  obtain s' xs' where "vm_alloc_kpages linkage_example 4 s = Inr (of_nat 0xC0800 * 4096, s')"
    "free_ranges s' xs' = [(0xC0804, 0xC17FC)]"
    "\<forall>va. 0xC0800 \<le> page_of va \<and> page_of va < 0xC0804 \<longrightarrow> vm_load linkage_example va s' = Inr 0xAA"
    using vm_alloc_kpages_correct [OF linkage_example_ok s(1) ff _ _ fr] by auto
  moreover have "page_of 0xC0801234 = 0xC0801" by (simp add: page_of_def)
  ultimately show ?thesis by (intro exI [of _ s] exI [of _ s'] exI [of _ xs']) simp
qed

text \<open>
  C36. Running out of memory is fatal: without a free page range of the size
  \<^verbatim>\<open>vm_alloc_kpages\<close> panics with "Out of virtual memory", and with a range but no free frame it
  panics with "Out of physical memory".
\<close>

theorem vm_alloc_kpages_out_of_memory:
  assumes "vm_inv L s xs ws"
  shows "(first_fit (unat n) (free_ranges s xs) = None \<longrightarrow>
      vm_alloc_kpages L n s = Inl (Panic ''Out of virtual memory'')) \<and>
    (first_fit (unat n) (free_ranges s xs) \<noteq> None \<and> 0 < n \<and> free_frames (pmm s) = {} \<longrightarrow>
      vm_alloc_kpages L n s = Inl (Panic ''Out of physical memory''))"
proof (intro conjI impI)
  from assms have l: "vm_lists (bucket_heap s) (vm_kernel_buckets s) xs (vm_waiting_list s) ws"
    "ranges_fit (ranges (bucket_heap s) xs)" "pmm_inv (pmm s)" by (auto simp: vm_inv_def)
  note r = reserve_refines [OF l(1,2), of n, folded free_ranges_def]
  show "vm_alloc_kpages L n s = Inl (Panic ''Out of virtual memory'')"
    if "first_fit (unat n) (free_ranges s xs) = None" using r that by (simp add: vm_alloc_kpages_def)
  assume a: "first_fit (unat n) (free_ranges s xs) \<noteq> None \<and> 0 < n \<and> free_frames (pmm s) = {}"
  then have "0 < n" by blast
  then have "0 < unat n" by (simp add: unat_gt_0)
  then show "vm_alloc_kpages L n s = Inl (Panic ''Out of physical memory'')"
    using r a l(3) by (auto simp: vm_alloc_kpages_def Let_def alloc_pages_no_frames split: option.splits)
qed

theorem vm_alloc_kpages_out_of_memory_witness:
  "\<exists>s. vm_alloc_kpages linkage_example 0x100000 s = Inl (Panic ''Out of virtual memory'')"
proof -
  obtain s where s: "vm_inv linkage_example s [0xC0606000] []"
    "free_ranges s [0xC0606000] = [(0xC0800, 0xC1800)]" using vm_example by blast
  from vm_alloc_kpages_out_of_memory [OF s(1), of "0x100000"] s(2) show ?thesis by auto
qed

text \<open>
  C16. After \<^verbatim>\<open>vm_init\<close> the processor translates exactly the addresses of the boot mapping,
  each to the address minus the kernel offset, the invariant of the virtual memory manager holds, and
  the page range list has one bucket that starts behind the boot mapping.
\<close>

theorem vm_init_correct:
  assumes "linkage_ok L" "first_bucket_addr L \<noteq> NULL" "pmm_inv p"
  shows "\<exists>s. vm_init L (vm_boot c p m) = Inr s \<and> vm_inv L s [first_bucket_addr L] [] \<and>
    (\<forall>va. walk L (paging s) va =
       (if KERNEL_OFFSET \<le> va \<and> va < KERNEL_BOOT_MAPPED then Some (virtual2phys va) else None)) \<and>
    fst (hd (free_ranges s [first_bucket_addr L])) = page_of KERNEL_BOOT_MAPPED \<and> pmm s = p \<and> pmem s = m"
  using vm_init_spec [OF assms, of c m] by (auto simp: page_of_def KERNEL_BOOT_MAPPED_def)

theorem vm_init_correct_witness:
  "linkage_ok linkage_example \<and> pmm_inv pmm_example \<and>
   (\<exists>s. vm_init linkage_example (vm_boot 0 pmm_example (\<lambda>_. 0)) = Inr s \<and>
     walk linkage_example (paging s) 0xC0100000 = Some 0x100000 \<and> walk linkage_example (paging s) 0xC0800000 = None)"
proof -
  have "first_bucket_addr linkage_example \<noteq> NULL" by (simp add: linkage_example_def NULL_def)
  from vm_init_correct [OF linkage_example_ok this pmm_example_facts(1), of 0 "\<lambda>_. 0"]
  show ?thesis using linkage_example_ok pmm_example_facts(1)
    by (auto simp: KERNEL_OFFSET_def KERNEL_BOOT_MAPPED_def virtual2phys_def)
qed

text \<open>
  \<^verbatim>\<open>vm_init\<close> computes the size of the first bucket as start minus end, which wraps around:
  the bucket gets 0xC1800 pages instead of the 0x3E800 pages between \<^verbatim>\<open>managed_start\<close> and
  \<^verbatim>\<open>managed_end\<close>, and it reaches beyond the last page of the address space.
\<close>

lemma vm_init_bucket_too_large:
  assumes "linkage_ok L" "first_bucket_addr L \<noteq> NULL" "pmm_inv p"
  shows "\<exists>s start size. vm_init L (vm_boot c p m) = Inr s \<and>
    free_ranges s [first_bucket_addr L] = [(start, size)] \<and> start = 0xC0800000 div 4096 \<and>
    size \<noteq> (0xFF000000 - 0xC0800000) div 4096 \<and> 2 ^ 32 div 4096 < start + size"
  using vm_init_spec [OF assms, of c m] by auto

text \<open>
  The memory that \<^verbatim>\<open>vm_kernel_stealmem\<close> hands out first after boot is not reserved in the
  frame allocator: it starts at the border, which is the first managed frame, so the stolen bytes lie
  in frame 0, and this frame is still free and will be handed out again.
\<close>

lemma stolen_memory_is_free:
  assumes "linkage_ok L" "first_bucket_addr L \<noteq> NULL" "length (buddies s0) = PMM_NUM_BUDDIES"
    and "e \<le> u" "init_first e u \<le> unat u" "pmm_init mem e s0 u = Inr p"
    and "0 < init_frames e u" "init_first e u + 16 \<le> 0x800000"
  shows "\<exists>s a s'. vm_init L (vm_boot c p m) = Inr s \<and> vm_kernel_stealmem L 16 s = Inr (a, s') \<and>
    walk L (paging s') a = Some (frame_paddr s' 0) \<and> 0 \<in> free_frames (pmm s')"
proof -
  from pmm_init_inv [of s0 e u mem] assms(3-8) have p: "pmm_inv p" "unat (managed_first p) = init_first e u"
    "buddy_base p = managed_first p" "free_frames p = {..< init_frames e u}" by auto
  from vm_init_spec [OF assms(1,2) p(1), of c m] obtain s where
    s: "vm_init L (vm_boot c p m) = Inr s"
      "\<And>va. walk L (paging s) va =
        (if KERNEL_OFFSET \<le> va \<and> va < KERNEL_BOOT_MAPPED then Some (virtual2phys va) else None)"
      "vm_steal_next s = managed_first p + KERNEL_OFFSET"
      "vm_steal_remaining s = KERNEL_BOOT_MAPPED - vm_steal_next s" "pmm s = p" by blast
  have u: "unat (vm_steal_next s) = init_first e u + 0xC0000000"
    unfolding s(3) using p(2) assms(8) by (simp add: KERNEL_OFFSET_def unat_word_ariths)
  have ui: "unat (vm_steal_next s + of_nat i) = init_first e u + 0xC0000000 + i" if "i < 16" for i
    using u that assms(8) by (simp add: unat_word_ariths unat_of_nat take_bit_eq_mod)
  have w: "walk L (paging s) (vm_steal_next s + of_nat i) \<noteq> None" if "i < 16" for i
    using ui [OF that] that assms(8) s(2)
    by (simp add: word_le_nat_alt word_less_nat_alt KERNEL_OFFSET_def KERNEL_BOOT_MAPPED_def)
  have "vm_steal_next s \<le> KERNEL_BOOT_MAPPED" using u assms(8) by (simp add: word_le_nat_alt KERNEL_BOOT_MAPPED_def)
  then have "unat (vm_steal_remaining s) = 0x800000 - init_first e u"
    unfolding s(4) using u by (simp add: unat_sub KERNEL_BOOT_MAPPED_def)
  then have "16 \<le> vm_steal_remaining s" using assms(8) by (simp add: word_le_nat_alt)
  with stealmem_direct [of 16 s L] w obtain s' where
    s': "vm_kernel_stealmem L 16 s = Inr (vm_steal_next s, s')" "paging s' = paging s" "pmm s' = pmm s" by auto
  have "walk L (paging s) (vm_steal_next s) = Some (virtual2phys (vm_steal_next s))"
    using w [of 0] s(2) [of "vm_steal_next s"] by (simp split: if_splits)
  then show ?thesis using s s' p assms(7) by (auto simp: virtual2phys_def frame_paddr_def)
qed



text \<open>
  \<^verbatim>\<open>vm_free_kpages\<close> gives the frame allocator one block of frames that starts at the frame of
  the first page, although the frames were allocated one by one and need be neither consecutive nor
  aligned: what becomes free is the aligned block that holds the first frame. A frame of the freed
  pages outside that block stays allocated for ever, and any other frame of the block becomes free
  while it may still be in use.
\<close>

lemma vm_free_kpages_frees_block_of_first:
  assumes "linkage_ok L" "vm_inv L s xs []" "0xC0000 \<le> q" "q + unat n \<le> 2 ^ 20" "unat n = 2 ^ k" "k < 7"
    and "mapped_run L s q fs" "length fs = unat n" "steal_ready L s xs q (unat n)"
    and "{q ..< q + unat n} \<inter> covered (free_ranges s xs) = {}" "\<exists>y \<in> set (free_ranges s xs). q < fst y"
    and "fs ! 0 < frames (pmm s)" "block k (fs ! 0 div 2 ^ k) \<inter> free_frames (pmm s) = {}"
  shows "\<exists>s'. vm_free_kpages L n (of_nat q * 4096) s = Inr s' \<and>
    free_frames (pmm s') = free_frames (pmm s) \<union> block k (fs ! 0 div 2 ^ k)"
proof -
  have "pmm_inv (pmm s)" using assms(2) by (simp add: vm_inv_def)
  from pmm_free_spec [OF this assms(6,5,12,13)] obtain p where
    p: "pmm_free (pmm s) n (frame_paddr s (fs ! 0)) = Inr p" "pmm_inv p"
      "free_frames p = free_frames (pmm s) \<union> block k (fs ! 0 div 2 ^ k)" by (auto simp: frame_paddr_def)
  have "0 < n" using assms(5) by (metis unat_gt_0 word_neq_0_conv zero_less_numeral zero_less_power)
  from free_kpages_spec [OF assms(1-4) this assms(7-11) p(1,2)] p(3) show ?thesis by auto
qed

lemma two_pages_example:
  "\<exists>s. vm_inv linkage_example s [0xC0606000] [] \<and> free_ranges s [0xC0606000] = [(0xC0802, 0x100)] \<and>
     mapped_run linkage_example s 0xC0800 [1, 2] \<and> free_frames (pmm s) = {} \<and> frames (pmm s) = 2048 \<and>
     steal_ready linkage_example s [0xC0606000] 0xC0800 2"
proof -
  let ?L = linkage_example
  obtain s where s: "vm_inv ?L s [0xC0606000] []" "pmm s = pmm_example"
    "vm_steal_next s = 0xC0701000" "vm_steal_remaining s = 0xFF000"
    "\<forall>va. walk ?L (paging s) va =
       (if KERNEL_OFFSET \<le> va \<and> va < KERNEL_BOOT_MAPPED then Some (virtual2phys va) else None)"
    using vm_example by blast
  obtain p where p: "pmm_inv p" "free_frames p = {}" "buddy_base p = 0x701000" "frames p = 2048"
    using pmm_exhausted [OF pmm_example_facts(1)] pmm_example_facts(3) by (auto simp: pmm_example_def)
  have "paging_inv ?L (paging s)" using s(1) by (simp add: vm_inv_def)
  from map_page_spec [OF linkage_example_ok this, of "0xC0800000" "0x702000"] obtain pg1 where
    pg1: "paging_inv ?L pg1" "\<And>va. walk ?L pg1 va = (if page_of va = page_of 0xC0800000
      then Some (0x702000 + page_off va) else walk ?L (paging s) va)" by (auto simp: KERNEL_OFFSET_def)
  from map_page_spec [OF linkage_example_ok pg1(1), of "0xC0801000" "0x703000"] obtain pg2 where
    pg2: "paging_inv ?L pg2" "\<And>va. walk ?L pg2 va = (if page_of va = page_of 0xC0801000
      then Some (0x703000 + page_off va) else walk ?L pg1 va)" by (auto simp: KERNEL_OFFSET_def)
  let ?h = "[0xC0606000 \<mapsto> \<lparr>pageno = 0xC0802, bk_size = 0x100, next_ptr = NULL, prev_ptr = NULL\<rparr>] :: bheap"
  let ?s = "s\<lparr>bucket_heap := ?h, vm_kernel_buckets := 0xC0606000, vm_waiting_list := NULL, paging := pg2, pmm := p\<rparr>"
  have r: "free_ranges ?s [0xC0606000] = [(0xC0802, 0x100)]" by (simp add: free_ranges_def range_at_Some)
  then have "vm_inv ?L ?s [0xC0606000] []"
    using pg2(1) p(1) by (simp add: vm_inv_def free_ranges_def vm_lists_def dll_def NULL_def ranges_fit_def)
  moreover have "mapped_run ?L ?s 0xC0800 [1, 2]"
    using p(3) by (auto simp: mapped_run_def frame_paddr_def pg2(2) pg1(2) page_of_def page_off_def MASK_def less_Suc_eq)
  moreover have "steal_ready ?L ?s [0xC0606000] 0xC0800 2"
    using s(3-5) by (intro steal_ready_example) (simp_all add: pg2(2) pg1(2))
  ultimately show ?thesis using r p by (intro exI [of _ ?s]) simp
qed

end
