(* ===== verification/Liballoc.thy ===== *)
theory Liballoc
  imports Cstring
begin

text \<open>
  The heap allocator \<^verbatim>\<open>libc/liballoc/liballoc.c\<close>. A boundary tag of 32 bytes precedes every block;
  the blocks of one run of pages are chained by \<^verbatim>\<open>split_left\<close> and \<^verbatim>\<open>split_right\<close>, the free ones of a
  size class by \<^verbatim>\<open>next\<close> and \<^verbatim>\<open>prev\<close>. Tags are objects at their addresses; that they overlap neither each
  other nor the memory handed out is part of the invariant proved here. The hooks that get and
  return pages are arguments, and so are the byte load and store of the memory below.
\<close>

section \<open>Model\<close>

record boundary_tag =
  magic :: u32
  tag_size :: u32
  real_size :: u32
  tag_index :: int
  split_left :: ptr
  split_right :: ptr
  tag_next :: ptr
  tag_prev :: ptr

definition sizeof_tag :: u32 where
  "sizeof_tag = 32"

definition LIBALLOC_MAGIC :: u32 where
  "LIBALLOC_MAGIC = 0xc001c0de"

definition MAXCOMPLETE :: int where
  "MAXCOMPLETE = 5"

definition MAXEXP :: nat where
  "MAXEXP = 32"

definition MINEXP :: nat where
  "MINEXP = 8"

definition l_pageSize :: u32 where
  "l_pageSize = 4096"

definition l_pageCount :: u32 where
  "l_pageCount = 16"

text \<open>
  The static variables, with the tags that have been written, what memory holds where no tag has
  been written, read as a tag, and the state of the memory below.
\<close>

record 'v liballoc =
  tags :: "ptr \<Rightarrow> boundary_tag option"
  l_freePages :: "ptr list"
  l_completePages :: "int list"
  l_initialized :: int
  stale :: "ptr \<Rightarrow> boundary_tag"
  below :: 'v

text \<open>The state at boot, with the contents of the memory below.\<close>

definition liballoc_boot :: "(ptr \<Rightarrow> boundary_tag) \<Rightarrow> 'v \<Rightarrow> 'v liballoc" where
  "liballoc_boot m v =
     \<lparr>tags = (\<lambda>_. None), l_freePages = replicate MAXEXP NULL, l_completePages = replicate MAXEXP 0,
      l_initialized = 0, stale = m, below = v\<rparr>"

type_synonym 'v alloc_hook = "u32 \<Rightarrow> 'v \<Rightarrow> (ptr \<times> 'v) res"
type_synonym 'v free_hook = "ptr \<Rightarrow> u32 \<Rightarrow> 'v \<Rightarrow> 'v res"

definition get_tag :: "ptr \<Rightarrow> 'v liballoc \<Rightarrow> boundary_tag res" where
  "get_tag p s =
     (if p = NULL then Inl (Undefined ''null dereference'')
      else case tags s p of None \<Rightarrow> Inl (Undefined ''no boundary tag'') | Some b \<Rightarrow> Inr b)"

definition peek_tag :: "ptr \<Rightarrow> 'v liballoc \<Rightarrow> boundary_tag" where
  "peek_tag p s = (case tags s p of Some b \<Rightarrow> b | None \<Rightarrow> stale s p)"

definition set_tag :: "ptr \<Rightarrow> (boundary_tag \<Rightarrow> boundary_tag) \<Rightarrow> 'v liballoc \<Rightarrow> 'v liballoc res" where
  "set_tag p f s = bindE (get_tag p s) (\<lambda>b. Inr (s\<lparr>tags := (tags s)(p \<mapsto> f b)\<rparr>))"

definition get_free :: "int \<Rightarrow> 'v liballoc \<Rightarrow> ptr res" where
  "get_free i s =
     (if 0 \<le> i \<and> i < int MAXEXP then Inr (l_freePages s ! nat i) else Inl (Undefined ''l_freePages''))"

definition set_free :: "int \<Rightarrow> ptr \<Rightarrow> 'v liballoc \<Rightarrow> 'v liballoc res" where
  "set_free i p s =
     (if 0 \<le> i \<and> i < int MAXEXP then Inr (s\<lparr>l_freePages := (l_freePages s)[nat i := p]\<rparr>)
      else Inl (Undefined ''l_freePages''))"

definition add_complete :: "int \<Rightarrow> int \<Rightarrow> 'v liballoc \<Rightarrow> 'v liballoc res" where
  "add_complete i d s =
     (if 0 \<le> i \<and> i < int MAXEXP
      then Inr (s\<lparr>l_completePages := (l_completePages s)[nat i := l_completePages s ! nat i + d]\<rparr>)
      else Inl (Undefined ''l_completePages''))"

text \<open>\<^verbatim>\<open>1 << shift\<close> is compared with an unsigned number.\<close>

function getexp_loop :: "nat \<Rightarrow> u32 \<Rightarrow> nat" where
  "getexp_loop shift sz =
     (if shift < MAXEXP then (if sz < push_bit shift 1 then shift else getexp_loop (shift + 1) sz) else shift)"
  by pat_completeness auto
termination by (relation "measure (\<lambda>(shift, sz). MAXEXP - shift)") auto

declare getexp_loop.simps [simp del]

definition getexp :: "u32 \<Rightarrow> int" where
  "getexp sz = (if sz < push_bit MINEXP 1 then -1 else int (getexp_loop MINEXP sz) - 1)"

definition MODE_BEST :: int where
  "MODE_BEST = 0"

definition MODE :: int where
  "MODE = MODE_BEST"

definition at_least_minexp :: "int \<Rightarrow> int" where
  "at_least_minexp i = (if i < int MINEXP then int MINEXP else i)"

text \<open>The loop variable of \<^verbatim>\<open>liballoc_memset\<close> is an \<^verbatim>\<open>int\<close>, which overflows for sizes from \<open>2 ^ 31\<close> on.\<close>

definition liballoc_memset :: "'v storeb \<Rightarrow> ptr \<Rightarrow> 32 word \<Rightarrow> u32 \<Rightarrow> 'v \<Rightarrow> 'v res" where
  "liballoc_memset st p c n v =
     (if n < 0x80000000 then for_each [0..<unat n] (\<lambda>i. st (p + of_nat i) (ucast c)) v
      else Inl (Undefined ''liballoc_memset: i''))"

function copy_dwords :: "'v loadb \<Rightarrow> 'v storeb \<Rightarrow> ptr \<Rightarrow> ptr \<Rightarrow> u32 \<Rightarrow> 'v \<Rightarrow> (ptr \<times> ptr \<times> u32 \<times> 'v) res" where
  "copy_dwords ld st ldest lsrc n v =
     (if 4 \<le> n then
        bindE (copy_dword ld st ldest lsrc v) (\<lambda>v. copy_dwords ld st (ldest + 4) (lsrc + 4) (n - 4) v)
      else Inr (ldest, lsrc, n, v))"
  by pat_completeness auto
termination
  by (relation "measure (\<lambda>(ld, st, ldest, lsrc, n, v). unat n)") (auto simp: unat_sub word_le_nat_alt)

declare copy_dwords.simps [simp del]

definition liballoc_memcpy :: "'v loadb \<Rightarrow> 'v storeb \<Rightarrow> ptr \<Rightarrow> ptr \<Rightarrow> u32 \<Rightarrow> 'v \<Rightarrow> 'v res" where
  "liballoc_memcpy ld st s1 s2 n v =
     bindE (copy_dwords ld st s1 s2 n v) (\<lambda>(cdest, csrc, n, v).
     for_each [0..<unat n] (\<lambda>i. copy_byte ld st (cdest + of_nat i) (csrc + of_nat i)) v)"

definition insert_tag :: "ptr \<Rightarrow> int \<Rightarrow> 'v liballoc \<Rightarrow> 'v liballoc res" where
  "insert_tag tag index s =
     bindE (get_tag tag s) (\<lambda>b.
     let realIndex = (if index < 0 then at_least_minexp (getexp (real_size b - sizeof_tag)) else index) in
     bindE (set_tag tag (tag_index_update (\<lambda>_. realIndex)) s) (\<lambda>s.
     bindE (get_free realIndex s) (\<lambda>first.
     bindE (if first \<noteq> NULL then
              bindE (set_tag first (tag_prev_update (\<lambda>_. tag)) s) (set_tag tag (tag_next_update (\<lambda>_. first)))
            else Inr s) (\<lambda>s.
     set_free realIndex tag s))))"

definition remove_tag :: "ptr \<Rightarrow> 'v liballoc \<Rightarrow> 'v liballoc res" where
  "remove_tag tag s =
     bindE (get_tag tag s) (\<lambda>b.
     bindE (get_free (tag_index b) s) (\<lambda>first.
     bindE (if first = tag then set_free (tag_index b) (tag_next b) s else Inr s) (\<lambda>s.
     bindE (if tag_prev b \<noteq> NULL then set_tag (tag_prev b) (tag_next_update (\<lambda>_. tag_next b)) s else Inr s) (\<lambda>s.
     bindE (get_tag tag s) (\<lambda>b.
     bindE (if tag_next b \<noteq> NULL then set_tag (tag_next b) (tag_prev_update (\<lambda>_. tag_prev b)) s else Inr s) (\<lambda>s.
     set_tag tag (\<lambda>b. b\<lparr>tag_next := NULL, tag_prev := NULL, tag_index := -1\<rparr>) s))))))"

definition melt_left :: "ptr \<Rightarrow> 'v liballoc \<Rightarrow> (ptr \<times> 'v liballoc) res" where
  "melt_left tag s =
     bindE (get_tag tag s) (\<lambda>b.
     let left = split_left b in
     bindE (set_tag left (\<lambda>l. l\<lparr>real_size := real_size l + real_size b\<rparr>) s) (\<lambda>s.
     bindE (get_tag tag s) (\<lambda>b.
     bindE (set_tag left (split_right_update (\<lambda>_. split_right b)) s) (\<lambda>s.
     bindE (get_tag tag s) (\<lambda>b.
     bindE (if split_right b \<noteq> NULL then set_tag (split_right b) (split_left_update (\<lambda>_. left)) s else Inr s) (\<lambda>s.
     Inr (left, s)))))))"

definition absorb_right :: "ptr \<Rightarrow> 'v liballoc \<Rightarrow> (ptr \<times> 'v liballoc) res" where
  "absorb_right tag s =
     bindE (get_tag tag s) (\<lambda>b.
     let right = split_right b in
     bindE (remove_tag right s) (\<lambda>s.
     bindE (get_tag right s) (\<lambda>r.
     bindE (set_tag tag (\<lambda>b. b\<lparr>real_size := real_size b + real_size r\<rparr>) s) (\<lambda>s.
     bindE (get_tag right s) (\<lambda>r.
     bindE (set_tag tag (split_right_update (\<lambda>_. split_right r)) s) (\<lambda>s.
     bindE (get_tag right s) (\<lambda>r.
     bindE (if split_right r \<noteq> NULL then set_tag (split_right r) (split_left_update (\<lambda>_. tag)) s else Inr s) (\<lambda>s.
     Inr (tag, s)))))))))"

text \<open>
  The new tag is made from memory: every field but its size and its index is assigned. A new tag that
  would lie on the tag it is split from, which the code writes all the same, is a fault here.
\<close>

definition split_tag :: "ptr \<Rightarrow> 'v liballoc \<Rightarrow> (ptr \<times> 'v liballoc) res" where
  "split_tag tag s =
     bindE (get_tag tag s) (\<lambda>b.
     let remainder = real_size b - sizeof_tag - tag_size b;
         new_tag = tag + sizeof_tag + tag_size b
     in
     if new_tag = NULL then Inl (Undefined ''null dereference'')
     else if new_tag - tag < sizeof_tag \<or> tag - new_tag < sizeof_tag then Inl (Undefined ''overlapping tags'')
     else
       let s = s\<lparr>tags := (tags s)(new_tag \<mapsto>
         \<lparr>magic = LIBALLOC_MAGIC, tag_size = tag_size (peek_tag new_tag s), real_size = remainder,
          tag_index = tag_index (peek_tag new_tag s), split_left = tag, split_right = split_right b, tag_next = NULL, tag_prev = NULL\<rparr>)\<rparr>
       in
       bindE (if split_right b \<noteq> NULL then set_tag (split_right b) (split_left_update (\<lambda>_. new_tag)) s else Inr s) (\<lambda>s.
       bindE (set_tag tag (\<lambda>b. b\<lparr>split_right := new_tag, real_size := real_size b - remainder\<rparr>) s) (\<lambda>s.
       bindE (insert_tag new_tag (-1) s) (\<lambda>s. Inr (new_tag, s)))))"

definition allocate_new_tag :: "'v alloc_hook \<Rightarrow> u32 \<Rightarrow> 'v liballoc \<Rightarrow> (ptr \<times> 'v liballoc) res" where
  "allocate_new_tag al sz s =
     (let usage = sz + sizeof_tag;
          pages = usage div l_pageSize;
          pages = (if usage mod l_pageSize \<noteq> 0 then pages + 1 else pages);
          pages = (if pages < l_pageCount then l_pageCount else pages)
      in
      bindE (al pages (below s)) (\<lambda>(tag, v).
      let s = s\<lparr>below := v\<rparr> in
      if tag = NULL then Inr (NULL, s)
      else
        Inr (tag, s\<lparr>tags := (tags s)(tag \<mapsto>
          \<lparr>magic = LIBALLOC_MAGIC, tag_size = sz, real_size = pages * l_pageSize, tag_index = -1,
           split_left = NULL, split_right = NULL, tag_next = NULL, tag_prev = NULL\<rparr>)\<rparr>)))"

text \<open>The search of \<^verbatim>\<open>malloc\<close> through one free list.\<close>

partial_function (option) find_tag :: "ptr \<Rightarrow> u32 \<Rightarrow> 'v liballoc \<Rightarrow> ptr res option" where
  "find_tag tag sz s =
     (if tag = NULL then Some (Inr NULL)
      else
        (case get_tag tag s of
           Inl e \<Rightarrow> Some (Inl e)
         | Inr b \<Rightarrow>
             if sz + sizeof_tag \<le> real_size b - sizeof_tag then Some (Inr tag)
             else find_tag (tag_next b) sz s))"

definition liballoc_init :: "'v liballoc \<Rightarrow> 'v liballoc" where
  "liballoc_init s =
     (if l_initialized s = 0
      then s\<lparr>l_freePages := replicate MAXEXP NULL, l_completePages := replicate MAXEXP 0, l_initialized := 1\<rparr>
      else s)"

text \<open>The last part of \<^verbatim>\<open>malloc\<close>: the tag takes the request, and what is left over becomes a free block.\<close>

definition take_tag :: "ptr \<Rightarrow> u32 \<Rightarrow> 'v liballoc \<Rightarrow> (ptr \<times> 'v liballoc) res" where
  "take_tag tag sz s =
     bindE (set_tag tag (tag_size_update (\<lambda>_. sz)) s) (\<lambda>s.
     bindE (get_tag tag s) (\<lambda>b.
     let remainder = real_size b - sz - sizeof_tag * 2 in
     bindE (if 0 < sint remainder \<and> 0 \<le> getexp remainder
            then bindE (split_tag tag s) (\<lambda>(new_tag, s). Inr s) else Inr s) (\<lambda>s.
     Inr (tag + sizeof_tag, s))))"

definition malloc :: "'v alloc_hook \<Rightarrow> u32 \<Rightarrow> 'v liballoc \<Rightarrow> (ptr \<times> 'v liballoc) res" where
  "malloc al sz s =
     (let s = liballoc_init s;
          index = at_least_minexp (getexp sz + MODE)
      in
      bindE (get_free index s) (\<lambda>first.
      bindE (loop_result (find_tag first sz s)) (\<lambda>tag.
      if tag = NULL then
        bindE (allocate_new_tag al sz s) (\<lambda>(tag, s).
        if tag = NULL then Inr (NULL, s) else take_tag tag sz s)
      else
        bindE (remove_tag tag s) (\<lambda>s.
        bindE (get_tag tag s) (\<lambda>b.
        bindE (if split_left b = NULL \<and> split_right b = NULL then add_complete index (-1) s else Inr s) (\<lambda>s.
        take_tag tag sz s))))))"

text \<open>The two loops of \<^verbatim>\<open>free\<close>.\<close>

partial_function (option) melt_lefts :: "ptr \<Rightarrow> 'v liballoc \<Rightarrow> (ptr \<times> 'v liballoc) res option" where
  "melt_lefts tag s =
     (case get_tag tag s of
        Inl e \<Rightarrow> Some (Inl e)
      | Inr b \<Rightarrow>
          if split_left b = NULL then Some (Inr (tag, s))
          else
            (case get_tag (split_left b) s of
               Inl e \<Rightarrow> Some (Inl e)
             | Inr l \<Rightarrow>
                 if tag_index l < 0 then Some (Inr (tag, s))
                 else
                   (case bindE (melt_left tag s) (\<lambda>(tag, s). bindE (remove_tag tag s) (\<lambda>s. Inr (tag, s))) of
                      Inl e \<Rightarrow> Some (Inl e)
                    | Inr (tag, s) \<Rightarrow> melt_lefts tag s)))"

partial_function (option) absorb_rights :: "ptr \<Rightarrow> 'v liballoc \<Rightarrow> (ptr \<times> 'v liballoc) res option" where
  "absorb_rights tag s =
     (case get_tag tag s of
        Inl e \<Rightarrow> Some (Inl e)
      | Inr b \<Rightarrow>
          if split_right b = NULL then Some (Inr (tag, s))
          else
            (case get_tag (split_right b) s of
               Inl e \<Rightarrow> Some (Inl e)
             | Inr r \<Rightarrow>
                 if tag_index r < 0 then Some (Inr (tag, s))
                 else
                   (case absorb_right tag s of
                      Inl e \<Rightarrow> Some (Inl e)
                    | Inr (tag, s) \<Rightarrow> absorb_rights tag s)))"

text \<open>The last part of \<^verbatim>\<open>free\<close>: a whole run goes back to the system when enough others stand by.\<close>

definition put_back :: "'v free_hook \<Rightarrow> ptr \<Rightarrow> 'v liballoc \<Rightarrow> 'v liballoc res" where
  "put_back fr tag s =
     bindE (get_tag tag s) (\<lambda>b.
     let index = at_least_minexp (getexp (real_size b - sizeof_tag)) in
     if split_left b = NULL \<and> split_right b = NULL then
       if l_completePages s ! nat index = MAXCOMPLETE then
         let pages = real_size b div l_pageSize;
             pages = (if real_size b mod l_pageSize \<noteq> 0 then pages + 1 else pages);
             pages = (if pages < l_pageCount then l_pageCount else pages)
         in bindE (fr tag pages (below s)) (\<lambda>v. Inr (s\<lparr>below := v\<rparr>))
       else bindE (add_complete index 1 s) (insert_tag tag index)
     else insert_tag tag index s)"

definition free :: "'v free_hook \<Rightarrow> ptr \<Rightarrow> 'v liballoc \<Rightarrow> 'v liballoc res" where
  "free fr p s =
     (if p = NULL then Inr s
      else
        let tag = p - sizeof_tag in
        if magic (peek_tag tag s) \<noteq> LIBALLOC_MAGIC then Inr s
        else
          bindE (loop_result (melt_lefts tag s)) (\<lambda>(tag, s).
          bindE (loop_result (absorb_rights tag s)) (\<lambda>(tag, s).
          put_back fr tag s)))"

definition calloc :: "'v storeb \<Rightarrow> 'v alloc_hook \<Rightarrow> u32 \<Rightarrow> u32 \<Rightarrow> 'v liballoc \<Rightarrow> (ptr \<times> 'v liballoc) res" where
  "calloc st al nobj sz s =
     (let size_all = nobj * sz in
      bindE (malloc al size_all s) (\<lambda>(p, s).
      bindE (liballoc_memset st p 0 size_all (below s)) (\<lambda>v.
      Inr (p, s\<lparr>below := v\<rparr>))))"

definition realloc ::
  "'v loadb \<Rightarrow> 'v storeb \<Rightarrow> 'v alloc_hook \<Rightarrow> 'v free_hook \<Rightarrow> ptr \<Rightarrow> u32 \<Rightarrow> 'v liballoc \<Rightarrow> (ptr \<times> 'v liballoc) res" where
  "realloc ld st al fr p sz s =
     (if sz = 0 then bindE (free fr p s) (\<lambda>s. Inr (NULL, s))
      else if p = NULL then malloc al sz s
      else
        let old = tag_size (peek_tag (p - sizeof_tag) s);
            n = (if sz < old then sz else old)
        in
        bindE (malloc al sz s) (\<lambda>(q, s).
        bindE (liballoc_memcpy ld st q p n (below s)) (\<lambda>v.
        bindE (free fr p (s\<lparr>below := v\<rparr>)) (\<lambda>s.
        Inr (q, s)))))"

text \<open>\<^verbatim>\<open>strdup\<close> of \<^verbatim>\<open>libc/string/string.c\<close>.\<close>

definition strdup :: "'v loadb \<Rightarrow> 'v storeb \<Rightarrow> 'v alloc_hook \<Rightarrow> ptr \<Rightarrow> 'v liballoc \<Rightarrow> (ptr \<times> 'v liballoc) res" where
  "strdup ld st al str s =
     bindE (strlen ld str (below s)) (\<lambda>len.
     bindE (malloc al (len + 1) s) (\<lambda>(dest, s).
     if dest = NULL then Inr (NULL, s)
     else bindE (memcpy ld st dest str (len + 1) (below s)) (\<lambda>v. Inr (dest, s\<lparr>below := v\<rparr>))))"

section \<open>Specification\<close>

text \<open>
  Doubly linked lists over two link functions: \<open>dls nx pv l xs r\<close> says that \<open>xs\<close> is linked both ways,
  with \<open>l\<close> before its first and \<open>r\<close> behind its last node.
\<close>

definition hd_or :: "ptr list \<Rightarrow> ptr \<Rightarrow> ptr" where
  "hd_or xs r = (case xs of [] \<Rightarrow> r | x # _ \<Rightarrow> x)"

definition last_or :: "ptr \<Rightarrow> ptr list \<Rightarrow> ptr" where
  "last_or l xs = (if xs = [] then l else last xs)"

primrec dls :: "(ptr \<Rightarrow> ptr) \<Rightarrow> (ptr \<Rightarrow> ptr) \<Rightarrow> ptr \<Rightarrow> ptr list \<Rightarrow> ptr \<Rightarrow> bool" where
  "dls nx pv l [] r \<longleftrightarrow> True"
| "dls nx pv l (x # xs) r \<longleftrightarrow> pv x = l \<and> nx x = hd_or xs r \<and> dls nx pv x xs r"

type_synonym tag_map = "ptr \<Rightarrow> boundary_tag option"

definition fld :: "(boundary_tag \<Rightarrow> 'a) \<Rightarrow> tag_map \<Rightarrow> ptr \<Rightarrow> 'a" where
  "fld f T p = f (the (T p))"

text \<open>The free lists: \<open>fl e\<close> are the tags of size class \<open>e\<close>.\<close>

definition free_ok :: "tag_map \<Rightarrow> ptr list \<Rightarrow> (nat \<Rightarrow> ptr list) \<Rightarrow> bool" where
  "free_ok T F fl \<longleftrightarrow> length F = 32 \<and> (\<forall>e \<ge> 32. fl e = []) \<and>
     (\<forall>e < 32. F ! e = hd_or (fl e) NULL \<and> dls (fld tag_next T) (fld tag_prev T) NULL (fl e) NULL \<and>
        distinct (fl e) \<and> (\<forall>p \<in> set (fl e). p \<noteq> NULL \<and> T p \<noteq> None \<and> fld tag_index T p = int e))"

text \<open>The class of a block, the bytes it covers, and whether it is in a free list.\<close>

definition size_class :: "u32 \<Rightarrow> int" where
  "size_class n = at_least_minexp (getexp (n - sizeof_tag))"

definition seg :: "tag_map \<Rightarrow> ptr \<Rightarrow> nat set" where
  "seg T p = {unat p ..< unat p + unat (fld real_size T p)}"

definition is_free :: "tag_map \<Rightarrow> ptr \<Rightarrow> bool" where
  "is_free T p \<longleftrightarrow> 0 \<le> fld tag_index T p"

text \<open>
  \<open>X\<close> are the tags an operation is working on: they are excused from what holds only between
  operations, that two neighbours are not both free, and that a block has the class of its size or
  room for what was asked for.
\<close>

definition adjacent :: "tag_map \<Rightarrow> ptr set \<Rightarrow> ptr \<Rightarrow> ptr \<Rightarrow> bool" where
  "adjacent T X p q \<longleftrightarrow> fld split_right T p = q \<and> fld split_left T q = p \<and>
     unat q = unat p + unat (fld real_size T p) \<and> (p \<in> X \<or> q \<in> X \<or> \<not> (is_free T p \<and> is_free T q))"

text \<open>A run starts at a page and covers whole pages, sixteen at least.\<close>

definition paged :: "tag_map \<Rightarrow> ptr list \<Rightarrow> bool" where
  "paged T r \<longleftrightarrow> 4096 dvd unat (hd r) \<and> (\<exists>k \<ge> 16. (\<Sum>x\<leftarrow>r. unat (fld real_size T x)) = 4096 * k)"

definition run_ok :: "tag_map \<Rightarrow> ptr set \<Rightarrow> ptr list \<Rightarrow> bool" where
  "run_ok T X r \<longleftrightarrow> r \<noteq> [] \<and> fld split_left T (hd r) = NULL \<and> fld split_right T (last r) = NULL \<and>
     successively (adjacent T X) r \<and> paged T r"

definition block_ok :: "tag_map \<Rightarrow> ptr set \<Rightarrow> ptr \<Rightarrow> bool" where
  "block_ok T X p \<longleftrightarrow> p \<noteq> NULL \<and> T p \<noteq> None \<and> fld magic T p = LIBALLOC_MAGIC \<and>
     32 \<le> unat (fld real_size T p) \<and> unat p + unat (fld real_size T p) \<le> 2 ^ 32 \<and>
     (fld tag_index T p = -1 \<and> fld tag_next T p = NULL \<and> fld tag_prev T p = NULL \<or> 0 \<le> fld tag_index T p) \<and>
     (p \<in> X \<or> fld tag_index T p = -1 \<and> 32 + unat (fld tag_size T p) \<le> unat (fld real_size T p) \<or>
      fld tag_index T p = size_class (fld real_size T p))"

definition heap_ok :: "tag_map \<Rightarrow> ptr list \<Rightarrow> (nat \<Rightarrow> ptr list) \<Rightarrow> ptr list list \<Rightarrow> ptr set \<Rightarrow> bool" where
  "heap_ok T F fl runs X \<longleftrightarrow> free_ok T F fl \<and> distinct (concat runs) \<and>
     (\<forall>r \<in> set runs. run_ok T X r) \<and> (\<forall>p \<in> set (concat runs). block_ok T X p) \<and>
     (\<forall>p \<in> set (concat runs). \<forall>q \<in> set (concat runs). p \<noteq> q \<longrightarrow> seg T p \<inter> seg T q = {}) \<and>
     (\<forall>e p. p \<in> set (fl e) \<longleftrightarrow> p \<in> set (concat runs) \<and> fld tag_index T p = int e)"

text \<open>A tag without its list links, and tag maps that agree up to these.\<close>

definition core :: "boundary_tag \<Rightarrow> boundary_tag" where
  "core b = b\<lparr>tag_next := NULL, tag_prev := NULL\<rparr>"

definition same_core :: "tag_map \<Rightarrow> tag_map \<Rightarrow> bool" where
  "same_core T T' \<longleftrightarrow> (\<forall>q. map_option core (T q) = map_option core (T' q))"

text \<open>Joining a block with its right neighbour, on tag maps.\<close>

definition link_left :: "tag_map \<Rightarrow> ptr \<Rightarrow> ptr \<Rightarrow> tag_map" where
  "link_left T r l = (if r = NULL then T else T(r \<mapsto> (the (T r))\<lparr>split_left := l\<rparr>))"

definition merge_tags :: "tag_map \<Rightarrow> ptr \<Rightarrow> ptr \<Rightarrow> tag_map" where
  "merge_tags T l p =
     link_left (T(l \<mapsto> (the (T l))\<lparr>real_size := fld real_size T l + fld real_size T p, split_right := fld split_right T p\<rparr>))
       (fld split_right T p) l"

text \<open>Splitting a block behind what was asked for; the new tag keeps \<open>k\<close> as its size.\<close>

definition split_tags :: "tag_map \<Rightarrow> ptr \<Rightarrow> u32 \<Rightarrow> tag_map" where
  "split_tags T p k =
     (let q = p + sizeof_tag + fld tag_size T p;
          rem = fld real_size T p - sizeof_tag - fld tag_size T p
      in (link_left (T(q \<mapsto>
            \<lparr>magic = LIBALLOC_MAGIC, tag_size = k, real_size = rem, tag_index = -1,
             split_left = p, split_right = fld split_right T p, tag_next = NULL, tag_prev = NULL\<rparr>)) (fld split_right T p) q)
         (p \<mapsto> (the (T p))\<lparr>split_right := q, real_size := fld real_size T p - rem\<rparr>))"

text \<open>The blocks that have been handed out: address and requested size.\<close>

definition live :: "tag_map \<Rightarrow> ptr list list \<Rightarrow> ptr set \<Rightarrow> (ptr \<times> u32) set" where
  "live T runs X = (\<lambda>p. (p + sizeof_tag, fld tag_size T p)) ` {p \<in> set (concat runs) - X. fld tag_index T p = -1}"

definition heap_bytes :: "tag_map \<Rightarrow> ptr list list \<Rightarrow> nat set" where
  "heap_bytes T runs = (\<Union>p \<in> set (concat runs). seg T p)"

text \<open>How many whole runs of a class stand by, and what \<^verbatim>\<open>l_completePages\<close> says about it.\<close>

definition standby :: "(nat \<Rightarrow> ptr list) \<Rightarrow> ptr list list \<Rightarrow> nat \<Rightarrow> nat" where
  "standby fl runs e = length (filter (\<lambda>p. [p] \<in> set runs) (fl e))"

definition complete_ok :: "int list \<Rightarrow> (nat \<Rightarrow> ptr list) \<Rightarrow> ptr list list \<Rightarrow> bool" where
  "complete_ok C fl runs \<longleftrightarrow> length C = MAXEXP \<and>
     (\<forall>e < MAXEXP. C ! e = int (standby fl runs e) \<and> C ! e \<le> MAXCOMPLETE)"

text \<open>The invariant of the allocator's state.\<close>

definition heap_inv :: "'v liballoc \<Rightarrow> ptr list list \<Rightarrow> bool" where
  "heap_inv s runs \<longleftrightarrow>
     (if l_initialized s = 0 then runs = []
      else \<exists>fl. heap_ok (tags s) (l_freePages s) fl runs {} \<and> complete_ok (l_completePages s) fl runs)"

text \<open>
  The test of the search; whether a free block of the class of a request is large enough; the pages a
  new run gets for a request.
\<close>

definition fitting :: "tag_map \<Rightarrow> u32 \<Rightarrow> ptr \<Rightarrow> bool" where
  "fitting T sz p \<longleftrightarrow> sz + sizeof_tag \<le> fld real_size T p - sizeof_tag"

definition has_room :: "tag_map \<Rightarrow> ptr list list \<Rightarrow> u32 \<Rightarrow> bool" where
  "has_room T runs sz \<longleftrightarrow> (\<exists>p \<in> set (concat runs).
     fld tag_index T p = at_least_minexp (getexp sz) \<and> 64 + unat sz \<le> unat (fld real_size T p))"

definition heap_pages :: "nat \<Rightarrow> nat" where
  "heap_pages n = max 16 ((n + 4127) div 4096)"

definition span :: "ptr \<Rightarrow> nat \<Rightarrow> nat set" where
  "span q n = {unat q ..< unat q + 4096 * n}"

text \<open>The blocks handed out by an allocator state, and the bytes of its runs.\<close>

definition heap_live :: "'v liballoc \<Rightarrow> ptr list list \<Rightarrow> (ptr \<times> u32) set" where
  "heap_live s runs = live (tags s) runs {}"

definition heap_area :: "'v liballoc \<Rightarrow> ptr list list \<Rightarrow> nat set" where
  "heap_area s runs = heap_bytes (tags s) runs"

text \<open>
  A result that is a call of the hook that returns pages, with the pages it gets: \<open>B\<close> and \<open>B'\<close> are the
  bytes of the runs before and after.
\<close>

definition returned :: "'v free_hook \<Rightarrow> 'v liballoc res \<Rightarrow> 'v liballoc \<Rightarrow> nat set \<Rightarrow> 'v liballoc \<Rightarrow> nat set \<Rightarrow> bool" where
  "returned fr res s B s' B' \<longleftrightarrow>
     (\<exists>q n. res = bindE (fr q n (below s)) (\<lambda>v. Inr (s'\<lparr>below := v\<rparr>)) \<and> 4096 dvd unat q \<and>
        span q (unat n) \<subseteq> B \<and> B' = B - span q (unat n))"

text \<open>
  What the allocator needs from the hook that gets pages: \<open>pool v A B\<close> says that the bytes \<open>A\<close> are free
  and the bytes \<open>B\<close> are held, \<open>ready n v A B\<close> that moreover \<open>n\<close> pages can be had. What it needs from the
  memory below, when it fills or copies blocks, is that held bytes are cells of their own, which new
  pages do not overwrite.
\<close>

locale page_provider =
  fixes al :: "'v alloc_hook" and pool :: "'v \<Rightarrow> nat set \<Rightarrow> nat set \<Rightarrow> bool"
    and ready :: "nat \<Rightarrow> 'v \<Rightarrow> nat set \<Rightarrow> nat set \<Rightarrow> bool"
  assumes pool_disjoint: "pool v A B \<Longrightarrow> A \<inter> B = {}"
    and alloc_pages: "ready (unat n) v A B \<Longrightarrow>
      \<exists>q v'. al n v = Inr (q, v') \<and> q \<noteq> NULL \<and> 4096 dvd unat q \<and> unat q + 4096 * unat n \<le> 2 ^ 32 \<and>
        span q (unat n) \<subseteq> A \<and> pool v' (A - span q (unat n)) (B \<union> span q (unat n))"

locale page_memory = page_provider al pool ready + byte_memory ld st cell content frame
  for al :: "'v alloc_hook" and pool ready and ld :: "'v loadb" and st :: "'v storeb"
    and cell :: "'v \<Rightarrow> u32 \<Rightarrow> 'c option" and content :: "'v \<Rightarrow> 'c \<Rightarrow> u8" and frame :: "'v \<Rightarrow> 'r" +
  assumes pool_cells: "pool v A B \<Longrightarrow> b \<in> B \<Longrightarrow> b < 2 ^ 32 \<and> cell v (of_nat b) \<noteq> None"
    and pool_inj: "pool v A B \<Longrightarrow> b \<in> B \<Longrightarrow> b' \<in> B \<Longrightarrow> cell v (of_nat b) = cell v (of_nat b') \<Longrightarrow> b = b'"
    and pool_store: "pool v A B \<Longrightarrow> frame v' = frame v \<Longrightarrow> cell v' = cell v \<Longrightarrow> pool v' A B"
    and alloc_keeps: "ready (unat n) v A B \<Longrightarrow> al n v = Inr (q, v') \<Longrightarrow> b \<in> B \<Longrightarrow> ld (of_nat b) v' = ld (of_nat b) v"

text \<open>
  What an allocation of \<open>sz\<close> bytes at \<open>p\<close> does: the block joins the live ones, the free bytes \<open>A\<close> and
  the held bytes \<open>B\<close> become \<open>A'\<close> and \<open>B'\<close>, and the memory below is the same or got new pages.
\<close>

definition allocates ::
  "'v alloc_hook \<Rightarrow> ('v \<Rightarrow> nat set \<Rightarrow> nat set \<Rightarrow> bool) \<Rightarrow> (nat \<Rightarrow> 'v \<Rightarrow> nat set \<Rightarrow> nat set \<Rightarrow> bool) \<Rightarrow> u32 \<Rightarrow> ptr \<Rightarrow>
   'v liballoc \<Rightarrow> ptr list list \<Rightarrow> nat set \<Rightarrow> nat set \<Rightarrow> 'v liballoc \<Rightarrow> ptr list list \<Rightarrow> nat set \<Rightarrow> nat set \<Rightarrow> bool" where
  "allocates al pool ready sz p s runs A B s' runs' A' B' \<longleftrightarrow>
     p \<noteq> NULL \<and> heap_inv s' runs' \<and> heap_live s' runs' = insert (p, sz) (heap_live s runs) \<and>
     (\<forall>n. (p, n) \<notin> heap_live s runs) \<and> pool (below s') A' B' \<and> heap_area s' runs' \<subseteq> B' \<and>
     heap_area s' runs' \<subseteq> heap_area s runs \<union> A \<and> B \<subseteq> B' \<and> A' \<union> B' = A \<union> B \<and>
     (MAXCOMPLETE \<notin> set (l_completePages s) \<longrightarrow> MAXCOMPLETE \<notin> set (l_completePages s')) \<and>
     (below s' = below s \<or> (\<exists>n q. unat n = heap_pages (unat sz) \<and> ready (unat n) (below s) A B \<and> al n (below s) = Inr (q, below s')))"

text \<open>Bytes that a step from \<open>v\<close> to \<open>v'\<close> leaves as they are, and the bytes of a block.\<close>

definition kept :: "'v loadb \<Rightarrow> 'v \<Rightarrow> 'v \<Rightarrow> nat set \<Rightarrow> bool" where
  "kept ld v v' B \<longleftrightarrow> (\<forall>b \<in> B. ld (of_nat b) v' = ld (of_nat b) v)"

definition bytes :: "ptr \<Rightarrow> u32 \<Rightarrow> nat set" where
  "bytes p n = {unat p ..< unat p + unat n}"

text \<open>The binary logarithm, rounded down.\<close>

fun floor_log2 :: "nat \<Rightarrow> nat" where
  "floor_log2 n = (if n < 2 then 0 else Suc (floor_log2 (n div 2)))"

declare floor_log2.simps [simp del]

section \<open>Linked lists\<close>

lemma MODE_eq [simp]: "MODE = 0"
  by (simp add: MODE_def MODE_BEST_def)

lemma hd_or_simps [simp]: "hd_or [] r = r" "hd_or (x # xs) r = x"
  by (simp_all add: hd_or_def)

lemma last_or_simps [simp]: "last_or l [] = l" "last_or l (xs @ [x]) = x"
  by (simp_all add: last_or_def)

lemma last_or_Cons [simp]: "last_or l (x # xs) = last_or x xs"
  by (simp add: last_or_def)

lemma hd_or_append: "hd_or (xs @ ys) r = hd_or xs (hd_or ys r)"
  by (cases xs) simp_all

lemma dls_append: "dls nx pv l (xs @ ys) r \<longleftrightarrow> dls nx pv l xs (hd_or ys r) \<and> dls nx pv (last_or l xs) ys r"
  by (induction xs arbitrary: l) (auto simp: hd_or_append)

lemma dls_cong:
  "(\<And>x. x \<in> set xs \<Longrightarrow> nx x = nx' x \<and> pv x = pv' x) \<Longrightarrow> dls nx pv l xs r = dls nx' pv' l xs r"
  by (induction xs arbitrary: l) auto

lemma fld_upd [simp]: "fld f (T(p \<mapsto> b)) q = (if q = p then f b else fld f T q)"
  by (simp add: fld_def)

lemma getexp_range: "-1 \<le> getexp n" "getexp n < 32"
proof -
  have "shift \<le> getexp_loop shift n \<and> getexp_loop shift n \<le> 32" if "shift \<le> 32" for shift
    using that
  proof (induction shift n rule: getexp_loop.induct)
    case (1 shift n)
    then show ?case by (subst (1 2) getexp_loop.simps) (auto simp: MAXEXP_def)
  qed
  from this [of 8] show "-1 \<le> getexp n" "getexp n < 32" by (auto simp: getexp_def MINEXP_def)
qed

lemma size_class_range: "8 \<le> size_class n" "size_class n < 32" "8 \<le> at_least_minexp (getexp n)" "at_least_minexp (getexp n) < 32"
  using getexp_range by (auto simp: size_class_def at_least_minexp_def MINEXP_def)

lemma free_okD:
  assumes "free_ok T F fl" "p \<in> set (fl e)"
  shows "e < 32" "p \<noteq> NULL" "T p \<noteq> None" "fld tag_index T p = int e"
proof -
  show "e < 32" using assms by (force simp: free_ok_def not_less [symmetric])
  then show "p \<noteq> NULL" "T p \<noteq> None" "fld tag_index T p = int e" using assms by (auto simp: free_ok_def)
qed

lemma free_ok_disjoint: "free_ok T F fl \<Longrightarrow> p \<in> set (fl e) \<Longrightarrow> p \<in> set (fl e') \<Longrightarrow> e = e'"
  using free_okD(4) [of T F fl p e] free_okD(4) [of T F fl p e'] by simp

text \<open>A class whose tags are untouched stays as it is.\<close>

lemma free_ok_update:
  assumes ok: "free_ok T F fl" and e: "e < 32" "F' = F[e := hd_or xs NULL]"
    and new: "dls (fld tag_next T') (fld tag_prev T') NULL xs NULL" "distinct xs"
      "\<And>p. p \<in> set xs \<Longrightarrow> p \<noteq> NULL \<and> T' p \<noteq> None \<and> fld tag_index T' p = int e"
    and old: "\<And>e' q. e' \<noteq> e \<Longrightarrow> q \<in> set (fl e') \<Longrightarrow> T' q = T q"
  shows "free_ok T' F' (fl(e := xs))"
  unfolding free_ok_def
proof (intro conjI allI impI)
  show "length F' = 32" using ok e by (simp add: free_ok_def)
  show "(fl(e := xs)) k = []" if "32 \<le> k" for k using ok e that by (simp add: free_ok_def)
  fix k :: nat
  assume k: "k < 32"
  have same: "T' q = T q" if "k \<noteq> e" "q \<in> set (fl k)" for q using old that by blast
  have fk: "F ! k = hd_or (fl k) NULL" "dls (fld tag_next T) (fld tag_prev T) NULL (fl k) NULL" "distinct (fl k)"
    "\<forall>p \<in> set (fl k). p \<noteq> NULL \<and> T p \<noteq> None \<and> fld tag_index T p = int k" using ok k by (auto simp: free_ok_def)
  show "F' ! k = hd_or ((fl(e := xs)) k) NULL" using ok e k fk(1) by (auto simp: free_ok_def)
  have "dls (fld tag_next T') (fld tag_prev T') NULL (fl k) NULL" if "k \<noteq> e"
    using fk(2) same [OF that] by (subst dls_cong [of _ _ "fld tag_next T" _ "fld tag_prev T"]) (auto simp: fld_def)
  then show "dls (fld tag_next T') (fld tag_prev T') NULL ((fl(e := xs)) k) NULL" using new(1) by simp
  show "distinct ((fl(e := xs)) k)" using new(2) fk(3) by simp
  show "\<forall>p \<in> set ((fl(e := xs)) k). p \<noteq> NULL \<and> T' p \<noteq> None \<and> fld tag_index T' p = int k"
    using new(3) fk(4) same by (auto simp: fld_def)
qed

lemma insert_tag_ok:
  assumes ok: "free_ok (tags s) (l_freePages s) fl" and p: "p \<noteq> NULL" "tags s p = Some b" "p \<notin> (\<Union>k. set (fl k))"
    and b: "tag_next b = NULL" "tag_prev b = NULL"
    and e: "int e = (if i < 0 then size_class (real_size b) else i)" "e < 32"
  shows "\<exists>T'. insert_tag p i s = Inr (s\<lparr>tags := T', l_freePages := (l_freePages s)[e := p]\<rparr>) \<and>
    free_ok T' ((l_freePages s)[e := p]) (fl(e := p # fl e)) \<and>
    same_core T' ((tags s)(p \<mapsto> b\<lparr>tag_index := int e\<rparr>)) \<and> (\<forall>q. q \<notin> insert p (set (fl e)) \<longrightarrow> T' q = tags s q)"
proof -
  let ?T = "tags s" and ?F = "l_freePages s"
  have F: "?F ! e = hd_or (fl e) NULL" "dls (fld tag_next ?T) (fld tag_prev ?T) NULL (fl e) NULL" "distinct (fl e)"
    using ok e(2) by (auto simp: free_ok_def)
  have idx: "(if i < 0 then at_least_minexp (getexp (real_size b - sizeof_tag)) else i) = int e"
    using e(1) by (simp add: size_class_def split: if_splits)
  have el: "q \<noteq> NULL \<and> q \<noteq> p \<and> ?T q \<noteq> None \<and> fld tag_index ?T q = int e" if "q \<in> set (fl e)" for q
    using free_okD [OF ok that] p(3) that by auto
  have other: "q \<notin> insert p (set (fl e))" if "k \<noteq> e" "q \<in> set (fl k)" for k q
    using that p(3) free_ok_disjoint [OF ok that(2)] by blast
  show ?thesis
  proof (cases "fl e")
    case Nil
    let ?T' = "?T(p \<mapsto> b\<lparr>tag_index := int e\<rparr>)"
    have run: "insert_tag p i s = Inr (s\<lparr>tags := ?T', l_freePages := ?F[e := p]\<rparr>)"
      using p e(2) F(1) Nil by (simp add: insert_tag_def get_tag_def set_tag_def get_free_def set_free_def idx MAXEXP_def)
    have "free_ok ?T' (?F[e := p]) (fl(e := [p]))"
      by (rule free_ok_update [OF ok e(2)]) (use p b other in auto)
    then show ?thesis using run Nil by (intro exI [of _ ?T']) (simp add: same_core_def)
  next
    case (Cons f rest)
    obtain c where c: "?T f = Some c" using el [of f] Cons by auto
    have f: "f \<noteq> NULL" "f \<noteq> p" "f \<notin> set rest" using el [of f] Cons F(3) by auto
    let ?T' = "?T(f \<mapsto> c\<lparr>tag_prev := p\<rparr>, p \<mapsto> b\<lparr>tag_index := int e, tag_next := f\<rparr>)"
    have run: "insert_tag p i s = Inr (s\<lparr>tags := ?T', l_freePages := ?F[e := p]\<rparr>)"
      using p e(2) F(1) Cons f c
      by (simp add: insert_tag_def get_tag_def set_tag_def get_free_def set_free_def idx MAXEXP_def fun_upd_twist)
    have pr: "p \<notin> set rest" using el [of p] Cons by auto
    have "dls (fld tag_next ?T') (fld tag_prev ?T') f rest NULL"
      using F(2) Cons f pr by (subst dls_cong [of _ _ "fld tag_next ?T" _ "fld tag_prev ?T"]) auto
    then have "dls (fld tag_next ?T') (fld tag_prev ?T') NULL (p # fl e) NULL"
      using F(2) Cons f b c by (auto simp: fld_def)
    moreover have "q \<noteq> NULL \<and> ?T' q \<noteq> None \<and> fld tag_index ?T' q = int e" if "q \<in> set (p # fl e)" for q
      using that el [of q] p c el [of f] Cons by (auto simp: fld_def)
    ultimately have "free_ok ?T' (?F[e := p]) (fl(e := p # fl e))"
      using p F(3) other Cons f pr by (intro free_ok_update [OF ok e(2)]) auto
    then show ?thesis using run Cons c f by (intro exI [of _ ?T']) (auto simp: same_core_def core_def)
  qed
qed

text \<open>The tags after one has been taken out between its neighbours \<open>v\<close> and \<open>n\<close>.\<close>

definition upd_tag :: "ptr \<Rightarrow> (boundary_tag \<Rightarrow> boundary_tag) \<Rightarrow> tag_map \<Rightarrow> tag_map" where
  "upd_tag q f T = (if q = NULL then T else T(q := map_option f (T q)))"

definition unlinked_tags :: "ptr \<Rightarrow> ptr \<Rightarrow> ptr \<Rightarrow> boundary_tag \<Rightarrow> tag_map \<Rightarrow> tag_map" where
  "unlinked_tags v n p b T =
     (upd_tag n (tag_prev_update (\<lambda>_. v)) (upd_tag v (tag_next_update (\<lambda>_. n)) T))
       (p \<mapsto> b\<lparr>tag_next := NULL, tag_prev := NULL, tag_index := -1\<rparr>)"

lemma unlinked_fld:
  assumes "q \<noteq> p" "v \<noteq> NULL \<Longrightarrow> T v \<noteq> None" "n \<noteq> NULL \<Longrightarrow> T n \<noteq> None"
  shows "fld tag_next (unlinked_tags v n p b T) q = (if q = v \<and> v \<noteq> NULL then n else fld tag_next T q)"
    and "fld tag_prev (unlinked_tags v n p b T) q = (if q = n \<and> n \<noteq> NULL then v else fld tag_prev T q)"
    and "fld tag_index (unlinked_tags v n p b T) q = fld tag_index T q"
    and "unlinked_tags v n p b T q = None \<longleftrightarrow> T q = None"
    and "q \<noteq> v \<Longrightarrow> q \<noteq> n \<Longrightarrow> unlinked_tags v n p b T q = T q"
  using assms by (auto simp: unlinked_tags_def upd_tag_def fld_def)

lemma unlinked_core:
  "same_core (unlinked_tags v n p b T) (T(p \<mapsto> b\<lparr>tag_index := -1\<rparr>))"
  by (auto simp: same_core_def unlinked_tags_def upd_tag_def core_def option.map_comp comp_def intro!: map_option_cong)

lemma remove_tag_run:
  assumes "p \<noteq> NULL" "tags s p = Some b" "tag_index b = int e" "e < 32" "tag_prev b \<noteq> p" "tag_next b \<noteq> p"
    and "tag_prev b \<noteq> NULL \<Longrightarrow> tags s (tag_prev b) \<noteq> None" "tag_next b \<noteq> NULL \<Longrightarrow> tags s (tag_next b) \<noteq> None"
  shows "remove_tag p s = Inr (s\<lparr>tags := unlinked_tags (tag_prev b) (tag_next b) p b (tags s),
    l_freePages := (if l_freePages s ! e = p then (l_freePages s)[e := tag_next b] else l_freePages s)\<rparr>)"
proof -
  let ?F = "if l_freePages s ! e = p then (l_freePages s)[e := tag_next b] else l_freePages s"
  let ?T1 = "upd_tag (tag_prev b) (tag_next_update (\<lambda>_. tag_next b)) (tags s)"
  let ?T2 = "upd_tag (tag_next b) (tag_prev_update (\<lambda>_. tag_prev b)) ?T1"
  have set: "(if q \<noteq> NULL then set_tag q f r else Inr r) = Inr (r\<lparr>tags := upd_tag q f (tags r)\<rparr>)"
    if "q \<noteq> NULL \<Longrightarrow> tags r q \<noteq> None" for q f and r :: "'a liballoc"
    using that by (auto simp: set_tag_def get_tag_def upd_tag_def)
  have s1: "(if l_freePages s ! e = p then set_free (int e) (tag_next b) s else Inr s) = Inr (s\<lparr>l_freePages := ?F\<rparr>)"
    using assms(4) by (auto simp: set_free_def MAXEXP_def)
  have f: "get_free (int e) s = Inr (l_freePages s ! e)" using assms(4) by (simp add: get_free_def MAXEXP_def)
  let ?s1 = "s\<lparr>l_freePages := ?F\<rparr>"
  let ?s2 = "?s1\<lparr>tags := ?T1\<rparr>"
  have g: "get_tag p s = Inr b" "get_tag p ?s2 = Inr b" "?T2 p = Some b" using assms(1,2,5,6) by (simp_all add: get_tag_def upd_tag_def)
  have d: "tag_next b \<noteq> NULL \<Longrightarrow> ?T1 (tag_next b) \<noteq> None" using assms(7,8) by (auto simp: upd_tag_def)
  have s2: "(if tag_prev b \<noteq> NULL then set_tag (tag_prev b) (tag_next_update (\<lambda>_. tag_next b)) ?s1 else Inr ?s1) = Inr ?s2"
    using set [of "tag_prev b" ?s1] assms(7) by simp
  have s3: "(if tag_next b \<noteq> NULL then set_tag (tag_next b) (tag_prev_update (\<lambda>_. tag_prev b)) ?s2 else Inr ?s2) = Inr (?s2\<lparr>tags := ?T2\<rparr>)"
    using set [of "tag_next b" ?s2] d by simp
  show ?thesis
    unfolding remove_tag_def g bindE_Inr assms(3) f s1 s2 s3 using assms(1) g(3) by (simp add: set_tag_def get_tag_def unlinked_tags_def)
qed

lemma dls_unlink:
  assumes l: "dls nx pv a (xs @ p # ys) c" and d: "distinct (xs @ p # ys)"
    and nx: "\<And>q. q \<in> set (xs @ ys) \<Longrightarrow> nx' q = (if xs \<noteq> [] \<and> q = last xs then hd_or ys c else nx q)"
    and pv: "\<And>q. q \<in> set (xs @ ys) \<Longrightarrow> pv' q = (if ys \<noteq> [] \<and> q = hd ys then last_or a xs else pv q)"
  shows "dls nx' pv' a (xs @ ys) c"
proof -
  have lx: "dls nx pv a xs p" and ly: "dls nx pv p ys c" using l by (simp_all add: dls_append)
  have hd: "hd ys \<notin> set xs" if "ys \<noteq> []" using that d hd_in_set [OF that] by auto
  have "dls nx' pv' a xs (hd_or ys c)"
  proof (cases xs rule: rev_cases)
    case (snoc zs z)
    have "dls nx' pv' a zs z"
      using lx d hd snoc nx pv by (subst dls_cong [of _ _ nx _ pv]) (auto simp: dls_append)
    then show ?thesis using lx snoc nx [of z] pv [of z] hd by (auto simp: dls_append)
  qed simp
  moreover have "dls nx' pv' (last_or a xs) ys c"
  proof (cases ys)
    case (Cons z zs)
    have nl: "q \<noteq> last xs" if "q \<in> set ys" "xs \<noteq> []" for q
      using that(1) d last_in_set [OF that(2)] by (auto dest: disjoint_iff [THEN iffD1])
    have "dls nx' pv' z zs c"
      using ly d Cons nx pv nl by (subst dls_cong [of _ _ nx _ pv]) auto
    then show ?thesis using ly Cons nx [of z] pv [of z] nl [of z] by auto
  qed simp
  ultimately show ?thesis by (simp add: dls_append)
qed

lemma remove_tag_ok:
  assumes ok: "free_ok (tags s) (l_freePages s) fl" and p: "fl e = xs @ p # ys" "tags s p = Some b"
  shows "\<exists>T' F'. remove_tag p s = Inr (s\<lparr>tags := T', l_freePages := F'\<rparr>) \<and>
    free_ok T' F' (fl(e := xs @ ys)) \<and>
    same_core T' ((tags s)(p \<mapsto> b\<lparr>tag_index := -1\<rparr>)) \<and> T' p = Some (b\<lparr>tag_next := NULL, tag_prev := NULL, tag_index := -1\<rparr>) \<and>
    (\<forall>q. q \<notin> set (fl e) \<longrightarrow> T' q = tags s q)"
proof -
  let ?T = "tags s" and ?F = "l_freePages s" and ?n = "hd_or ys NULL" and ?v = "last_or NULL xs"
  let ?T' = "unlinked_tags ?v ?n p b ?T"
  have el: "q \<noteq> NULL" "?T q \<noteq> None" "fld tag_index ?T q = int e" if "q \<in> set xs \<union> {p} \<union> set ys" for q
    using free_okD [OF ok, of q e] that p(1) by auto
  have e: "e < 32" using free_okD(1) [OF ok, of p e] p(1) by simp
  then have F: "?F ! e = hd_or (xs @ p # ys) NULL" "distinct (xs @ p # ys)" "length ?F = 32"
    and l: "dls (fld tag_next ?T) (fld tag_prev ?T) NULL (xs @ p # ys) NULL"
    using ok p(1) [symmetric] by (auto simp: free_ok_def)
  have b: "tag_index b = int e" "tag_next b = ?n" "tag_prev b = ?v"
    using el(3) [of p] p(2) l by (auto simp: fld_def dls_append)
  have v: "?v = NULL \<and> xs = [] \<or> ?v = last xs \<and> ?v \<noteq> NULL \<and> ?v \<in> set xs" and n: "?n = NULL \<and> ys = [] \<or> ?n = hd ys \<and> ?n \<noteq> NULL \<and> ?n \<in> set ys"
    using el(1) by (cases xs rule: rev_cases; simp add: last_or_def) (cases ys; simp add: el(1))
  have dv: "?v \<noteq> NULL \<Longrightarrow> ?T ?v \<noteq> None" and dn: "?n \<noteq> NULL \<Longrightarrow> ?T ?n \<noteq> None" using el(2) v n by auto
  have ne: "p \<noteq> NULL" "?v \<noteq> p" "?n \<noteq> p" using el(1) [of p] v n F(2) by auto
  note U = unlinked_fld [OF _ dv dn, of _ p b]
  have F1: "(if ?F ! e = p then ?F[e := ?n] else ?F) = ?F[e := hd_or (xs @ ys) NULL]"
    using F by (cases xs) (auto simp: hd_or_append list_update_same_conv)
  have run: "remove_tag p s = Inr (s\<lparr>tags := ?T', l_freePages := ?F[e := hd_or (xs @ ys) NULL]\<rparr>)"
    unfolding F1 [symmetric]
    by (rule remove_tag_run [OF ne(1) p(2) b(1) e, unfolded b, OF ne(2,3)]) (use dv dn in auto)
  have "free_ok ?T' (?F[e := hd_or (xs @ ys) NULL]) (fl(e := xs @ ys))"
  proof (rule free_ok_update [OF ok e refl])
    have np: "q \<noteq> p" if "q \<in> set (xs @ ys)" for q using that F(2) by auto
    show "distinct (xs @ ys)" using F(2) by auto
    show "q \<noteq> NULL \<and> ?T' q \<noteq> None \<and> fld tag_index ?T' q = int e" if "q \<in> set (xs @ ys)" for q
      using U(3,4) [OF np [OF that]] el [of q] that by auto
    show "?T' q = ?T q" if "k \<noteq> e" "q \<in> set (fl k)" for k q
      using free_ok_disjoint [OF ok that(2), of e] that el(1) [of q] v n p(1) free_okD(2) [OF ok that(2)] by (intro U(5)) auto
    show "dls (fld tag_next ?T') (fld tag_prev ?T') NULL (xs @ ys) NULL"
      by (rule dls_unlink [OF l F(2)]) (use U(1,2) [OF np] v n in auto)
  qed
  moreover have "?T' q = ?T q" if "q \<notin> set (fl e)" for q
    using that v n p(1) by (cases "q = NULL") (auto intro!: U(5) simp: unlinked_tags_def upd_tag_def ne(1))
  moreover have "?T' p = Some (b\<lparr>tag_next := NULL, tag_prev := NULL, tag_index := -1\<rparr>)" by (simp add: unlinked_tags_def)
  ultimately show ?thesis using run unlinked_core by blast
qed

section \<open>Size classes\<close>

lemma floor_log2_bounds: "0 < n \<Longrightarrow> 2 ^ floor_log2 n \<le> n \<and> n < 2 * 2 ^ floor_log2 n"
proof (induction n rule: floor_log2.induct)
  case (1 n)
  show ?case
  proof (cases "n < 2")
    case True
    then show ?thesis using 1 by (simp add: floor_log2.simps)
  next
    case False
    then have "2 ^ floor_log2 (n div 2) \<le> n div 2" "n div 2 < 2 * 2 ^ floor_log2 (n div 2)" using 1 by auto
    then show ?thesis using False by (subst (1 2) floor_log2.simps) auto
  qed
qed

lemma floor_log2_unique:
  assumes "2 ^ k \<le> n" "n < 2 * 2 ^ k"
  shows "floor_log2 n = k"
proof -
  have "0 < n" using assms(1) by (metis less_le_trans zero_less_numeral zero_less_power)
  note b = floor_log2_bounds [OF this]
  have "(2 :: nat) ^ k < 2 ^ Suc (floor_log2 n)" "(2 :: nat) ^ floor_log2 n < 2 ^ Suc k" using b assms by auto
  then have "k < Suc (floor_log2 n)" "floor_log2 n < Suc k" by (metis one_less_numeral_iff power_less_imp_less_exp semiring_norm(76))+
  then show ?thesis by simp
qed

lemma getexp_loop_log:
  "1 \<le> shift \<Longrightarrow> shift \<le> 32 \<Longrightarrow> 2 ^ (shift - 1) \<le> unat n \<Longrightarrow>
   1 \<le> getexp_loop shift n \<and> floor_log2 (unat n) = getexp_loop shift n - 1"
proof (induction shift n rule: getexp_loop.induct)
  case (1 shift n)
  have two: "2 * 2 ^ (shift - 1) = (2 :: nat) ^ shift" using 1 by (metis Suc_diff_1 less_eq_Suc_le One_nat_def power_Suc)
  show ?case
  proof (cases "shift < 32")
    case False
    then have "shift = 32" using 1 by simp
    then show ?thesis using 1 unat_lt_2p32 [of n] by (subst getexp_loop.simps, subst getexp_loop.simps) (simp add: MAXEXP_def floor_log2_unique del: unat_lt_2p32)
  next
    case True
    then have less: "n < push_bit shift 1 \<longleftrightarrow> unat n < 2 ^ shift" by (simp add: word_less_nat_alt unat_u32_power)
    show ?thesis
    proof (cases "unat n < 2 ^ shift")
      case t: True
      then have "getexp_loop shift n = shift" using less True by (simp add: getexp_loop.simps [of shift] MAXEXP_def)
      moreover have "floor_log2 (unat n) = shift - 1" by (rule floor_log2_unique) (use 1 t two in simp_all)
      ultimately show ?thesis using 1 by simp
    next
      case f: False
      then have "getexp_loop shift n = getexp_loop (shift + 1) n" using less True by (simp add: getexp_loop.simps [of shift] MAXEXP_def)
      then show ?thesis using "1.IH" True less f by (simp add: MAXEXP_def)
    qed
  qed
qed

text \<open>
  The search of \<^verbatim>\<open>getexp\<close> for the size class is the binary logarithm rounded down, for every size
  from 256 on, up to the largest; smaller sizes have no class of their own.
\<close>

lemma getexp_floor_log: "getexp n = (if unat n < 256 then -1 else int (floor_log2 (unat n)))"
proof (cases "unat n < 256")
  case True
  then show ?thesis by (simp add: getexp_def MINEXP_def word_less_nat_alt)
next
  case False
  then have "1 \<le> getexp_loop 8 n \<and> floor_log2 (unat n) = getexp_loop 8 n - 1" by (intro getexp_loop_log) simp_all
  then show ?thesis using False by (auto simp: getexp_def MINEXP_def word_less_nat_alt)
qed

end
