(* ===== verification/Liballoc_Inv.thy ===== *)
theory Liballoc_Inv
  imports Liballoc
begin

text \<open>
  What the list and chain operations of the heap allocator do to the invariant \<open>heap_ok\<close>: taking a tag
  out of its free list, putting it in, merging two neighbours, and splitting a block.
\<close>

section \<open>Agreement up to list links\<close>

lemma same_core_None: "same_core T T' \<Longrightarrow> T p = None \<longleftrightarrow> T' p = None"
  unfolding same_core_def by (metis map_option_is_None)

lemma same_core_fld:
  assumes "same_core T T'" "\<And>b. f (core b) = f b"
  shows "fld f T p = fld f T' p"
proof -
  have "map_option core (T p) = map_option core (T' p)" using assms(1) by (simp add: same_core_def)
  then have "T p = None \<and> T' p = None \<or> (\<exists>b c. T p = Some b \<and> T' p = Some c \<and> core b = core c)"
    by (cases "T p"; cases "T' p") auto
  then show ?thesis using assms(2) by (auto simp: fld_def) metis
qed

lemma same_core_flds:
  assumes "same_core T T'"
  shows "fld magic T = fld magic T'" "fld tag_size T = fld tag_size T'" "fld real_size T = fld real_size T'"
    "fld tag_index T = fld tag_index T'" "fld split_left T = fld split_left T'" "fld split_right T = fld split_right T'"
  by (intro ext same_core_fld [OF assms]; simp add: core_def)+

lemma run_ok_mono:
  assumes "run_ok T X r" "fld split_left T' (hd r) = fld split_left T (hd r)" "fld split_right T' (last r) = fld split_right T (last r)"
    and "\<And>p q. p \<in> set r \<Longrightarrow> q \<in> set r \<Longrightarrow> adjacent T X p q \<Longrightarrow> adjacent T' X' p q"
    and "\<And>p. p \<in> set r \<Longrightarrow> fld real_size T' p = fld real_size T p"
  shows "run_ok T' X' r"
proof -
  have "paged T' r = paged T r" using assms(5) by (simp add: paged_def cong: map_cong)
  then show ?thesis using assms(1-4) by (auto simp: run_ok_def intro: successively_mono)
qed

lemma run_ok_split:
  "run_ok T X (xs @ p # ys) \<longleftrightarrow>
     fld split_left T (hd_or xs p) = NULL \<and> fld split_right T (last_or p ys) = NULL \<and>
     successively (adjacent T X) xs \<and> successively (adjacent T X) ys \<and>
     (xs \<noteq> [] \<longrightarrow> adjacent T X (last xs) p) \<and> (ys \<noteq> [] \<longrightarrow> adjacent T X p (hd ys)) \<and> paged T (xs @ p # ys)"
  by (cases xs; cases ys) (auto simp: run_ok_def successively_append_iff successively_Cons last_or_def)

lemma heap_okD:
  assumes "heap_ok T F fl runs X"
  shows "free_ok T F fl" "distinct (concat runs)" "r \<in> set runs \<Longrightarrow> run_ok T X r"
    "p \<in> set (concat runs) \<Longrightarrow> block_ok T X p"
    "p \<in> set (concat runs) \<Longrightarrow> q \<in> set (concat runs) \<Longrightarrow> p \<noteq> q \<Longrightarrow> seg T p \<inter> seg T q = {}"
    "p \<in> set (fl e) \<longleftrightarrow> p \<in> set (concat runs) \<and> fld tag_index T p = int e"
  using assms unfolding heap_ok_def by blast+

lemma distinct_run:
  assumes "distinct (concat (R1 @ r # R2))"
  shows "distinct r" "p \<in> set r \<Longrightarrow> q \<in> set R1 \<or> q \<in> set R2 \<Longrightarrow> p \<notin> set q"
  using assms by (simp, simp, blast)

lemma run_apart: "distinct (concat (R1 @ r # R2)) \<Longrightarrow> set r \<inter> set (concat (R1 @ R2)) = {}"
  using distinct_run(2) [of R1 r R2] by auto

lemma concat_drop:
  assumes "distinct (concat (R1 @ (xs @ p # ys) # R2))"
  shows "set (concat (R1 @ (xs @ ys) # R2)) = set (concat (R1 @ (xs @ p # ys) # R2)) - {p}"
proof -
  have "set (concat (R1 @ (xs @ p # ys) # R2)) = insert p (set (concat (R1 @ (xs @ ys) # R2)))"
    by (simp add: Un_assoc)
  moreover have "p \<notin> set (concat (R1 @ (xs @ ys) # R2))"
  proof -
    have "p \<notin> set xs \<union> set ys" using distinct_run(1) [OF assms] by simp
    moreover have "p \<notin> set q" if "q \<in> set R1 \<or> q \<in> set R2" for q using distinct_run(2) [OF assms _ that] by simp
    ultimately show ?thesis by auto
  qed
  ultimately show ?thesis by (metis Diff_insert_absorb)
qed

lemma chain_links:
  assumes h: "heap_ok T F fl (R1 @ (as @ p # bs) # R2) X"
  shows "fld split_right T p = hd_or bs NULL" "fld split_left T p = last_or NULL as"
proof -
  have run: "run_ok T X (as @ p # bs)" using heap_okD(3) [OF h] by simp
  show "fld split_right T p = hd_or bs NULL"
    using run unfolding run_ok_split by (cases bs) (auto simp: adjacent_def)
  show "fld split_left T p = last_or NULL as"
    using run unfolding run_ok_split by (cases as rule: rev_cases) (auto simp: adjacent_def)
qed

lemma chain_member:
  assumes h: "heap_ok T F fl (R1 @ (as @ p # bs) # R2) X" and q: "q \<in> set (as @ p # bs)"
  shows "q \<noteq> NULL" "T q \<noteq> None" "q \<in> set (concat (R1 @ (as @ p # bs) # R2))"
proof -
  show m: "q \<in> set (concat (R1 @ (as @ p # bs) # R2))" using q by auto
  show "q \<noteq> NULL" "T q \<noteq> None" using heap_okD(4) [OF h m] by (simp_all add: block_ok_def)
qed

section \<open>Leaving and entering a free list\<close>

lemma remove_heap:
  assumes h: "heap_ok T F fl runs X" and p: "fl e = xs @ p # ys" "T p = Some b"
    and ok: "free_ok T' F' (fl(e := xs @ ys))" and c: "same_core T' (T(p \<mapsto> b\<lparr>tag_index := -1\<rparr>))"
    and Tp: "T' p = Some (b\<lparr>tag_next := NULL, tag_prev := NULL, tag_index := -1\<rparr>)"
    and out: "\<And>q. q \<notin> set (fl e) \<Longrightarrow> T' q = T q"
  shows "heap_ok T' F' (fl(e := xs @ ys)) runs (insert p X)"
    and "live T' runs (insert p X) = live T runs X" and "heap_bytes T' runs = heap_bytes T runs"
proof -
  note H = heap_okD [OF h]
  have b: "b = the (T p)" using p(2) by simp
  have f: "fld magic T' = fld magic T" "fld tag_size T' = fld tag_size T" "fld real_size T' = fld real_size T"
    "fld split_left T' = fld split_left T" "fld split_right T' = fld split_right T"
    and idx: "fld tag_index T' q = (if q = p then -1 else fld tag_index T q)" for q
    using same_core_flds [OF c] by (auto simp: fun_eq_iff) (simp_all add: fld_def b)
  have None: "T' q = None \<longleftrightarrow> T q = None" for q using same_core_None [OF c, of q] p(2) by auto
  have pfl: "p \<in> set (fl e)" using p(1) by simp
  then have pP: "p \<in> set (concat runs)" and pe: "fld tag_index T p = int e" using H(6) by blast+
  have d: "distinct (fl e)" using H(1) free_okD(1) [OF H(1) pfl] by (simp add: free_ok_def)
  have seg: "seg T' = seg T" by (simp add: fun_eq_iff seg_def f)
  show "heap_bytes T' runs = heap_bytes T runs" by (simp add: heap_bytes_def seg)
  show "live T' runs (insert p X) = live T runs X"
    unfolding live_def f using idx pe by (intro arg_cong2 [where f = image] refl) auto
  have "run_ok T' (insert p X) r" if "r \<in> set runs" for r
    using H(3) [OF that] by (rule run_ok_mono) (auto simp: f adjacent_def is_free_def idx)
  moreover have "block_ok T' (insert p X) q" if q: "q \<in> set (concat runs)" for q
  proof (cases "q = p")
    case True
    then show ?thesis using H(4) [OF pP] Tp None by (simp add: block_ok_def f) (simp add: fld_def)
  next
    case False
    have links: "0 \<le> fld tag_index T q \<or> fld tag_next T' q = fld tag_next T q \<and> fld tag_prev T' q = fld tag_prev T q"
      using out [of q] H(6) [of q e] by (cases "q \<in> set (fl e)") (auto simp: fld_def)
    show ?thesis using H(4) [OF q] links False None by (auto simp: block_ok_def f idx)
  qed
  moreover have "q \<in> set ((fl(e := xs @ ys)) k) \<longleftrightarrow> q \<in> set (concat runs) \<and> fld tag_index T' q = int k" for k q
    using H(6) [of q k] d p(1) pe by (cases "q = p") (auto simp: idx)
  ultimately show "heap_ok T' F' (fl(e := xs @ ys)) runs (insert p X)"
    using ok H(2,5) by (simp add: heap_ok_def seg)
qed

lemma insert_heap:
  assumes h: "heap_ok T F fl (R1 @ (xs @ p # ys) # R2) {p}" and p: "T p = Some b" "tag_index b = -1"
    and e: "int e = size_class (real_size b)"
    and l: "xs \<noteq> [] \<Longrightarrow> \<not> is_free T (last xs)" and r: "ys \<noteq> [] \<Longrightarrow> \<not> is_free T (hd ys)"
    and ok: "free_ok T' F' (fl(e := p # fl e))" and c: "same_core T' (T(p \<mapsto> b\<lparr>tag_index := int e\<rparr>))"
    and out: "\<And>q. q \<notin> insert p (set (fl e)) \<Longrightarrow> T' q = T q"
  shows "heap_ok T' F' (fl(e := p # fl e)) (R1 @ (xs @ p # ys) # R2) {}"
    and "live T' (R1 @ (xs @ p # ys) # R2) {} = live T (R1 @ (xs @ p # ys) # R2) {p}"
    and "heap_bytes T' (R1 @ (xs @ p # ys) # R2) = heap_bytes T (R1 @ (xs @ p # ys) # R2)"
proof -
  let ?runs = "R1 @ (xs @ p # ys) # R2"
  note H = heap_okD [OF h]
  have b: "b = the (T p)" using p(1) by simp
  have f: "fld magic T' = fld magic T" "fld tag_size T' = fld tag_size T" "fld real_size T' = fld real_size T"
    "fld split_left T' = fld split_left T" "fld split_right T' = fld split_right T"
    and idx: "fld tag_index T' q = (if q = p then int e else fld tag_index T q)" for q
    using same_core_flds [OF c] by (auto simp: fun_eq_iff) (simp_all add: fld_def b)
  have None: "T' q = None \<longleftrightarrow> T q = None" for q using same_core_None [OF c, of q] p(1) by auto
  have rs: "fld real_size T p = real_size b" "fld tag_index T p = -1" using p by (simp_all add: fld_def)
  have pP: "p \<in> set (concat ?runs)" by simp
  have seg: "seg T' = seg T" by (simp add: fun_eq_iff seg_def f)
  show "heap_bytes T' ?runs = heap_bytes T ?runs" by (simp add: heap_bytes_def seg)
  show "live T' ?runs {} = live T ?runs {p}"
    unfolding live_def f using idx by (intro arg_cong2 [where f = image] refl) auto
  have "run_ok T' {} q" if "q \<in> set ?runs" "p \<notin> set q" for q
    using H(3) [OF that(1)] by (rule run_ok_mono) (use that(2) in \<open>auto simp: f adjacent_def is_free_def idx\<close>)
  moreover have "run_ok T' {} (xs @ p # ys)"
  proof -
    have sx: "successively (adjacent T' {}) zs" if "successively (adjacent T {p}) zs" "p \<notin> set zs" for zs
      using that(1) by (rule successively_mono) (use that(2) in \<open>auto simp: f adjacent_def is_free_def idx\<close>)
    have d: "p \<notin> set xs" "p \<notin> set ys" using distinct_run(1) [OF H(2)] by auto
    have n: "xs \<noteq> [] \<Longrightarrow> last xs \<noteq> p" "ys \<noteq> [] \<Longrightarrow> hd ys \<noteq> p" using d by (metis last_in_set, metis list.set_sel(1))
    have "adjacent T' {} (last xs) p" if "xs \<noteq> []" "adjacent T {p} (last xs) p"
      using l that n(1) by (auto simp: f adjacent_def is_free_def idx)
    moreover have "adjacent T' {} p (hd ys)" if "ys \<noteq> []" "adjacent T {p} p (hd ys)"
      using r that n(2) by (auto simp: f adjacent_def is_free_def idx)
    ultimately show ?thesis
      using H(3) [of "xs @ p # ys"] sx [of xs] sx [of ys] d unfolding run_ok_split paged_def f by simp
  qed
  moreover have "p \<notin> set q" if "q \<in> set R1 \<or> q \<in> set R2" for q
    using distinct_run(2) [OF H(2), of p] that by auto
  ultimately have "run_ok T' {} q" if "q \<in> set ?runs" for q using that by auto
  moreover have "block_ok T' {} q" if q: "q \<in> set (concat ?runs)" for q
  proof (cases "q = p")
    case True
    then show ?thesis using H(4) [OF pP] e None by (simp add: block_ok_def f idx rs)
  next
    case False
    have links: "0 \<le> fld tag_index T q \<or> fld tag_next T' q = fld tag_next T q \<and> fld tag_prev T' q = fld tag_prev T q"
      using out [of q] H(6) [of q e] False by (cases "q \<in> set (fl e)") (auto simp: fld_def)
    show ?thesis using H(4) [OF q] links False None by (auto simp: block_ok_def f idx)
  qed
  moreover have "q \<in> set ((fl(e := p # fl e)) k) \<longleftrightarrow> q \<in> set (concat ?runs) \<and> fld tag_index T' q = int k" for k q
    using H(6) [of q k] rs by (cases "q = p") (auto simp: idx)
  ultimately show "heap_ok T' F' (fl(e := p # fl e)) ?runs {}"
    using ok H(2,5) by (simp add: heap_ok_def seg)
qed

section \<open>Replacing a run\<close>

lemma fld_link_left:
  "fld split_left (link_left T r l) q = (if q = r \<and> r \<noteq> NULL then l else fld split_left T q)"
  "fld magic (link_left T r l) = fld magic T" "fld tag_size (link_left T r l) = fld tag_size T"
  "fld real_size (link_left T r l) = fld real_size T" "fld tag_index (link_left T r l) = fld tag_index T"
  "fld split_right (link_left T r l) = fld split_right T"
  "fld tag_next (link_left T r l) = fld tag_next T" "fld tag_prev (link_left T r l) = fld tag_prev T"
  by (simp_all add: link_left_def fun_eq_iff) (simp_all add: fld_def)

lemma link_left_None: "T r \<noteq> None \<or> r = NULL \<Longrightarrow> link_left T r l q = None \<longleftrightarrow> T q = None"
  by (auto simp: link_left_def)

lemma free_ok_cong:
  assumes "free_ok T F fl" "\<And>e q. q \<in> set (fl e) \<Longrightarrow> T' q \<noteq> None \<and> fld tag_next T' q = fld tag_next T q \<and>
    fld tag_prev T' q = fld tag_prev T q \<and> fld tag_index T' q = fld tag_index T q"
  shows "free_ok T' F fl"
proof -
  have "dls (fld tag_next T') (fld tag_prev T') NULL (fl e) NULL = dls (fld tag_next T) (fld tag_prev T) NULL (fl e) NULL" for e
    using assms(2) by (intro dls_cong) auto
  then show ?thesis using assms by (simp add: free_ok_def)
qed

lemma block_member: "heap_ok T F fl runs X \<Longrightarrow> p \<in> set (concat runs) \<Longrightarrow> unat p \<in> seg T p"
  using heap_okD(4) [of T F fl runs X p] by (simp add: block_ok_def seg_def)

text \<open>A run may be replaced when its free tags keep their links and its bytes stay the same.\<close>

lemma replace_untouched:
  assumes h: "heap_ok T F fl (R1 @ r # R2) X" and other: "\<And>x. x \<notin> set r \<union> set r' \<Longrightarrow> T' x = T x"
    and new: "set r' \<inter> set (concat (R1 @ R2)) = {}" and x: "x \<in> set (concat (R1 @ R2))"
  shows "x \<notin> set r" "x \<notin> set r'" "T' x = T x" "seg T' x = seg T x" "fld tag_index T' x = fld tag_index T x"
proof -
  show o: "x \<notin> set r" "x \<notin> set r'" using distinct_run(2) [OF heap_okD(2) [OF h], of x] new x by auto
  then show "T' x = T x" using other by blast
  then show "seg T' x = seg T x" "fld tag_index T' x = fld tag_index T x" by (simp_all add: fld_def seg_def)
qed

lemma replace_segs:
  assumes h: "heap_ok T F fl (R1 @ r # R2) X" and other: "\<And>x. x \<notin> set r \<union> set r' \<Longrightarrow> T' x = T x"
    and new: "set r' \<inter> set (concat (R1 @ R2)) = {}"
    and segs: "\<And>x y. x \<in> set r' \<Longrightarrow> y \<in> set r' \<Longrightarrow> x \<noteq> y \<Longrightarrow> seg T' x \<inter> seg T' y = {}"
      "(\<Union>x \<in> set r'. seg T' x) = (\<Union>x \<in> set r. seg T x)"
    and xy: "x \<in> set r' \<union> set (concat (R1 @ R2))" "y \<in> set r' \<union> set (concat (R1 @ R2))" "x \<noteq> y"
  shows "seg T' x \<inter> seg T' y = {}"
proof -
  let ?S = "set (concat (R1 @ R2))"
  note U = replace_untouched [OF h other new]
  have sep: "seg T a \<inter> seg T b = {}" if "a \<in> set r \<union> ?S" "b \<in> set r \<union> ?S" "a \<noteq> b" for a b
    using heap_okD(5) [OF h, of a b] that by auto
  have mixed: "seg T' a \<inter> seg T' b = {}" if a: "a \<in> set r'" "b \<in> ?S" for a b
  proof -
    have "seg T' a \<subseteq> (\<Union>z \<in> set r. seg T z)" using segs(2) a(1) by blast
    moreover have "seg T z \<inter> seg T b = {}" if "z \<in> set r" for z
      using sep [of z b] that a(2) U(1) [OF _ a(2)] by blast
    ultimately show ?thesis using U(4) [OF _ a(2)] by blast
  qed
  show ?thesis using xy mixed [of x y] mixed [of y x] segs(1) sep [of x y] U(4) by blast
qed

lemma replace_free_ok:
  assumes h: "heap_ok T F fl (R1 @ r # R2) X" and other: "\<And>x. x \<notin> set r \<union> set r' \<Longrightarrow> T' x = T x"
    and new: "set r' \<inter> set (concat (R1 @ R2)) = {}" and defd: "\<And>x. x \<in> set r \<Longrightarrow> is_free T x \<Longrightarrow> T' x \<noteq> None"
    and free: "\<And>x. x \<in> set r \<Longrightarrow> is_free T x \<Longrightarrow> fld tag_index T' x = fld tag_index T x \<and>
        fld tag_next T' x = fld tag_next T x \<and> fld tag_prev T' x = fld tag_prev T x"
  shows "free_ok T' F fl"
proof (rule free_ok_cong [OF heap_okD(1) [OF h]])
  fix e x
  assume x: "x \<in> set (fl e)"
  then consider "x \<in> set r" "is_free T x" | "x \<in> set (concat (R1 @ R2))" using heap_okD(6) [OF h, of x e] by (auto simp: is_free_def)
  then show "T' x \<noteq> None \<and> fld tag_next T' x = fld tag_next T x \<and> fld tag_prev T' x = fld tag_prev T x \<and> fld tag_index T' x = fld tag_index T x"
  proof cases
    case 1
    then show ?thesis using free defd by blast
  next
    case 2
    then show ?thesis using replace_untouched(3) [OF h other new] free_okD(3) [OF heap_okD(1) [OF h] x] by (simp add: fld_def)
  qed
qed

lemma replace_run:
  assumes h: "heap_ok T F fl (R1 @ r # R2) X" and other: "\<And>x. x \<notin> set r \<union> set r' \<Longrightarrow> T' x = T x"
    and new: "set r' \<inter> set (concat (R1 @ R2)) = {}" and X: "X \<subseteq> set r" "X' \<subseteq> set r'"
    and run: "run_ok T' X' r'" "distinct r'" "\<And>x. x \<in> set r' \<Longrightarrow> block_ok T' X' x"
    and segs: "\<And>x y. x \<in> set r' \<Longrightarrow> y \<in> set r' \<Longrightarrow> x \<noteq> y \<Longrightarrow> seg T' x \<inter> seg T' y = {}"
      "(\<Union>x \<in> set r'. seg T' x) = (\<Union>x \<in> set r. seg T x)"
    and free: "\<And>x. x \<in> set r' \<and> is_free T' x \<longleftrightarrow> x \<in> set r \<and> is_free T x"
      "\<And>x. x \<in> set r \<Longrightarrow> is_free T x \<Longrightarrow> fld tag_index T' x = fld tag_index T x \<and>
        fld tag_next T' x = fld tag_next T x \<and> fld tag_prev T' x = fld tag_prev T x"
  shows "heap_ok T' F fl (R1 @ r' # R2) X'" and "heap_bytes T' (R1 @ r' # R2) = heap_bytes T (R1 @ r # R2)"
proof -
  note H = heap_okD [OF h]
  let ?S = "set (concat (R1 @ R2))"
  note U = replace_untouched [OF h other new]
  have sets: "set (concat (R1 @ r # R2)) = set r \<union> ?S" "set (concat (R1 @ r' # R2)) = set r' \<union> ?S" by auto
  show "heap_bytes T' (R1 @ r' # R2) = heap_bytes T (R1 @ r # R2)"
    unfolding heap_bytes_def sets UN_Un segs(2) using U(4) by simp
  have "run_ok T' X' q" if q: "q \<in> set (R1 @ r' # R2)" for q
  proof (cases "q = r'")
    case False
    then have qr: "q \<in> set (R1 @ r # R2)" and qS: "set q \<subseteq> ?S" using q by auto
    have "q \<noteq> []" using H(3) [OF qr] by (simp add: run_ok_def)
    then show ?thesis
      by (intro run_ok_mono [OF H(3) [OF qr]])
        (use qS U(1-3) X in \<open>auto simp: fld_def adjacent_def is_free_def subset_iff\<close>)
  qed (use run in simp)
  moreover have "block_ok T' X' x" if x: "x \<in> set r' \<union> ?S" for x
  proof (cases "x \<in> ?S")
    case True
    then have "x \<notin> X" "x \<notin> X'" using U(1,2) X by blast+
    then show ?thesis using H(4) [of x] True U(3) [OF _ True] unfolding sets by (simp add: block_ok_def fld_def)
  qed (use run x in blast)
  moreover have "seg T' x \<inter> seg T' y = {}" if "x \<in> set r' \<union> ?S" "y \<in> set r' \<union> ?S" "x \<noteq> y" for x y
    by (rule replace_segs [OF h other new segs that])
  moreover have "x \<in> set (fl e) \<longleftrightarrow> x \<in> set r' \<union> ?S \<and> fld tag_index T' x = int e" for e x
    using H(6) [of x e] free [of x] U [of x] unfolding sets is_free_def by (metis UnCI UnE of_nat_0_le_iff)
  moreover have "free_ok T' F fl"
    by (rule replace_free_ok [OF h other new _ free(2)]) (use free(1) run(3) in \<open>auto simp: block_ok_def\<close>)
  moreover have "distinct (concat (R1 @ r' # R2))" using H(2) run(2) new by auto
  ultimately show "heap_ok T' F fl (R1 @ r' # R2) X'" unfolding heap_ok_def sets by blast
qed

section \<open>Merging two neighbours\<close>

lemma merge_fields:
  assumes h: "heap_ok T F fl (R1 @ (as @ l # p # bs) # R2) X"
  shows "fld magic (merge_tags T l p) = fld magic T" "fld tag_size (merge_tags T l p) = fld tag_size T"
    "fld tag_index (merge_tags T l p) = fld tag_index T"
    "fld tag_next (merge_tags T l p) = fld tag_next T" "fld tag_prev (merge_tags T l p) = fld tag_prev T"
    "fld real_size (merge_tags T l p) q = (if q = l then fld real_size T l + fld real_size T p else fld real_size T q)"
    "fld split_right (merge_tags T l p) q = (if q = l then hd_or bs NULL else fld split_right T q)"
    "fld split_left (merge_tags T l p) q = (if bs \<noteq> [] \<and> q = hd bs then l else fld split_left T q)"
    "merge_tags T l p q = None \<longleftrightarrow> T q = None" "q \<notin> set (as @ l # p # bs) \<Longrightarrow> merge_tags T l p q = T q"
proof -
  have h': "heap_ok T F fl (R1 @ ((as @ [l]) @ p # bs) # R2) X" using h by simp
  note sr = chain_links(1) [OF h'] and m = chain_member [OF h]
  have hb: "bs \<noteq> [] \<Longrightarrow> hd bs \<noteq> NULL \<and> T (hd bs) \<noteq> None" using m(1,2) by simp
  show "fld magic (merge_tags T l p) = fld magic T" "fld tag_size (merge_tags T l p) = fld tag_size T"
    "fld tag_index (merge_tags T l p) = fld tag_index T"
    "fld tag_next (merge_tags T l p) = fld tag_next T" "fld tag_prev (merge_tags T l p) = fld tag_prev T"
    by (simp_all add: merge_tags_def fld_link_left fun_eq_iff) (simp_all add: fld_def)
  show "fld real_size (merge_tags T l p) q = (if q = l then fld real_size T l + fld real_size T p else fld real_size T q)"
    by (simp add: merge_tags_def fld_link_left)
  show "fld split_right (merge_tags T l p) q = (if q = l then hd_or bs NULL else fld split_right T q)"
    by (simp add: merge_tags_def fld_link_left sr)
  show "fld split_left (merge_tags T l p) q = (if bs \<noteq> [] \<and> q = hd bs then l else fld split_left T q)"
    using hb by (cases bs) (auto simp: merge_tags_def fld_link_left sr hd_or_def, auto simp: fld_def)
  show "merge_tags T l p q = None \<longleftrightarrow> T q = None"
    using hb m(2) [of l] by (cases bs) (auto simp: merge_tags_def link_left_def sr)
  show "merge_tags T l p q = T q" if "q \<notin> set (as @ l # p # bs)"
    using that by (cases bs) (auto simp: merge_tags_def link_left_def sr)
qed

lemma merge_size:
  assumes h: "heap_ok T F fl (R1 @ (as @ l # p # bs) # R2) X"
  shows "unat p = unat l + unat (fld real_size T l)"
    "unat l + (unat (fld real_size T l) + unat (fld real_size T p)) \<le> 2 ^ 32"
    "unat (fld real_size T l + fld real_size T p) = unat (fld real_size T l) + unat (fld real_size T p)"
proof -
  have "run_ok T X (as @ l # p # bs)" using heap_okD(3) [OF h] by simp
  then show u: "unat p = unat l + unat (fld real_size T l)" unfolding run_ok_split by (simp add: adjacent_def)
  have b: "block_ok T X p" using heap_okD(4) [OF h, of p] by simp
  then show f: "unat l + (unat (fld real_size T l) + unat (fld real_size T p)) \<le> 2 ^ 32" using u by (simp add: block_ok_def)
  have "0 < unat l" using chain_member(1) [OF h, of l] by (simp add: NULL_def unat_gt_0)
  then show "unat (fld real_size T l + fld real_size T p) = unat (fld real_size T l) + unat (fld real_size T p)"
    using f by (intro unat_u32_add) simp
qed

lemma merge_run:
  assumes h: "heap_ok T F fl (R1 @ (as @ l # p # bs) # R2) X"
  shows "run_ok (merge_tags T l p) (insert l (X - {p})) (as @ l # bs)"
  unfolding run_ok_split
proof (intro conjI impI)
  let ?T' = "merge_tags T l p" and ?X' = "insert l (X - {p})"
  note f = merge_fields [OF h] and u = merge_size [OF h]
  have d: "distinct (as @ l # p # bs)" by (rule distinct_run(1) [OF heap_okD(2) [OF h]])
  have run: "run_ok T X (as @ l # p # bs)" using heap_okD(3) [OF h] by simp
  have sa: "successively (adjacent T X) as" and la: "as \<noteq> [] \<Longrightarrow> adjacent T X (last as) l"
    and pb: "bs \<noteq> [] \<Longrightarrow> adjacent T X p (hd bs)" and sb: "successively (adjacent T X) bs"
    using run unfolding run_ok_split by (auto simp: successively_Cons)
  have adj: "adjacent ?T' ?X' x y" if "adjacent T X x y" "x \<notin> {l, p}" "y \<noteq> p" "bs \<noteq> [] \<Longrightarrow> y \<noteq> hd bs" for x y
    using that by (auto simp: adjacent_def f is_free_def)
  have ne: "q \<noteq> hd bs" if "bs \<noteq> []" "q \<in> set as \<union> {l, p}" for q using d that by (cases bs) auto
  have "hd_or as l \<in> set as \<union> {l, p}" by (cases as) auto
  then have "fld split_left ?T' (hd_or as l) = fld split_left T (hd_or as l)" using ne by (auto simp: f)
  then show "fld split_left ?T' (hd_or as l) = NULL" using run unfolding run_ok_split by simp
  show "fld split_right ?T' (last_or l bs) = NULL"
    using run d unfolding run_ok_split by (cases bs rule: rev_cases) (auto simp: f)
  show "successively (adjacent ?T' ?X') as"
    using sa by (rule successively_mono) (use adj ne d in auto)
  show "successively (adjacent ?T' ?X') bs"
  proof (cases bs)
    case (Cons b bs')
    then show ?thesis using sb d by (auto simp: successively_Cons intro!: adj elim!: successively_mono)
  qed simp
  show "adjacent ?T' ?X' (last as) l" if "as \<noteq> []"
    using la [OF that] that ne [of l] d by (intro adj) auto
  show "adjacent ?T' ?X' l (hd bs)" if "bs \<noteq> []"
    using pb [OF that] that u by (cases bs) (auto simp: adjacent_def f)
  have "fld real_size ?T' x = fld real_size T x" if "x \<in> set as \<union> set bs" for x using that d by (auto simp: f)
  then have "(\<Sum>x\<leftarrow>as @ l # bs. unat (fld real_size ?T' x)) = (\<Sum>x\<leftarrow>as @ l # p # bs. unat (fld real_size T x))"
    by (simp add: f u(3) cong: map_cong)
  moreover have "hd (as @ l # bs) = hd (as @ l # p # bs)" by (cases as) simp_all
  ultimately show "paged ?T' (as @ l # bs)" using run unfolding run_ok_split paged_def by simp
qed

lemma UN_merge:
  "l \<in> S \<Longrightarrow> p \<in> S \<Longrightarrow> l \<noteq> p \<Longrightarrow> (\<Union>q \<in> S - {p}. if q = l then f l \<union> f p else f q) = (\<Union>q \<in> S. f q)"
  by (auto split: if_splits)

lemma merge_heap:
  assumes h: "heap_ok T F fl (R1 @ (as @ l # p # bs) # R2) X" and p: "p \<in> X" "fld tag_index T p = -1"
    and X: "X \<subseteq> set (as @ l # p # bs)"
  shows "heap_ok (merge_tags T l p) F fl (R1 @ (as @ l # bs) # R2) (insert l (X - {p}))"
    and "live (merge_tags T l p) (R1 @ (as @ l # bs) # R2) (insert l (X - {p})) = live T (R1 @ (as @ l # p # bs) # R2) (insert l X)"
    and "heap_bytes (merge_tags T l p) (R1 @ (as @ l # bs) # R2) = heap_bytes T (R1 @ (as @ l # p # bs) # R2)"
proof -
  let ?r = "as @ l # p # bs" and ?r' = "as @ l # bs"
  let ?T' = "merge_tags T l p" and ?X' = "insert l (X - {p})"
  note H = heap_okD [OF h] and f = merge_fields [OF h] and u = merge_size [OF h]
  have d: "distinct ?r" by (rule distinct_run(1) [OF H(2)])
  have r': "set ?r' = set ?r - {p}" using d by auto
  have mem: "x \<in> set (concat (R1 @ ?r # R2))" if "x \<in> set ?r" for x using that by auto
  have seg: "seg ?T' q = (if q = l then seg T l \<union> seg T p else seg T q)" for q by (auto simp: seg_def f u)
  have blk: "block_ok ?T' ?X' q" if "q \<in> set ?r'" for q
    using H(4) [OF mem, of q] that u unfolding r' by (cases "q = l") (auto simp: block_ok_def f)
  have dj: "seg ?T' x \<inter> seg ?T' y = {}" if "x \<in> set ?r'" "y \<in> set ?r'" "x \<noteq> y" for x y
    using H(5) [OF mem mem, of x y] H(5) [OF mem mem, of p y] H(5) [OF mem mem, of x p] H(5) [OF mem mem, of l y] H(5) [OF mem mem, of x l] that
    unfolding r' seg by auto
  have un: "(\<Union>x \<in> set ?r'. seg ?T' x) = (\<Union>x \<in> set ?r. seg T x)"
    unfolding r' seg using UN_merge [of l "set ?r" p "seg T"] d by simp
  have fr: "x \<in> set ?r' \<and> is_free ?T' x \<longleftrightarrow> x \<in> set ?r \<and> is_free T x" for x
    using p(2) unfolding r' is_free_def f(3) by auto
  have new: "set ?r' \<inter> set (concat (R1 @ R2)) = {}" using run_apart [OF H(2)] r' by blast
  have X': "?X' \<subseteq> set ?r'" using X unfolding r' using d by auto
  note R = replace_run [OF h _ new X X' merge_run [OF h] _ blk dj un fr]
  show "heap_ok ?T' F fl (R1 @ ?r' # R2) ?X'" "heap_bytes ?T' (R1 @ ?r' # R2) = heap_bytes T (R1 @ ?r # R2)"
    by (rule R; use f(10) d in \<open>auto simp: f r'\<close>)+
  have sub: "set (concat (R1 @ ?r' # R2)) = set (concat (R1 @ ?r # R2)) - {p}"
    using concat_drop [of R1 "as @ [l]" p bs R2] H(2) by simp
  show "live ?T' (R1 @ ?r' # R2) ?X' = live T (R1 @ ?r # R2) (insert l X)"
    unfolding live_def sub f(2,3) using p(1) by (intro arg_cong2 [where f = image] refl) auto
qed

section \<open>Splitting a block\<close>

lemma split_new:
  assumes h: "heap_ok T F fl (R1 @ (as @ p # bs) # R2) X"
    and sz: "64 + unat (fld tag_size T p) \<le> unat (fld real_size T p)"
  defines "q \<equiv> p + sizeof_tag + fld tag_size T p"
  shows "unat q = unat p + (32 + unat (fld tag_size T p))" "q \<noteq> NULL" "q \<noteq> p" "q \<notin> set (concat (R1 @ (as @ p # bs) # R2))"
    "unat (fld real_size T p - sizeof_tag - fld tag_size T p) = unat (fld real_size T p) - (32 + unat (fld tag_size T p))"
    "unat (sizeof_tag + fld tag_size T p) = 32 + unat (fld tag_size T p)"
proof -
  let ?n = "unat (fld tag_size T p)" and ?r = "unat (fld real_size T p)"
  have mem: "p \<in> set (concat (R1 @ (as @ p # bs) # R2))" by simp
  have fit: "unat p + ?r \<le> 2 ^ 32" using heap_okD(4) [OF h mem] by (simp add: block_ok_def)
  show uq: "unat q = unat p + (32 + ?n)" using fit sz by (simp add: q_def sizeof_tag_def unat_u32_add)
  then have "unat q \<in> seg T p" using sz by (simp add: seg_def)
  moreover show qp: "q \<noteq> p" using uq by auto
  ultimately show "q \<notin> set (concat (R1 @ (as @ p # bs) # R2))"
    using block_member [OF h, of q] heap_okD(5) [OF h mem, of q] by blast
  show "q \<noteq> NULL" using uq by (auto simp: NULL_def)
  show "unat (fld real_size T p - sizeof_tag - fld tag_size T p) = ?r - (32 + ?n)"
    using sz by (simp add: sizeof_tag_def unat_sub word_le_nat_alt)
  have "?n < 4294967264" using sz unat_lt_2p32 [of "fld real_size T p"] by linarith
  then show "unat (sizeof_tag + fld tag_size T p) = 32 + ?n" using unat_u32_add [of 32 "fld tag_size T p"] by (simp add: sizeof_tag_def)
qed

lemma split_fields:
  assumes h: "heap_ok T F fl (R1 @ (as @ p # bs) # R2) X"
    and sz: "64 + unat (fld tag_size T p) \<le> unat (fld real_size T p)" and q: "q = p + sizeof_tag + fld tag_size T p"
  shows "fld magic (split_tags T p k) x = (if x = q then LIBALLOC_MAGIC else fld magic T x)"
    "fld tag_size (split_tags T p k) x = (if x = q then k else fld tag_size T x)"
    "fld real_size (split_tags T p k) x = (if x = q then fld real_size T p - sizeof_tag - fld tag_size T p
       else if x = p then sizeof_tag + fld tag_size T p else fld real_size T x)"
    "fld tag_index (split_tags T p k) x = (if x = q then -1 else fld tag_index T x)"
    "fld split_right (split_tags T p k) x = (if x = q then hd_or bs NULL else if x = p then q else fld split_right T x)"
    "fld split_left (split_tags T p k) x = (if x = q then p else if bs \<noteq> [] \<and> x = hd bs then q else fld split_left T x)"
    "fld tag_next (split_tags T p k) x = (if x = q then NULL else fld tag_next T x)"
    "fld tag_prev (split_tags T p k) x = (if x = q then NULL else fld tag_prev T x)"
    "split_tags T p k x = None \<longleftrightarrow> x \<noteq> q \<and> T x = None" "x \<notin> set (as @ p # q # bs) \<Longrightarrow> split_tags T p k x = T x"
proof -
  note N = split_new [OF h sz, folded q] and sr = chain_links(1) [OF h] and m = chain_member [OF h]
  have d: "distinct (as @ p # bs)" by (rule distinct_run(1) [OF heap_okD(2) [OF h]])
  have hb: "bs \<noteq> [] \<Longrightarrow> hd bs \<noteq> NULL \<and> T (hd bs) \<noteq> None \<and> hd bs \<noteq> q \<and> hd bs \<noteq> p"
    using m [of "hd bs"] N(4) d by (cases bs) auto
  note S = split_tags_def Let_def q [symmetric]
  show "fld magic (split_tags T p k) x = (if x = q then LIBALLOC_MAGIC else fld magic T x)"
    "fld tag_size (split_tags T p k) x = (if x = q then k else fld tag_size T x)"
    "fld real_size (split_tags T p k) x = (if x = q then fld real_size T p - sizeof_tag - fld tag_size T p
       else if x = p then sizeof_tag + fld tag_size T p else fld real_size T x)"
    "fld tag_index (split_tags T p k) x = (if x = q then -1 else fld tag_index T x)"
    "fld split_right (split_tags T p k) x = (if x = q then hd_or bs NULL else if x = p then q else fld split_right T x)"
    "fld split_left (split_tags T p k) x = (if x = q then p else if bs \<noteq> [] \<and> x = hd bs then q else fld split_left T x)"
    "fld tag_next (split_tags T p k) x = (if x = q then NULL else fld tag_next T x)"
    "fld tag_prev (split_tags T p k) x = (if x = q then NULL else fld tag_prev T x)"
    using N(3) hb unfolding S by (cases bs; simp add: fld_link_left sr; simp add: fld_def)+
  show "split_tags T p k x = None \<longleftrightarrow> x \<noteq> q \<and> T x = None"
    using m(2) [of p] hb unfolding S by (cases bs) (auto simp: link_left_def sr)
  show "split_tags T p k x = T x" if "x \<notin> set (as @ p # q # bs)"
    using that unfolding S by (cases bs) (auto simp: link_left_def sr)
qed

lemma split_run:
  assumes h: "heap_ok T F fl (R1 @ (as @ p # bs) # R2) X" and p: "fld tag_index T p = -1"
    and sz: "64 + unat (fld tag_size T p) \<le> unat (fld real_size T p)" and q: "q = p + sizeof_tag + fld tag_size T p"
  shows "run_ok (split_tags T p k) (insert q (X - {p})) (as @ p # q # bs)"
  unfolding run_ok_split
proof (intro conjI impI)
  let ?T' = "split_tags T p k" and ?X' = "insert q (X - {p})"
  note f = split_fields [OF h sz q] and N = split_new [OF h sz, folded q]
  have d: "distinct (as @ p # bs)" by (rule distinct_run(1) [OF heap_okD(2) [OF h]])
  have run: "run_ok T X (as @ p # bs)" using heap_okD(3) [OF h] by simp
  have sa: "successively (adjacent T X) as" and sb: "successively (adjacent T X) bs"
    and la: "as \<noteq> [] \<Longrightarrow> adjacent T X (last as) p" and pb: "bs \<noteq> [] \<Longrightarrow> adjacent T X p (hd bs)"
    using run unfolding run_ok_split by auto
  have qrun: "q \<notin> set as" "q \<notin> set bs" "bs \<noteq> [] \<Longrightarrow> hd bs \<noteq> q" using N(4) list.set_sel(1) [of bs] by auto
  have ne: "x \<noteq> hd bs" if "bs \<noteq> []" "x \<in> set as \<union> {p}" for x using d that by (cases bs) auto
  have adj: "adjacent ?T' ?X' x y" if "adjacent T X x y" "x \<notin> {p, q}" "y \<noteq> q" "bs \<noteq> [] \<Longrightarrow> y \<noteq> hd bs" for x y
    using that p by (auto simp: adjacent_def f is_free_def)
  have "hd_or as p \<in> set as \<union> {p}" by (cases as) auto
  then have "fld split_left ?T' (hd_or as p) = fld split_left T (hd_or as p)" using ne qrun N(3) by (auto simp: f)
  then show "fld split_left ?T' (hd_or as p) = NULL" using run unfolding run_ok_split by simp
  show "fld split_right ?T' (last_or p (q # bs)) = NULL"
    using run d qrun N(3) unfolding run_ok_split by (cases bs rule: rev_cases) (auto simp: f)
  show "successively (adjacent ?T' ?X') as"
    using sa by (rule successively_mono) (use adj ne d qrun in auto)
  have "successively (adjacent ?T' ?X') bs"
  proof (cases bs)
    case (Cons b bs')
    then show ?thesis using sb d qrun by (auto simp: successively_Cons intro!: adj elim!: successively_mono)
  qed simp
  moreover have "adjacent ?T' ?X' q (hd bs)" if "bs \<noteq> []"
    using pb [OF that] qrun(3) that N(1,5) sz by (cases bs) (auto simp: adjacent_def f)
  ultimately show "successively (adjacent ?T' ?X') (q # bs)" by (auto simp: successively_Cons)
  show "adjacent ?T' ?X' (last as) p" if "as \<noteq> []"
    using la [OF that] that ne [of p] d qrun N(3) by (intro adj) auto
  show "adjacent ?T' ?X' p (hd (q # bs))" using N(1,3,6) by (auto simp: adjacent_def f)
  have "fld real_size ?T' x = fld real_size T x" if "x \<in> set as \<union> set bs" for x using that d qrun by (auto simp: f)
  then have "(\<Sum>x\<leftarrow>as @ p # q # bs. unat (fld real_size ?T' x)) = (\<Sum>x\<leftarrow>as @ p # bs. unat (fld real_size T x))"
    using sz N(3,5,6) by (simp add: f cong: map_cong)
  moreover have "hd (as @ p # q # bs) = hd (as @ p # bs)" by (cases as) simp_all
  ultimately show "paged ?T' (as @ p # q # bs)" using run unfolding run_ok_split paged_def by simp
qed

lemma UN_split:
  "p \<in> S \<Longrightarrow> q \<notin> S \<Longrightarrow> f p = g p \<union> g q \<Longrightarrow> (\<And>x. x \<in> S \<Longrightarrow> x \<noteq> p \<Longrightarrow> g x = f x) \<Longrightarrow>
   (\<Union>x \<in> insert q S. g x) = (\<Union>x \<in> S. f x)"
  by blast

lemma split_live:
  assumes h: "heap_ok T F fl (R1 @ (as @ p # bs) # R2) X"
    and sz: "64 + unat (fld tag_size T p) \<le> unat (fld real_size T p)"
    and q: "q = p + sizeof_tag + fld tag_size T p" and p: "fld tag_index T p = -1"
  shows "live (split_tags T p k) (R1 @ (as @ p # q # bs) # R2) (insert q (X - {p})) =
    insert (p + sizeof_tag, fld tag_size T p) (live T (R1 @ (as @ p # bs) # R2) (insert p X))"
proof -
  let ?r = "as @ p # bs" and ?r' = "as @ p # q # bs"
  let ?T' = "split_tags T p k" and ?X' = "insert q (X - {p})"
  note f = split_fields [OF h sz q, where k = k] and N = split_new [OF h sz, folded q]
  have set': "set (concat (R1 @ ?r' # R2)) = insert q (set (concat (R1 @ ?r # R2)))" by (simp add: insert_commute)
  let ?L = "{x \<in> set (concat (R1 @ ?r # R2)) - insert p X. fld tag_index T x = -1}"
  have "{x \<in> set (concat (R1 @ ?r' # R2)) - ?X'. fld tag_index ?T' x = -1} = insert p ?L"
    unfolding set' using N(4) p by (auto simp: f)
  moreover have "fld tag_size ?T' x = fld tag_size T x" if "x \<in> insert p ?L" for x
    using that N(3,4) by (auto simp: f)
  ultimately show "live ?T' (R1 @ ?r' # R2) ?X' = insert (p + sizeof_tag, fld tag_size T p) (live T (R1 @ ?r # R2) (insert p X))"
    unfolding live_def by (simp add: image_def) blast
qed

lemma split_heap:
  assumes h: "heap_ok T F fl (R1 @ (as @ p # bs) # R2) X" and p: "fld tag_index T p = -1"
    and sz: "64 + unat (fld tag_size T p) \<le> unat (fld real_size T p)" and X: "X \<subseteq> set (as @ p # bs)"
    and q: "q = p + sizeof_tag + fld tag_size T p"
  shows "heap_ok (split_tags T p k) F fl (R1 @ (as @ p # q # bs) # R2) (insert q (X - {p}))"
    and "live (split_tags T p k) (R1 @ (as @ p # q # bs) # R2) (insert q (X - {p})) =
      insert (p + sizeof_tag, fld tag_size T p) (live T (R1 @ (as @ p # bs) # R2) (insert p X))"
    and "heap_bytes (split_tags T p k) (R1 @ (as @ p # q # bs) # R2) = heap_bytes T (R1 @ (as @ p # bs) # R2)"
proof -
  let ?r = "as @ p # bs" and ?r' = "as @ p # q # bs"
  let ?T' = "split_tags T p k" and ?X' = "insert q (X - {p})"
  let ?n = "unat (fld tag_size T p)" and ?z = "unat (fld real_size T p)"
  note H = heap_okD [OF h] and f = split_fields [OF h sz q, where k = k] and N = split_new [OF h sz, folded q]
  have mem: "x \<in> set (concat (R1 @ ?r # R2))" if "x \<in> set ?r" for x using that by auto
  have d: "distinct ?r" by (rule distinct_run(1) [OF H(2)])
  have r': "set ?r' = insert q (set ?r)" by auto
  have qr: "q \<notin> set ?r" using N(4) mem by blast
  have seg: "seg ?T' x = (if x = q then {unat p + (32 + ?n) ..< unat p + ?z} else if x = p then {unat p ..< unat p + (32 + ?n)} else seg T x)" for x
    using sz N(1,5,6) by (auto simp: seg_def f)
  have segp: "seg T p = seg ?T' p \<union> seg ?T' q" using sz N(3) unfolding seg by (auto simp: seg_def)
  have blk: "block_ok ?T' ?X' x" if x: "x \<in> set ?r'" for x
  proof -
    have b: "unat p + ?z \<le> 2 ^ 32" "block_ok T X p" using H(4) [OF mem, of p] by (auto simp: block_ok_def)
    consider "x = q" | "x = p" | "x \<noteq> q" "x \<noteq> p" "x \<in> set ?r" using x by auto
    then show ?thesis
    proof cases
      case 1
      then show ?thesis using N b sz by (simp add: block_ok_def f)
    next
      case 2
      then show ?thesis using N b sz p by (auto simp: block_ok_def f)
    next
      case 3
      then show ?thesis using H(4) [OF mem [OF 3(3)]] by (simp add: block_ok_def f)
    qed
  qed
  have dj: "seg ?T' x \<inter> seg ?T' y = {}" if "x \<in> set ?r'" "y \<in> set ?r'" "x \<noteq> y" for x y
    using H(5) [OF mem mem, of x y] H(5) [OF mem mem, of p y] H(5) [OF mem mem, of x p] that N(3) segp unfolding r'
    by (cases "x = q"; cases "x = p"; cases "y = p"; cases "y = q") (auto simp: seg)
  have un: "(\<Union>x \<in> set ?r'. seg ?T' x) = (\<Union>x \<in> set ?r. seg T x)"
    unfolding r' by (rule UN_split [where f = "seg T", OF _ qr]) (use qr segp in \<open>auto simp: seg\<close>)
  have fr: "x \<in> set ?r' \<and> is_free ?T' x \<longleftrightarrow> x \<in> set ?r \<and> is_free T x" for x
    using qr unfolding r' is_free_def f(4) by auto
  have new: "set ?r' \<inter> set (concat (R1 @ R2)) = {}" using run_apart [OF H(2)] N(4) unfolding r' by auto
  have X': "?X' \<subseteq> set ?r'" using X by auto
  note R = replace_run [OF h _ new X X' split_run [OF h p sz q] _ blk dj un fr]
  show "heap_ok ?T' F fl (R1 @ ?r' # R2) ?X'" "heap_bytes ?T' (R1 @ ?r' # R2) = heap_bytes T (R1 @ ?r # R2)"
    by (rule R; use f(10) d qr in \<open>auto simp: f\<close>)+
  show "live ?T' (R1 @ ?r' # R2) ?X' = insert (p + sizeof_tag, fld tag_size T p) (live T (R1 @ ?r # R2) (insert p X))"
    using split_live [OF h sz q p] .
qed

section \<open>Blocks that come, settle and go\<close>

lemma heap_ok_weaken:
  assumes "heap_ok T F fl runs X" "X \<subseteq> Y"
  shows "heap_ok T F fl runs Y"
proof -
  note H = heap_okD [OF assms(1)]
  have "run_ok T Y r" if "r \<in> set runs" for r
    using H(3) [OF that] by (rule run_ok_mono) (use assms(2) in \<open>auto simp: adjacent_def\<close>)
  moreover have "block_ok T Y p" if "p \<in> set (concat runs)" for p
    using H(4) [OF that] assms(2) by (auto simp: block_ok_def)
  ultimately show ?thesis using H(1,2,5,6) unfolding heap_ok_def by blast
qed

lemma heap_ok_settle:
  assumes h: "heap_ok T F fl runs X" and p: "\<And>p. p \<in> X - Y \<Longrightarrow> fld tag_index T p = -1 \<and> 32 + unat (fld tag_size T p) \<le> unat (fld real_size T p)"
  shows "heap_ok T F fl runs Y"
proof -
  note H = heap_okD [OF h]
  have "run_ok T Y r" if "r \<in> set runs" for r
    using H(3) [OF that] by (rule run_ok_mono) (use p in \<open>auto simp: adjacent_def is_free_def\<close>)
  moreover have "block_ok T Y q" if "q \<in> set (concat runs)" for q
    using H(4) [OF that] p by (auto simp: block_ok_def)
  ultimately show ?thesis using H(1,2,5,6) unfolding heap_ok_def by blast
qed

lemma live_settle:
  assumes "p \<in> set (concat runs)" "fld tag_index T p = -1"
  shows "live T runs X = (if p \<in> X then live T runs X else insert (p + sizeof_tag, fld tag_size T p) (live T runs (insert p X)))"
  using assms unfolding live_def by (auto simp del: set_concat)

lemma new_run_heap:
  assumes h: "heap_ok T F fl runs {}" and p: "p \<noteq> NULL" "unat p + unat (real_size b) \<le> 2 ^ 32" "32 \<le> unat (real_size b)"
    and pg: "4096 dvd unat p" "unat (real_size b) = 4096 * k" "16 \<le> k"
    and b: "magic b = LIBALLOC_MAGIC" "tag_index b = -1" "tag_next b = NULL" "tag_prev b = NULL" "split_left b = NULL" "split_right b = NULL"
    and new: "{unat p ..< unat p + unat (real_size b)} \<inter> heap_bytes T runs = {}"
  shows "p \<notin> set (concat runs)"
    and "heap_ok (T(p \<mapsto> b)) F fl (runs @ [[p]]) {p}"
    and "live (T(p \<mapsto> b)) (runs @ [[p]]) {p} = live T runs {}"
    and "heap_bytes (T(p \<mapsto> b)) (runs @ [[p]]) = heap_bytes T runs \<union> {unat p ..< unat p + unat (real_size b)}"
proof -
  let ?T = "T(p \<mapsto> b)"
  note H = heap_okD [OF h]
  show pn: "p \<notin> set (concat runs)"
    using block_member [OF h, of p] new p(3) by (fastforce simp: heap_bytes_def simp del: set_concat)
  have same: "fld f ?T q = fld f T q" if "q \<in> set (concat runs)" for f :: "boundary_tag \<Rightarrow> 'z" and q using that pn by auto
  have seg: "seg ?T q = seg T q" if "q \<in> set (concat runs)" for q using that pn by (auto simp: seg_def)
  have segp: "seg ?T p = {unat p ..< unat p + unat (real_size b)}" by (simp add: seg_def)
  have set': "set (concat (runs @ [[p]])) = insert p (set (concat runs))" by simp
  show "heap_bytes ?T (runs @ [[p]]) = heap_bytes T runs \<union> {unat p ..< unat p + unat (real_size b)}"
    unfolding heap_bytes_def set' using seg segp by (auto simp del: set_concat)
  show "live ?T (runs @ [[p]]) {p} = live T runs {}"
    unfolding live_def set' using pn by (auto simp del: set_concat)
  have "run_ok ?T {p} r" if r: "r \<in> set runs" for r
  proof (rule run_ok_mono [OF H(3) [OF r]])
    have rp: "p \<notin> set r" using pn r by auto
    then show "fld split_left ?T (hd r) = fld split_left T (hd r)" "fld split_right ?T (last r) = fld split_right T (last r)"
      using H(3) [OF r] by (auto simp: run_ok_def)
    show "adjacent ?T {p} x y" if "x \<in> set r" "y \<in> set r" "adjacent T {} x y" for x y
      using that rp by (auto simp: adjacent_def is_free_def)
    show "fld real_size ?T x = fld real_size T x" if "x \<in> set r" for x using that rp by auto
  qed
  then have "\<forall>r \<in> set (runs @ [[p]]). run_ok ?T {p} r" using b pg by (auto simp: run_ok_def paged_def)
  moreover have "block_ok ?T {p} q" if "q \<in> insert p (set (concat runs))" for q
    using that H(4) [of q] p b by (cases "q = p") (auto simp: block_ok_def simp del: set_concat)
  moreover have "seg ?T x \<inter> seg ?T y = {}" if "x \<in> insert p (set (concat runs))" "y \<in> insert p (set (concat runs))" "x \<noteq> y" for x y
    using that H(5) [of x y] new seg segp unfolding heap_bytes_def by (cases "x = p"; cases "y = p") (auto simp del: set_concat)
  moreover have "q \<in> set (fl e) \<longleftrightarrow> q \<in> insert p (set (concat runs)) \<and> fld tag_index ?T q = int e" for e q
    using H(6) [of q e] pn b by (auto simp del: set_concat)
  moreover have "free_ok ?T F fl"
    using H(1) by (rule free_ok_cong) (use free_okD(3) [OF H(1)] H(6) pn in \<open>auto simp del: set_concat\<close>)
  moreover have "distinct (concat (runs @ [[p]]))" using H(2) pn by auto
  ultimately show "heap_ok ?T F fl (runs @ [[p]]) {p}" unfolding heap_ok_def set' by blast
qed

lemma drop_run_heap:
  assumes h: "heap_ok T F fl (R1 @ [p] # R2) {p}" and p: "fld tag_index T p = -1"
  shows "heap_ok T F fl (R1 @ R2) {}"
    and "live T (R1 @ R2) {} = live T (R1 @ [p] # R2) {p}"
    and "heap_bytes T (R1 @ R2) = heap_bytes T (R1 @ [p] # R2) - seg T p"
proof -
  note H = heap_okD [OF h]
  have pn: "set (concat (R1 @ R2)) = set (concat (R1 @ [p] # R2)) - {p}"
    using concat_drop [of R1 "[]" p "[]" R2] H(2) by simp
  have mem: "p \<in> set (concat (R1 @ [p] # R2))" by simp
  show "live T (R1 @ R2) {} = live T (R1 @ [p] # R2) {p}" unfolding live_def pn by simp
  show "heap_bytes T (R1 @ R2) = heap_bytes T (R1 @ [p] # R2) - seg T p"
    unfolding heap_bytes_def pn using H(5) mem by (auto simp del: set_concat)
  have "run_ok T {} r" if r: "r \<in> set (R1 @ R2)" for r
  proof (rule run_ok_mono)
    show "run_ok T {p} r" using H(3) r by auto
    show "adjacent T {} x y" if "x \<in> set r" "y \<in> set r" "adjacent T {p} x y" for x y
    proof -
      have "p \<notin> set r" using pn r by auto
      then show ?thesis using that by (auto simp: adjacent_def)
    qed
  qed simp_all
  moreover have "block_ok T {} q" if "q \<in> set (concat (R1 @ R2))" for q
    using H(4) [of q] that unfolding pn by (auto simp: block_ok_def simp del: set_concat)
  moreover have "seg T x \<inter> seg T y = {}" if "x \<in> set (concat (R1 @ R2))" "y \<in> set (concat (R1 @ R2))" "x \<noteq> y" for x y
    using H(5) that unfolding pn by blast
  moreover have "q \<in> set (fl e) \<longleftrightarrow> q \<in> set (concat (R1 @ R2)) \<and> fld tag_index T q = int e" for e q
    using H(6) [of q e] p unfolding pn by (auto simp del: set_concat)
  moreover have "distinct (concat (R1 @ R2))" using H(2) by simp
  ultimately show "heap_ok T F fl (R1 @ R2) {}" using H(1) unfolding heap_ok_def by blast
qed

end
