(* ===== verification/Liballoc_Ops.thy ===== *)
theory Liballoc_Ops
  imports Liballoc_Inv
begin

text \<open>
  The operations of the heap allocator keep the invariant: \<open>take_tag\<close>, \<open>malloc\<close>, the two loops of
  \<open>free\<close>, and \<open>free\<close> itself.
\<close>

section \<open>The chain operations as maps\<close>

lemma get_tag_Inr: "p \<noteq> NULL \<Longrightarrow> tags s p = Some b \<Longrightarrow> get_tag p s = Inr b"
  by (simp add: get_tag_def)

lemma set_tag_Inr: "p \<noteq> NULL \<Longrightarrow> tags s p = Some b \<Longrightarrow> set_tag p f s = Inr (s\<lparr>tags := (tags s)(p \<mapsto> f b)\<rparr>)"
  by (simp add: set_tag_def get_tag_def)

lemma link_left_step:
  "r \<noteq> NULL \<longrightarrow> tags s r \<noteq> None \<Longrightarrow>
   (if r \<noteq> NULL then set_tag r (split_left_update (\<lambda>_. l)) s else Inr s) = Inr (s\<lparr>tags := link_left (tags s) r l\<rparr>)"
  by (auto simp: link_left_def set_tag_def get_tag_def)

lemma melt_left_eq:
  assumes "p \<noteq> NULL" "l \<noteq> NULL" "tags s p = Some b" "tags s l = Some c" "split_left b = l" "l \<noteq> p"
    and "split_right b \<noteq> NULL \<longrightarrow> tags s (split_right b) \<noteq> None"
  shows "melt_left p s = Inr (l, s\<lparr>tags := merge_tags (tags s) l p\<rparr>)"
  using assms by (simp add: melt_left_def get_tag_Inr set_tag_Inr link_left_step merge_tags_def fld_def)

lemma absorb_right_eq:
  assumes "p \<noteq> NULL" "r \<noteq> NULL" "tags s p = Some b" "split_right b = r" "p \<noteq> r"
    and "remove_tag r s = Inr s'" "tags s' p = Some b'" "tags s' r = Some c"
    and "split_right c \<noteq> NULL \<longrightarrow> tags s' (split_right c) \<noteq> None"
  shows "absorb_right p s = Inr (p, s'\<lparr>tags := merge_tags (tags s') p r\<rparr>)"
  using assms by (simp add: absorb_right_def get_tag_Inr set_tag_Inr link_left_step merge_tags_def fld_def)

lemma insert_tag_index:
  "p \<noteq> NULL \<Longrightarrow> tags s p = Some b \<Longrightarrow>
   insert_tag p i (s\<lparr>tags := (tags s)(p \<mapsto> b\<lparr>tag_index := j\<rparr>)\<rparr>) = insert_tag p i s"
  by (simp add: insert_tag_def get_tag_def set_tag_def)

lemma split_tag_eq:
  assumes "p \<noteq> NULL" "tags s p = Some b" "q = p + sizeof_tag + tag_size b" "q \<noteq> NULL" "q \<noteq> p"
    and far: "sizeof_tag \<le> q - p" "sizeof_tag \<le> p - q"
    and sr: "split_right b \<noteq> NULL \<longrightarrow> tags s (split_right b) \<noteq> None \<and> split_right b \<noteq> p \<and> split_right b \<noteq> q"
  shows "split_tag p s =
    bindE (insert_tag q (-1) (s\<lparr>tags := split_tags (tags s) p (tag_size (peek_tag q s))\<rparr>)) (\<lambda>s. Inr (q, s))"
proof -
  let ?k = "peek_tag q s" and ?rem = "real_size b - sizeof_tag - tag_size b"
  let ?new = "\<lparr>magic = LIBALLOC_MAGIC, tag_size = tag_size ?k, real_size = ?rem, tag_index = tag_index ?k,
    split_left = p, split_right = split_right b, tag_next = NULL, tag_prev = NULL\<rparr>"
  let ?T1 = "link_left ((tags s)(q \<mapsto> ?new)) (split_right b) q"
  let ?T2 = "?T1(p \<mapsto> b\<lparr>split_right := q, real_size := real_size b - ?rem\<rparr>)"
  have p1: "?T1 p = Some b" using assms by (auto simp: link_left_def)
  have run: "split_tag p s = bindE (insert_tag q (-1) (s\<lparr>tags := ?T2\<rparr>)) (\<lambda>s. Inr (q, s))"
    unfolding split_tag_def get_tag_Inr [OF assms(1,2)] bindE_Inr Let_def assms(3) [symmetric]
    using assms(1,2,4,5) sr far p1 by (simp add: link_left_step set_tag_Inr not_less [symmetric])
  have q2: "?T2 q = Some ?new" using assms by (auto simp: link_left_def)
  have "split_tags (tags s) p (tag_size ?k) = ?T2(q \<mapsto> ?new\<lparr>tag_index := -1\<rparr>)"
    unfolding split_tags_def Let_def fld_def assms(2) option.sel assms(3) [symmetric]
    using assms(1,2,4,5) sr by (auto simp: link_left_def fun_eq_iff)
  then have "insert_tag q (-1) (s\<lparr>tags := split_tags (tags s) p (tag_size ?k)\<rparr>) = insert_tag q (-1) (s\<lparr>tags := ?T2\<rparr>)"
    using insert_tag_index [of q "s\<lparr>tags := ?T2\<rparr>" ?new] assms(4) q2 by simp
  then show ?thesis unfolding run by simp
qed

section \<open>Taking a tag\<close>

lemma singleton_run: "x \<noteq> p \<Longrightarrow> [x] \<in> set (R1 @ (as @ p # bs) # R2) \<longleftrightarrow> [x] \<in> set R1 \<union> set R2"
  by (auto simp: Cons_eq_append_conv)

lemma standby_cong: "(\<And>x. x \<in> set (fl e) \<Longrightarrow> [x] \<in> set runs \<longleftrightarrow> [x] \<in> set runs') \<Longrightarrow> standby fl runs e = standby fl runs' e"
  unfolding standby_def by (rule arg_cong [where f = length]) (rule filter_cong, auto)

lemma standby_upd:
  "standby (fl(e := x # fl e)) runs k = standby fl runs k + (if k = e \<and> [x] \<in> set runs then 1 else 0)"
  "fl e = xs @ x # ys \<Longrightarrow> standby fl runs k = standby (fl(e := xs @ ys)) runs k + (if k = e \<and> [x] \<in> set runs then 1 else 0)"
  by (simp_all add: standby_def)

lemma complete_ok_cong:
  "complete_ok C fl runs \<Longrightarrow> (\<And>e. e < MAXEXP \<Longrightarrow> standby fl' runs' e = standby fl runs e) \<Longrightarrow> complete_ok C fl' runs'"
  by (auto simp: complete_ok_def)

lemma getexp_nonneg: "0 \<le> getexp n \<longleftrightarrow> 256 \<le> unat n"
proof -
  have "getexp n = -1" if "unat n < 256" using that by (simp add: getexp_def MINEXP_def word_less_nat_alt)
  moreover have "0 \<le> getexp n" if "\<not> unat n < 256"
  proof -
    have "shift \<le> getexp_loop shift n" for shift
    proof (induction shift n rule: getexp_loop.induct)
      case (1 shift n)
      then show ?case by (subst getexp_loop.simps) (auto simp: MAXEXP_def)
    qed
    from this [of MINEXP] show ?thesis using that by (simp add: getexp_def MINEXP_def word_less_nat_alt)
  qed
  ultimately show ?thesis by (cases "unat n < 256") auto
qed

lemma take_tag_room:
  assumes "32 + unat (sz :: u32) \<le> unat r" "0 < sint (r - sz - sizeof_tag * 2)"
  shows "64 + unat sz \<le> unat r"
proof (rule ccontr)
  let ?w = "r - sz - sizeof_tag * 2"
  assume "\<not> 64 + unat sz \<le> unat r"
  then have "unat (r - sz) < 64" using assms(1) by (simp add: unat_sub word_le_nat_alt)
  moreover have "uint ?w = sint ?w"
    using assms(2) uint_sint [of ?w] sint_lt [of ?w] by (simp add: take_bit_int_eq_self)
  then have "unat ?w < 2 ^ 31" using sint_lt [of ?w] by (simp add: unat_eq_nat_uint)
  then have "unat (?w + 64) = unat ?w + 64" by (simp add: unat_u32_add)
  moreover have "?w + 64 = r - sz" by (simp add: sizeof_tag_def)
  ultimately show False by simp
qed

lemma set_size_heap:
  assumes h: "heap_ok T F fl runs X" and p: "T p = Some b" "p \<in> X"
  shows "heap_ok (T(p \<mapsto> b\<lparr>tag_size := sz\<rparr>)) F fl runs X"
    and "live (T(p \<mapsto> b\<lparr>tag_size := sz\<rparr>)) runs X = live T runs X"
    and "heap_bytes (T(p \<mapsto> b\<lparr>tag_size := sz\<rparr>)) runs = heap_bytes T runs"
proof -
  let ?T = "T(p \<mapsto> b\<lparr>tag_size := sz\<rparr>)"
  note H = heap_okD [OF h]
  have b: "b = the (T p)" using p by simp
  have f: "fld magic ?T = fld magic T" "fld real_size ?T = fld real_size T" "fld tag_index ?T = fld tag_index T"
    "fld split_left ?T = fld split_left T" "fld split_right ?T = fld split_right T"
    "fld tag_next ?T = fld tag_next T" "fld tag_prev ?T = fld tag_prev T"
    by (simp_all add: fun_eq_iff) (simp_all add: fld_def b)
  have None: "?T q = None \<longleftrightarrow> T q = None" for q using p by simp
  have seg: "seg ?T = seg T" by (simp add: fun_eq_iff seg_def f)
  show "heap_bytes ?T runs = heap_bytes T runs" by (simp add: heap_bytes_def seg)
  show "live ?T runs X = live T runs X" unfolding live_def f using p(2) by (intro image_cong refl) auto
  have adj: "adjacent ?T X = adjacent T X" by (simp add: fun_eq_iff adjacent_def is_free_def f)
  have "run_ok ?T X r \<longleftrightarrow> run_ok T X r" for r by (simp add: run_ok_def paged_def f adj)
  moreover have "block_ok ?T X q \<longleftrightarrow> block_ok T X q" for q
    using p(2) unfolding block_ok_def f None by (cases "q = p") simp_all
  moreover have "free_ok ?T F fl" using H(1) by (rule free_ok_cong) (use free_okD(3) [OF H(1)] in \<open>auto simp: f\<close>)
  ultimately show "heap_ok ?T F fl runs X" using H unfolding heap_ok_def seg f by simp
qed

lemma insert_tag_heap:
  assumes h: "heap_ok (tags s) (l_freePages s) fl (R1 @ (as @ p # bs) # R2) {p}" and p: "fld tag_index (tags s) p = -1"
    and l: "as \<noteq> [] \<Longrightarrow> \<not> is_free (tags s) (last as)" and r: "bs \<noteq> [] \<Longrightarrow> \<not> is_free (tags s) (hd bs)"
    and i: "i = -1 \<or> i = size_class (fld real_size (tags s) p)"
  obtains T e where "insert_tag p i s = Inr (s\<lparr>tags := T, l_freePages := (l_freePages s)[e := p]\<rparr>)"
    "e < MAXEXP" "int e = size_class (fld real_size (tags s) p)"
    "heap_ok T ((l_freePages s)[e := p]) (fl(e := p # fl e)) (R1 @ (as @ p # bs) # R2) {}"
    "live T (R1 @ (as @ p # bs) # R2) {} = live (tags s) (R1 @ (as @ p # bs) # R2) {p}"
    "heap_bytes T (R1 @ (as @ p # bs) # R2) = heap_bytes (tags s) (R1 @ (as @ p # bs) # R2)"
proof -
  have mem: "p \<in> set (concat (R1 @ (as @ p # bs) # R2))" by simp
  note m = chain_member [OF h, of p]
  obtain b where b: "tags s p = Some b" using m(2) by auto
  have bl: "tag_next b = NULL" "tag_prev b = NULL" "tag_index b = -1" "fld real_size (tags s) p = real_size b"
    using heap_okD(4) [OF h mem] p b by (auto simp: block_ok_def fld_def)
  let ?e = "nat (size_class (real_size b))"
  have e: "?e < 32" "int ?e = size_class (real_size b)" using size_class_range [of "real_size b"] by auto
  have e': "int ?e = (if i < 0 then size_class (real_size b) else i)" using e(2) i bl(4) size_class_range(1) [of "real_size b"] by auto
  have pf: "p \<notin> (\<Union>k. set (fl k))" using heap_okD(6) [OF h] p by auto
  from insert_tag_ok [OF heap_okD(1) [OF h] _ b pf bl(1,2) e' e(1)] m(1) obtain T where
    T: "insert_tag p i s = Inr (s\<lparr>tags := T, l_freePages := (l_freePages s)[?e := p]\<rparr>)"
      "free_ok T ((l_freePages s)[?e := p]) (fl(?e := p # fl ?e))" "same_core T ((tags s)(p \<mapsto> b\<lparr>tag_index := int ?e\<rparr>))"
      "\<And>q. q \<notin> insert p (set (fl ?e)) \<Longrightarrow> T q = tags s q" by auto
  show ?thesis
    using that [OF T(1)] insert_heap [OF h b bl(3) e(2) l r T(2,3,4)] e bl(4) by (simp add: MAXEXP_def)
qed

lemma remove_tag_heap:
  assumes h: "heap_ok (tags s) (l_freePages s) fl runs X" and p: "p \<in> set (concat runs)" "is_free (tags s) p"
  obtains T F e xs ys where "remove_tag p s = Inr (s\<lparr>tags := T, l_freePages := F\<rparr>)"
    "fl e = xs @ p # ys" "int e = fld tag_index (tags s) p" "heap_ok T F (fl(e := xs @ ys)) runs (insert p X)"
    "live T runs (insert p X) = live (tags s) runs X" "heap_bytes T runs = heap_bytes (tags s) runs"
    "\<And>q. fld tag_index T q = (if q = p then -1 else fld tag_index (tags s) q)"
    "fld real_size T = fld real_size (tags s)" "fld tag_size T = fld tag_size (tags s)"
proof -
  let ?e = "nat (fld tag_index (tags s) p)"
  have ie: "int ?e = fld tag_index (tags s) p" using p(2) by (simp add: is_free_def)
  then have "p \<in> set (fl ?e)" using heap_okD(6) [OF h] p(1) by simp
  then obtain xs ys where xy: "fl ?e = xs @ p # ys" by (meson split_list)
  obtain b where b: "tags s p = Some b" using heap_okD(4) [OF h p(1)] by (auto simp: block_ok_def)
  from remove_tag_ok [OF heap_okD(1) [OF h] xy b] obtain T F where
    T: "remove_tag p s = Inr (s\<lparr>tags := T, l_freePages := F\<rparr>)" "free_ok T F (fl(?e := xs @ ys))"
      "same_core T ((tags s)(p \<mapsto> b\<lparr>tag_index := -1\<rparr>))" "T p = Some (b\<lparr>tag_next := NULL, tag_prev := NULL, tag_index := -1\<rparr>)"
      "\<And>q. q \<notin> set (fl ?e) \<Longrightarrow> T q = tags s q" by auto
  have f: "fld tag_index T q = (if q = p then -1 else fld tag_index (tags s) q)" "fld real_size T = fld real_size (tags s)"
    "fld tag_size T = fld tag_size (tags s)" for q
    using same_core_flds [OF T(3)] b by (auto simp: fun_eq_iff) (auto simp: fld_def)
  show ?thesis by (rule that [OF T(1) xy ie remove_heap [OF h xy b T(2-5)] f])
qed

lemma tag_distance:
  assumes "64 + unat (sz :: u32) \<le> unat (r :: u32)"
  shows "sizeof_tag \<le> (p + sizeof_tag + sz) - p" "sizeof_tag \<le> p - (p + sizeof_tag + sz)"
proof -
  have b: "unat sz < 4294967296 - 64" using assms unat_lt_2p32 [of r] by linarith
  then have u: "unat (sizeof_tag + sz) = 32 + unat sz" using unat_u32_add [of 32 sz] by (simp add: sizeof_tag_def)
  moreover have e: "(p + sizeof_tag + sz) - p = sizeof_tag + sz" by simp
  ultimately show "sizeof_tag \<le> (p + sizeof_tag + sz) - p" unfolding e by (simp add: word_le_nat_alt) (simp add: sizeof_tag_def)
  show "sizeof_tag \<le> p - (p + sizeof_tag + sz)"
  proof (rule ccontr)
    let ?d = "p - (p + sizeof_tag + sz)"
    assume "\<not> sizeof_tag \<le> ?d"
    then have "unat ?d < 32" by (simp add: sizeof_tag_def word_le_nat_alt)
    then have "unat (?d + (sizeof_tag + sz)) = unat ?d + (32 + unat sz)" using b u by (subst unat_u32_add) simp_all
    moreover have "?d + (sizeof_tag + sz) = 0" by simp
    ultimately show False by simp
  qed
qed

lemma listed_not_taken: "heap_ok T F fl runs X \<Longrightarrow> x \<in> set (fl k) \<Longrightarrow> fld tag_index T p = -1 \<Longrightarrow> x \<noteq> p"
  using heap_okD(6) by fastforce

lemma split_tag_ok:
  assumes h: "heap_ok (tags s) (l_freePages s) fl (R1 @ (as @ p # bs) # R2) {p}" and p: "tags s p = Some b" "tag_index b = -1"
    and r: "bs \<noteq> [] \<Longrightarrow> \<not> is_free (tags s) (hd bs)" and room: "64 + unat (tag_size b) \<le> unat (real_size b)"
    and c: "complete_ok (l_completePages s) fl (R1 @ (as @ p # bs) # R2)"
  shows "\<exists>q T F fl' runs'. split_tag p s = Inr (q, s\<lparr>tags := T, l_freePages := F\<rparr>) \<and>
    heap_ok T F fl' runs' {} \<and> complete_ok (l_completePages s) fl' runs' \<and>
    live T runs' {} = insert (p + sizeof_tag, tag_size b) (live (tags s) (R1 @ (as @ p # bs) # R2) {p}) \<and>
    heap_bytes T runs' = heap_bytes (tags s) (R1 @ (as @ p # bs) # R2)"
proof -
  let ?T = "tags s" and ?runs = "R1 @ (as @ p # bs) # R2" and ?q = "p + sizeof_tag + tag_size b"
  let ?k = "tag_size (peek_tag ?q s)"
  let ?T2 = "split_tags ?T p ?k" and ?runs' = "R1 @ (as @ p # ?q # bs) # R2"
  have f: "fld tag_index ?T p = -1" "fld tag_size ?T p = tag_size b" "fld real_size ?T p = real_size b" using p by (simp_all add: fld_def)
  have X: "{p} \<subseteq> set (as @ p # bs)" by simp
  note S = split_new(4,2) [OF h, unfolded f(2,3), OF room]
    split_heap [where k = ?k and q = ?q, OF h f(1) _ X, unfolded f(2,3), OF room refl]
  have pn: "p \<noteq> NULL" using chain_member(1) [OF h, of p] by simp
  have sr: "split_right b = hd_or bs NULL" using chain_links(1) [OF h] p(1) by (simp add: fld_def)
  have qp: "?q \<noteq> p" using S(1) by auto
  have hb: "?T (hd bs) \<noteq> None \<and> hd bs \<noteq> p \<and> hd bs \<noteq> ?q" if "bs \<noteq> []"
    using chain_member [OF h, of "hd bs"] S(1) that distinct_run(1) [OF heap_okD(2) [OF h]] by (cases bs) auto
  have st: "split_tag p s = bindE (insert_tag ?q (-1) (s\<lparr>tags := ?T2\<rparr>)) (\<lambda>s. Inr (?q, s))"
    using split_tag_eq [of p s b ?q] pn p(1) S(2) qp tag_distance [OF room] hb sr by (cases bs) auto
  let ?s2 = "s\<lparr>tags := ?T2\<rparr>"
  have h2: "heap_ok (tags ?s2) (l_freePages ?s2) fl ?runs' {?q}" using S(3) by simp
  have q2: "fld tag_index ?T2 x = (if x = ?q then -1 else fld tag_index ?T x)" for x
    using f(2) qp by (simp add: split_tags_def Let_def fld_link_left) (simp add: fld_def)
  have pf: "\<not> is_free ?T2 p" and bf: "bs \<noteq> [] \<Longrightarrow> \<not> is_free ?T2 (hd bs)" using q2 qp f(1) hb r by (simp_all add: is_free_def)
  obtain T3 e where I: "insert_tag ?q (-1) ?s2 = Inr (?s2\<lparr>tags := T3, l_freePages := (l_freePages ?s2)[e := ?q]\<rparr>)"
    "heap_ok T3 ((l_freePages ?s2)[e := ?q]) (fl(e := ?q # fl e)) ?runs' {}"
    "live T3 ?runs' {} = live (tags ?s2) ?runs' {?q}" "heap_bytes T3 ?runs' = heap_bytes (tags ?s2) ?runs'"
    by (rule insert_tag_heap [of ?s2 fl R1 "as @ [p]" ?q bs R2 "-1", unfolded append_assoc append_Cons append_Nil last_snoc,
          OF h2 _ _ _ disjI1 [OF refl]]) (simp add: q2, simp add: pf, simp add: bf, rule that)
  have "[x] \<in> set ?runs' \<longleftrightarrow> [x] \<in> set ?runs" if "x \<in> set (fl k)" for x k
    using singleton_run [OF listed_not_taken [OF h that f(1)], of R1 as _ R2] by simp
  moreover have "[?q] \<notin> set ?runs'" using singleton_run [of ?q p R1 as "?q # bs" R2] qp S(1) by auto
  ultimately have "standby (fl(e := ?q # fl e)) ?runs' k = standby fl ?runs k" for k
    using standby_cong [of fl k ?runs' ?runs] by (simp add: standby_upd)
  then have "complete_ok (l_completePages s) (fl(e := ?q # fl e)) ?runs'" using complete_ok_cong [OF c] by blast
  then show ?thesis using st I S(4,5)
    by (intro exI [of _ ?q] exI [of _ T3] exI [of _ "(l_freePages s)[e := ?q]"] exI [of _ "fl(e := ?q # fl e)"] exI [of _ ?runs']) simp
qed

lemma take_tag_ok:
  assumes h: "heap_ok (tags s) (l_freePages s) fl (R1 @ (as @ p # bs) # R2) {p}" and p: "tags s p = Some b" "tag_index b = -1"
    and r: "bs \<noteq> [] \<Longrightarrow> \<not> is_free (tags s) (hd bs)" and sz: "32 + unat sz \<le> unat (real_size b)"
    and c: "complete_ok (l_completePages s) fl (R1 @ (as @ p # bs) # R2)"
  shows "\<exists>s' fl' runs'. take_tag p sz s = Inr (p + sizeof_tag, s') \<and> below s' = below s \<and> l_initialized s' = l_initialized s \<and>
    l_completePages s' = l_completePages s \<and>
    heap_ok (tags s') (l_freePages s') fl' runs' {} \<and> complete_ok (l_completePages s') fl' runs' \<and>
    live (tags s') runs' {} = insert (p + sizeof_tag, sz) (live (tags s) (R1 @ (as @ p # bs) # R2) {p}) \<and>
    heap_bytes (tags s') runs' = heap_bytes (tags s) (R1 @ (as @ p # bs) # R2)"
proof -
  let ?runs = "R1 @ (as @ p # bs) # R2"
  have mem: "p \<in> set (concat ?runs)" and pn: "p \<noteq> NULL" using chain_member(1) [OF h, of p] by simp_all
  define T where "T = (tags s)(p \<mapsto> b\<lparr>tag_size := sz\<rparr>)"
  define s1 where "s1 = s\<lparr>tags := T\<rparr>"
  have h1: "heap_ok T (l_freePages s) fl ?runs {p}" "live T ?runs {p} = live (tags s) ?runs {p}" "heap_bytes T ?runs = heap_bytes (tags s) ?runs"
    unfolding T_def using set_size_heap [OF h p(1)] by simp_all
  have s1: "tags s1 = T" "l_freePages s1 = l_freePages s" "l_completePages s1 = l_completePages s" "below s1 = below s"
    "l_initialized s1 = l_initialized s" by (simp_all add: s1_def)
  have fT: "fld tag_index T p = -1" "fld tag_size T p = sz" "fld real_size T p = real_size b" "T p = Some (b\<lparr>tag_size := sz\<rparr>)"
    using p by (simp_all add: T_def)
  let ?rem = "real_size b - sz - sizeof_tag * 2"
  have run: "take_tag p sz s = bindE (if 0 < sint ?rem \<and> 0 \<le> getexp ?rem then bindE (split_tag p s1) (\<lambda>(new_tag, s). Inr s) else Inr s1)
      (\<lambda>s. Inr (p + sizeof_tag, s))"
    unfolding take_tag_def set_tag_Inr [OF pn p(1)] bindE_Inr Let_def T_def [symmetric] s1_def [symmetric]
    using pn fT(4) s1(1) by (simp add: get_tag_Inr)
  show ?thesis
  proof (cases "0 < sint ?rem \<and> 0 \<le> getexp ?rem")
    case False
    have "heap_ok T (l_freePages s) fl ?runs {}" by (rule heap_ok_settle [OF h1(1)]) (use fT sz in simp)
    moreover have "live T ?runs {} = insert (p + sizeof_tag, sz) (live T ?runs {p})"
      using live_settle [OF mem fT(1), of "{}"] fT(2) by simp
    moreover have "take_tag p sz s = Inr (p + sizeof_tag, s1)" unfolding run if_not_P [OF False] by simp
    ultimately show ?thesis using c h1 s1 by (intro exI [of _ s1] exI [of _ fl] exI [of _ ?runs]) simp
  next
    case True
    have room: "64 + unat sz \<le> unat (real_size b)" using take_tag_room sz True by blast
    have nf: "\<not> is_free T (hd bs)" if "bs \<noteq> []" using r [OF that] p by (auto simp: T_def is_free_def fld_def)
    from split_tag_ok [of s1 fl R1 as p bs R2 "b\<lparr>tag_size := sz\<rparr>"] h1 fT(4) p(2) nf room c s1 obtain q T' F fl' runs' where
      S: "split_tag p s1 = Inr (q, s1\<lparr>tags := T', l_freePages := F\<rparr>)" "heap_ok T' F fl' runs' {}" "complete_ok (l_completePages s) fl' runs'"
        "live T' runs' {} = insert (p + sizeof_tag, sz) (live (tags s) ?runs {p})" "heap_bytes T' runs' = heap_bytes (tags s) ?runs" by auto
    moreover have "take_tag p sz s = Inr (p + sizeof_tag, s1\<lparr>tags := T', l_freePages := F\<rparr>)" unfolding run if_P [OF True] S(1) by simp
    ultimately show ?thesis using s1 by (intro exI [of _ "s1\<lparr>tags := T', l_freePages := F\<rparr>"] exI [of _ fl'] exI [of _ runs']) simp
  qed
qed

section \<open>The search and the reuse of a free block\<close>

lemma find_tag_eq:
  assumes "dls (fld tag_next (tags s)) (fld tag_prev (tags s)) l xs NULL"
    and "\<And>x. x \<in> set xs \<Longrightarrow> x \<noteq> NULL \<and> tags s x \<noteq> None"
  shows "find_tag (hd_or xs NULL) sz s = Some (Inr (case List.find (fitting (tags s) sz) xs of None \<Rightarrow> NULL | Some x \<Rightarrow> x))"
  using assms
proof (induction xs arbitrary: l)
  case Nil
  then show ?case by (simp add: find_tag.simps)
next
  case (Cons x xs)
  obtain b where b: "tags s x = Some b" "x \<noteq> NULL" using Cons.prems(2) [of x] by auto
  have "tag_next b = hd_or xs NULL" using Cons.prems(1) b by (simp add: fld_def)
  then show ?case
    using Cons.IH [of x] Cons.prems b
    by (simp add: find_tag.simps [of x] get_tag_Inr fitting_def fld_def)
qed

lemma split_runs:
  assumes "p \<in> set (concat runs)"
  obtains R1 as bs R2 where "runs = R1 @ (as @ p # bs) # R2"
proof -
  obtain r where "r \<in> set runs" "p \<in> set r" using assms by auto
  then show ?thesis using that by (metis split_list)
qed

lemma lone_run:
  assumes "distinct (concat (R1 @ (as @ p # bs) # R2))"
  shows "[p] \<in> set (R1 @ (as @ p # bs) # R2) \<longleftrightarrow> as = [] \<and> bs = []"
  using distinct_run(2) [OF assms, of p "[p]"] by (auto simp: Cons_eq_append_conv)

lemma lone_links:
  assumes "heap_ok T F fl (R1 @ (as @ p # bs) # R2) X"
  shows "fld split_left T p = NULL \<and> fld split_right T p = NULL \<longleftrightarrow> as = [] \<and> bs = []"
  using chain_links [OF assms] chain_member(1) [OF assms, of "hd bs"] chain_member(1) [OF assms, of "last as"]
  by (cases bs; cases as rule: rev_cases) auto

lemma free_neighbours:
  assumes h: "heap_ok T F fl (R1 @ (as @ p # bs) # R2) {}" and p: "is_free T p"
  shows "as \<noteq> [] \<Longrightarrow> \<not> is_free T (last as)" "bs \<noteq> [] \<Longrightarrow> \<not> is_free T (hd bs)"
proof -
  have run: "run_ok T {} (as @ p # bs)" using heap_okD(3) [OF h] by simp
  show "as \<noteq> [] \<Longrightarrow> \<not> is_free T (last as)" "bs \<noteq> [] \<Longrightarrow> \<not> is_free T (hd bs)"
    using run p unfolding run_ok_split by (auto simp: adjacent_def)
qed

lemma complete_ok_add:
  assumes "complete_ok C fl runs" "e < MAXEXP" "0 \<le> C ! e + d" "C ! e + d \<le> MAXCOMPLETE"
    and "\<And>k. int (standby fl' runs' k) = int (standby fl runs k) + (if k = e then d else 0)"
  shows "complete_ok (C[e := C ! e + d]) fl' runs'"
  using assms by (auto simp: complete_ok_def nth_list_update)

lemma complete_ok_unlist:
  assumes c: "complete_ok C fl runs" and p: "fl e = xs @ p # ys" and e: "e < MAXEXP"
  defines "C' \<equiv> (if [p] \<in> set runs then C[e := C ! e + -1] else C)"
  shows "complete_ok C' (fl(e := xs @ ys)) runs" "MAXCOMPLETE \<notin> set C \<Longrightarrow> MAXCOMPLETE \<notin> set C'"
proof -
  have sb: "int (standby (fl(e := xs @ ys)) runs k) = int (standby fl runs k) + (if k = e \<and> [p] \<in> set runs then -1 else 0)" for k
    using standby_upd(2) [of fl e xs p ys runs k] p by simp
  show "complete_ok C' (fl(e := xs @ ys)) runs"
  proof (cases "[p] \<in> set runs")
    case True
    have "0 < standby fl runs e" using standby_upd(2) [of fl e xs p ys runs e] p True by simp
    then have "0 \<le> C ! e + -1" "C ! e + -1 \<le> MAXCOMPLETE" using c e by (auto simp: complete_ok_def)
    from complete_ok_add [OF c e this] show ?thesis using sb True unfolding C'_def by auto
  next
    case False
    then show ?thesis using complete_ok_cong [OF c] sb by (simp add: C'_def)
  qed
  have "C ! e + -1 \<noteq> MAXCOMPLETE" using c e by (auto simp: complete_ok_def)
  then show "MAXCOMPLETE \<notin> set C'" if "MAXCOMPLETE \<notin> set C"
    using that set_update_subset_insert [of C e "C ! e + -1"] unfolding C'_def by (auto split: if_splits)
qed

lemma reuse_tag_ok:
  assumes h: "heap_ok (tags s) (l_freePages s) fl runs {}" and c: "complete_ok (l_completePages s) fl runs"
    and p: "p \<in> set (fl e)" and sz: "64 + unat sz \<le> unat (fld real_size (tags s) p)"
  shows "\<exists>s' fl' runs'. bindE (remove_tag p s) (\<lambda>s. bindE (get_tag p s) (\<lambda>b.
      bindE (if split_left b = NULL \<and> split_right b = NULL then add_complete (int e) (-1) s else Inr s) (\<lambda>s.
      take_tag p sz s))) = Inr (p + sizeof_tag, s') \<and> below s' = below s \<and> l_initialized s' = l_initialized s \<and>
    (MAXCOMPLETE \<notin> set (l_completePages s) \<longrightarrow> MAXCOMPLETE \<notin> set (l_completePages s')) \<and>
    heap_ok (tags s') (l_freePages s') fl' runs' {} \<and> complete_ok (l_completePages s') fl' runs' \<and>
    live (tags s') runs' {} = insert (p + sizeof_tag, sz) (live (tags s) runs {}) \<and>
    heap_bytes (tags s') runs' = heap_bytes (tags s) runs"
proof -
  have pm: "p \<in> set (concat runs)" "fld tag_index (tags s) p = int e" using heap_okD(6) [OF h] p by blast+
  have fr: "is_free (tags s) p" using pm by (simp add: is_free_def)
  have e: "e < MAXEXP" using free_okD(1) [OF heap_okD(1) [OF h] p] by (simp add: MAXEXP_def)
  obtain R1 as bs R2 where runs: "runs = R1 @ (as @ p # bs) # R2" by (rule split_runs [OF pm(1)])
  obtain T F e' xs ys where R: "remove_tag p s = Inr (s\<lparr>tags := T, l_freePages := F\<rparr>)"
    "fl e' = xs @ p # ys" "int e' = fld tag_index (tags s) p" "heap_ok T F (fl(e' := xs @ ys)) runs (insert p {})"
    "live T runs (insert p {}) = live (tags s) runs {}" "heap_bytes T runs = heap_bytes (tags s) runs"
    "\<And>q. fld tag_index T q = (if q = p then -1 else fld tag_index (tags s) q)"
    "fld real_size T = fld real_size (tags s)" "fld tag_size T = fld tag_size (tags s)"
    by (rule remove_tag_heap [OF h pm(1) fr]) (rule that)
  have ee: "e' = e" using R(3) pm(2) by simp
  note h1 = R(4) [unfolded runs ee]
  note m = chain_member [OF h1, of p]
  obtain b where b: "T p = Some b" using m(2) by auto
  have bf: "tag_index b = -1" "fld real_size (tags s) p = real_size b"
    using R(7) [of p] b unfolding R(8) [symmetric] by (simp_all add: fld_def)
  have lone: "split_left b = NULL \<and> split_right b = NULL \<longleftrightarrow> [p] \<in> set runs"
    using lone_links [OF h1] lone_run [OF heap_okD(2) [OF h1]] b unfolding runs by (simp add: fld_def)
  define C where "C = (if [p] \<in> set runs then (l_completePages s)[e := l_completePages s ! e + -1] else l_completePages s)"
  note C = complete_ok_unlist [OF c R(2) [unfolded ee] e, folded C_def]
  let ?s1 = "s\<lparr>tags := T, l_freePages := F\<rparr>" and ?s2 = "s\<lparr>tags := T, l_freePages := F, l_completePages := C\<rparr>"
  have st: "(if split_left b = NULL \<and> split_right b = NULL then add_complete (int e) (-1) ?s1 else Inr ?s1) = Inr ?s2"
    unfolding lone using e by (simp add: add_complete_def C_def)
  have sz': "32 + unat sz \<le> unat (real_size b)" using sz unfolding bf(2) by linarith
  have "distinct (as @ p # bs)" by (rule distinct_run(1) [OF heap_okD(2) [OF h1]])
  then have nf: "bs \<noteq> [] \<Longrightarrow> \<not> is_free (tags ?s2) (hd bs)"
    using free_neighbours(2) [OF h [unfolded runs] fr] R(7) [of "hd bs"] by (cases bs) (auto simp: is_free_def)
  have "\<exists>s' fl' runs'. take_tag p sz ?s2 = Inr (p + sizeof_tag, s') \<and> below s' = below ?s2 \<and> l_initialized s' = l_initialized ?s2 \<and>
    l_completePages s' = l_completePages ?s2 \<and>
    heap_ok (tags s') (l_freePages s') fl' runs' {} \<and> complete_ok (l_completePages s') fl' runs' \<and>
    live (tags s') runs' {} = insert (p + sizeof_tag, sz) (live (tags ?s2) (R1 @ (as @ p # bs) # R2) {p}) \<and>
    heap_bytes (tags s') runs' = heap_bytes (tags ?s2) (R1 @ (as @ p # bs) # R2)"
    by (rule take_tag_ok) (use h1 b bf nf sz' C(1) runs in simp_all)
  then show ?thesis
    unfolding R(1) bindE_Inr using b m(1) st R(5,6) runs C(2) by (auto simp: get_tag_Inr)
qed

section \<open>Allocation\<close>

lemma page_count: "(if u mod 4096 \<noteq> 0 then u div 4096 + 1 else u div 4096) = (u + 4095) div (4096 :: nat)"
proof -
  define q r where "q = u div 4096" and "r = u mod 4096"
  have u: "u = 4096 * q + r" "r < 4096" by (simp_all add: q_def r_def)
  have "(u + 4095) div 4096 = (if r \<noteq> 0 then q + 1 else q)"
    by (rule div_nat_eqI) (use u in auto)
  then show ?thesis by (simp add: q_def r_def)
qed

lemma new_pages:
  assumes "unat (sz :: u32) \<le> 2 ^ 32 - 4128"
  defines "usage \<equiv> sz + sizeof_tag"
  defines "pages \<equiv> (if usage mod l_pageSize \<noteq> 0 then usage div l_pageSize + 1 else usage div l_pageSize)"
  shows "unat (if pages < l_pageCount then l_pageCount else pages) = heap_pages (unat sz)"
    "heap_pages (unat sz) < 2 ^ 20" "32 + unat sz \<le> 4096 * heap_pages (unat sz)"
proof -
  have u: "unat usage = unat sz + 32" using assms(1) unfolding usage_def by (subst unat_u32_add) (simp_all add: sizeof_tag_def)
  have d: "unat (usage div l_pageSize) = (unat sz + 32) div 4096" "unat (usage mod l_pageSize) = (unat sz + 32) mod 4096"
    using u by (simp_all add: l_pageSize_def unat_div unat_mod)
  have b: "(unat sz + 32) div 4096 < 2 ^ 20" using assms(1) by (simp add: less_mult_imp_div_less)
  have m: "usage mod l_pageSize = 0 \<longleftrightarrow> (unat sz + 32) mod 4096 = 0" using d(2) by (metis unat_eq_zero)
  have "unat pages = (if (unat sz + 32) mod 4096 \<noteq> 0 then (unat sz + 32) div 4096 + 1 else (unat sz + 32) div 4096)"
    unfolding pages_def m using d(1) b unat_u32_add [of "usage div l_pageSize" 1] by simp
  then have "unat pages = (unat sz + 4127) div 4096" using page_count [of "unat sz + 32"] by simp
  then show "unat (if pages < l_pageCount then l_pageCount else pages) = heap_pages (unat sz)"
    by (auto simp: heap_pages_def l_pageCount_def word_less_nat_alt)
  show "heap_pages (unat sz) < 2 ^ 20" using assms(1) by (auto simp: heap_pages_def less_mult_imp_div_less)
  show "32 + unat sz \<le> 4096 * heap_pages (unat sz)" unfolding heap_pages_def by linarith
qed

lemma malloc_search:
  assumes h: "heap_ok (tags s) (l_freePages s) fl runs {}" and i: "l_initialized s \<noteq> 0" and sz: "unat sz \<le> 2 ^ 32 - 4128"
  obtains (reuse) p e where "p \<in> set (fl e)" "int e = at_least_minexp (getexp sz)" "64 + unat sz \<le> unat (fld real_size (tags s) p)"
      "malloc al sz s = bindE (remove_tag p s) (\<lambda>s. bindE (get_tag p s) (\<lambda>b.
        bindE (if split_left b = NULL \<and> split_right b = NULL then add_complete (int e) (-1) s else Inr s) (\<lambda>s.
        take_tag p sz s)))"
    | (extend) "\<not> has_room (tags s) runs sz" "malloc al sz s = bindE (allocate_new_tag al sz s) (\<lambda>(tag, s).
        if tag = NULL then Inr (NULL, s) else take_tag tag sz s)"
proof -
  obtain e where e: "e < 32" "at_least_minexp (getexp sz) = int e"
    using size_class_range(3,4) [of sz] by (intro that [of "nat (at_least_minexp (getexp sz))"]) simp_all
  have F: "l_freePages s ! e = hd_or (fl e) NULL" "dls (fld tag_next (tags s)) (fld tag_prev (tags s)) NULL (fl e) NULL"
    using heap_okD(1) [OF h] e(1) by (auto simp: free_ok_def)
  let ?found = "List.find (fitting (tags s) sz) (fl e)"
  have find: "find_tag (l_freePages s ! e) sz s = Some (Inr (case ?found of None \<Rightarrow> NULL | Some x \<Rightarrow> x))"
    unfolding F(1) using find_tag_eq [OF F(2)] free_okD(2,3) [OF heap_okD(1) [OF h]] by blast
  have fit: "fitting (tags s) sz p \<longleftrightarrow> 64 + unat sz \<le> unat (fld real_size (tags s) p)" if "p \<in> set (concat runs)" for p
    using heap_okD(4) [OF h that] sz by (auto simp: fitting_def sizeof_tag_def word_le_nat_alt unat_u32_add unat_sub block_ok_def)
  show thesis
  proof (cases ?found)
    case (Some p)
    then have p: "p \<in> set (fl e)" "fitting (tags s) sz p" by (auto simp: find_Some_iff)
    then have pm: "p \<in> set (concat runs)" and pn: "p \<noteq> NULL" using heap_okD(6) [OF h] free_okD(2) [OF heap_okD(1) [OF h]] by blast+
    show thesis
      by (rule reuse [OF p(1) e(2) [symmetric]]) (use fit [OF pm] p(2) pn i e find Some in
        \<open>simp_all add: malloc_def liballoc_init_def Let_def get_free_def MAXEXP_def\<close>)
  next
    case None
    then have "\<not> fitting (tags s) sz p" if "p \<in> set (fl e)" for p using that by (auto simp: find_None_iff)
    then have "\<not> has_room (tags s) runs sz" using fit heap_okD(6) [OF h] e(2) unfolding has_room_def by metis
    then show thesis
      by (rule extend) (use i e find None in \<open>simp add: malloc_def liballoc_init_def Let_def get_free_def MAXEXP_def\<close>)
  qed
qed

lemma liballoc_init_ok:
  assumes "heap_inv s runs"
  obtains fl where "heap_ok (tags s) (l_freePages (liballoc_init s)) fl runs {}"
    "complete_ok (l_completePages (liballoc_init s)) fl runs" "l_initialized (liballoc_init s) \<noteq> 0"
    "tags (liballoc_init s) = tags s" "below (liballoc_init s) = below s"
    "\<And>al sz. malloc al sz (liballoc_init s) = malloc al sz s"
    "MAXCOMPLETE \<notin> set (l_completePages s) \<Longrightarrow> MAXCOMPLETE \<notin> set (l_completePages (liballoc_init s))"
proof (cases "l_initialized s = 0")
  case True
  have "heap_ok (tags s) (l_freePages (liballoc_init s)) (\<lambda>_. []) runs {}" "complete_ok (l_completePages (liballoc_init s)) (\<lambda>_. []) runs"
    using True assms by (simp_all add: heap_inv_def liballoc_init_def heap_ok_def free_ok_def complete_ok_def standby_def MAXEXP_def MAXCOMPLETE_def)
  then show ?thesis by (rule that) (use True in \<open>simp_all add: liballoc_init_def malloc_def MAXCOMPLETE_def\<close>)
next
  case False
  then obtain fl where "heap_ok (tags s) (l_freePages s) fl runs {}" "complete_ok (l_completePages s) fl runs"
    using assms by (auto simp: heap_inv_def)
  then show ?thesis by (intro that [of fl]) (use False in \<open>simp_all add: liballoc_init_def\<close>)
qed

lemma malloc_no_room:
  assumes "heap_inv s runs" "unat sz \<le> 2 ^ 32 - 4128" "\<not> has_room (tags s) runs sz"
    and "allocate_new_tag al sz (liballoc_init s) = Inl e"
  shows "malloc al sz s = Inl e"
proof -
  let ?s = "liballoc_init s"
  obtain fl where I: "heap_ok (tags s) (l_freePages ?s) fl runs {}" "l_initialized ?s \<noteq> 0" "tags ?s = tags s"
    "malloc al sz ?s = malloc al sz s" by (rule liballoc_init_ok [OF assms(1)]) (rule that)
  have h: "heap_ok (tags ?s) (l_freePages ?s) fl runs {}" using I(1,3) by simp
  show ?thesis
  proof (rule malloc_search [OF h I(2) assms(2), of al])
    fix p e
    assume p: "p \<in> set (fl e)" "64 + unat sz \<le> unat (fld real_size (tags ?s) p)"
    moreover assume "int e = at_least_minexp (getexp sz)"
    ultimately have "has_room (tags s) runs sz" using heap_okD(6) [OF I(1), of p e] I(3) unfolding has_room_def by metis
    then show ?thesis using assms(3) by blast
  next
    assume "malloc al sz ?s = bindE (allocate_new_tag al sz ?s) (\<lambda>(tag, s). if tag = NULL then Inr (NULL, s) else take_tag tag sz s)"
    then show ?thesis using assms(4) I(4) by simp
  qed
qed

lemma tag_data:
  assumes h: "heap_ok T F fl runs X" and p: "p \<in> set (concat runs)" "32 < unat (fld real_size T p)"
  shows "unat (p + sizeof_tag) = unat p + 32" "p + sizeof_tag \<noteq> NULL"
proof -
  have "unat p + unat (fld real_size T p) \<le> 2 ^ 32" using heap_okD(4) [OF h p(1)] by (simp add: block_ok_def)
  then show u: "unat (p + sizeof_tag) = unat p + 32" using p(2) by (subst unat_u32_add) (simp_all add: sizeof_tag_def)
  show "p + sizeof_tag \<noteq> NULL"
  proof
    assume "p + sizeof_tag = NULL"
    then show False using u by (simp add: NULL_def)
  qed
qed

context page_provider
begin

lemma allocate_new_tag_ok:
  assumes h: "heap_ok (tags s) (l_freePages s) fl runs {}" and sz: "unat sz \<le> 2 ^ 32 - 4128"
    and A: "ready (heap_pages (unat sz)) (below s) A B" "heap_bytes (tags s) runs \<subseteq> B" "pool (below s) A B"
  shows "\<exists>q v b. allocate_new_tag al sz s = Inr (q, s\<lparr>below := v, tags := (tags s)(q \<mapsto> b)\<rparr>) \<and> q \<noteq> NULL \<and>
    heap_ok ((tags s)(q \<mapsto> b)) (l_freePages s) fl (runs @ [[q]]) {q} \<and> tag_index b = -1 \<and> 32 + unat sz \<le> unat (real_size b) \<and> 32 < unat (real_size b) \<and>
    live ((tags s)(q \<mapsto> b)) (runs @ [[q]]) {q} = live (tags s) runs {} \<and> q \<notin> set (concat runs) \<and>
    heap_bytes ((tags s)(q \<mapsto> b)) (runs @ [[q]]) = heap_bytes (tags s) runs \<union> span q (heap_pages (unat sz)) \<and>
    span q (heap_pages (unat sz)) \<subseteq> A \<and>
    pool v (A - span q (heap_pages (unat sz))) (B \<union> span q (heap_pages (unat sz))) \<and>
    (\<exists>n. unat n = heap_pages (unat sz) \<and> al n (below s) = Inr (q, v))"
proof -
  let ?n = "heap_pages (unat sz)"
  let ?usage = "sz + sizeof_tag"
  let ?p = "if ?usage mod l_pageSize \<noteq> 0 then ?usage div l_pageSize + 1 else ?usage div l_pageSize"
  define pages where "pages = (if ?p < l_pageCount then l_pageCount else ?p)"
  note P = new_pages [OF sz, folded pages_def]
  from alloc_pages [of pages "below s" A B] A(1) P(1) obtain q v where
    q: "al pages (below s) = Inr (q, v)" "q \<noteq> NULL" "unat q + 4096 * ?n \<le> 2 ^ 32" "4096 dvd unat q" "span q ?n \<subseteq> A"
      "pool v (A - span q ?n) (B \<union> span q ?n)"
    by auto
  let ?b = "\<lparr>magic = LIBALLOC_MAGIC, tag_size = sz, real_size = pages * l_pageSize, tag_index = -1,
     split_left = NULL, split_right = NULL, tag_next = NULL, tag_prev = NULL\<rparr>"
  have run: "allocate_new_tag al sz s = Inr (q, s\<lparr>below := v, tags := (tags s)(q \<mapsto> ?b)\<rparr>)"
    unfolding allocate_new_tag_def Let_def pages_def [symmetric] using q(1,2) by simp
  have r: "unat (real_size ?b) = 4096 * ?n"
    using P(1,2) by (simp add: l_pageSize_def unat_u32_mult)
  have "{unat q ..< unat q + unat (real_size ?b)} = span q ?n" by (simp add: span_def r del: boundary_tag.simps)
  then have fresh: "{unat q ..< unat q + unat (real_size ?b)} \<inter> heap_bytes (tags s) runs = {}" using q(5) A(2) pool_disjoint [OF A(3)] by blast
  have big: "32 < unat (real_size ?b)" unfolding r by (simp add: heap_pages_def)
  have k16: "16 \<le> ?n" by (simp add: heap_pages_def)
  note N = new_run_heap [OF h q(2) _ less_imp_le [OF big] q(4) r k16 _ _ _ _ _ _ fresh]
  show ?thesis
    using run q N r P(1,3) big by (intro exI [of _ q] exI [of _ v] exI [of _ ?b]) (auto simp: span_def)
qed

lemma heap_inv_kept:
  "l_initialized s \<noteq> 0 \<Longrightarrow> l_initialized s' = l_initialized s \<Longrightarrow> heap_ok (tags s') (l_freePages s') fl' runs' {} \<Longrightarrow>
    complete_ok (l_completePages s') fl' runs' \<Longrightarrow> heap_inv s' runs'"
  by (auto simp: heap_inv_def)

text \<open>A free block that is reused, and a block in new pages.\<close>

lemma malloc_reuses:
  assumes h: "heap_ok (tags s) (l_freePages s) fl runs {}" and c: "complete_ok (l_completePages s) fl runs" and i: "l_initialized s \<noteq> 0"
    and A: "pool (below s) A B" "heap_bytes (tags s) runs \<subseteq> B"
    and p: "p \<in> set (fl e)" "64 + unat sz \<le> unat (fld real_size (tags s) p)"
    and body: "malloc al sz s = bindE (remove_tag p s) (\<lambda>s. bindE (get_tag p s) (\<lambda>b.
        bindE (if split_left b = NULL \<and> split_right b = NULL then add_complete (int e) (-1) s else Inr s) (\<lambda>s.
        take_tag p sz s)))"
  shows "\<exists>p s' runs' A' B'. malloc al sz s = Inr (p, s') \<and> allocates al pool ready sz p s runs A B s' runs' A' B'"
proof -
  have pm: "p \<in> set (concat runs)" using heap_okD(6) [OF h] p(1) by blast
  from reuse_tag_ok [OF h c p, folded body] obtain s' fl' runs' where
    R: "malloc al sz s = Inr (p + sizeof_tag, s')" "below s' = below s" "l_initialized s' = l_initialized s"
      "MAXCOMPLETE \<notin> set (l_completePages s) \<longrightarrow> MAXCOMPLETE \<notin> set (l_completePages s')"
      "heap_ok (tags s') (l_freePages s') fl' runs' {}" "complete_ok (l_completePages s') fl' runs'"
      "live (tags s') runs' {} = insert (p + sizeof_tag, sz) (live (tags s) runs {})"
      "heap_bytes (tags s') runs' = heap_bytes (tags s) runs" by blast
  have "p + sizeof_tag \<noteq> NULL" using tag_data(2) [OF h pm] p(2) by linarith
  moreover have "(p + sizeof_tag, n) \<notin> live (tags s) runs {}" for n
    using heap_okD(6) [OF h, of p e] p(1) by (auto simp: live_def)
  ultimately show ?thesis using R A heap_inv_kept [OF i R(3,5,6)]
    by (intro exI [of _ "p + sizeof_tag"] exI [of _ s'] exI [of _ runs'] exI [of _ A] exI [of _ B])
      (simp add: allocates_def heap_area_def heap_live_def)
qed

lemma malloc_in_new_pages:
  assumes h: "heap_ok (tags s) (l_freePages s) fl runs {}" and c: "complete_ok (l_completePages s) fl runs"
    and i: "l_initialized s \<noteq> 0" and sz: "unat sz \<le> 2 ^ 32 - 4128" and A: "pool (below s) A B" "heap_bytes (tags s) runs \<subseteq> B"
    and rd: "ready (heap_pages (unat sz)) (below s) A B"
    and body: "malloc al sz s = bindE (allocate_new_tag al sz s) (\<lambda>(tag, s). if tag = NULL then Inr (NULL, s) else take_tag tag sz s)"
  shows "\<exists>p s' runs' A' B'. malloc al sz s = Inr (p, s') \<and> allocates al pool ready sz p s runs A B s' runs' A' B'"
proof -
  let ?n = "heap_pages (unat sz)"
  from allocate_new_tag_ok [OF h sz rd A(2,1)] obtain q v b n where
    N: "allocate_new_tag al sz s = Inr (q, s\<lparr>below := v, tags := (tags s)(q \<mapsto> b)\<rparr>)" "q \<noteq> NULL"
      "heap_ok ((tags s)(q \<mapsto> b)) (l_freePages s) fl (runs @ [[q]]) {q}" "tag_index b = -1" "32 + unat sz \<le> unat (real_size b)" "32 < unat (real_size b)"
      "live ((tags s)(q \<mapsto> b)) (runs @ [[q]]) {q} = live (tags s) runs {}" "q \<notin> set (concat runs)"
      "heap_bytes ((tags s)(q \<mapsto> b)) (runs @ [[q]]) = heap_bytes (tags s) runs \<union> span q ?n"
      "span q ?n \<subseteq> A" "pool v (A - span q ?n) (B \<union> span q ?n)" "unat n = ?n" "al n (below s) = Inr (q, v)" by blast
  let ?s1 = "s\<lparr>below := v, tags := (tags s)(q \<mapsto> b)\<rparr>"
  have "[x] \<in> set (runs @ [[q]]) \<longleftrightarrow> [x] \<in> set runs" if "x \<in> set (fl k)" for x k
    using that heap_okD(6) [OF h, of x k] N(8) by auto
  then have "complete_ok (l_completePages ?s1) fl (runs @ [[q]])"
    using complete_ok_cong [OF c, of fl "runs @ [[q]]"] standby_cong [of fl _ "runs @ [[q]]" runs] by simp
  with take_tag_ok [of ?s1 fl runs "[]" q "[]" "[]" b sz] N(2-5) obtain s' fl' runs' where
    R: "take_tag q sz ?s1 = Inr (q + sizeof_tag, s')" "below s' = v" "l_initialized s' = l_initialized s"
      "l_completePages s' = l_completePages s"
      "heap_ok (tags s') (l_freePages s') fl' runs' {}" "complete_ok (l_completePages s') fl' runs'"
      "live (tags s') runs' {} = insert (q + sizeof_tag, sz) (live ((tags s)(q \<mapsto> b)) (runs @ [[q]]) {q})"
      "heap_bytes (tags s') runs' = heap_bytes ((tags s)(q \<mapsto> b)) (runs @ [[q]])" by auto
  have "malloc al sz s = Inr (q + sizeof_tag, s')" unfolding body using N(1,2) R(1) by simp
  moreover have "q + sizeof_tag \<noteq> NULL" using tag_data [OF N(3), of q] N(6) by simp
  moreover have "(q + sizeof_tag, n) \<notin> live (tags s) runs {}" for n using N(8) by (auto simp: live_def)
  ultimately show ?thesis using R N(7,9-13) A rd heap_inv_kept [OF i R(3,5,6)]
    by (intro exI [of _ "q + sizeof_tag"] exI [of _ s'] exI [of _ runs'] exI [of _ "A - span q ?n"] exI [of _ "B \<union> span q ?n"])
      (auto simp: allocates_def heap_area_def heap_live_def)
qed

lemma malloc_initialized:
  assumes h: "heap_ok (tags s) (l_freePages s) fl runs {}" and c: "complete_ok (l_completePages s) fl runs"
    and i: "l_initialized s \<noteq> 0" and sz: "unat sz \<le> 2 ^ 32 - 4128"
    and A: "pool (below s) A B" "heap_bytes (tags s) runs \<subseteq> B"
    and room: "has_room (tags s) runs sz \<or> ready (heap_pages (unat sz)) (below s) A B"
  shows "\<exists>p s' runs' A' B'. malloc al sz s = Inr (p, s') \<and> allocates al pool ready sz p s runs A B s' runs' A' B'"
proof (rule malloc_search [OF h i sz, of al])
  fix p e
  assume "p \<in> set (fl e)" "64 + unat sz \<le> unat (fld real_size (tags s) p)"
    and "malloc al sz s = bindE (remove_tag p s) (\<lambda>s. bindE (get_tag p s) (\<lambda>b.
      bindE (if split_left b = NULL \<and> split_right b = NULL then add_complete (int e) (-1) s else Inr s) (\<lambda>s.
      take_tag p sz s)))"
  then show ?thesis by (rule malloc_reuses [OF h c i A])
next
  assume "\<not> has_room (tags s) runs sz"
  then have "ready (heap_pages (unat sz)) (below s) A B" using room by blast
  moreover assume "malloc al sz s = bindE (allocate_new_tag al sz s) (\<lambda>(tag, s). if tag = NULL then Inr (NULL, s) else take_tag tag sz s)"
  ultimately show ?thesis by (rule malloc_in_new_pages [OF h c i sz A])
qed

lemma malloc_ok:
  assumes h: "heap_inv s runs" and sz: "unat sz \<le> 2 ^ 32 - 4128" and A: "pool (below s) A B" "heap_area s runs \<subseteq> B"
    and room: "has_room (tags s) runs sz \<or> ready (heap_pages (unat sz)) (below s) A B"
  shows "\<exists>p s' runs' A' B'. malloc al sz s = Inr (p, s') \<and> allocates al pool ready sz p s runs A B s' runs' A' B'"
proof -
  let ?s = "liballoc_init s"
  obtain fl where I: "heap_ok (tags s) (l_freePages ?s) fl runs {}" "complete_ok (l_completePages ?s) fl runs" "l_initialized ?s \<noteq> 0"
    "tags ?s = tags s" "below ?s = below s" "malloc al sz ?s = malloc al sz s"
    "MAXCOMPLETE \<notin> set (l_completePages s) \<Longrightarrow> MAXCOMPLETE \<notin> set (l_completePages ?s)" by (rule liballoc_init_ok [OF h]) (rule that)
  from malloc_initialized [OF _ I(2,3) sz, of A B] I A room obtain p s' runs' A' B' where
    m: "malloc al sz s = Inr (p, s')" "allocates al pool ready sz p ?s runs A B s' runs' A' B'" by (auto simp: heap_area_def)
  have "allocates al pool ready sz p s runs A B s' runs' A' B'"
    using m(2) I(4,5,7) by (auto simp: allocates_def heap_live_def heap_area_def)
  then show ?thesis using m(1) by blast
qed

end

end
