(* ===== verification/Liballoc_Free.thy ===== *)
theory Liballoc_Free
  imports Liballoc_Ops
begin

text \<open>
  The way back of a block: \<open>free\<close> joins it with free neighbours, at most one on each side, and puts it
  into the list of its class or, when it is a whole run and five of its class stand by, returns the pages.
\<close>

section \<open>Joining with the neighbours\<close>

lemma merge_index: "fld tag_index (merge_tags T l p) = fld tag_index T"
  by (simp add: merge_tags_def fld_link_left fun_eq_iff) (simp add: fld_def)

lemma live_not_free: "is_free T l \<Longrightarrow> live T runs (insert l X) = live T runs X"
  unfolding live_def by (rule arg_cong2 [where f = image]) (auto simp: is_free_def)

text \<open>A free block that leaves its list while it is joined with its neighbour does not change the counts.\<close>

lemma standby_join:
  assumes "fl e = xs @ l # ys" "[l] \<notin> set runs" "\<And>x k. x \<in> set ((fl(e := xs @ ys)) k) \<Longrightarrow> [x] \<in> set runs' \<longleftrightarrow> [x] \<in> set runs"
  shows "standby (fl(e := xs @ ys)) runs' k = standby fl runs k"
  using standby_upd(2) [of fl e xs l ys runs k] standby_cong [of "fl(e := xs @ ys)" k runs' runs] assms by simp

text \<open>Two neighbours become one block, and one of the two leaves the free lists.\<close>

lemma join_complete:
  assumes c: "complete_ok C fl (R1 @ (as @ u # w # bs) # R2)" and d: "distinct (concat (R1 @ (as @ u # w # bs) # R2))"
    and z: "fl e = xs @ z # ys" "z = u \<or> z = w" and ne: "\<And>x k. x \<in> set ((fl(e := xs @ ys)) k) \<Longrightarrow> x \<noteq> u"
  shows "complete_ok C (fl(e := xs @ ys)) (R1 @ (as @ u # bs) # R2)"
proof -
  let ?runs = "R1 @ (as @ u # w # bs) # R2" and ?runs' = "R1 @ (as @ u # bs) # R2"
  have "[z] \<notin> set ?runs" using z(2) lone_run [of R1 as u "w # bs" R2] lone_run [of R1 "as @ [u]" w bs R2] d by auto
  moreover have "[x] \<in> set ?runs' \<longleftrightarrow> [x] \<in> set ?runs" if "x \<in> set ((fl(e := xs @ ys)) k)" for x k
    using ne [OF that] singleton_run [of x u R1 as bs R2] singleton_run [of x u R1 as "w # bs" R2] by simp
  ultimately show ?thesis using complete_ok_cong [OF c] standby_join [of fl e xs z ys ?runs ?runs', OF z(1)] by simp
qed

text \<open>To the left: the loop stops at a neighbour in use, and otherwise takes one step.\<close>

lemma melt_lefts_stop:
  assumes h: "heap_ok (tags s) F fl (R1 @ (as @ p # bs) # R2) X" and l: "as \<noteq> [] \<Longrightarrow> \<not> is_free (tags s) (last as)"
  shows "melt_lefts p s = Some (Inr (p, s))"
proof -
  note m = chain_member [OF h]
  obtain b where b: "tags s p = Some b" "p \<noteq> NULL" using m(1,2) [of p] by auto
  obtain c where c: "as \<noteq> [] \<Longrightarrow> tags s (last as) = Some c" using m(2) [of "last as"] by fastforce
  have "split_left b = last_or NULL as" using chain_links(2) [OF h] b by (simp add: fld_def)
  then show ?thesis using b c l m(1) [of "last as"]
    by (cases "as = []") (auto simp: melt_lefts.simps [of p] get_tag_Inr last_or_def is_free_def fld_def)
qed

lemma melt_lefts_step:
  assumes h: "heap_ok (tags s) (l_freePages s) fl (R1 @ (as @ l # p # bs) # R2) {p}" and p: "fld tag_index (tags s) p = -1"
    and c: "complete_ok (l_completePages s) fl (R1 @ (as @ l # p # bs) # R2)" and fr: "is_free (tags s) l"
  obtains T F fl' where "melt_lefts p s = melt_lefts l (s\<lparr>tags := T, l_freePages := F\<rparr>)"
    "heap_ok T F fl' (R1 @ (as @ l # bs) # R2) {l}" "fld tag_index T l = -1"
    "complete_ok (l_completePages s) fl' (R1 @ (as @ l # bs) # R2)" "as \<noteq> [] \<Longrightarrow> \<not> is_free T (last as)"
    "live T (R1 @ (as @ l # bs) # R2) {l} = live (tags s) (R1 @ (as @ l # p # bs) # R2) {p}"
    "heap_bytes T (R1 @ (as @ l # bs) # R2) = heap_bytes (tags s) (R1 @ (as @ l # p # bs) # R2)"
proof -
  let ?runs = "R1 @ (as @ l # p # bs) # R2" and ?runs' = "R1 @ (as @ l # bs) # R2"
  note m = chain_member [OF h]
  obtain b where b: "tags s p = Some b" "p \<noteq> NULL" using m(1,2) [of p] by auto
  obtain b' where l: "tags s l = Some b'" "l \<noteq> NULL" using m(1,2) [of l] by auto
  have h': "heap_ok (tags s) (l_freePages s) fl (R1 @ ((as @ [l]) @ p # bs) # R2) {p}" using h by simp
  have lk: "split_left b = l" "split_right b = hd_or bs NULL" using chain_links [OF h'] b by (simp_all add: fld_def last_or_def)
  have d: "distinct (as @ l # p # bs)" by (rule distinct_run(1) [OF heap_okD(2) [OF h]])
  let ?s1 = "s\<lparr>tags := merge_tags (tags s) l p\<rparr>"
  have ml: "melt_left p s = Inr (l, ?s1)"
    using melt_left_eq [of p l s b b'] b l lk d m(2) [of "hd bs"] by (cases bs) auto
  note M = merge_heap [OF h _ p, simplified]
  have h1: "heap_ok (tags ?s1) (l_freePages ?s1) fl ?runs' {l}" using M(1) by simp
  have f1: "is_free (tags ?s1) l" using fr by (simp add: is_free_def merge_index)
  obtain T F e xs ys where R: "remove_tag l ?s1 = Inr (?s1\<lparr>tags := T, l_freePages := F\<rparr>)"
    "fl e = xs @ l # ys" "heap_ok T F (fl(e := xs @ ys)) ?runs' (insert l {l})"
    "live T ?runs' (insert l {l}) = live (tags ?s1) ?runs' {l}" "heap_bytes T ?runs' = heap_bytes (tags ?s1) ?runs'"
    "\<And>q. fld tag_index T q = (if q = l then -1 else fld tag_index (tags ?s1) q)"
    by (rule remove_tag_heap [OF h1 _ f1]) (simp, rule that)
  have "melt_lefts p s = melt_lefts l (s\<lparr>tags := T, l_freePages := F\<rparr>)"
    using b l lk fr ml R(1) by (simp add: melt_lefts.simps [of p] get_tag_Inr is_free_def fld_def)
  moreover have il: "fld tag_index T l = -1" using R(6) [of l] by simp
  moreover have "\<not> is_free T (last as)" if "as \<noteq> []"
  proof -
    have "adjacent (tags s) {p} (last as) l" "last as \<noteq> l" "last as \<noteq> p" "l \<noteq> p"
      using heap_okD(3) [OF h, of "as @ l # p # bs"] that d unfolding run_ok_split by auto
    then show ?thesis using fr R(6) [of "last as"] by (simp add: adjacent_def is_free_def merge_index)
  qed
  moreover have "x \<noteq> l" if "x \<in> set ((fl(e := xs @ ys)) k)" for x k using listed_not_taken [OF R(3) that il] .
  then have "complete_ok (l_completePages s) (fl(e := xs @ ys)) ?runs'"
    by (intro join_complete [OF c heap_okD(2) [OF h] R(2)]) auto
  ultimately show thesis using R(3-5) M(2,3) live_not_free [OF fr] that by simp
qed

lemma melt_lefts_ok:
  assumes h: "heap_ok (tags s) (l_freePages s) fl (R1 @ (as @ p # bs) # R2) {p}" and p: "fld tag_index (tags s) p = -1"
    and c: "complete_ok (l_completePages s) fl (R1 @ (as @ p # bs) # R2)"
  shows "\<exists>T F fl' as' p'. melt_lefts p s = Some (Inr (p', s\<lparr>tags := T, l_freePages := F\<rparr>)) \<and>
    heap_ok T F fl' (R1 @ (as' @ p' # bs) # R2) {p'} \<and> fld tag_index T p' = -1 \<and>
    complete_ok (l_completePages s) fl' (R1 @ (as' @ p' # bs) # R2) \<and> (as' \<noteq> [] \<longrightarrow> \<not> is_free T (last as')) \<and>
    live T (R1 @ (as' @ p' # bs) # R2) {p'} = live (tags s) (R1 @ (as @ p # bs) # R2) {p} \<and>
    heap_bytes T (R1 @ (as' @ p' # bs) # R2) = heap_bytes (tags s) (R1 @ (as @ p # bs) # R2)"
proof (cases "as \<noteq> [] \<and> is_free (tags s) (last as)")
  case False
  then have "melt_lefts p s = Some (Inr (p, s\<lparr>tags := tags s, l_freePages := l_freePages s\<rparr>))" by (subst melt_lefts_stop [OF h]) simp_all
  then show ?thesis using h p c False by blast
next
  case True
  then obtain as' l where as: "as = as' @ [l]" by (metis rev_exhaust)
  have "is_free (tags s) l" "heap_ok (tags s) (l_freePages s) fl (R1 @ (as' @ l # p # bs) # R2) {p}"
    "complete_ok (l_completePages s) fl (R1 @ (as' @ l # p # bs) # R2)" using True h c as by simp_all
  then obtain T F fl' where S: "melt_lefts p s = melt_lefts l (s\<lparr>tags := T, l_freePages := F\<rparr>)"
    "heap_ok T F fl' (R1 @ (as' @ l # bs) # R2) {l}" "fld tag_index T l = -1"
    "complete_ok (l_completePages s) fl' (R1 @ (as' @ l # bs) # R2)" "as' \<noteq> [] \<Longrightarrow> \<not> is_free T (last as')"
    "live T (R1 @ (as' @ l # bs) # R2) {l} = live (tags s) (R1 @ (as' @ l # p # bs) # R2) {p}"
    "heap_bytes T (R1 @ (as' @ l # bs) # R2) = heap_bytes (tags s) (R1 @ (as' @ l # p # bs) # R2)"
    using melt_lefts_step [OF _ p] by metis
  have "melt_lefts p s = Some (Inr (l, s\<lparr>tags := T, l_freePages := F\<rparr>))"
    unfolding S(1) by (rule melt_lefts_stop) (use S(2,5) in simp_all)
  moreover have "R1 @ (as @ p # bs) # R2 = R1 @ (as' @ l # p # bs) # R2" by (simp add: as)
  ultimately show ?thesis using S(2-7) by metis
qed

text \<open>To the right.\<close>

lemma absorb_rights_stop:
  assumes h: "heap_ok (tags s) F fl (R1 @ (as @ p # bs) # R2) X" and r: "bs \<noteq> [] \<Longrightarrow> \<not> is_free (tags s) (hd bs)"
  shows "absorb_rights p s = Some (Inr (p, s))"
proof -
  note m = chain_member [OF h]
  obtain b where b: "tags s p = Some b" "p \<noteq> NULL" using m(1,2) [of p] by auto
  obtain c where c: "bs \<noteq> [] \<Longrightarrow> tags s (hd bs) = Some c" using m(2) [of "hd bs"] by fastforce
  have "split_right b = hd_or bs NULL" using chain_links(1) [OF h] b by (simp add: fld_def)
  then show ?thesis using b c r m(1) [of "hd bs"]
    by (cases bs) (auto simp: absorb_rights.simps [of p] get_tag_Inr is_free_def fld_def)
qed

lemma absorb_rights_step:
  assumes h: "heap_ok (tags s) (l_freePages s) fl (R1 @ (as @ p # r # bs) # R2) {p}" and p: "fld tag_index (tags s) p = -1"
    and c: "complete_ok (l_completePages s) fl (R1 @ (as @ p # r # bs) # R2)" and fr: "is_free (tags s) r"
  obtains T F fl' where "absorb_rights p s = absorb_rights p (s\<lparr>tags := T, l_freePages := F\<rparr>)"
    "heap_ok T F fl' (R1 @ (as @ p # bs) # R2) {p}" "complete_ok (l_completePages s) fl' (R1 @ (as @ p # bs) # R2)"
    "\<And>q. fld tag_index T q = (if q = r then -1 else fld tag_index (tags s) q)" "bs \<noteq> [] \<Longrightarrow> \<not> is_free T (hd bs)"
    "live T (R1 @ (as @ p # bs) # R2) {p} = live (tags s) (R1 @ (as @ p # r # bs) # R2) {p}"
    "heap_bytes T (R1 @ (as @ p # bs) # R2) = heap_bytes (tags s) (R1 @ (as @ p # r # bs) # R2)"
proof -
  let ?runs = "R1 @ (as @ p # r # bs) # R2" and ?runs' = "R1 @ (as @ p # bs) # R2"
  obtain b br where b: "tags s p = Some b" "p \<noteq> NULL" "tags s r = Some br" using chain_member(1,2) [OF h, of p] chain_member(2) [OF h, of r] by auto
  have sr: "split_right b = r" using chain_links(1) [OF h] b by (simp add: fld_def)
  have d: "distinct (as @ p # r # bs)" by (rule distinct_run(1) [OF heap_okD(2) [OF h]])
  obtain T F e xs ys where R: "remove_tag r s = Inr (s\<lparr>tags := T, l_freePages := F\<rparr>)"
    "fl e = xs @ r # ys" "heap_ok T F (fl(e := xs @ ys)) ?runs (insert r {p})"
    "live T ?runs (insert r {p}) = live (tags s) ?runs {p}" "heap_bytes T ?runs = heap_bytes (tags s) ?runs"
    "\<And>q. fld tag_index T q = (if q = r then -1 else fld tag_index (tags s) q)"
    by (rule remove_tag_heap [OF h _ fr]) (simp, rule that)
  let ?fl = "fl(e := xs @ ys)" and ?T2 = "merge_tags T p r"
  have rX: "r \<in> insert r {p}" "insert p (insert r {p} - {r}) = {p}" "insert p (insert r {p}) = insert r {p}"
    "insert r {p} \<subseteq> set (as @ p # r # bs)" using d by auto
  note M = merge_heap [OF R(3) rX(1) _ rX(4), unfolded rX(2,3)]
  have ir: "fld tag_index T r = -1" and ip: "fld tag_index T p = -1" using R(6) [of r] R(6) [of p] p by simp_all
  have m1: "T p \<noteq> None" "T r \<noteq> None" "r \<noteq> NULL" "bs \<noteq> [] \<Longrightarrow> T (hd bs) \<noteq> None" using chain_member(1,2) [OF R(3)] by auto
  have srr: "fld split_right T r = hd_or bs NULL" using chain_links(1) [of T F ?fl R1 "as @ [p]" r bs R2] R(3) by simp
  have "absorb_right p s = Inr (p, s\<lparr>tags := ?T2, l_freePages := F\<rparr>)"
    using absorb_right_eq [OF b(2) m1(3) b(1) _ _ R(1)] sr d m1 srr by (cases bs) (auto simp: fld_def)
  then have "absorb_rights p s = absorb_rights p (s\<lparr>tags := ?T2, l_freePages := F\<rparr>)"
    using b sr m1(3) fr by (simp add: absorb_rights.simps [of p s] get_tag_Inr is_free_def fld_def)
  moreover have idx: "fld tag_index ?T2 q = (if q = r then -1 else fld tag_index (tags s) q)" for q using R(6) by (simp add: merge_index)
  moreover have "\<not> is_free ?T2 (hd bs)" if "bs \<noteq> []"
  proof -
    have "hd bs \<noteq> r" "hd bs \<noteq> p" "r \<noteq> p" using d list.set_sel(1) [OF that] by force+
    moreover have "adjacent (tags s) {p} r (hd bs)"
      using heap_okD(3) [OF h, of "as @ p # r # bs"] that unfolding run_ok_split by (auto simp: successively_Cons)
    ultimately show ?thesis using fr by (simp add: adjacent_def is_free_def idx)
  qed
  moreover have "x \<noteq> p" if "x \<in> set (?fl k)" for x k using listed_not_taken [OF R(3) that ip] .
  then have "complete_ok (l_completePages s) ?fl ?runs'" by (intro join_complete [OF c heap_okD(2) [OF h] R(2)]) auto
  ultimately show thesis using R(4,5) M(1-3) [OF ir] that by simp
qed

lemma absorb_rights_ok:
  assumes h: "heap_ok (tags s) (l_freePages s) fl (R1 @ (as @ p # bs) # R2) {p}" and p: "fld tag_index (tags s) p = -1"
    and c: "complete_ok (l_completePages s) fl (R1 @ (as @ p # bs) # R2)" and l: "as \<noteq> [] \<longrightarrow> \<not> is_free (tags s) (last as)"
  shows "\<exists>T F fl' bs'. absorb_rights p s = Some (Inr (p, s\<lparr>tags := T, l_freePages := F\<rparr>)) \<and>
    heap_ok T F fl' (R1 @ (as @ p # bs') # R2) {p} \<and> fld tag_index T p = -1 \<and>
    complete_ok (l_completePages s) fl' (R1 @ (as @ p # bs') # R2) \<and>
    (as \<noteq> [] \<longrightarrow> \<not> is_free T (last as)) \<and> (bs' \<noteq> [] \<longrightarrow> \<not> is_free T (hd bs')) \<and>
    live T (R1 @ (as @ p # bs') # R2) {p} = live (tags s) (R1 @ (as @ p # bs) # R2) {p} \<and>
    heap_bytes T (R1 @ (as @ p # bs') # R2) = heap_bytes (tags s) (R1 @ (as @ p # bs) # R2)"
proof (cases "bs \<noteq> [] \<and> is_free (tags s) (hd bs)")
  case False
  then have "absorb_rights p s = Some (Inr (p, s\<lparr>tags := tags s, l_freePages := l_freePages s\<rparr>))" by (subst absorb_rights_stop [OF h]) simp_all
  then show ?thesis using h p c l False by blast
next
  case True
  then obtain r bs' where bs: "bs = r # bs'" by (metis list.exhaust)
  have "is_free (tags s) r" using True bs by simp
  with absorb_rights_step [OF h [unfolded bs] p c [unfolded bs]] obtain T F fl' where
    S: "absorb_rights p s = absorb_rights p (s\<lparr>tags := T, l_freePages := F\<rparr>)"
    "heap_ok T F fl' (R1 @ (as @ p # bs') # R2) {p}" "complete_ok (l_completePages s) fl' (R1 @ (as @ p # bs') # R2)"
    "\<And>q. fld tag_index T q = (if q = r then -1 else fld tag_index (tags s) q)" "bs' \<noteq> [] \<Longrightarrow> \<not> is_free T (hd bs')"
    "live T (R1 @ (as @ p # bs') # R2) {p} = live (tags s) (R1 @ (as @ p # bs) # R2) {p}"
    "heap_bytes T (R1 @ (as @ p # bs') # R2) = heap_bytes (tags s) (R1 @ (as @ p # bs) # R2)" unfolding bs by metis
  have "absorb_rights p s = Some (Inr (p, s\<lparr>tags := T, l_freePages := F\<rparr>))"
    unfolding S(1) by (rule absorb_rights_stop) (use S(2,5) in simp_all)
  moreover have "fld tag_index T p = -1" "as \<noteq> [] \<longrightarrow> \<not> is_free T (last as)" using S(4) p l by (auto simp: is_free_def)
  ultimately show ?thesis using S(2,3,5-7) by blast
qed

section \<open>Where the block goes\<close>

lemma run_pages:
  assumes h: "heap_ok T F fl (R1 @ [p] # R2) X"
  defines "r \<equiv> fld real_size T p"
  defines "pages \<equiv> (if r mod l_pageSize \<noteq> 0 then r div l_pageSize + 1 else r div l_pageSize)"
  shows "4096 dvd unat p" "seg T p = span p (unat (if pages < l_pageCount then l_pageCount else pages))"
proof -
  have "run_ok T X [p]" using heap_okD(3) [OF h] by simp
  then obtain k where k: "4096 dvd unat p" "16 \<le> k" "unat r = 4096 * k" by (auto simp: run_ok_def paged_def r_def)
  show "4096 dvd unat p" by (rule k(1))
  have "unat (r mod l_pageSize) = 0" "unat (r div l_pageSize) = k" using k(3) by (simp_all add: l_pageSize_def unat_mod unat_div)
  then have "unat pages = k" by (simp add: pages_def unat_eq_zero)
  then have "unat (if pages < l_pageCount then l_pageCount else pages) = k"
    using k(2) by (simp add: l_pageCount_def word_less_nat_alt)
  then show "seg T p = span p (unat (if pages < l_pageCount then l_pageCount else pages))"
    using k(3) by (simp add: seg_def span_def r_def)
qed

lemma put_back_run:
  assumes h: "heap_ok (tags s) (l_freePages s) fl (R1 @ (as @ p # bs) # R2) {p}"
  obtains b e where "tags s p = Some b" "p \<noteq> NULL" "e < MAXEXP" "size_class (real_size b) = int e"
    "put_back fr p s =
     (if as = [] \<and> bs = [] then
        if l_completePages s ! e = MAXCOMPLETE then
         let pages = real_size b div l_pageSize;
             pages = (if real_size b mod l_pageSize \<noteq> 0 then pages + 1 else pages);
             pages = (if pages < l_pageCount then l_pageCount else pages)
         in bindE (fr p pages (below s)) (\<lambda>v. Inr (s\<lparr>below := v\<rparr>))
        else bindE (add_complete (int e) 1 s) (insert_tag p (int e))
      else insert_tag p (int e) s)"
proof -
  obtain b where b: "tags s p = Some b" "p \<noteq> NULL" using chain_member(1,2) [OF h, of p] by auto
  let ?i = "at_least_minexp (getexp (real_size b - sizeof_tag))"
  obtain e where e: "?i = int e" "e < MAXEXP"
    using size_class_range(3,4) [of "real_size b - sizeof_tag"] by (intro that [of "nat ?i"]) (simp_all add: MAXEXP_def)
  have lone: "split_left b = NULL \<and> split_right b = NULL \<longleftrightarrow> as = [] \<and> bs = []"
    using lone_links [OF h] b by (simp add: fld_def)
  show thesis
    by (rule that [OF b e(2)]) (use e(1) in \<open>simp_all add: size_class_def put_back_def get_tag_Inr [OF b(2,1)] lone Let_def\<close>)
qed

lemma put_back_insert:
  assumes h: "heap_ok (tags s) (l_freePages s) fl (R1 @ (as @ p # bs) # R2) {p}" and p: "fld tag_index (tags s) p = -1"
    and l: "as \<noteq> [] \<longrightarrow> \<not> is_free (tags s) (last as)" and r: "bs \<noteq> [] \<longrightarrow> \<not> is_free (tags s) (hd bs)"
    and e: "tags s p = Some b" "size_class (real_size b) = int e"
    and s1: "tags s1 = tags s" "l_freePages s1 = l_freePages s"
  obtains T F where "insert_tag p (int e) s1 = Inr (s1\<lparr>tags := T, l_freePages := F\<rparr>)"
    "heap_ok T F (fl(e := p # fl e)) (R1 @ (as @ p # bs) # R2) {}"
    "live T (R1 @ (as @ p # bs) # R2) {} = live (tags s) (R1 @ (as @ p # bs) # R2) {p}"
    "heap_bytes T (R1 @ (as @ p # bs) # R2) = heap_bytes (tags s) (R1 @ (as @ p # bs) # R2)"
proof -
  have rb: "fld real_size (tags s) p = real_size b" using e by (simp add: fld_def)
  obtain T e' where I: "insert_tag p (int e) s1 = Inr (s1\<lparr>tags := T, l_freePages := (l_freePages s1)[e' := p]\<rparr>)"
    "int e' = size_class (fld real_size (tags s1) p)"
    "heap_ok T ((l_freePages s1)[e' := p]) (fl(e' := p # fl e')) (R1 @ (as @ p # bs) # R2) {}"
    "live T (R1 @ (as @ p # bs) # R2) {} = live (tags s1) (R1 @ (as @ p # bs) # R2) {p}"
    "heap_bytes T (R1 @ (as @ p # bs) # R2) = heap_bytes (tags s1) (R1 @ (as @ p # bs) # R2)"
    by (rule insert_tag_heap [of s1 fl R1 as p bs R2 "int e"]) (use h p l r rb e(2) s1 that in auto)
  then have "e' = e" using e(2) rb s1 by simp
  then show thesis using I s1 that by simp
qed

text \<open>A run given back: the hook is called with its pages, and the run is no longer part of the heap.\<close>

lemma put_back_return:
  assumes h: "heap_ok (tags s) (l_freePages s) fl (R1 @ [p] # R2) {p}" and p: "fld tag_index (tags s) p = -1"
    and c: "complete_ok (l_completePages s) fl (R1 @ [p] # R2)" and b: "tags s p = Some b"
    and put: "put_back fr p s = (let pages = real_size b div l_pageSize;
             pages = (if real_size b mod l_pageSize \<noteq> 0 then pages + 1 else pages);
             pages = (if pages < l_pageCount then l_pageCount else pages)
         in bindE (fr p pages (below s)) (\<lambda>v. Inr (s\<lparr>below := v\<rparr>)))"
  shows "heap_ok (tags s) (l_freePages s) fl (R1 @ R2) {}" "complete_ok (l_completePages s) fl (R1 @ R2)"
    "live (tags s) (R1 @ R2) {} = live (tags s) (R1 @ [p] # R2) {p}"
    "returned fr (put_back fr p s) s (heap_bytes (tags s) (R1 @ [p] # R2)) s (heap_bytes (tags s) (R1 @ R2))"
proof -
  have rb: "fld real_size (tags s) p = real_size b" using b by (simp add: fld_def)
  note P = run_pages [OF h, unfolded rb] and D = drop_run_heap [OF h p]
  show "heap_ok (tags s) (l_freePages s) fl (R1 @ R2) {}" "live (tags s) (R1 @ R2) {} = live (tags s) (R1 @ [p] # R2) {p}"
    using D(1,2) by simp_all
  have "p \<notin> set (fl k)" for k using listed_not_taken [OF h _ p] by blast
  then have "[x] \<in> set (R1 @ R2) \<longleftrightarrow> [x] \<in> set (R1 @ [p] # R2)" if "x \<in> set (fl k)" for x k
    using that by auto
  then show "complete_ok (l_completePages s) fl (R1 @ R2)"
    using complete_ok_cong [OF c] standby_cong [of fl _ "R1 @ R2" "R1 @ [p] # R2"] by simp
  let ?q = "if real_size b mod l_pageSize \<noteq> 0 then real_size b div l_pageSize + 1 else real_size b div l_pageSize"
  let ?n = "if ?q < l_pageCount then l_pageCount else ?q"
  have "seg (tags s) p \<subseteq> heap_bytes (tags s) (R1 @ [p] # R2)" by (auto simp: heap_bytes_def)
  then show "returned fr (put_back fr p s) s (heap_bytes (tags s) (R1 @ [p] # R2)) s (heap_bytes (tags s) (R1 @ R2))"
    unfolding returned_def put Let_def using P D(3) by (intro exI [of _ p] exI [of _ ?n]) simp
qed

lemma put_back_ok:
  assumes h: "heap_ok (tags s) (l_freePages s) fl (R1 @ (as @ p # bs) # R2) {p}" and p: "fld tag_index (tags s) p = -1"
    and c: "complete_ok (l_completePages s) fl (R1 @ (as @ p # bs) # R2)"
    and l: "as \<noteq> [] \<longrightarrow> \<not> is_free (tags s) (last as)" and r: "bs \<noteq> [] \<longrightarrow> \<not> is_free (tags s) (hd bs)"
  shows "\<exists>s' fl' runs'. heap_ok (tags s') (l_freePages s') fl' runs' {} \<and> complete_ok (l_completePages s') fl' runs' \<and>
    l_initialized s' = l_initialized s \<and> below s' = below s \<and>
    live (tags s') runs' {} = live (tags s) (R1 @ (as @ p # bs) # R2) {p} \<and>
    (put_back fr p s = Inr s' \<and> heap_bytes (tags s') runs' = heap_bytes (tags s) (R1 @ (as @ p # bs) # R2) \<or>
     MAXCOMPLETE \<in> set (l_completePages s) \<and>
     returned fr (put_back fr p s) s (heap_bytes (tags s) (R1 @ (as @ p # bs) # R2)) s' (heap_bytes (tags s') runs'))"
proof -
  let ?runs = "R1 @ (as @ p # bs) # R2"
  obtain b e where b: "tags s p = Some b" "p \<noteq> NULL" and e: "e < MAXEXP" "size_class (real_size b) = int e"
    and put: "put_back fr p s =
     (if as = [] \<and> bs = [] then
        if l_completePages s ! e = MAXCOMPLETE then
         let pages = real_size b div l_pageSize;
             pages = (if real_size b mod l_pageSize \<noteq> 0 then pages + 1 else pages);
             pages = (if pages < l_pageCount then l_pageCount else pages)
         in bindE (fr p pages (below s)) (\<lambda>v. Inr (s\<lparr>below := v\<rparr>))
        else bindE (add_complete (int e) 1 s) (insert_tag p (int e))
      else insert_tag p (int e) s)" by (rule put_back_run [OF h]) (rule that)
  note ins = put_back_insert [OF h p l r b(1) e(2)]
  let ?C = "(l_completePages s)[e := l_completePages s ! e + 1]"
  consider (part) "as \<noteq> [] \<or> bs \<noteq> []" | (whole) "as = [] \<and> bs = []" "l_completePages s ! e \<noteq> MAXCOMPLETE"
    | (full) "as = []" "bs = []" "l_completePages s ! e = MAXCOMPLETE" by blast
  then show ?thesis
  proof cases
    case part
    then have "[p] \<notin> set ?runs" using lone_run [OF heap_okD(2) [OF h]] by simp
    then have "complete_ok (l_completePages s) (fl(e := p # fl e)) ?runs" using complete_ok_cong [OF c] standby_upd(1) by simp
    moreover have "put_back fr p s = insert_tag p (int e) s" using part put by auto
    moreover obtain T F where "insert_tag p (int e) s = Inr (s\<lparr>tags := T, l_freePages := F\<rparr>)" "heap_ok T F (fl(e := p # fl e)) ?runs {}"
      "live T ?runs {} = live (tags s) ?runs {p}" "heap_bytes T ?runs = heap_bytes (tags s) ?runs" by (rule ins [OF refl refl]) (rule that)
    ultimately show ?thesis
      by (intro exI [of _ "s\<lparr>tags := T, l_freePages := F\<rparr>"] exI [of _ "fl(e := p # fl e)"] exI [of _ ?runs]) simp
  next
    case whole
    let ?s1 = "s\<lparr>l_completePages := ?C\<rparr>"
    have le: "0 \<le> l_completePages s ! e + 1" "l_completePages s ! e + 1 \<le> MAXCOMPLETE"
      using c e(1) whole(2) unfolding complete_ok_def by force+
    have "complete_ok ?C (fl(e := p # fl e)) ?runs"
      using whole(1) standby_upd(1) [of fl e p ?runs] by (intro complete_ok_add [OF c e(1) le]) simp
    moreover have "put_back fr p s = insert_tag p (int e) ?s1" using put whole e(1) by (simp add: add_complete_def)
    moreover obtain T F where "insert_tag p (int e) ?s1 = Inr (?s1\<lparr>tags := T, l_freePages := F\<rparr>)" "heap_ok T F (fl(e := p # fl e)) ?runs {}"
      "live T ?runs {} = live (tags s) ?runs {p}" "heap_bytes T ?runs = heap_bytes (tags s) ?runs"
      by (rule ins [of ?s1]) (simp_all add: that)
    ultimately show ?thesis
      by (intro exI [of _ "?s1\<lparr>tags := T, l_freePages := F\<rparr>"] exI [of _ "fl(e := p # fl e)"] exI [of _ ?runs]) simp
  next
    case full
    have "MAXCOMPLETE \<in> set (l_completePages s)" using full(3) e(1) c by (auto simp: complete_ok_def in_set_conv_nth)
    moreover note put_back_return [of s fl R1 p R2 b fr] put h c p b(1) full
    ultimately show ?thesis by (intro exI [of _ s] exI [of _ fl] exI [of _ "R1 @ R2"]) simp
  qed
qed

section \<open>The operation\<close>

lemma live_block:
  assumes "(a, n) \<in> live T runs {}"
  obtains p where "a = p + sizeof_tag" "p \<in> set (concat runs)" "fld tag_index T p = -1" "fld tag_size T p = n"
  using assms that by (auto simp: live_def simp del: set_concat)

lemma live_remove:
  assumes "p \<in> set (concat runs)" "fld tag_index T p = -1"
  shows "live T runs {p} = live T runs {} - {(p + sizeof_tag, fld tag_size T p)}"
  using assms by (auto simp: live_def simp del: set_concat)

lemma free_ok_heap:
  assumes h: "heap_inv s runs" and a: "(a, n) \<in> heap_live s runs" "a \<noteq> NULL"
  shows "\<exists>s' runs'. heap_inv s' runs' \<and> below s' = below s \<and> heap_live s' runs' = heap_live s runs - {(a, n)} \<and>
    (free fr a s = Inr s' \<and> heap_area s' runs' = heap_area s runs \<or>
     MAXCOMPLETE \<in> set (l_completePages s) \<and> returned fr (free fr a s) s (heap_area s runs) s' (heap_area s' runs'))"
proof -
  have i: "l_initialized s \<noteq> 0" using h a by (auto simp: heap_inv_def heap_live_def live_def)
  then obtain fl where fl: "heap_ok (tags s) (l_freePages s) fl runs {}" "complete_ok (l_completePages s) fl runs"
    using h by (auto simp: heap_inv_def)
  obtain p where p: "a = p + sizeof_tag" "p \<in> set (concat runs)" "fld tag_index (tags s) p = -1" "fld tag_size (tags s) p = n"
    using a(1) unfolding heap_live_def by (rule live_block)
  obtain R1 as bs R2 where runs: "runs = R1 @ (as @ p # bs) # R2" by (rule split_runs [OF p(2)])
  have h0: "heap_ok (tags s) (l_freePages s) fl (R1 @ (as @ p # bs) # R2) {p}" using heap_ok_weaken [OF fl(1)] runs by simp
  have "T p \<noteq> None \<Longrightarrow> peek_tag p s' = the (T p)" if "tags s' = T" for T and s' :: "'a liballoc" using that by (auto simp: peek_tag_def)
  then have mg: "magic (peek_tag p s) = LIBALLOC_MAGIC"
    using heap_okD(4) [OF fl(1) p(2)] by (simp add: block_ok_def fld_def)
  from melt_lefts_ok [OF h0 p(3) fl(2) [unfolded runs]] obtain T F fl1 as1 p1 where
    M: "melt_lefts p s = Some (Inr (p1, s\<lparr>tags := T, l_freePages := F\<rparr>))" "heap_ok T F fl1 (R1 @ (as1 @ p1 # bs) # R2) {p1}"
      "fld tag_index T p1 = -1" "complete_ok (l_completePages s) fl1 (R1 @ (as1 @ p1 # bs) # R2)"
      "as1 \<noteq> [] \<longrightarrow> \<not> is_free T (last as1)" "live T (R1 @ (as1 @ p1 # bs) # R2) {p1} = live (tags s) runs {p}"
      "heap_bytes T (R1 @ (as1 @ p1 # bs) # R2) = heap_bytes (tags s) runs" unfolding runs by blast
  let ?s1 = "s\<lparr>tags := T, l_freePages := F\<rparr>"
  from absorb_rights_ok [of ?s1 fl1 R1 as1 p1 bs R2] M obtain T2 F2 fl2 bs2 where
    A: "absorb_rights p1 ?s1 = Some (Inr (p1, s\<lparr>tags := T2, l_freePages := F2\<rparr>))" "heap_ok T2 F2 fl2 (R1 @ (as1 @ p1 # bs2) # R2) {p1}"
      "fld tag_index T2 p1 = -1" "complete_ok (l_completePages s) fl2 (R1 @ (as1 @ p1 # bs2) # R2)"
      "as1 \<noteq> [] \<longrightarrow> \<not> is_free T2 (last as1)" "bs2 \<noteq> [] \<longrightarrow> \<not> is_free T2 (hd bs2)"
      "live T2 (R1 @ (as1 @ p1 # bs2) # R2) {p1} = live (tags s) runs {p}"
      "heap_bytes T2 (R1 @ (as1 @ p1 # bs2) # R2) = heap_bytes (tags s) runs" by auto
  let ?s2 = "s\<lparr>tags := T2, l_freePages := F2\<rparr>"
  have run: "free fr a s = put_back fr p1 ?s2" unfolding free_def Let_def using a(2) p(1) mg M(1) A(1) by simp
  from put_back_ok [of ?s2 fl2 R1 as1 p1 bs2 R2 fr] A obtain s' fl' runs' where
    B: "heap_ok (tags s') (l_freePages s') fl' runs' {}" "complete_ok (l_completePages s') fl' runs'"
      "l_initialized s' = l_initialized s" "below s' = below s" "live (tags s') runs' {} = live (tags s) runs {p}"
      "put_back fr p1 ?s2 = Inr s' \<and> heap_bytes (tags s') runs' = heap_bytes (tags s) runs \<or>
       MAXCOMPLETE \<in> set (l_completePages s) \<and>
       returned fr (put_back fr p1 ?s2) ?s2 (heap_bytes (tags s) runs) s' (heap_bytes (tags s') runs')" by auto
  have "heap_inv s' runs'" using B(1-3) i by (auto simp: heap_inv_def)
  moreover have "live (tags s') runs' {} = live (tags s) runs {} - {(a, n)}" using B(5) live_remove [OF p(2,3)] p(1,4) by simp
  moreover have "returned fr x ?s2 Y s' Z \<longleftrightarrow> returned fr x s Y s' Z" for x Y Z by (simp add: returned_def)
  ultimately show ?thesis using B(4,6) unfolding run heap_live_def heap_area_def by metis
qed

end
