(* ===== verification/Liballoc_Data.thy ===== *)
theory Liballoc_Data
  imports Liballoc_Free
begin

text \<open>
  What the allocator does to the bytes of blocks: allocation changes none of them, \<open>calloc\<close> fills its
  block with zeros, \<open>realloc\<close> and \<open>strdup\<close> copy.
\<close>

section \<open>Blocks as sets of bytes\<close>

lemma live_seg:
  assumes h: "heap_inv s runs" and a: "(a, n) \<in> heap_live s runs"
  obtains p fl where "heap_ok (tags s) (l_freePages s) fl runs {}" "a = p + sizeof_tag" "p \<in> set (concat runs)"
    "fld tag_size (tags s) p = n" "bytes a n \<subseteq> seg (tags s) p" "unat a + unat n \<le> 2 ^ 32"
proof -
  have "l_initialized s \<noteq> 0" using h a by (auto simp: heap_inv_def heap_live_def live_def)
  then obtain fl where h: "heap_ok (tags s) (l_freePages s) fl runs {}" using h by (auto simp: heap_inv_def)
  obtain p where p: "a = p + sizeof_tag" "p \<in> set (concat runs)" "fld tag_index (tags s) p = -1" "fld tag_size (tags s) p = n"
    using a unfolding heap_live_def by (rule live_block)
  note b = heap_okD(4) [OF h p(2)]
  let ?r = "unat (fld real_size (tags s) p)"
  have r: "32 + unat n \<le> ?r" "unat p + ?r \<le> 2 ^ 32"
    using b p(3,4) size_class_range(1) [of "fld real_size (tags s) p"] by (auto simp: block_ok_def)
  have "bytes a n \<subseteq> seg (tags s) p \<and> unat a + unat n \<le> 2 ^ 32"
  proof (cases "32 < ?r")
    case True
    then have "unat a = unat p + 32" using tag_data(1) [OF h p(2)] p(1) by simp
    then show ?thesis using r by (auto simp: bytes_def seg_def)
  next
    case False
    then have "unat n = 0" using r(1) by linarith
    then show ?thesis using unat_lt_2p32 [of a] by (simp add: bytes_def less_imp_le)
  qed
  then show ?thesis using that [OF h p(1,2,4)] by blast
qed

lemma live_bytes:
  assumes h: "heap_inv s runs" and a: "(a, n) \<in> heap_live s runs"
  shows "bytes a n \<subseteq> heap_area s runs" "unat a + unat n \<le> 2 ^ 32"
proof -
  from live_seg [OF assms] obtain p where p: "p \<in> set (concat runs)" "bytes a n \<subseteq> seg (tags s) p" "unat a + unat n \<le> 2 ^ 32" .
  show "unat a + unat n \<le> 2 ^ 32" by (rule p(3))
  show "bytes a n \<subseteq> heap_area s runs" using p(1,2) by (auto simp: heap_area_def heap_bytes_def simp del: set_concat)
qed

lemma live_disjoint:
  assumes h: "heap_inv s runs" and a: "(a, n) \<in> heap_live s runs" "(b, m) \<in> heap_live s runs" "(a, n) \<noteq> (b, m)"
  shows "a \<noteq> b" "bytes a n \<inter> bytes b m = {}"
proof -
  from live_seg [OF h a(1)] obtain p fl where p: "heap_ok (tags s) (l_freePages s) fl runs {}" "a = p + sizeof_tag"
    "p \<in> set (concat runs)" "fld tag_size (tags s) p = n" "bytes a n \<subseteq> seg (tags s) p" .
  from live_seg [OF h a(2)] obtain q where q: "b = q + sizeof_tag" "q \<in> set (concat runs)" "fld tag_size (tags s) q = m"
    "bytes b m \<subseteq> seg (tags s) q" .
  have "p \<noteq> q" using a(3) p(2,4) q(1,3) by auto
  then show "a \<noteq> b" "bytes a n \<inter> bytes b m = {}" using heap_okD(5) [OF p(1,3) q(2)] p(2,5) q(1,4) by auto
qed

lemma kept_trans: "kept ld v v1 B \<Longrightarrow> kept ld v1 v2 (B' - X) \<Longrightarrow> B \<subseteq> B' \<Longrightarrow> X \<subseteq> Y \<Longrightarrow> kept ld v v2 (B - Y)"
  unfolding kept_def by (metis DiffD1 DiffD2 DiffI subsetD)

section \<open>Copying by double words\<close>

context byte_memory
begin

lemma copy_dwords_copied:
  assumes c: "copyable cell s dest src n"
  shows "copied cell content dest src k s s1 \<Longrightarrow> k + unat m \<le> n \<Longrightarrow>
    \<exists>s2. copy_dwords ld st (dest + of_nat k) (src + of_nat k) m s1 =
      Inr (dest + of_nat (k + 4 * (unat m div 4)), src + of_nat (k + 4 * (unat m div 4)), m mod 4, s2) \<and>
    copied cell content dest src (k + 4 * (unat m div 4)) s s2 \<and> frame s2 = frame s1"
proof (induction "unat m" arbitrary: m k s1 rule: less_induct)
  case less
  show ?case
  proof (cases "4 \<le> m")
    case False
    then have m: "unat m < 4" by (simp add: word_le_nat_alt)
    then have "unat (m mod 4) = unat m" by (simp add: unat_mod)
    then have "m mod 4 = m" by (rule word_unat_eq_iff [THEN iffD2])
    then show ?thesis using less.prems m False by (subst copy_dwords.simps) simp
  next
    case True
    then have m: "4 \<le> unat m" "unat (m - 4) = unat m - 4" by (simp_all add: word_le_nat_alt unat_sub)
    have k4: "k + 4 \<le> n" using less.prems(2) m(1) by linarith
    from copy_dword_copied [OF c less.prems(1) k4] obtain s2 where
      s2: "copy_dword ld st (dest + of_nat k) (src + of_nat k) s1 = Inr s2" "copied cell content dest src (k + 4) s s2"
        "frame s2 = frame s1" by blast
    have ad: "dest + of_nat k + 4 = dest + of_nat (k + 4)" "src + of_nat k + 4 = src + of_nat (k + 4)" by simp_all
    have "k + 4 + unat (m - 4) \<le> n" "unat (m - 4) < unat m" using less.prems(2) m by simp_all
    from less.hyps [OF this(2) s2(2) this(1)] obtain s3 where
      s3: "copy_dwords ld st (dest + of_nat (k + 4)) (src + of_nat (k + 4)) (m - 4) s2 =
          Inr (dest + of_nat (k + 4 + 4 * (unat (m - 4) div 4)), src + of_nat (k + 4 + 4 * (unat (m - 4) div 4)), (m - 4) mod 4, s3)"
        "copied cell content dest src (k + 4 + 4 * (unat (m - 4) div 4)) s s3" "frame s3 = frame s2" by blast
    have d: "k + 4 + 4 * (unat (m - 4) div 4) = k + 4 * (unat m div 4)" unfolding m(2) using m(1) by (simp add: le_div_geq)
    have "unat ((m - 4) mod 4) = unat (m mod 4)" using m by (simp add: unat_mod le_mod_geq)
    then have "(m - 4) mod 4 = m mod 4" by (rule word_unat_eq_iff [THEN iffD2])
    moreover have "copy_dwords ld st (dest + of_nat k) (src + of_nat k) m s1 =
        copy_dwords ld st (dest + of_nat (k + 4)) (src + of_nat (k + 4)) (m - 4) s2"
      unfolding ad [symmetric] by (subst copy_dwords.simps) (simp add: True s2(1))
    ultimately show ?thesis using s2(3) s3 unfolding d by auto
  qed
qed

lemma liballoc_memcpy_spec:
  assumes c: "copyable cell s dest src (unat n)"
  shows "\<exists>s'. liballoc_memcpy ld st dest src n s = Inr s' \<and> copied cell content dest src (unat n) s s' \<and> frame s' = frame s"
proof -
  let ?k = "4 * (unat n div 4)"
  have z: "copied cell content dest src 0 s s" by (simp add: copied_def)
  from copy_dwords_copied [OF c z, of n] obtain s1 where
    s1: "copy_dwords ld st dest src n s = Inr (dest + of_nat ?k, src + of_nat ?k, n mod 4, s1)"
      "copied cell content dest src ?k s s1" "frame s1 = frame s" by auto
  have le: "?k \<le> unat n" "?k + unat (n mod 4) = unat n" by (simp_all add: unat_mod)
  from copy_bytes_copied [OF c s1(2) le(1)] obtain s2 where
    s2: "for_each [?k..<unat n] (\<lambda>i. copy_byte ld st (dest + of_nat i) (src + of_nat i)) s1 = Inr s2"
      "copied cell content dest src (unat n) s s2" "frame s2 = frame s1" by auto
  have "[?k..<unat n] = map (\<lambda>i. ?k + i) [0..<unat (n mod 4)]" using map_add_upt [of ?k "unat (n mod 4)"] le(2) by (simp add: add.commute)
  then have "for_each [0..<unat (n mod 4)] (\<lambda>i. copy_byte ld st (dest + of_nat ?k + of_nat i) (src + of_nat ?k + of_nat i)) s1 = Inr s2"
    using s2(1) by (simp add: for_each_map add.assoc)
  then show ?thesis using s1(1,3) s2(2,3) by (simp add: liballoc_memcpy_def)
qed

end

section \<open>Filling and copying held bytes\<close>

context page_memory
begin

lemma held_cell:
  assumes "pool v A B" "bytes p n \<subseteq> B" "unat p + unat n \<le> 2 ^ 32" "i < unat n"
  shows "of_nat (unat p + i) = p + of_nat i" "unat p + i \<in> B" "cell v (p + of_nat i) \<noteq> None"
proof -
  show e: "of_nat (unat p + i) = p + of_nat i" by simp
  show b: "unat p + i \<in> B" using assms(2,4) by (auto simp: bytes_def)
  show "cell v (p + of_nat i) \<noteq> None" using pool_cells [OF assms(1) b] e by simp
qed

lemma keep_cell:
  assumes "pool v A B" "b \<in> B" "cell v' = cell v" "\<And>c. cell v (of_nat b) = Some c \<Longrightarrow> content v' c = content v c"
  shows "ld (of_nat b) v' = ld (of_nat b) v"
  using pool_cells [OF assms(1,2)] assms(3,4) load_cell by (metis not_None_eq)

lemma fill_held:
  assumes P: "pool v A B" and p: "bytes p n \<subseteq> B" "unat p + unat n \<le> 2 ^ 32"
  shows "\<exists>v'. for_each [0..<unat n] (\<lambda>i. st (p + of_nat i) x) v = Inr v' \<and> pool v' A B \<and>
    (\<forall>b \<in> bytes p n. ld (of_nat b) v' = Inr x) \<and> kept ld v v' (B - bytes p n)"
proof -
  have "\<forall>i < unat n. cell v (p + of_nat i) \<noteq> None" using held_cell(3) [OF P p] by blast
  from fill_spec [OF this, of x] obtain v' where
    v': "for_each [0..<unat n] (\<lambda>i. st (p + of_nat i) x) v = Inr v'" "cell v' = cell v" "frame v' = frame v"
      "content v' = (\<lambda>c. if \<exists>i < unat n. cell v (p + of_nat i) = Some c then x else content v c)" by blast
  have "pool v' A B" by (rule pool_store [OF P v'(3,2)])
  moreover have "ld (of_nat b) v' = Inr x" if b: "b \<in> bytes p n" for b
  proof -
    obtain i where i: "i < unat n" "b = unat p + i" using b by (auto simp: bytes_def nat_le_iff_add)
    obtain c where c: "cell v (p + of_nat i) = Some c" using held_cell(3) [OF P p i(1)] by auto
    have "content v' c = x" using v'(4) i(1) c by auto
    then show ?thesis using load_cell [of v' "p + of_nat i" c] v'(2) c i(2) held_cell(1) [OF P p i(1)] by simp
  qed
  moreover have "ld (of_nat b) v' = ld (of_nat b) v" if b: "b \<in> B - bytes p n" for b
  proof (rule keep_cell [OF P _ v'(2)])
    fix c
    assume c: "cell v (of_nat b) = Some c"
    have "cell v (p + of_nat i) \<noteq> Some c" if "i < unat n" for i
      using pool_inj [OF P _ held_cell(2) [OF P p that], of b] held_cell(1) [OF P p that] c b that
      by (auto simp: bytes_def)
    then show "content v' c = content v c" using v'(4) by auto
  qed (use b in simp)
  ultimately show ?thesis using v'(1) by (auto simp: kept_def)
qed

lemma copy_held:
  assumes P: "pool v A B" and d: "bytes d n \<subseteq> B" "unat d + unat n \<le> 2 ^ 32" and p: "bytes p n \<subseteq> B" "unat p + unat n \<le> 2 ^ 32"
    and dj: "bytes d n \<inter> bytes p n = {}"
  shows "copyable cell v d p (unat n)"
    and "copied cell content d p (unat n) v v' \<Longrightarrow> frame v' = frame v \<Longrightarrow>
      pool v' A B \<and> (\<forall>i < unat n. ld (d + of_nat i) v' = ld (p + of_nat i) v) \<and> kept ld v v' (B - bytes d n)"
proof -
  note D = held_cell [OF P d] and S = held_cell [OF P p]
  have ne: "unat d + i \<noteq> unat p + j" if "i < unat n" "j < unat n" for i j
  proof -
    have "unat d + i \<in> bytes d n" "unat p + j \<in> bytes p n" using that by (simp_all add: bytes_def)
    then show ?thesis using dj by auto
  qed
  have c1: "cell v (d + of_nat i) \<noteq> cell v (p + of_nat j)" if "i < unat n" "j < unat n" for i j
    using pool_inj [OF P D(2) [OF that(1)] S(2) [OF that(2)], unfolded D(1) [OF that(1)] S(1) [OF that(2)]] ne [OF that] by blast
  have c2: "cell v (d + of_nat i) \<noteq> cell v (d + of_nat j)" if "i < unat n" "j < unat n" "i \<noteq> j" for i j
    using pool_inj [OF P D(2) [OF that(1)] D(2) [OF that(2)], unfolded D(1) [OF that(1)] D(1) [OF that(2)]] that(3) by linarith
  show cp: "copyable cell v d p (unat n)" unfolding copyable_def using D(3) S(3) c1 c2 by blast
  assume v': "copied cell content d p (unat n) v v'" "frame v' = frame v"
  have e: "cell v' = cell v" using v'(1) by (simp add: copied_def)
  have "pool v' A B" by (rule pool_store [OF P v'(2) e])
  moreover have "ld (d + of_nat i) v' = ld (p + of_nat i) v" if i: "i < unat n" for i
  proof -
    obtain x y where xy: "cell v (d + of_nat i) = Some x" "cell v (p + of_nat i) = Some y" using D(3) S(3) i by blast
    then have "content v' x = content v y" using v'(1) i by (auto simp: copied_def)
    then show ?thesis using load_cell [of v' "d + of_nat i" x] load_cell [of v "p + of_nat i" y] xy e by simp
  qed
  moreover have "ld (of_nat b) v' = ld (of_nat b) v" if b: "b \<in> B - bytes d n" for b
  proof (rule keep_cell [OF P _ e])
    fix c
    assume c: "cell v (of_nat b) = Some c"
    have "cell v (d + of_nat i) \<noteq> Some c" if "i < unat n" for i
      using pool_inj [OF P _ D(2) [OF that], of b] D(1) [OF that] c b that by (auto simp: bytes_def)
    then show "content v' c = content v c" using v'(1) by (auto simp: copied_def)
  qed (use b in simp)
  ultimately show "pool v' A B \<and> (\<forall>i < unat n. ld (d + of_nat i) v' = ld (p + of_nat i) v) \<and> kept ld v v' (B - bytes d n)"
    by (auto simp: kept_def)
qed

section \<open>Allocation and content\<close>

lemma allocates_facts:
  assumes "allocates al pool ready sz p s runs A B s' runs' A' B'"
  shows "kept ld (below s) (below s') B" "bytes p sz \<subseteq> B'" "unat p + unat sz \<le> 2 ^ 32"
    "(a, n) \<in> heap_live s runs \<Longrightarrow> a \<noteq> p \<and> bytes a n \<inter> bytes p sz = {}"
proof -
  note a = assms [unfolded allocates_def]
  have "below s' = below s \<or> (\<exists>n q. ready (unat n) (below s) A B \<and> al n (below s) = Inr (q, below s'))" using a by blast
  then show "kept ld (below s) (below s') B" unfolding kept_def using alloc_keeps by auto
  have l: "(p, sz) \<in> heap_live s' runs'" using a by simp
  show "unat p + unat sz \<le> 2 ^ 32" using a live_bytes(2) l by blast
  show "bytes p sz \<subseteq> B'" using a live_bytes(1) [OF _ l] by blast
  show "a \<noteq> p \<and> bytes a n \<inter> bytes p sz = {}" if "(a, n) \<in> heap_live s runs"
  proof -
    have "(a, n) \<in> heap_live s' runs'" "(a, n) \<noteq> (p, sz)" using a that by auto
    moreover have "heap_inv s' runs'" using a by blast
    ultimately show ?thesis using live_disjoint [OF _ _ l] by blast
  qed
qed

lemma allocates_below:
  assumes "allocates al pool ready sz p s runs A B s' runs' A' B'" "pool v A' B'"
  shows "heap_inv (s'\<lparr>below := v\<rparr>) runs'" "heap_live (s'\<lparr>below := v\<rparr>) runs' = insert (p, sz) (heap_live s runs)"
    "heap_area (s'\<lparr>below := v\<rparr>) runs' = heap_area s' runs'"
  using assms by (simp_all add: allocates_def heap_inv_def heap_live_def heap_area_def)

lemma calloc_ok:
  assumes h: "heap_inv s runs" and n: "unat (nobj * sz) < 2 ^ 31" and A: "pool (below s) A B" "heap_area s runs \<subseteq> B"
    and room: "has_room (tags s) runs (nobj * sz) \<or> ready (heap_pages (unat (nobj * sz))) (below s) A B"
  shows "\<exists>p s1 s' runs' A' B'. malloc al (nobj * sz) s = Inr (p, s1) \<and> allocates al pool ready (nobj * sz) p s runs A B s1 runs' A' B' \<and>
    calloc st al nobj sz s = Inr (p, s') \<and> heap_inv s' runs' \<and> heap_live s' runs' = insert (p, nobj * sz) (heap_live s runs) \<and>
    pool (below s') A' B' \<and> heap_area s' runs' \<subseteq> B' \<and>
    (\<forall>b \<in> bytes p (nobj * sz). ld (of_nat b) (below s') = Inr 0) \<and> kept ld (below s) (below s') (B - bytes p (nobj * sz))"
proof -
  let ?n = "nobj * sz"
  have "unat ?n \<le> 2 ^ 32 - 4128" using n by simp
  from malloc_ok [OF h this A room] obtain p s1 runs' A' B' where
    m: "malloc al ?n s = Inr (p, s1)" "allocates al pool ready ?n p s runs A B s1 runs' A' B'" by blast
  note F = allocates_facts [OF m(2)]
  have P: "pool (below s1) A' B'" "heap_area s1 runs' \<subseteq> B'" "B \<subseteq> B'" using m(2) by (auto simp: allocates_def)
  from fill_held [OF P(1) F(2,3), of 0] obtain v where
    v: "for_each [0..<unat ?n] (\<lambda>i. st (p + of_nat i) 0) (below s1) = Inr v" "pool v A' B'"
      "\<forall>b \<in> bytes p ?n. ld (of_nat b) v = Inr 0" "kept ld (below s1) v (B' - bytes p ?n)" by blast
  have "?n < 0x80000000" using n by (simp add: word_less_nat_alt)
  then have "calloc st al nobj sz s = Inr (p, s1\<lparr>below := v\<rparr>)"
    using m(1) v(1) by (simp add: calloc_def liballoc_memset_def Let_def)
  moreover have "kept ld (below s) v (B - bytes p ?n)" by (rule kept_trans [OF F(1) v(4) P(3) order_refl])
  ultimately show ?thesis using m v(2,3) allocates_below [OF m(2) v(2)] P(2)
    by (intro exI [of _ p] exI [of _ s1] exI [of _ "s1\<lparr>below := v\<rparr>"] exI [of _ runs'] exI [of _ A'] exI [of _ B']) simp
qed

lemma strdup_ok:
  assumes h: "heap_inv s runs" and A: "pool (below s) A B" "heap_area s runs \<subseteq> B"
    and len: "unat len < 2 ^ 31" and src: "bytes str (len + 1) \<subseteq> B" "unat str + unat len < 2 ^ 32"
    and own: "(\<exists>a n. (a, n) \<in> heap_live s runs \<and> bytes str (len + 1) \<subseteq> bytes a n) \<or> bytes str (len + 1) \<inter> heap_area s runs = {}"
    and chars: "\<forall>i < unat len. \<exists>c. ld (str + of_nat i) (below s) = Inr c \<and> c \<noteq> 0" "ld (str + len) (below s) = Inr 0"
    and room: "has_room (tags s) runs (len + 1) \<or> ready (heap_pages (unat len + 1)) (below s) A B"
  shows "\<exists>p s' runs' A' B'. strdup ld st al str s = Inr (p, s') \<and> p \<noteq> NULL \<and> heap_inv s' runs' \<and>
    heap_live s' runs' = insert (p, len + 1) (heap_live s runs) \<and> pool (below s') A' B' \<and> heap_area s' runs' \<subseteq> B' \<and>
    (\<forall>i \<le> unat len. ld (p + of_nat i) (below s') = ld (str + of_nat i) (below s)) \<and>
    kept ld (below s) (below s') (B - bytes p (len + 1))"
proof -
  let ?n = "len + 1"
  have n: "unat ?n = unat len + 1" using len by (subst unat_u32_add) simp_all
  have sb: "unat str + unat ?n \<le> 2 ^ 32" using src(2) n by simp
  have cells: "\<exists>c. cell (below s) (str + of_nat i) = Some c \<and> ld (str + of_nat i) (below s) = Inr (content (below s) c)" if "i < unat ?n" for i
    using held_cell(3) [OF A(1) src(1) sb that] load_cell by blast
  have "strlen_loop ld str (of_nat 0) (below s) = Some (Inr (of_nat (unat len)))"
  proof -
    obtain z where "cell (below s) (str + of_nat (unat len)) = Some z" "content (below s) z = 0"
      using cells [of "unat len"] chars(2) n by auto
    moreover have "\<forall>i < unat len. \<exists>c. cell (below s) (str + of_nat i) = Some c \<and> content (below s) c \<noteq> 0"
      using cells chars(1) n by (metis Inr_inject less_Suc_eq Suc_eq_plus1)
    ultimately show ?thesis using len by (intro strlen_loop_spec [of "unat len" "below s" str z 0]) simp_all
  qed
  then have sl: "strlen ld str (below s) = Inr len" by (simp add: strlen_def)
  have "unat ?n \<le> 2 ^ 32 - 4128" using len n by simp
  from malloc_ok [OF h this A] room n obtain p s1 runs' A' B' where
    m: "malloc al ?n s = Inr (p, s1)" "allocates al pool ready ?n p s runs A B s1 runs' A' B'" by auto
  note F = allocates_facts [OF m(2)]
  have P: "pool (below s1) A' B'" "heap_area s1 runs' \<subseteq> B'" "B \<subseteq> B'" "p \<noteq> NULL" "heap_inv s1 runs'" "(p, ?n) \<in> heap_live s1 runs'"
    "heap_area s1 runs' \<subseteq> heap_area s runs \<union> A" using m(2) by (auto simp: allocates_def)
  have dj: "bytes p ?n \<inter> bytes str ?n = {}"
    using own
  proof
    assume "bytes str ?n \<inter> heap_area s runs = {}"
    moreover have "bytes str ?n \<inter> A = {}" using src(1) pool_disjoint [OF A(1)] by blast
    ultimately show ?thesis using live_bytes(1) [OF P(5,6)] P(7) by blast
  qed (use F(4) in blast)
  have src': "bytes str ?n \<subseteq> B'" using src(1) P(3) by blast
  note C = copy_held [OF P(1) F(2,3) src' sb dj]
  from memcpy_spec [OF C(1)] obtain v where
    v: "memcpy ld st p str ?n (below s1) = Inr v" "copied cell content p str (unat ?n) (below s1) v" "frame v = frame (below s1)" by blast
  note V = C(2) [OF v(2,3)]
  have "strdup ld st al str s = Inr (p, s1\<lparr>below := v\<rparr>)" using sl m(1) v(1) P(4) by (simp add: strdup_def)
  moreover have "ld (p + of_nat i) v = ld (str + of_nat i) (below s)" if "i \<le> unat len" for i
  proof -
    have i: "i < unat ?n" using that n by simp
    have "ld (str + of_nat i) (below s1) = ld (str + of_nat i) (below s)"
      using F(1) held_cell(1,2) [OF A(1) src(1) sb i] unfolding kept_def by metis
    then show ?thesis using V i by simp
  qed
  moreover have "kept ld (below s) v (B - bytes p ?n)" using kept_trans [OF F(1) _ P(3) order_refl] V by blast
  ultimately show ?thesis using V allocates_below [OF m(2), of v] P(2,4)
    by (intro exI [of _ p] exI [of _ "s1\<lparr>below := v\<rparr>"] exI [of _ runs'] exI [of _ A'] exI [of _ B']) simp
qed

lemma realloc_ok:
  assumes h: "heap_inv s runs" and A: "pool (below s) A B" "heap_area s runs \<subseteq> B"
    and sz: "0 < unat sz" "unat sz \<le> 2 ^ 32 - 4128" and p: "(p, old) \<in> heap_live s runs" "p \<noteq> NULL"
    and keep: "MAXCOMPLETE \<notin> set (l_completePages s)"
    and room: "has_room (tags s) runs sz \<or> ready (heap_pages (unat sz)) (below s) A B"
  shows "\<exists>q s' runs' A' B'. realloc ld st al fr p sz s = Inr (q, s') \<and> q \<noteq> NULL \<and> heap_inv s' runs' \<and>
    heap_live s' runs' = insert (q, sz) (heap_live s runs - {(p, old)}) \<and> (\<forall>n. (q, n) \<notin> heap_live s runs) \<and>
    pool (below s') A' B' \<and> heap_area s' runs' \<subseteq> B' \<and>
    (\<forall>i < min (unat old) (unat sz). ld (q + of_nat i) (below s') = ld (p + of_nat i) (below s)) \<and>
    kept ld (below s) (below s') (B - bytes q sz)"
proof -
  obtain t fl where t: "heap_ok (tags s) (l_freePages s) fl runs {}" "p = t + sizeof_tag" "t \<in> set (concat runs)"
    "fld tag_size (tags s) t = old" by (rule live_seg [OF h p(1)])
  have "tags s t \<noteq> None" using heap_okD(4) [OF t(1,3)] by (simp add: block_ok_def)
  then have old: "tag_size (peek_tag (p - sizeof_tag) s) = old" using t(2,4) by (auto simp: peek_tag_def fld_def)
  define n where "n = (if sz < old then sz else old)"
  have n: "unat n = min (unat old) (unat sz)" by (simp add: n_def word_less_nat_alt min_def)
  from malloc_ok [OF h sz(2) A room] obtain q s1 runs1 A' B' where
    m: "malloc al sz s = Inr (q, s1)" "allocates al pool ready sz q s runs A B s1 runs1 A' B'" by blast
  note F = allocates_facts [OF m(2)]
  have P: "pool (below s1) A' B'" "heap_area s1 runs1 \<subseteq> B'" "B \<subseteq> B'" "q \<noteq> NULL" "MAXCOMPLETE \<notin> set (l_completePages s1)"
    "\<And>n. (q, n) \<notin> heap_live s runs" using m(2) keep by (auto simp: allocates_def)
  have sub: "bytes q n \<subseteq> bytes q sz" "bytes p n \<subseteq> bytes p old" using n by (auto simp: bytes_def)
  note L = live_bytes [OF h p(1)]
  have b: "bytes q n \<subseteq> B'" "unat q + unat n \<le> 2 ^ 32" "bytes p n \<subseteq> B'" "unat p + unat n \<le> 2 ^ 32" "bytes p n \<subseteq> B"
    using sub F(2,3) L A(2) P(3) n by auto
  have dj: "bytes q n \<inter> bytes p n = {}" using F(4) [OF p(1)] sub by blast
  note C = copy_held [OF P(1) b(1-4) dj]
  from liballoc_memcpy_spec [OF C(1)] obtain v where
    v: "liballoc_memcpy ld st q p n (below s1) = Inr v" "copied cell content q p (unat n) (below s1) v" "frame v = frame (below s1)" by blast
  note V = C(2) [OF v(2,3)]
  let ?s2 = "s1\<lparr>below := v\<rparr>"
  have i2: "heap_inv ?s2 runs1" "heap_live ?s2 runs1 = insert (q, sz) (heap_live s runs)" "heap_area ?s2 runs1 = heap_area s1 runs1"
    using allocates_below [OF m(2), of v] V by auto
  have pl: "(p, old) \<in> heap_live ?s2 runs1" using p(1) i2(2) by simp
  from free_ok_heap [OF i2(1) pl p(2), of fr] P(5) obtain s' runs' where
    f: "heap_inv s' runs'" "below s' = v" "heap_live s' runs' = insert (q, sz) (heap_live s runs) - {(p, old)}"
      "free fr p ?s2 = Inr s'" "heap_area s' runs' = heap_area s1 runs1" using i2(2,3) by auto
  have "realloc ld st al fr p sz s = Inr (q, s')"
    using sz(1) p(2) m(1) v(1) f(4) by (auto simp: realloc_def Let_def old n_def)
  moreover have "heap_live s' runs' = insert (q, sz) (heap_live s runs - {(p, old)})" using f(3) P(6) p(1) by auto
  moreover have "ld (q + of_nat i) v = ld (p + of_nat i) (below s)" if "i < min (unat old) (unat sz)" for i
  proof -
    have i: "i < unat n" using that n by simp
    have "ld (p + of_nat i) (below s1) = ld (p + of_nat i) (below s)"
      using F(1) held_cell(1,2) [OF A(1) b(5,4) i] unfolding kept_def by metis
    then show ?thesis using V i by simp
  qed
  moreover have "kept ld (below s) v (B - bytes q sz)" using kept_trans [OF F(1) _ P(3) sub(1)] V by blast
  ultimately show ?thesis using V f(1,2,5) P(2,4,6)
    by (intro exI [of _ q] exI [of _ s'] exI [of _ runs'] exI [of _ A'] exI [of _ B']) simp
qed

end

end
