(* ===== verification/Kmalloc.thy ===== *)
theory Kmalloc
  imports Vm Liballoc_Data
begin

text \<open>
  The heap of the kernel: the hooks of \<^verbatim>\<open>libc/stdlib/stdlib.c\<close> connect the heap allocator with the
  virtual memory manager. Held bytes are those whose page is mapped to a frame that is not free.
\<close>

section \<open>Model\<close>

definition liballoc_lock :: int where
  "liballoc_lock = 0"

definition liballoc_unlock :: int where
  "liballoc_unlock = 0"

definition liballoc_alloc :: "linkage \<Rightarrow> vm_state alloc_hook" where
  "liballoc_alloc L npages v = vm_alloc_kpages L npages v"

definition liballoc_free :: "linkage \<Rightarrow> vm_state free_hook" where
  "liballoc_free L p npages v = vm_free_kpages L npages p v"

text \<open>The operators of C++, \<^verbatim>\<open>libc/cpp/new.cpp\<close>.\<close>

definition operator_new :: "linkage \<Rightarrow> u32 \<Rightarrow> vm_state liballoc \<Rightarrow> (ptr \<times> vm_state liballoc) res" where
  "operator_new L sz s = malloc (liballoc_alloc L) sz s"

definition operator_new_array :: "linkage \<Rightarrow> u32 \<Rightarrow> vm_state liballoc \<Rightarrow> (ptr \<times> vm_state liballoc) res" where
  "operator_new_array L sz s = malloc (liballoc_alloc L) sz s"

definition operator_delete :: "linkage \<Rightarrow> ptr \<Rightarrow> vm_state liballoc \<Rightarrow> vm_state liballoc res" where
  "operator_delete L p s = free (liballoc_free L) p s"

definition operator_delete_array :: "linkage \<Rightarrow> ptr \<Rightarrow> vm_state liballoc \<Rightarrow> vm_state liballoc res" where
  "operator_delete_array L p s = free (liballoc_free L) p s"

section \<open>Specification\<close>

definition page_bytes :: "nat set \<Rightarrow> nat set" where
  "page_bytes P = {b. b div 4096 \<in> P}"

definition free_bytes :: "vm_state \<Rightarrow> paddr_t set" where
  "free_bytes v = {pa. \<exists>f \<in> free_frames (pmm v). page_of pa = page_of (frame_paddr v f)}"

definition vm_holds :: "linkage \<Rightarrow> vm_state \<Rightarrow> nat set \<Rightarrow> bool" where
  "vm_holds L v B \<longleftrightarrow>
     (\<forall>b \<in> B. b < 2 ^ 32 \<and> (\<exists>pa. walk L (paging v) (of_nat b) = Some pa \<and> pa \<notin> free_bytes v)) \<and>
     (\<forall>b \<in> B. \<forall>b' \<in> B. walk L (paging v) (of_nat b) = walk L (paging v) (of_nat b') \<longrightarrow> b = b')"

definition vm_pool :: "linkage \<Rightarrow> vm_state \<Rightarrow> nat set \<Rightarrow> nat set \<Rightarrow> bool" where
  "vm_pool L v A B \<longleftrightarrow>
     (\<exists>xs ws. vm_inv L v xs ws \<and> A = page_bytes (covered (free_ranges v xs))) \<and> vm_holds L v B \<and> A \<inter> B = {}"

definition vm_can :: "linkage \<Rightarrow> nat \<Rightarrow> vm_state \<Rightarrow> bool" where
  "vm_can L n v \<longleftrightarrow> linkage_ok L \<and> 0 < n \<and> n \<le> card (free_frames (pmm v)) \<and>
     (\<exists>xs ws q rs. vm_inv L v xs ws \<and> first_fit n (free_ranges v xs) = Some (q, rs) \<and> 0xC0000 \<le> q \<and> q + n \<le> 2 ^ 20)"

definition vm_ready :: "linkage \<Rightarrow> nat \<Rightarrow> vm_state \<Rightarrow> nat set \<Rightarrow> nat set \<Rightarrow> bool" where
  "vm_ready L n v A B \<longleftrightarrow> vm_can L n v \<and> vm_pool L v A B"

text \<open>
  The histories of the heap: \<open>M\<close> are the blocks the clients hold. A block is allocated only when a free
  block fits or pages can be had, and released while no class has five whole runs standing by.
\<close>

inductive heap_reach :: "linkage \<Rightarrow> vm_state liballoc \<Rightarrow> (ptr \<times> u32) set \<Rightarrow> bool" for L where
  boot: "vm_pool L v A {} \<Longrightarrow> heap_reach L (liballoc_boot m v) {}"
| malloc: "heap_reach L s M \<Longrightarrow> unat sz \<le> 2 ^ 32 - 4128 \<Longrightarrow> vm_can L (heap_pages (unat sz)) (below s) \<Longrightarrow>
    malloc (liballoc_alloc L) sz s = Inr (p, s') \<Longrightarrow> heap_reach L s' (insert (p, sz) M)"
| free: "heap_reach L s M \<Longrightarrow> (a, n) \<in> M \<Longrightarrow> MAXCOMPLETE \<notin> set (l_completePages s) \<Longrightarrow>
    free (liballoc_free L) a s = Inr s' \<Longrightarrow> heap_reach L s' (M - {(a, n)})"

section \<open>The page source of the kernel\<close>

lemma dseg_unique: "dseg h q p xs NULL \<Longrightarrow> dseg h q' p ys NULL \<Longrightarrow> xs = ys"
proof (induction xs arbitrary: q q' p ys)
  case Nil
  then show ?case by (cases ys) auto
next
  case (Cons x xs)
  then show ?case by (cases ys) auto
qed

lemma vm_inv_unique: "vm_inv L v xs ws \<Longrightarrow> vm_inv L v xs' ws' \<Longrightarrow> xs = xs'"
  using dseg_unique unfolding vm_inv_def vm_lists_def dll_def by blast

lemma frame_page:
  assumes "pmm_inv (pmm v)" "f < frames (pmm v)"
  shows "page_of (frame_paddr v f + page_off va) = unat (buddy_base (pmm v)) div 4096 + f"
    "page_off (frame_paddr v f + page_off va) = page_off va"
proof -
  have b: "unat (buddy_base (pmm v)) + 4096 * frames (pmm v) \<le> 2 ^ 32" "4096 dvd unat (buddy_base (pmm v))"
    using assms(1) by (auto simp: pmm_inv_def)
  have f: "unat (frame_paddr v f) = unat (buddy_base (pmm v)) + 4096 * f"
    using pm.frame_addr [OF assms] by (simp add: frame_paddr_def)
  have o: "unat (page_off va) < 4096" using unat_page_off [of va] by simp
  have "unat (frame_paddr v f) + unat (page_off va) < 4294967296" using b(1) assms(2) f o by simp
  moreover obtain k where k: "unat (buddy_base (pmm v)) = 4096 * k" using b(2) by (auto elim: dvdE)
  ultimately have s: "unat (frame_paddr v f + page_off va) = unat (page_off va) + 4096 * (k + f)"
    using f by (simp add: unat_u32_add)
  show "page_of (frame_paddr v f + page_off va) = unat (buddy_base (pmm v)) div 4096 + f"
    using s k o by (simp add: page_of_def)
  have "unat (page_off (frame_paddr v f + page_off va)) = unat (page_off va)"
    unfolding unat_page_off [of "frame_paddr v f + page_off va"] s using o by (simp only: mod_mult_self2 mod_less)
  then show "page_off (frame_paddr v f + page_off va) = page_off va" by (rule word_unat_eq_iff [THEN iffD2])
qed

lemma page_addr_eq:
  assumes "page_of a = page_of b" "page_off a = page_off b"
  shows "a = b"
proof -
  have "unat a = 4096 * page_of a + unat (page_off a)" for a using unat_page_off [of a] by (simp add: page_of_def)
  then show ?thesis using assms by (metis word_unat_eq_iff)
qed

lemma frame_page_base:
  assumes "pmm_inv (pmm v)" "f < frames (pmm v)"
  shows "page_of (frame_paddr v f) = unat (buddy_base (pmm v)) div 4096 + f"
proof -
  have "page_off 0 = 0" by (simp add: page_off_def)
  then show ?thesis using frame_page(1) [OF assms, of 0] by simp
qed

lemma span_pages:
  assumes "q + n \<le> 2 ^ 20" "0 < n"
  shows "unat (of_nat q * 4096 :: ptr) = 4096 * q" "span (of_nat q * 4096) n = page_bytes {q ..< q + n}"
proof -
  show u: "unat (of_nat q * 4096 :: ptr) = 4096 * q" using page_addr(1) [of q 0] assms by simp
  show "span (of_nat q * 4096) n = page_bytes {q ..< q + n}"
    unfolding span_def page_bytes_def u
    by (auto simp: less_eq_div_iff_mult_less_eq div_less_iff_less_mult algebra_simps)
qed

lemma page_of_nat: "b < 2 ^ 32 \<Longrightarrow> page_of (of_nat b) = b div 4096"
  by (simp add: page_of_def unat_u32_of_nat)

lemma vaddr_nat: "b < 2 ^ 32 \<Longrightarrow> unat (of_nat b :: vaddr_t) = b"
  by (simp add: unat_u32_of_nat)

text \<open>
  The pages that \<open>backed\<close> maps: their bytes lie in frames that were free and are no longer, and no two
  of them in the same cell.
\<close>

lemma backed_cell:
  assumes inv: "pmm_inv (pmm v)" and b: "backed L v v' q fs" and va: "q \<le> page_of va" "page_of va < q + length fs"
  obtains pa where "walk L (paging v') va = Some pa" "page_off pa = page_off va"
    "page_of pa = unat (buddy_base (pmm v)) div 4096 + fs ! (page_of va - q)" "pa \<in> free_bytes v" "pa \<notin> free_bytes v'"
proof -
  let ?i = "page_of va - q"
  let ?pa = "frame_paddr v (fs ! ?i) + page_off va"
  have B: "set fs \<subseteq> free_frames (pmm v)" "free_frames (pmm v') = free_frames (pmm v) - set fs" "buddy_base (pmm v') = buddy_base (pmm v)"
    "walk L (paging v') va = Some ?pa" using b va by (auto simp: backed_def)
  have i: "fs ! ?i \<in> set fs" using va by simp
  then have fs: "fs ! ?i \<in> free_frames (pmm v)" "fs ! ?i < frames (pmm v)" using B(1) pm.free_bound [OF inv] by auto
  note p = frame_page [OF inv fs(2), of va] and base = frame_page_base [OF inv]
  have "?pa \<in> free_bytes v"
    unfolding free_bytes_def using p(1) base [OF fs(2)] fs(1) by (intro CollectI bexI [of _ "fs ! ?i"]) simp_all
  moreover have "page_of ?pa \<noteq> page_of (frame_paddr v' f)" if "f \<in> free_frames (pmm v')" for f
  proof -
    have "f < frames (pmm v)" "f \<noteq> fs ! ?i" "frame_paddr v' f = frame_paddr v f"
      using that B(2,3) i pm.free_bound [OF inv] by (auto simp: frame_paddr_def)
    then show ?thesis using p(1) base by simp
  qed
  then have "?pa \<notin> free_bytes v'" by (auto simp: free_bytes_def)
  ultimately show thesis using that B(4) p by blast
qed

lemma backed_inj:
  assumes "pmm_inv (pmm v)" "backed L v v' q fs" "q \<le> page_of va" "page_of va < q + length fs" "q \<le> page_of vb" "page_of vb < q + length fs"
    and e: "walk L (paging v') va = walk L (paging v') vb"
  shows "va = vb"
proof -
  from backed_cell [OF assms(1-4)] obtain pa where pa: "walk L (paging v') va = Some pa" "page_off pa = page_off va"
    "page_of pa = unat (buddy_base (pmm v)) div 4096 + fs ! (page_of va - q)" .
  from backed_cell [OF assms(1,2,5,6)] obtain pb where pb: "walk L (paging v') vb = Some pb" "page_off pb = page_off vb"
    "page_of pb = unat (buddy_base (pmm v)) div 4096 + fs ! (page_of vb - q)" .
  have "pa = pb" using e pa(1) pb(1) by simp
  then have "fs ! (page_of va - q) = fs ! (page_of vb - q)" "page_off va = page_off vb" using pa pb by simp_all
  moreover have "distinct fs" using assms(2) by (simp add: backed_def)
  ultimately have "page_of va - q = page_of vb - q" using assms(3-6) by (simp add: nth_eq_iff_index_eq)
  then have "page_of va = page_of vb" using assms(3,5) by linarith
  from page_addr_eq [OF this \<open>page_off va = page_off vb\<close>] show ?thesis .
qed

lemma backed_other:
  assumes "backed L v v' q fs" "x < 2 ^ 32" "x \<notin> page_bytes {q ..< q + length fs}"
  shows "walk L (paging v') (of_nat x) = walk L (paging v) (of_nat x)"
  using assms page_of_nat [OF assms(2)] by (auto simp: backed_def page_bytes_def)

lemma free_bytes_mono: "backed L v v' q fs \<Longrightarrow> free_bytes v' \<subseteq> free_bytes v"
  by (auto simp: backed_def free_bytes_def frame_paddr_def)

text \<open>The bytes of new pages are cells of their own, apart from the bytes held before.\<close>

lemma holds_backed:
  assumes inv: "pmm_inv (pmm v)" and H: "vm_holds L v B" and b: "backed L v v' q fs" "q + length fs \<le> 2 ^ 20"
    and dj: "page_bytes {q ..< q + length fs} \<inter> B = {}"
  shows "vm_holds L v' (B \<union> page_bytes {q ..< q + length fs})"
    and "x \<in> B \<Longrightarrow> walk L (paging v') (of_nat x) = walk L (paging v) (of_nat x)"
    and "x \<in> B \<Longrightarrow> walk L (paging v) (of_nat x) = Some pa \<Longrightarrow>
      \<forall>va. q \<le> page_of va \<and> page_of va < q + length fs \<longrightarrow> walk L (paging v') va \<noteq> Some pa"
proof -
  let ?N = "page_bytes {q ..< q + length fs}"
  have held: "x < 2 ^ 32" "\<exists>pa. walk L (paging v) (of_nat x) = Some pa \<and> pa \<notin> free_bytes v" if "x \<in> B" for x
    using H that by (simp_all add: vm_holds_def)
  show old: "walk L (paging v') (of_nat x) = walk L (paging v) (of_nat x)" if "x \<in> B" for x
    using backed_other [OF b(1) held(1) [OF that]] dj that by blast
  have N: "x < 2 ^ 32" "q \<le> page_of (of_nat x)" "page_of (of_nat x) < q + length fs" if "x \<in> ?N" for x
  proof -
    show "x < 2 ^ 32" using that b(2) by (auto simp: page_bytes_def div_less_iff_less_mult)
    then show "q \<le> page_of (of_nat x)" "page_of (of_nat x) < q + length fs" using that page_of_nat by (auto simp: page_bytes_def)
  qed
  note new = backed_cell [OF inv b(1)]
  show sep: "\<forall>va. q \<le> page_of va \<and> page_of va < q + length fs \<longrightarrow> walk L (paging v') va \<noteq> Some pa"
    if "x \<in> B" "walk L (paging v) (of_nat x) = Some pa" for x pa
    using held(2) [OF that(1)] that(2) by (auto elim: new)
  have "\<exists>pa. walk L (paging v') (of_nat x) = Some pa \<and> pa \<notin> free_bytes v'" if "x \<in> B \<union> ?N" for x
  proof (cases "x \<in> B")
    case True
    then show ?thesis using held(2) [of x] old [of x] free_bytes_mono [OF b(1)] by auto
  next
    case False
    then show ?thesis using that by (auto intro: new [OF N(2,3)])
  qed
  moreover have "x = y" if xy: "x \<in> B \<union> ?N" "y \<in> B \<union> ?N"
    and e: "walk L (paging v') (of_nat x) = walk L (paging v') (of_nat y)" for x y
  proof -
    have mixed: False if "x \<in> B" "y \<in> ?N" "walk L (paging v') (of_nat x) = walk L (paging v') (of_nat y)" for x y
      using held(2) [OF that(1)] old [OF that(1)] sep [OF that(1)] N(2,3) [OF that(2)] that(3) by auto
    consider "x \<in> B" "y \<in> B" | "x \<in> ?N" "y \<in> ?N" using mixed [of x y] mixed [of y x] xy e by auto
    then show ?thesis
    proof cases
      case 1
      then show ?thesis using H e old by (auto simp: vm_holds_def)
    next
      case 2
      from backed_inj [OF inv b(1) N(2,3) [OF 2(1)] N(2,3) [OF 2(2)] e] show ?thesis
        using vaddr_nat [OF N(1) [OF 2(1)]] vaddr_nat [OF N(1) [OF 2(2)]] by argo
    qed
  qed
  ultimately show "vm_holds L v' (B \<union> ?N)" using held(1) N(1) unfolding vm_holds_def by blast
qed

lemma ready_alloc:
  assumes "vm_ready L (unat n) v A B"
  shows "\<exists>q v'. liballoc_alloc L n v = Inr (q, v') \<and> q \<noteq> NULL \<and> 4096 dvd unat q \<and> unat q + 4096 * unat n \<le> 2 ^ 32 \<and>
    span q (unat n) \<subseteq> A \<and> vm_pool L v' (A - span q (unat n)) (B \<union> span q (unat n)) \<and>
    (\<forall>b \<in> B. vm_load L (of_nat b) v' = vm_load L (of_nat b) v)"
proof -
  from assms(1) obtain xs ws q rs where r: "linkage_ok L" "vm_inv L v xs ws" "A = page_bytes (covered (free_ranges v xs))"
    "first_fit (unat n) (free_ranges v xs) = Some (q, rs)" "0xC0000 \<le> q" "q + unat n \<le> 2 ^ 20" "unat n \<le> card (free_frames (pmm v))"
    and H: "vm_holds L v B" "A \<inter> B = {}" and n0: "0 < unat n"
    using vm_inv_unique unfolding vm_ready_def vm_can_def vm_pool_def by metis
  from alloc_kpages_spec [OF r(1,2,4-7)] obtain v' xs' ws' fs where
    a: "vm_alloc_kpages L n v = Inr (of_nat q * 4096, v')" "vm_inv L v' xs' ws'" "free_ranges v' xs' = rs" "length fs = unat n"
      "backed L v v' q fs"
      "\<forall>pa. (\<forall>va. q \<le> page_of va \<and> page_of va < q + unat n \<longrightarrow> walk L (paging v') va \<noteq> Some pa) \<longrightarrow> pmem v' pa = pmem v pa" by blast
  let ?q = "of_nat q * 4096 :: ptr" and ?N = "page_bytes {q ..< q + unat n}"
  note sp = span_pages [OF r(6) n0]
  have cov: "covered (free_ranges v xs) = covered rs \<union> {q ..< q + unat n}" "covered rs \<inter> {q ..< q + unat n} = {}"
    using first_fit_spec [OF _ r(4)] r(2) by (auto simp: vm_inv_def free_ranges_def)
  have A: "?N \<subseteq> A" "A - ?N = page_bytes (covered (free_ranges v' xs'))"
    using cov a(3) r(3) by (auto simp: page_bytes_def)
  have inv: "pmm_inv (pmm v)" using r(2) by (simp add: vm_inv_def)
  have len: "q + length fs \<le> 2 ^ 20" "page_bytes {q ..< q + length fs} \<inter> B = {}" using a(4) r(6) A(1) H(2) by auto
  note hb = holds_backed [OF inv H(1) a(5) len, unfolded a(4)]
  have "vm_load L (of_nat b) v' = vm_load L (of_nat b) v" if b: "b \<in> B" for b
  proof -
    obtain pa where pa: "walk L (paging v) (of_nat b) = Some pa" using H(1) b by (auto simp: vm_holds_def)
    then have "pmem v' pa = pmem v pa" using a(6) hb(3) [OF b pa] by blast
    then show ?thesis using pa hb(2) [OF b] by (simp add: vm_load_def)
  qed
  moreover have "vm_pool L v' (A - ?N) (B \<union> ?N)" unfolding vm_pool_def using hb(1) a(2) A(2) H(2) by blast
  moreover have "?q \<noteq> NULL"
  proof
    assume "?q = NULL"
    then have "unat ?q = 0" by (simp add: NULL_def)
    then show False using sp(1) r(5) by simp
  qed
  ultimately show ?thesis using a(1) sp A(1) r(6)
    by (intro exI [of _ ?q] exI [of _ v']) (simp add: liballoc_alloc_def)
qed

interpretation heap: page_memory "liballoc_alloc L" "vm_pool L" "vm_ready L" "vm_load L" "vm_store L"
  "\<lambda>s. walk L (paging s)" pmem "\<lambda>s. s\<lparr>pmem := \<lambda>_. 0\<rparr>" for L
proof unfold_locales
  show "A \<inter> B = {}" if "vm_pool L v A B" for v A B using that by (simp add: vm_pool_def)
  show "\<exists>q v'. liballoc_alloc L n v = Inr (q, v') \<and> q \<noteq> NULL \<and> 4096 dvd unat q \<and> unat q + 4096 * unat n \<le> 2 ^ 32 \<and>
      span q (unat n) \<subseteq> A \<and> vm_pool L v' (A - span q (unat n)) (B \<union> span q (unat n))"
    if "vm_ready L (unat n) v A B" for n v A B using ready_alloc [OF that] by blast
  show "b < 2 ^ 32 \<and> walk L (paging v) (of_nat b) \<noteq> None" if "vm_pool L v A B" "b \<in> B" for v A B b
    using that by (auto simp: vm_pool_def vm_holds_def)
  show "b = b'" if "vm_pool L v A B" "b \<in> B" "b' \<in> B" "walk L (paging v) (of_nat b) = walk L (paging v) (of_nat b')" for v A B b b'
    using that unfolding vm_pool_def vm_holds_def by blast
  show "vm_pool L v' A B" if p: "vm_pool L v A B" "v'\<lparr>pmem := \<lambda>_. 0\<rparr> = v\<lparr>pmem := \<lambda>_. 0\<rparr>" for v v' A B
  proof -
    obtain m where "v' = v\<lparr>pmem := m\<rparr>" using vm_state_frame [OF p(2)] by blast
    then show ?thesis using p(1)
      by (simp add: vm_pool_def vm_holds_def vm_inv_def free_ranges_def free_bytes_def frame_paddr_def)
  qed
  show "vm_load L (of_nat b) v' = vm_load L (of_nat b) v"
    if "vm_ready L (unat n) v A B" "liballoc_alloc L n v = Inr (q, v')" "b \<in> B" for n v A B q v' b
    using ready_alloc [OF that(1)] that(2,3) by auto
qed

section \<open>A heap after boot\<close>

lemma vm_pool_boot: "vm_inv L v xs ws \<Longrightarrow> vm_pool L v (page_bytes (covered (free_ranges v xs))) {}"
  by (auto simp: vm_pool_def vm_holds_def)

lemma heap_inv_boot: "heap_inv (liballoc_boot m v) []" "heap_live (liballoc_boot m v) [] = {}" "heap_area (liballoc_boot m v) [] = {}"
  by (simp_all add: heap_inv_def liballoc_boot_def heap_live_def live_def heap_area_def heap_bytes_def)

lemma can_after:
  assumes "linkage_ok L" "vm_inv L v xs ws" "first_fit (unat n) (free_ranges v xs) = Some (q, rs)" "0xC0000 \<le> q" "q + unat n \<le> 2 ^ 20"
    and "first_fit m rs = Some (q', rs')" "0xC0000 \<le> q'" "q' + m \<le> 2 ^ 20" "0 < m" "unat n + m \<le> card (free_frames (pmm v))"
    and "liballoc_alloc L n v = Inr (p, v')"
  shows "vm_can L m v'"
proof -
  have "unat n \<le> card (free_frames (pmm v))" using assms(10) by simp
  from alloc_kpages_spec [OF assms(1-5) this] assms(11) obtain xs' ws' fs where
    a: "vm_inv L v' xs' ws'" "free_ranges v' xs' = rs" "length fs = unat n" "backed L v v' q fs"
    unfolding liballoc_alloc_def by auto
  have f: "free_frames (pmm v') = free_frames (pmm v) - set fs" "set fs \<subseteq> free_frames (pmm v)" "distinct fs"
    using a(4) by (simp_all add: backed_def)
  then have "card (free_frames (pmm v')) = card (free_frames (pmm v)) - unat n"
    using a(3) by (simp add: card_Diff_subset distinct_card)
  then show ?thesis unfolding vm_can_def using a(1,2) assms(1,6-10) by fastforce
qed

lemma heap_example:
  obtains v A where "vm_pool linkage_example v A {}" "\<And>n. 0 < n \<Longrightarrow> n \<le> 2048 \<Longrightarrow> vm_can linkage_example n v"
    "\<And>n p v' m. liballoc_alloc linkage_example n v = Inr (p, v') \<Longrightarrow> 0 < unat n \<Longrightarrow> 0 < m \<Longrightarrow> unat n + m \<le> 2048 \<Longrightarrow> vm_can linkage_example m v'"
proof -
  obtain v where v: "vm_inv linkage_example v [0xC0606000] []" "free_ranges v [0xC0606000] = [(0xC0800, 0xC1800)]"
    "pmm v = pmm_example" using vm_example by blast
  have ff: "first_fit n (free_ranges v [0xC0606000]) = Some (0xC0800, [(0xC0800 + n, 0xC1800 - n)])" if "0 < n" "n \<le> 2048" for n
    using v(2) that by simp
  have c: "card (free_frames (pmm v)) = 2048" using v(3) by (simp add: pmm_example_facts)
  have "vm_can linkage_example n v" if n: "0 < n" "n \<le> 2048" for n
    unfolding vm_can_def using v(1) ff [OF n] c n linkage_example_ok by fastforce
  moreover have "vm_can linkage_example m v'"
    if a: "liballoc_alloc linkage_example n v = Inr (p, v')" and n: "0 < unat n" "0 < m" "unat n + m \<le> 2048" for n p v' m
  proof (rule can_after [OF linkage_example_ok v(1) ff _ _ _ _ _ n(2) _ a])
    have "m \<le> 0xC1800 - unat n \<and> 0xC1800 - unat n \<noteq> m" using n(3) by linarith
    then show "first_fit m [(0xC0800 + unat n, 0xC1800 - unat n)] = Some (0xC0800 + unat n, [(0xC0800 + unat n + m, 0xC1800 - unat n - m)])"
      by simp
  qed (use n c in simp_all)
  ultimately show thesis using that [OF vm_pool_boot [OF v(1)]] by blast
qed

text \<open>A heap with one block of a hundred bytes, and pages left.\<close>

lemma heap_one_block:
  obtains v A p s' runs A' B' where "vm_pool linkage_example v A {}"
    "malloc (liballoc_alloc linkage_example) 100 (liballoc_boot m v) = Inr (p, s')"
    "allocates (liballoc_alloc linkage_example) (vm_pool linkage_example) (vm_ready linkage_example) 100 p (liballoc_boot m v) [] A {} s' runs A' B'"
    "heap_live s' runs = {(p, 100)}" "MAXCOMPLETE \<notin> set (l_completePages s')" "vm_can linkage_example 16 (below s')"
    "vm_can linkage_example 16 v"
proof -
  obtain v A where v: "vm_pool linkage_example v A {}" "\<And>n. 0 < n \<Longrightarrow> n \<le> 2048 \<Longrightarrow> vm_can linkage_example n v"
    "\<And>n p v' m. liballoc_alloc linkage_example n v = Inr (p, v') \<Longrightarrow> 0 < unat n \<Longrightarrow> 0 < m \<Longrightarrow> unat n + m \<le> 2048 \<Longrightarrow> vm_can linkage_example m v'"
    by (rule heap_example) (rule that)
  let ?s = "liballoc_boot m v"
  have b: "below ?s = v" "MAXCOMPLETE \<notin> set (l_completePages ?s)" by (simp_all add: liballoc_boot_def MAXCOMPLETE_def)
  have r: "vm_ready linkage_example (heap_pages (unat (100 :: u32))) (below ?s) A {}"
    using v b by (simp add: vm_ready_def heap_pages_def)
  have "vm_pool linkage_example (below ?s) A {}" "heap_area ?s [] \<subseteq> {}" "unat (100 :: u32) \<le> 2 ^ 32 - 4128"
    using v(1) b heap_inv_boot(3) [of m v] by simp_all
  from heap.malloc_ok [OF heap_inv_boot(1) this(3,1,2) disjI2 [OF r]] obtain p s' runs A' B' where
    a: "malloc (liballoc_alloc linkage_example) 100 ?s = Inr (p, s')"
      "allocates (liballoc_alloc linkage_example) (vm_pool linkage_example) (vm_ready linkage_example) 100 p ?s [] A {} s' runs A' B'" by blast
  have "heap_live s' runs = {(p, 100)}" "MAXCOMPLETE \<notin> set (l_completePages s')"
    using a(2) b(2) heap_inv_boot(2) [of m v] by (simp_all add: allocates_def)
  moreover have "below s' = v \<or> (\<exists>n q. unat n = 16 \<and> liballoc_alloc linkage_example n v = Inr (q, below s'))"
    using a(2) b(1) by (auto simp: allocates_def heap_pages_def)
  then have "vm_can linkage_example 16 (below s')" using v(2) [of 16] v(3) [of _ _ "below s'" 16] by fastforce
  ultimately show thesis using that [OF v(1) a] v(2) [of 16] by simp
qed

text \<open>The first block of a heap lies in the pages that were reserved for it.\<close>

lemma pool_free:
  assumes "vm_pool L v A B" "vm_inv L v xs ws"
  shows "A = page_bytes (covered (free_ranges v xs))"
  using assms vm_inv_unique unfolding vm_pool_def by metis

lemma first_block:
  assumes v: "linkage_ok L" "vm_inv L v xs ws" "first_fit (heap_pages (unat sz)) (free_ranges v xs) = Some (q, rs)" "0xC0000 \<le> q"
      "q + heap_pages (unat sz) \<le> 2 ^ 20" "heap_pages (unat sz) \<le> card (free_frames (pmm v))"
    and sz: "0 < unat sz" "unat sz \<le> 2 ^ 32 - 4128"
  obtains p s' fs where "malloc (liballoc_alloc L) sz (liballoc_boot st v) = Inr (p, s')" "length fs = heap_pages (unat sz)"
    "backed L v (below s') q fs" "\<And>i. i < unat sz \<Longrightarrow> q \<le> page_of (p + of_nat i) \<and> page_of (p + of_nat i) < q + length fs"
    "inj_on (\<lambda>i. walk L (paging (below s')) (p + of_nat i)) {..< unat sz}"
proof -
  let ?s = "liballoc_boot st v" and ?A = "page_bytes (covered (free_ranges v xs))" and ?n = "heap_pages (unat sz)"
  have b: "below ?s = v" by (simp add: liballoc_boot_def)
  have n0: "0 < ?n" by (simp add: heap_pages_def)
  have pool: "vm_pool L (below ?s) ?A {}" unfolding b by (rule vm_pool_boot [OF v(2)])
  have r: "vm_ready L ?n (below ?s) ?A {}" using pool v n0 unfolding vm_ready_def vm_can_def b by blast
  have area: "heap_area ?s [] \<subseteq> {}" using heap_inv_boot(3) by simp
  from heap.malloc_ok [OF heap_inv_boot(1) sz(2) pool area disjI2 [OF r]] obtain p s' runs A' B' where
    m: "malloc (liballoc_alloc L) sz ?s = Inr (p, s')"
      "allocates (liballoc_alloc L) (vm_pool L) (vm_ready L) sz p ?s [] ?A {} s' runs A' B'" by blast
  note F = heap.allocates_facts(2,3) [OF m(2)]
  have P: "vm_pool L (below s') A' B'" "A' \<union> B' = ?A" using m(2) by (simp_all add: allocates_def)
  then have dj: "A' \<inter> B' = {}" by (simp add: vm_pool_def)
  have "unat p \<in> B'" using F(1) sz(1) by (auto simp: bytes_def)
  then have "below s' \<noteq> v" using pool_free [OF P(1), of xs ws] v(2) P(2) dj by auto
  then obtain k a where k: "unat k = ?n" "vm_alloc_kpages L k v = Inr (a, below s')"
    using m(2) b by (auto simp: allocates_def liballoc_alloc_def)
  from alloc_kpages_spec [OF v(1,2), of k q rs] v(3-6) k obtain xs' ws' fs where
    w: "vm_inv L (below s') xs' ws'" "free_ranges (below s') xs' = rs" "length fs = ?n" "backed L v (below s') q fs" by auto
  have "covered (free_ranges v xs) = covered rs \<union> {q ..< q + ?n}"
    using first_fit_spec [OF _ v(3)] v(2) by (auto simp: vm_inv_def free_ranges_def)
  then have B: "B' \<subseteq> page_bytes {q ..< q + ?n}" using pool_free [OF P(1) w(1)] w(2) P(2) dj by (auto simp: page_bytes_def)
  have pg: "q \<le> page_of (p + of_nat i) \<and> page_of (p + of_nat i) < q + length fs" if i: "i < unat sz" for i
  proof -
    have "unat (p + of_nat i) = unat p + i" using F(2) i by (simp add: unat_u32_add unat_u32_of_nat)
    moreover have "unat p + i \<in> B'" using F(1) i by (auto simp: bytes_def)
    ultimately show ?thesis using B w(3) by (auto simp: page_bytes_def page_of_def)
  qed
  have "inj_on (\<lambda>i. walk L (paging (below s')) (p + of_nat i)) {..< unat sz}"
  proof (rule inj_onI)
    fix i j
    assume "i \<in> {..< unat sz}" "j \<in> {..< unat sz}" and e: "walk L (paging (below s')) (p + of_nat i) = walk L (paging (below s')) (p + of_nat j)"
    then have ij: "i < unat sz" "j < unat sz" by simp_all
    note ci = heap.held_cell [OF P(1) F ij(1)] and cj = heap.held_cell [OF P(1) F ij(2)]
    from heap.pool_inj [OF P(1) ci(2) cj(2)] e ci(1) cj(1) show "i = j" by simp
  qed
  note inj = this
  show thesis by (rule that [OF m(1) w(3,4) pg inj])
qed

section \<open>Histories\<close>

lemma reach_inv:
  assumes "heap_reach L s M"
  obtains runs A B where "heap_inv s runs" "heap_live s runs = M" "vm_pool L (below s) A B" "heap_area s runs \<subseteq> B"
    "\<forall>(a, n) \<in> M. a \<noteq> NULL"
proof -
  have "\<exists>runs A B. heap_inv s runs \<and> heap_live s runs = M \<and> vm_pool L (below s) A B \<and> heap_area s runs \<subseteq> B \<and> (\<forall>(a, n) \<in> M. a \<noteq> NULL)"
    using assms
  proof induction
    case (boot v A m)
    then show ?case using heap_inv_boot [of m v] by (intro exI [of _ "[]"] exI [of _ A] exI [of _ "{}"]) (simp add: liballoc_boot_def)
  next
    case (malloc s M sz p s')
    then obtain runs A B where I: "heap_inv s runs" "heap_live s runs = M" "vm_pool L (below s) A B" "heap_area s runs \<subseteq> B"
      "\<forall>(a, n) \<in> M. a \<noteq> NULL" by blast
    have "vm_ready L (heap_pages (unat sz)) (below s) A B" using malloc.hyps(3) I(3) by (simp add: vm_ready_def)
    from heap.malloc_ok [OF I(1) malloc.hyps(2) I(3,4) disjI2 [OF this]] malloc.hyps(4) obtain runs' A' B' where
      "allocates (liballoc_alloc L) (vm_pool L) (vm_ready L) sz p s runs A B s' runs' A' B'" by auto
    then show ?case using I(2,5) unfolding allocates_def by blast
  next
    case (free s M a n s')
    then obtain runs A B where I: "heap_inv s runs" "heap_live s runs = M" "vm_pool L (below s) A B" "heap_area s runs \<subseteq> B"
      "\<forall>(a, n) \<in> M. a \<noteq> NULL" by blast
    from free_ok_heap [OF I(1), of a n "liballoc_free L"] I(2,5) free.hyps(2-4) obtain runs' where
      "heap_inv s' runs'" "below s' = below s" "heap_live s' runs' = M - {(a, n)}" "heap_area s' runs' = heap_area s runs" by auto
    then show ?case using I(3-5) by (intro exI [of _ runs'] exI [of _ A] exI [of _ B]) auto
  qed
  then show thesis using that by blast
qed

section \<open>Requests that wrap around\<close>

text \<open>The tag that \<^verbatim>\<open>allocate_new_tag\<close> writes for a size whose sum with the header wraps around.\<close>

definition wrapped_tag :: "u32 \<Rightarrow> boundary_tag" where
  "wrapped_tag sz = \<lparr>magic = LIBALLOC_MAGIC, tag_size = sz, real_size = 16 * l_pageSize, tag_index = -1,
     split_left = NULL, split_right = NULL, tag_next = NULL, tag_prev = NULL\<rparr>"

lemma sint_small_pos: "0 < unat (w :: u32) \<Longrightarrow> unat w < 2 ^ 31 \<Longrightarrow> 0 < sint w"
proof -
  assume w: "0 < unat w" "unat w < 2 ^ 31"
  have "sint w = int (unat w)" using sint_small [OF w(2)] by simp
  then show ?thesis using w(1) by linarith
qed

lemma wrapped_size:
  assumes "2 ^ 32 - 32 \<le> unat (sz :: u32)"
  shows "unat (sz + sizeof_tag) < 32"
proof -
  have "unat (sz + sizeof_tag) = (unat sz + 32) mod 2 ^ 32" by (simp add: sizeof_tag_def unat_word_ariths)
  moreover have "unat sz - 4294967264 < 32" using unat_lt_2p32 [of sz] by linarith
  ultimately show ?thesis using assms by (simp add: le_mod_geq)
qed

lemma allocate_wraps:
  assumes "2 ^ 32 - 32 \<le> unat sz" "al 16 (below s) = Inr (q, v)" "q \<noteq> NULL"
  shows "allocate_new_tag al sz s = Inr (q, s\<lparr>below := v, tags := (tags s)(q \<mapsto> wrapped_tag sz)\<rparr>)"
proof -
  let ?d = "sz + sizeof_tag"
  let ?p = "if ?d mod l_pageSize \<noteq> 0 then ?d div l_pageSize + 1 else ?d div l_pageSize"
  have "unat (?d div l_pageSize) = 0" using wrapped_size [OF assms(1)] by (simp add: l_pageSize_def unat_div)
  then have "?d div l_pageSize = 0" by (simp add: unat_eq_zero)
  then have "?p < l_pageCount" by (simp add: l_pageCount_def)
  then have p: "(if ?p < l_pageCount then l_pageCount else ?p) = 16" by (simp add: l_pageCount_def)
  show ?thesis unfolding allocate_new_tag_def Let_def p wrapped_tag_def using assms(2,3) by simp
qed

lemma split_wraps:
  assumes "2 ^ 32 - 32 \<le> unat sz" "q \<noteq> NULL" "4096 dvd unat q" "tags s q = Some (wrapped_tag sz)"
  shows "split_tag q s = Inl (Undefined ''overlapping tags'')"
proof -
  define d where "d = sz + sizeof_tag"
  have d: "unat d < 32" unfolding d_def by (rule wrapped_size [OF assms(1)])
  obtain k where k: "unat q = 4096 * k" using assms(3) by (auto elim: dvdE)
  have "4096 * k < 4096 * 1048576" using unat_lt_2p32 [of q] k by simp
  then have "unat q + unat d < 4294967296" using d k by simp
  then have "unat (q + d) = unat q + unat d" by (rule unat_u32_add)
  then have "unat (q + d) \<noteq> 0" using assms(2) by (simp add: NULL_def unat_eq_zero)
  then have "q + d \<noteq> NULL" unfolding NULL_def by (metis unat_0)
  moreover have "q + d - q < sizeof_tag" using d by (simp add: word_less_nat_alt sizeof_tag_def)
  moreover have e: "q + sizeof_tag + sz = q + d" by (simp add: d_def)
  ultimately show ?thesis
    unfolding split_tag_def get_tag_Inr [OF assms(2,4)] bindE_Inr Let_def wrapped_tag_def boundary_tag.simps e by simp
qed

lemma take_wraps:
  assumes "2 ^ 32 - 32 \<le> unat sz" "q \<noteq> NULL" "4096 dvd unat q" "tags s q = Some (wrapped_tag sz)"
  shows "take_tag q sz s = Inl (Undefined ''overlapping tags'')"
proof -
  let ?r = "16 * l_pageSize - sz - sizeof_tag * 2"
  define d where "d = sz + sizeof_tag"
  have d: "unat d < 32" unfolding d_def by (rule wrapped_size [OF assms(1)])
  have "?r = 0xFFE0 - d" by (simp add: d_def l_pageSize_def sizeof_tag_def)
  moreover have "unat (0xFFE0 - d) = 0xFFE0 - unat d" using d by (simp add: unat_sub word_le_nat_alt)
  ultimately have r: "0 < sint ?r" "0 \<le> getexp ?r" using d by (simp_all add: sint_small_pos getexp_nonneg)
  have "wrapped_tag sz\<lparr>tag_size := sz\<rparr> = wrapped_tag sz" by (simp add: wrapped_tag_def)
  then show ?thesis
    using assms(2,4) r split_wraps [OF assms(1-3), where s = "s\<lparr>tags := (tags s)(q \<mapsto> wrapped_tag sz)\<rparr>"]
    by (simp add: take_tag_def set_tag_Inr get_tag_Inr Let_def) (simp add: wrapped_tag_def)
qed

section \<open>Properties\<close>

text \<open>
  C10. \<^verbatim>\<open>malloc\<close> returns a block of the requested size whenever a free block of its class has room or
  the virtual memory manager can give the pages of a new run. The block overlaps no block handed out
  before, all of its bytes are mapped to frames in use, the invariant of the heap is kept, no other
  block appears or disappears, and no byte that was held before changes.
\<close>

theorem malloc_correct:
  assumes "heap_inv s runs" "unat sz \<le> 2 ^ 32 - 4128" "vm_pool L (below s) A B" "heap_area s runs \<subseteq> B"
    and "has_room (tags s) runs sz \<or> vm_can L (heap_pages (unat sz)) (below s)"
  shows "\<exists>p s' runs' A' B'. malloc (liballoc_alloc L) sz s = Inr (p, s') \<and> p \<noteq> NULL \<and> heap_inv s' runs' \<and>
    heap_live s' runs' = insert (p, sz) (heap_live s runs) \<and>
    (\<forall>(a, n) \<in> heap_live s runs. a \<noteq> p \<and> bytes a n \<inter> bytes p sz = {}) \<and>
    unat p + unat sz \<le> 2 ^ 32 \<and> bytes p sz \<subseteq> heap_area s' runs' \<and> heap_area s' runs' \<subseteq> B' \<and> vm_pool L (below s') A' B' \<and>
    B \<subseteq> B' \<and> A' \<union> B' = A \<union> B \<and> (\<forall>b \<in> B. vm_load L (of_nat b) (below s') = vm_load L (of_nat b) (below s))"
proof -
  have "has_room (tags s) runs sz \<or> vm_ready L (heap_pages (unat sz)) (below s) A B" using assms(3,5) by (auto simp: vm_ready_def)
  from heap.malloc_ok [OF assms(1-4) this] obtain p s' runs' A' B' where
    m: "malloc (liballoc_alloc L) sz s = Inr (p, s')"
      "allocates (liballoc_alloc L) (vm_pool L) (vm_ready L) sz p s runs A B s' runs' A' B'" by blast
  note F = heap.allocates_facts [OF m(2)]
  have "(p, sz) \<in> heap_live s' runs'" "heap_inv s' runs'" using m(2) by (simp_all add: allocates_def)
  from live_bytes(1) [OF this(2,1)] show ?thesis using m F unfolding allocates_def kept_def by blast
qed

theorem malloc_correct_witness:
  "\<exists>s p s' runs. malloc (liballoc_alloc linkage_example) 100 s = Inr (p, s') \<and> heap_live s' runs = {(p, 100)} \<and>
     bytes p 100 \<subseteq> heap_area s' runs"
proof -
  obtain v A where v: "vm_pool linkage_example v A {}" "\<And>n. 0 < n \<Longrightarrow> n \<le> 2048 \<Longrightarrow> vm_can linkage_example n v"
    by (rule heap_example) (rule that)
  let ?s = "liballoc_boot undefined v"
  have b: "below ?s = v" by (simp add: liballoc_boot_def)
  have h: "has_room (tags ?s) [] 100 \<or> vm_can linkage_example (heap_pages (unat (100 :: u32))) (below ?s)"
    using v b by (simp add: heap_pages_def)
  have "unat (100 :: u32) \<le> 2 ^ 32 - 4128" "vm_pool linkage_example (below ?s) A {}" "heap_area ?s [] \<subseteq> {}"
    using v(1) b heap_inv_boot(3) [of undefined v] by simp_all
  from malloc_correct [OF heap_inv_boot(1) this h] show ?thesis unfolding heap_inv_boot(2) by blast
qed



text \<open>
  C22. \<^verbatim>\<open>calloc\<close> of less than two gigabytes returns a new block of \<^verbatim>\<open>nobj * size\<close> bytes (the product
  taken modulo two to the 32) that reads as zeros, and changes no other byte that was held.
\<close>

theorem calloc_zeroes:
  assumes "heap_inv s runs" "unat (nobj * sz) < 2 ^ 31" "vm_pool L (below s) A B" "heap_area s runs \<subseteq> B"
    and "has_room (tags s) runs (nobj * sz) \<or> vm_can L (heap_pages (unat (nobj * sz))) (below s)"
  shows "\<exists>p s' runs'. calloc (vm_store L) (liballoc_alloc L) nobj sz s = Inr (p, s') \<and> p \<noteq> NULL \<and> heap_inv s' runs' \<and>
    heap_live s' runs' = insert (p, nobj * sz) (heap_live s runs) \<and>
    (\<forall>i < unat (nobj * sz). vm_load L (p + of_nat i) (below s') = Inr 0) \<and>
    (\<forall>b \<in> B - bytes p (nobj * sz). vm_load L (of_nat b) (below s') = vm_load L (of_nat b) (below s))"
proof -
  have "has_room (tags s) runs (nobj * sz) \<or> vm_ready L (heap_pages (unat (nobj * sz))) (below s) A B"
    using assms(3,5) by (auto simp: vm_ready_def)
  from heap.calloc_ok [OF assms(1-4) this] obtain p s1 s' runs' A' B' where
    c: "calloc (vm_store L) (liballoc_alloc L) nobj sz s = Inr (p, s')" "heap_inv s' runs'"
      "heap_live s' runs' = insert (p, nobj * sz) (heap_live s runs)" "\<forall>b \<in> bytes p (nobj * sz). vm_load L (of_nat b) (below s') = Inr 0"
      "kept (vm_load L) (below s) (below s') (B - bytes p (nobj * sz))"
      "allocates (liballoc_alloc L) (vm_pool L) (vm_ready L) (nobj * sz) p s runs A B s1 runs' A' B'" by blast
  have "vm_load L (p + of_nat i) (below s') = Inr 0" if "i < unat (nobj * sz)" for i
  proof -
    have "unat p + i \<in> bytes p (nobj * sz)" using that by (simp add: bytes_def)
    then have "vm_load L (of_nat (unat p + i)) (below s') = Inr 0" using c(4) by blast
    then show ?thesis by simp
  qed
  moreover have "p \<noteq> NULL" using c(6) by (simp add: allocates_def)
  ultimately show ?thesis using c(1-3,5) unfolding kept_def by blast
qed

theorem calloc_zeroes_witness:
  "\<exists>s p s'. calloc (vm_store linkage_example) (liballoc_alloc linkage_example) 25 4 s = Inr (p, s') \<and>
     vm_load linkage_example (p + 99) (below s') = Inr 0"
proof -
  obtain v A where v: "vm_pool linkage_example v A {}" "\<And>n. 0 < n \<Longrightarrow> n \<le> 2048 \<Longrightarrow> vm_can linkage_example n v"
    by (rule heap_example) (rule that)
  let ?s = "liballoc_boot undefined v"
  have b: "below ?s = v" by (simp add: liballoc_boot_def)
  have h: "has_room (tags ?s) [] (25 * 4) \<or> vm_can linkage_example (heap_pages (unat (25 * 4 :: u32))) (below ?s)"
    using v b by (simp add: heap_pages_def)
  have "unat (25 * 4 :: u32) < 2 ^ 31" "vm_pool linkage_example (below ?s) A {}" "heap_area ?s [] \<subseteq> {}"
    using v(1) b heap_inv_boot(3) [of undefined v] by simp_all
  from calloc_zeroes [OF heap_inv_boot(1) this h] obtain p s' where
    p: "calloc (vm_store linkage_example) (liballoc_alloc linkage_example) 25 4 ?s = Inr (p, s')"
      "\<forall>i < unat (25 * 4 :: u32). vm_load linkage_example (p + of_nat i) (below s') = Inr 0" by blast
  from p(2) have "vm_load linkage_example (p + of_nat 99) (below s') = Inr 0" by (elim allE [of _ 99]) simp
  then have "vm_load linkage_example (p + 99) (below s') = Inr 0" by simp
  with p(1) show ?thesis by blast
qed



text \<open>
  \<^verbatim>\<open>strdup\<close> of a string that lies in a block of the heap or outside the heap returns a new block
  that holds a copy of it, terminator included, and changes no other byte that was held.
\<close>

lemma strdup_correct:
  assumes "heap_inv s runs" "vm_pool L (below s) A B" "heap_area s runs \<subseteq> B" "unat k < 2 ^ 31"
    and "bytes str (k + 1) \<subseteq> B" "unat str + unat k < 2 ^ 32"
    and "(\<exists>a n. (a, n) \<in> heap_live s runs \<and> bytes str (k + 1) \<subseteq> bytes a n) \<or> bytes str (k + 1) \<inter> heap_area s runs = {}"
    and "\<forall>i < unat k. \<exists>c. vm_load L (str + of_nat i) (below s) = Inr c \<and> c \<noteq> 0" "vm_load L (str + k) (below s) = Inr 0"
    and "has_room (tags s) runs (k + 1) \<or> vm_can L (heap_pages (unat k + 1)) (below s)"
  shows "\<exists>p s' runs'. strdup (vm_load L) (vm_store L) (liballoc_alloc L) str s = Inr (p, s') \<and> p \<noteq> NULL \<and> heap_inv s' runs' \<and>
    heap_live s' runs' = insert (p, k + 1) (heap_live s runs) \<and>
    (\<forall>i \<le> unat k. vm_load L (p + of_nat i) (below s') = vm_load L (str + of_nat i) (below s)) \<and>
    (\<forall>b \<in> B - bytes p (k + 1). vm_load L (of_nat b) (below s') = vm_load L (of_nat b) (below s))"
proof -
  have "has_room (tags s) runs (k + 1) \<or> vm_ready L (heap_pages (unat k + 1)) (below s) A B"
    using assms(2,10) by (auto simp: vm_ready_def)
  from heap.strdup_ok [OF assms(1-9) this] show ?thesis unfolding kept_def by blast
qed

text \<open>
  The documentation of the hook promises NULL when no pages are to be had, and \<^verbatim>\<open>malloc\<close> passes it
  on; the hook of the kernel panics instead. Without a free block that fits and a page range that is
  large enough \<^verbatim>\<open>malloc\<close> does not return.
\<close>

lemma malloc_out_of_memory:
  assumes "heap_inv s runs" "unat sz \<le> 2 ^ 32 - 4128" "\<not> has_room (tags s) runs sz"
    and "vm_inv L (below s) xs ws" "first_fit (heap_pages (unat sz)) (free_ranges (below s) xs) = None"
  shows "malloc (liballoc_alloc L) sz s = Inl (Panic ''Out of virtual memory'')"
proof -
  have inv: "vm_lists (bucket_heap (below s)) (vm_kernel_buckets (below s)) xs (vm_waiting_list (below s)) ws"
    "ranges_fit (ranges (bucket_heap (below s)) xs)" using assms(4) by (auto simp: vm_inv_def)
  have al: "liballoc_alloc L n (below s) = Inl (Panic ''Out of virtual memory'')" if "unat n = heap_pages (unat sz)" for n
    using reserve_refines [OF inv, of n, folded free_ranges_def] assms(5) that
    by (simp add: liballoc_alloc_def vm_alloc_kpages_def)
  have new: "allocate_new_tag (liballoc_alloc L) sz s1 = Inl (Panic ''Out of virtual memory'')" if "below s1 = below s" for s1
    using al [OF new_pages(1) [OF assms(2)]] that unfolding allocate_new_tag_def Let_def by simp
  show ?thesis
    by (rule malloc_no_room [OF assms(1-3) new]) (simp add: liballoc_init_def)
qed







end
