(* ===== verification/Gfx.thy ===== *)
theory Gfx
  imports Kmalloc
begin

text \<open>
  The graphics of \<^verbatim>\<open>kernel/gfx/gfx.cpp\<close>: the frame buffer the boot loader has set up is mapped at
  a fixed address behind the managed pages, and an image is shown by copying it there. The structure
  the boot loader passes (\<^verbatim>\<open>kernel/include/kernel/multiboot.h\<close>) is a value.
\<close>

section \<open>Model\<close>

record multiboot_t =
  mb_flags :: u32
  mem_lower :: u32
  mem_upper :: u32
  boot_device :: u32
  cmdline :: paddr_t
  mb_unused :: "u8 list"
  framebuffer_addr :: paddr_t
  framebuffer_addr_high :: u32
  framebuffer_pitch :: u32
  framebuffer_width :: u32
  framebuffer_height :: u32
  framebuffer_bpp :: u8
  framebuffer_type :: u8

definition MB_FLAG_FRAMEBUFFER :: u32 where
  "MB_FLAG_FRAMEBUFFER = push_bit 12 1"

record gfx_state =
  gfx_enabled :: bool
  gfx_fb_size :: size_t

definition gfx_framebuffer :: vaddr_t where
  "gfx_framebuffer = 0xFF000000"

definition gfx_init :: "linkage \<Rightarrow> multiboot_t \<Rightarrow> gfx_state \<times> vm_state \<Rightarrow> (bool \<times> gfx_state \<times> vm_state) res" where
  "gfx_init L mb st =
     (let (g, v) = st in
      if mb_flags mb AND MB_FLAG_FRAMEBUFFER = 0 then Inr (False, g, v)
      else if framebuffer_type mb = 2 then Inr (False, g, v)
      else
        let pixels = framebuffer_width mb * framebuffer_height mb;
            g = g\<lparr>gfx_fb_size := pixels * ucast (framebuffer_bpp mb) div 8\<rparr>
        in
        bindE (vm_dma L (framebuffer_addr mb) gfx_framebuffer (gfx_fb_size g) (paging v)) (\<lambda>pg.
        bindE (memset (vm_store L) gfx_framebuffer 100 (gfx_fb_size g) (v\<lparr>paging := pg\<rparr>)) (\<lambda>v.
        Inr (True, g\<lparr>gfx_enabled := True\<rparr>, v))))"

definition gfx_apply :: "linkage \<Rightarrow> ptr \<Rightarrow> gfx_state \<Rightarrow> vm_state \<Rightarrow> vm_state res" where
  "gfx_apply L buffer g v = memcpy (vm_load L) (vm_store L) gfx_framebuffer buffer (gfx_fb_size g) v"

section \<open>Specification\<close>

text \<open>
  A linear frame buffer whose size is a whole number of pages and fits behind the fixed address, as
  for the mode the kernel asks the boot loader for: 640 by 400 pixels of four bytes are 250 pages.
\<close>

definition has_framebuffer :: "multiboot_t \<Rightarrow> nat \<Rightarrow> bool" where
  "has_framebuffer mb n \<longleftrightarrow>
     bit (mb_flags mb) 12 \<and> framebuffer_type mb \<noteq> 2 \<and> 4096 dvd unat (framebuffer_addr mb) \<and>
     unat (framebuffer_addr mb) + 4096 * n \<le> 2 ^ 32 \<and>
     unat (framebuffer_width mb) * unat (framebuffer_height mb) * unat (framebuffer_bpp mb) = 8 * (4096 * n) \<and> n \<le> 4096"

definition fb_cells :: "multiboot_t \<Rightarrow> nat \<Rightarrow> paddr_t set" where
  "fb_cells mb n = {pa. unat (framebuffer_addr mb) \<le> unat pa \<and> unat pa < unat (framebuffer_addr mb) + 4096 * n}"

text \<open>The frame buffer is mapped.\<close>

definition fb_mapped :: "linkage \<Rightarrow> multiboot_t \<Rightarrow> nat \<Rightarrow> paging_state \<Rightarrow> bool" where
  "fb_mapped L mb n pg \<longleftrightarrow> (\<forall>k < 4096 * n. walk L pg (gfx_framebuffer + of_nat k) = Some (framebuffer_addr mb + of_nat k))"

definition mb_example :: multiboot_t where
  "mb_example = \<lparr>mb_flags = 0x1000, mem_lower = 639, mem_upper = 0xF000, boot_device = 0, cmdline = 0, mb_unused = replicate 68 0,
     framebuffer_addr = 0xFD000000, framebuffer_addr_high = 0, framebuffer_pitch = 2560,
     framebuffer_width = 640, framebuffer_height = 400, framebuffer_bpp = 32, framebuffer_type = 1\<rparr>"

section \<open>The size of the frame buffer\<close>

lemma flag_framebuffer: "mb_flags mb AND MB_FLAG_FRAMEBUFFER = 0 \<longleftrightarrow> \<not> bit (mb_flags mb) 12"
proof -
  have f: "bit (MB_FLAG_FRAMEBUFFER) n \<longleftrightarrow> n = 12" for n
    unfolding MB_FLAG_FRAMEBUFFER_def push_bit_of_1 by (simp only: bit_exp_iff) auto
  show ?thesis
  proof
    assume "mb_flags mb AND MB_FLAG_FRAMEBUFFER = 0"
    then have "\<not> bit (mb_flags mb AND MB_FLAG_FRAMEBUFFER) 12" by simp
    then show "\<not> bit (mb_flags mb) 12" by (simp add: bit_and_iff f)
  next
    assume "\<not> bit (mb_flags mb) 12"
    then show "mb_flags mb AND MB_FLAG_FRAMEBUFFER = 0" by (intro bit_word_eqI) (auto simp: bit_and_iff f)
  qed
qed

lemma fb_size:
  assumes "unat w * unat h * unat bpp = 8 * m" "8 * m < 2 ^ 32"
  shows "unat (w * h * ucast (bpp :: u8) div 8 :: u32) = m"
proof -
  have b: "unat (ucast bpp :: u32) = unat bpp" using less_trans [OF unsigned_less [where w = bpp and 'a = nat], of "2 ^ 32"]
    by (simp add: unsigned_ucast_eq take_bit_eq_mod)
  show ?thesis
  proof (cases "m = 0")
    case True
    then consider "w = 0" | "h = 0" | "bpp = 0" using assms(1) by (auto simp: unat_eq_zero)
    then show ?thesis using True by cases simp_all
  next
    case False
    then have "0 < unat bpp" using assms(1) by (cases "unat bpp") auto
    then have "unat w * unat h \<le> 8 * m" unfolding assms(1) [symmetric] by simp
    then have wh: "unat (w * h) = unat w * unat h" using assms(2) by (intro unat_u32_mult) simp
    then have "unat (w * h * ucast bpp) = 8 * m" using assms b by (subst unat_u32_mult) simp_all
    then show ?thesis by (simp add: unat_div)
  qed
qed

lemma fb_address:
  assumes "k < 4096 * n" "unat a + 4096 * n \<le> 2 ^ 32"
  shows "unat (a + of_nat k :: u32) = unat a + k"
  using assms by (simp add: unat_u32_add unat_u32_of_nat)

lemma fb_cell:
  assumes "unat (framebuffer_addr mb) + 4096 * n \<le> 2 ^ 32"
  shows "(\<exists>k < 4096 * n. framebuffer_addr mb + of_nat k = pa) \<longleftrightarrow> pa \<in> fb_cells mb n"
proof
  assume "\<exists>k < 4096 * n. framebuffer_addr mb + of_nat k = pa"
  then show "pa \<in> fb_cells mb n" using fb_address [OF _ assms] by (auto simp: fb_cells_def)
next
  assume a: "pa \<in> fb_cells mb n"
  let ?k = "unat pa - unat (framebuffer_addr mb)"
  have k: "?k < 4096 * n" "unat (framebuffer_addr mb) \<le> unat pa" using a by (auto simp: fb_cells_def)
  then have "unat (framebuffer_addr mb + of_nat ?k) = unat pa" using fb_address [OF k(1) assms] by simp
  then show "\<exists>k < 4096 * n. framebuffer_addr mb + of_nat k = pa" using k(1) by (metis word_unat_eq_iff)
qed

lemma gfx_init_spec:
  assumes "linkage_ok L" "paging_inv L (paging v)" "has_framebuffer mb n"
  obtains g' pg where "gfx_init L mb (g, v) =
      Inr (True, g', v\<lparr>paging := pg, pmem := \<lambda>pa. if pa \<in> fb_cells mb n then 100 else pmem v pa\<rparr>)"
    "gfx_enabled g'" "unat (gfx_fb_size g') = 4096 * n" "paging_inv L pg" "fb_mapped L mb n pg"
    "\<And>va. page_of va < 0xFF000 \<or> 0xFF000 + n \<le> page_of va \<Longrightarrow> walk L pg va = walk L (paging v) va"
proof -
  have F: "bit (mb_flags mb) 12" "framebuffer_type mb \<noteq> 2" "4096 dvd unat (framebuffer_addr mb)"
    "unat (framebuffer_addr mb) + 4096 * n \<le> 2 ^ 32" "n \<le> 4096"
    "unat (framebuffer_width mb) * unat (framebuffer_height mb) * unat (framebuffer_bpp mb) = 8 * (4096 * n)"
    using assms(3) by (simp_all add: has_framebuffer_def)
  let ?sz = "framebuffer_width mb * framebuffer_height mb * ucast (framebuffer_bpp mb) div 8"
  have sz: "unat ?sz = 4096 * n" by (rule fb_size [OF F(6)]) (use F(5) in simp)
  have fb: "KERNEL_OFFSET \<le> gfx_framebuffer" "4096 dvd unat gfx_framebuffer" "unat gfx_framebuffer + unat ?sz \<le> 2 ^ 32"
    using F(5) unfolding sz by (simp_all add: KERNEL_OFFSET_def gfx_framebuffer_def dvd_eq_mod_eq_0)
  obtain pg where pg: "vm_dma L (framebuffer_addr mb) gfx_framebuffer ?sz (paging v) = Inr pg" "paging_inv L pg"
    "\<And>k. k < unat ?sz \<Longrightarrow> walk L pg (gfx_framebuffer + of_nat k) = (if k < unat ?sz div 4096 * 4096
       then Some (framebuffer_addr mb + of_nat k) else walk L (paging v) (gfx_framebuffer + of_nat k))"
    "\<And>va'. page_of va' < page_of gfx_framebuffer \<or> page_of gfx_framebuffer + unat ?sz div 4096 \<le> page_of va' \<Longrightarrow>
       walk L pg va' = walk L (paging v) va'"
    by (rule vm_dma_spec [OF assms(1,2) fb(1,2) F(3) fb(3)]) (rule that)
  have map: "fb_mapped L mb n pg" using pg(3) unfolding sz by (simp add: fb_mapped_def)
  then have "\<forall>i < unat ?sz. walk L (paging (v\<lparr>paging := pg\<rparr>)) (gfx_framebuffer + of_nat i) \<noteq> None"
    unfolding sz by (simp add: fb_mapped_def)
  from memset_vm [OF this, of 100] have ms: "memset (vm_store L) gfx_framebuffer 100 ?sz (v\<lparr>paging := pg\<rparr>) =
      Inr (v\<lparr>paging := pg, pmem := \<lambda>c. if \<exists>i < 4096 * n. walk L pg (gfx_framebuffer + of_nat i) = Some c then 100 else pmem v c\<rparr>)"
    unfolding sz by (simp cong: if_cong)
  have "(\<exists>i < 4096 * n. walk L pg (gfx_framebuffer + of_nat i) = Some c) \<longleftrightarrow> c \<in> fb_cells mb n" for c
    using map fb_cell [OF F(4), of c] by (auto simp: fb_mapped_def)
  with ms have ms: "memset (vm_store L) gfx_framebuffer 100 ?sz (v\<lparr>paging := pg\<rparr>) =
      Inr (v\<lparr>paging := pg, pmem := \<lambda>pa. if pa \<in> fb_cells mb n then 100 else pmem v pa\<rparr>)" by simp
  have run: "gfx_init L mb (g, v) = Inr (True, g\<lparr>gfx_fb_size := ?sz, gfx_enabled := True\<rparr>,
      v\<lparr>paging := pg, pmem := \<lambda>pa. if pa \<in> fb_cells mb n then 100 else pmem v pa\<rparr>)"
    using F(1,2) pg(1) ms by (simp add: gfx_init_def Let_def flag_framebuffer)
  have out: "walk L pg va = walk L (paging v) va" if "page_of va < 0xFF000 \<or> 0xFF000 + n \<le> page_of va" for va
    using pg(4) [of va] that unfolding sz by (simp add: page_of_def gfx_framebuffer_def)
  show thesis by (rule that [OF run _ _ pg(2) map out]) (simp_all add: sz)
qed

text \<open>The copy to a mapped frame buffer, from a buffer whose cells are not in it.\<close>

lemma gfx_apply_spec:
  assumes "fb_mapped L mb n (paging v)" "unat (framebuffer_addr mb) + 4096 * n \<le> 2 ^ 32" "unat (gfx_fb_size g) = 4096 * n"
    and "\<And>k. k < 4096 * n \<Longrightarrow> \<exists>c. walk L (paging v) (buf + of_nat k) = Some c \<and> c \<notin> fb_cells mb n"
  obtains m where "gfx_apply L buf g v = Inr (v\<lparr>pmem := m\<rparr>)"
    "\<And>k c. k < 4096 * n \<Longrightarrow> walk L (paging v) (buf + of_nat k) = Some c \<Longrightarrow> m (framebuffer_addr mb + of_nat k) = pmem v c"
    "\<And>pa. pa \<notin> fb_cells mb n \<Longrightarrow> m pa = pmem v pa"
proof -
  let ?walk = "\<lambda>s. walk L (paging s)"
  have d: "?walk v (gfx_framebuffer + of_nat k) = Some (framebuffer_addr mb + of_nat k)" if "k < 4096 * n" for k
    using assms(1) that by (simp add: fb_mapped_def)
  have inj: "i = j" if "i < 4096 * n" "j < 4096 * n" "framebuffer_addr mb + of_nat i = framebuffer_addr mb + of_nat j" for i j
    using fb_address [OF that(1) assms(2)] fb_address [OF that(2) assms(2)] that(3) by (metis add_left_cancel)
  have "copyable ?walk v gfx_framebuffer buf (unat (gfx_fb_size g))"
    unfolding copyable_def assms(3)
  proof (intro conjI allI impI)
    fix i j
    assume i: "i < 4096 * n"
    show "?walk v (gfx_framebuffer + of_nat i) \<noteq> None" "?walk v (buf + of_nat i) \<noteq> None"
      using d [OF i] assms(4) [OF i] by auto
    assume j: "j < 4096 * n"
    have "framebuffer_addr mb + of_nat i \<in> fb_cells mb n" using fb_cell [OF assms(2)] i by blast
    then show "?walk v (gfx_framebuffer + of_nat i) \<noteq> ?walk v (buf + of_nat j)" using d [OF i] assms(4) [OF j] by auto
    show "?walk v (gfx_framebuffer + of_nat i) \<noteq> ?walk v (gfx_framebuffer + of_nat j)" if "i \<noteq> j"
      using d [OF i] d [OF j] inj [OF i j] that by auto
  qed
  from vmm.memcpy_spec [OF this] obtain v' where
    v': "gfx_apply L buf g v = Inr v'" "copied ?walk pmem gfx_framebuffer buf (4096 * n) v v'"
      "v'\<lparr>pmem := \<lambda>_. 0\<rparr> = v\<lparr>pmem := \<lambda>_. 0\<rparr>"
    unfolding gfx_apply_def assms(3) by blast
  have "pmem v' pa = pmem v pa" if "pa \<notin> fb_cells mb n" for pa
    using v'(2) that d fb_cell [OF assms(2), of pa] by (auto simp: copied_def)
  moreover have "pmem v' (framebuffer_addr mb + of_nat k) = pmem v c"
    if "k < 4096 * n" "walk L (paging v) (buf + of_nat k) = Some c" for k c
    using v'(2) that d [OF that(1)] by (auto simp: copied_def)
  ultimately show thesis using that [of "pmem v'"] v'(1) vm_state_frame [OF v'(3)] by metis
qed

lemma memset_fault:
  assumes "k < unat n" "walk L (paging v) (p + of_nat k) = None" "\<forall>i < k. walk L (paging v) (p + of_nat i) \<noteq> None"
  shows "memset (vm_store L) p c n v = Inl (Undefined ''page fault'')"
proof -
  have k: "unat (of_nat k :: u32) = k" using assms(1) less_trans [OF _ unat_lt_2p32 [of n]] by (simp add: unat_u32_of_nat)
  from memset_vm [of "of_nat k" L v p c, unfolded k] assms(3) obtain m where
    m: "for_each [0..<k] (\<lambda>i. vm_store L (p + of_nat i) (ucast c)) v = Inr (v\<lparr>pmem := m\<rparr>)"
    by (auto simp: memset_def k)
  have "[0..<unat n] = [0..<k] @ k # [Suc k..<unat n]" using assms(1) upt_add_eq_append [of 0 k "unat n - k"] by (simp add: upt_rec)
  then show ?thesis using m assms(2) by (simp add: memset_def for_each_append vm_store_def)
qed

section \<open>Properties\<close>

text \<open>
  C19. \<^verbatim>\<open>gfx_init\<close> of a frame buffer of whole pages returns true; then every byte of it is mapped at the
  fixed address in order and has the value 100, every other byte of memory and every translation outside
  it is as before, and the size and the flag are set. Without a frame buffer, or in text mode, it
  returns false and changes nothing.
\<close>

theorem gfx_init_correct:
  assumes "linkage_ok L" "paging_inv L (paging v)"
  shows "(has_framebuffer mb n \<longrightarrow> (\<exists>g' v'. gfx_init L mb (g, v) = Inr (True, g', v') \<and> gfx_enabled g' \<and> unat (gfx_fb_size g') = 4096 * n \<and>
      paging_inv L (paging v') \<and> fb_mapped L mb n (paging v') \<and> (\<forall>k < 4096 * n. vm_load L (gfx_framebuffer + of_nat k) v' = Inr 100) \<and>
      (\<forall>pa. pa \<notin> fb_cells mb n \<longrightarrow> pmem v' pa = pmem v pa) \<and>
      (\<forall>va. page_of va < 0xFF000 \<or> 0xFF000 + n \<le> page_of va \<longrightarrow> walk L (paging v') va = walk L (paging v) va))) \<and>
    (\<not> bit (mb_flags mb) 12 \<or> framebuffer_type mb = 2 \<longrightarrow> gfx_init L mb (g, v) = Inr (False, g, v))"
proof (intro conjI impI)
  assume fb: "has_framebuffer mb n"
  obtain g' pg where r: "gfx_init L mb (g, v) =
      Inr (True, g', v\<lparr>paging := pg, pmem := \<lambda>pa. if pa \<in> fb_cells mb n then 100 else pmem v pa\<rparr>)"
    "gfx_enabled g'" "unat (gfx_fb_size g') = 4096 * n" "paging_inv L pg" "fb_mapped L mb n pg"
    "\<And>va. page_of va < 0xFF000 \<or> 0xFF000 + n \<le> page_of va \<Longrightarrow> walk L pg va = walk L (paging v) va"
    by (rule gfx_init_spec [OF assms fb]) (rule that)
  have "framebuffer_addr mb + of_nat k \<in> fb_cells mb n" if "k < 4096 * n" for k
    using fb_cell [of mb n] fb that by (auto simp: has_framebuffer_def)
  then show "\<exists>g' v'. gfx_init L mb (g, v) = Inr (True, g', v') \<and> gfx_enabled g' \<and> unat (gfx_fb_size g') = 4096 * n \<and>
      paging_inv L (paging v') \<and> fb_mapped L mb n (paging v') \<and> (\<forall>k < 4096 * n. vm_load L (gfx_framebuffer + of_nat k) v' = Inr 100) \<and>
      (\<forall>pa. pa \<notin> fb_cells mb n \<longrightarrow> pmem v' pa = pmem v pa) \<and>
      (\<forall>va. page_of va < 0xFF000 \<or> 0xFF000 + n \<le> page_of va \<longrightarrow> walk L (paging v') va = walk L (paging v) va)"
    using r by (intro exI [of _ g'] exI [of _ "v\<lparr>paging := pg, pmem := \<lambda>pa. if pa \<in> fb_cells mb n then 100 else pmem v pa\<rparr>"])
      (simp add: vm_load_def fb_mapped_def)
next
  assume "\<not> bit (mb_flags mb) 12 \<or> framebuffer_type mb = 2"
  then show "gfx_init L mb (g, v) = Inr (False, g, v)" by (auto simp: gfx_init_def Let_def flag_framebuffer)
qed

lemma mb_example_framebuffer: "has_framebuffer mb_example 250"
proof -
  have "bit (0x1000 :: u32) 12" by simp
  then show ?thesis by (simp add: has_framebuffer_def mb_example_def dvd_eq_mod_eq_0)
qed

theorem gfx_init_correct_witness:
  "\<exists>v g' v'. gfx_init linkage_example mb_example (\<lparr>gfx_enabled = False, gfx_fb_size = 0\<rparr>, v) = Inr (True, g', v') \<and>
     vm_load linkage_example (gfx_framebuffer + of_nat 1023999) v' = Inr 100"
proof -
  obtain v where "vm_inv linkage_example v [0xC0606000] []" using vm_example by blast
  then have "paging_inv linkage_example (paging v)" by (simp add: vm_inv_def)
  from gfx_init_correct [OF linkage_example_ok this, of mb_example 250] mb_example_framebuffer
  obtain g' v' where "gfx_init linkage_example mb_example (\<lparr>gfx_enabled = False, gfx_fb_size = 0\<rparr>, v) = Inr (True, g', v')"
    "\<forall>k < 4096 * 250. vm_load linkage_example (gfx_framebuffer + of_nat k) v' = Inr 100" by blast
  moreover have "(1023999 :: nat) < 4096 * 250" by simp
  ultimately show ?thesis by blast
qed

text \<open>
  A frame buffer whose size is not a multiple of the page size makes \<^verbatim>\<open>gfx_init\<close> fault: \<^verbatim>\<open>vm_dma\<close> leaves
  its last page out, and the \<^verbatim>\<open>memset\<close> that follows reaches into it.
\<close>

lemma gfx_init_partial_page:
  assumes "linkage_ok L" "paging_inv L (paging v)" "bit (mb_flags mb) 12" "framebuffer_type mb \<noteq> 2" "4096 dvd unat (framebuffer_addr mb)"
    and "unat (framebuffer_width mb) * unat (framebuffer_height mb) * unat (framebuffer_bpp mb) = 8 * m" "m \<le> 0x1000000" "\<not> 4096 dvd m"
    and "walk L (paging v) (gfx_framebuffer + of_nat (m div 4096 * 4096)) = None"
  shows "gfx_init L mb (g, v) = Inl (Undefined ''page fault'')"
proof -
  let ?sz = "framebuffer_width mb * framebuffer_height mb * ucast (framebuffer_bpp mb) div 8"
  have sz: "unat ?sz = m" by (rule fb_size [OF assms(6)]) (use assms(7) in simp)
  have fb: "KERNEL_OFFSET \<le> gfx_framebuffer" "4096 dvd unat gfx_framebuffer" "unat gfx_framebuffer + unat ?sz \<le> 2 ^ 32"
    using assms(7) unfolding sz by (simp_all add: KERNEL_OFFSET_def gfx_framebuffer_def dvd_eq_mod_eq_0)
  obtain pg where pg: "vm_dma L (framebuffer_addr mb) gfx_framebuffer ?sz (paging v) = Inr pg"
    "\<And>k. k < unat ?sz \<Longrightarrow> walk L pg (gfx_framebuffer + of_nat k) = (if k < unat ?sz div 4096 * 4096
       then Some (framebuffer_addr mb + of_nat k) else walk L (paging v) (gfx_framebuffer + of_nat k))"
    by (rule vm_dma_spec [OF assms(1,2) fb(1,2) assms(5) fb(3)]) (rule that)
  have k: "m div 4096 * 4096 < m" using assms(8) by (metis dvd_triv_right le_neq_implies_less div_times_less_eq_dividend)
  have "memset (vm_store L) gfx_framebuffer 100 ?sz (v\<lparr>paging := pg\<rparr>) = Inl (Undefined ''page fault'')"
  proof (rule memset_fault [of "m div 4096 * 4096"])
    show "m div 4096 * 4096 < unat ?sz" unfolding sz by (rule k)
    show "walk L (paging (v\<lparr>paging := pg\<rparr>)) (gfx_framebuffer + of_nat (m div 4096 * 4096)) = None"
      using pg(2) [unfolded sz, OF k] assms(9) by (simp del: of_nat_mult)
    show "\<forall>i < m div 4096 * 4096. walk L (paging (v\<lparr>paging := pg\<rparr>)) (gfx_framebuffer + of_nat i) \<noteq> None"
      using pg(2) [unfolded sz] k by (auto dest: less_trans [OF _ k])
  qed
  then show ?thesis using assms(3,4) pg(1) by (simp add: gfx_init_def Let_def flag_framebuffer)
qed

end
