(* ===== verification/Colors.thy ===== *)
theory Colors
  imports Complex_Main Prelude
begin

text \<open>
  The floating-point code: \<^verbatim>\<open>libmath/math.cpp\<close> and the colours of \<^verbatim>\<open>kernel/gfx/colors.cpp\<close>. The
  floating-point unit is a parameter, the record \<open>fpu\<close>: its instructions, the conversions the
  compiler uses and the decimal literals, with no law about rounding. What holds for every unit is
  stated for every unit; the formulas themselves are compared with a reference on exact arithmetic,
  which is an instance of the record.
\<close>

section \<open>Model\<close>

text \<open>
  \<open>fl_lit m e\<close> is the literal of \<open>m\<close> over \<open>10 ^ e\<close>; \<open>fl_prem\<close> is one \<^verbatim>\<open>fprem\<close>: the partial remainder and
  whether the flag C2 says that it is incomplete; \<open>fl_bits\<close> and \<open>fl_unbits\<close> are \<^verbatim>\<open>floatAsInt\<close> and
  \<^verbatim>\<open>intAsFloat\<close>.
\<close>

record 'f fpu =
  fl_lit :: "int \<Rightarrow> nat \<Rightarrow> 'f"
  fl_of_int :: "int \<Rightarrow> 'f"
  fl_add :: "'f \<Rightarrow> 'f \<Rightarrow> 'f"
  fl_sub :: "'f \<Rightarrow> 'f \<Rightarrow> 'f"
  fl_mul :: "'f \<Rightarrow> 'f \<Rightarrow> 'f"
  fl_div :: "'f \<Rightarrow> 'f \<Rightarrow> 'f"
  fl_less :: "'f \<Rightarrow> 'f \<Rightarrow> bool"
  fl_abs :: "'f \<Rightarrow> 'f"
  fl_sin :: "'f \<Rightarrow> 'f"
  fl_prem :: "'f \<Rightarrow> 'f \<Rightarrow> 'f \<times> bool"
  fl_u32 :: "'f \<Rightarrow> u32"
  fl_u8 :: "'f \<Rightarrow> u8"
  fl_bits :: "'f \<Rightarrow> u32"
  fl_unbits :: "u32 \<Rightarrow> 'f"

partial_function (option) fmod_loop :: "'f fpu \<Rightarrow> 'f \<Rightarrow> 'f \<Rightarrow> 'f option" where
  "fmod_loop F x y = (if snd (fl_prem F x y) then fmod_loop F (fst (fl_prem F x y)) y else Some (fst (fl_prem F x y)))"

definition fmod :: "'f fpu \<Rightarrow> 'f \<Rightarrow> 'f \<Rightarrow> 'f res" where
  "fmod F x y = (case fmod_loop F x y of None \<Rightarrow> Inl Diverges | Some r \<Rightarrow> Inr r)"

definition M_PI_2 :: "'f fpu \<Rightarrow> 'f" where
  "M_PI_2 F = fl_lit F 1570796326794897 15"

definition SIGN_MASK :: u32 where
  "SIGN_MASK = 0x80000000"

text \<open>The bit casts of \<^verbatim>\<open>math.hpp\<close>.\<close>

definition floatAsInt :: "'f fpu \<Rightarrow> 'f \<Rightarrow> u32" where
  "floatAsInt F num = fl_bits F num"

definition intAsFloat :: "'f fpu \<Rightarrow> u32 \<Rightarrow> 'f" where
  "intAsFloat F num = fl_unbits F num"

text \<open>The quadrant offset of \<^verbatim>\<open>atan2\<close> from the two sign bits.\<close>

definition quadrant :: "u32 \<Rightarrow> u32 \<Rightarrow> u32" where
  "quadrant ux_s uy_s = drop_bit 29 (NOT ux_s AND uy_s) OR drop_bit 30 ux_s"

definition atan2 :: "'f fpu \<Rightarrow> 'f \<Rightarrow> 'f \<Rightarrow> 'f" where
  "atan2 F y x =
     (let b = fl_lit F 596227 6;
          ux_s = SIGN_MASK AND floatAsInt F x;
          uy_s = SIGN_MASK AND floatAsInt F y;
          q = fl_of_int F (uint (quadrant ux_s uy_s));
          bxy_a = fl_abs F (fl_mul F (fl_mul F b x) y);
          num = fl_add F bxy_a (fl_mul F y y);
          atan_1q = fl_div F num (fl_add F (fl_add F (fl_mul F x x) bxy_a) num);
          uatan_2q = (ux_s XOR uy_s) OR floatAsInt F atan_1q
      in fl_mul F (fl_add F q (intAsFloat F uatan_2q)) (M_PI_2 F))"

text \<open>The last line of both colour functions: \<^verbatim>\<open>(r << 16) | (g << 8) | b\<close> on bytes.\<close>

definition rgb :: "u8 \<Rightarrow> u8 \<Rightarrow> u8 \<Rightarrow> u32" where
  "rgb r g b = push_bit 16 (ucast r) OR push_bit 8 (ucast g) OR ucast b"

definition hsv2rgbfast :: "'f fpu \<Rightarrow> 'f \<Rightarrow> u32 res" where
  "hsv2rgbfast F h =
     bindE (fmod F h (fl_lit F 2 0)) (\<lambda>m.
     let one = fl_lit F 1 0;
         x = fl_sub F one (fl_abs F (fl_sub F m one));
         v = fl_u8 F (fl_mul F x (fl_lit F 255 0));
         k = fl_u32 F h mod 6;
         (r, g, b) =
           (if k = 0 then (255, v, 0)
            else if k = 1 then (v, 255, 0)
            else if k = 2 then (0, 255, v)
            else if k = 3 then (0, v, 255)
            else if k = 4 then (v, 0, 255)
            else (255, 0, v))
     in Inr (rgb r g b))"

definition hsv2rgb :: "'f fpu \<Rightarrow> 'f \<Rightarrow> 'f \<Rightarrow> 'f \<Rightarrow> u32 res" where
  "hsv2rgb F h s v =
     (let c = fl_mul F v s; one = fl_lit F 1 0; zero = fl_of_int F 0 in
      bindE (fmod F (fl_div F h (fl_lit F 60 0)) (fl_lit F 2 0)) (\<lambda>k.
      let x = fl_mul F c (fl_sub F one (fl_abs F (fl_sub F k one)));
          m = fl_sub F v c;
          below = (\<lambda>n. fl_less F h (fl_of_int F n));
          (r, g, b) =
            (if below 60 then (c, x, zero)
             else if below 120 then (x, c, zero)
             else if below 180 then (zero, c, x)
             else if below 240 then (zero, x, c)
             else if below 300 then (x, zero, c)
             else (c, zero, x));
          to_byte = (\<lambda>y. fl_u8 F (fl_mul F (fl_add F y m) (fl_lit F 255 0)))
      in Inr (rgb (to_byte r) (to_byte g) (to_byte b))))"

section \<open>Specification\<close>

definition red :: "u32 \<Rightarrow> u8" where
  "red c = ucast (drop_bit 16 c)"

definition green :: "u32 \<Rightarrow> u8" where
  "green c = ucast (drop_bit 8 c)"

definition blue :: "u32 \<Rightarrow> u8" where
  "blue c = ucast c"

text \<open>
  What \<^verbatim>\<open>fprem\<close> documents: an incomplete step makes the number smaller, in a measure that cannot
  decrease for ever (the difference of the exponents).
\<close>

definition prem_reduces :: "'f fpu \<Rightarrow> ('f \<Rightarrow> nat) \<Rightarrow> 'f \<Rightarrow> bool" where
  "prem_reduces F mag y \<longleftrightarrow> (\<forall>x. snd (fl_prem F x y) \<longrightarrow> mag (fst (fl_prem F x y)) < mag x)"

text \<open>Exact arithmetic; the conversions round towards zero.\<close>

definition toward_zero :: "real \<Rightarrow> int" where
  "toward_zero x = (if 0 \<le> x then \<lfloor>x\<rfloor> else \<lceil>x\<rceil>)"

definition exact :: "real fpu" where
  "exact = \<lparr>fl_lit = (\<lambda>m e. of_int m / 10 ^ e), fl_of_int = of_int, fl_add = (+), fl_sub = (-), fl_mul = (*), fl_div = (/),
     fl_less = (<), fl_abs = abs, fl_sin = sin, fl_prem = (\<lambda>x y. (x - y * of_int (toward_zero (x / y)), False)),
     fl_u32 = (\<lambda>x. of_int (toward_zero x)), fl_u8 = (\<lambda>x. of_int (toward_zero x)), fl_bits = (\<lambda>_. 0), fl_unbits = (\<lambda>_. 0)\<rparr>"

text \<open>The colour circle: each channel is one on a third of it and falls off linearly on both sides.\<close>

definition unit_clamp :: "real \<Rightarrow> real" where
  "unit_clamp x = max 0 (min 1 x)"

definition circle :: "real \<Rightarrow> real \<times> real \<times> real" where
  "circle h = (unit_clamp (\<bar>h - 3\<bar> - 1), unit_clamp (2 - \<bar>h - 2\<bar>), unit_clamp (2 - \<bar>h - 4\<bar>))"

definition channel :: "real \<Rightarrow> u8" where
  "channel x = of_int \<lfloor>255 * x\<rfloor>"

text \<open>The sixth a hue lies in decides the channels, and its distance to the odd neighbour their value.\<close>

definition sextant :: "nat \<Rightarrow> real \<Rightarrow> real \<times> real \<times> real" where
  "sextant n x =
     (if n = 0 then (1, x, 0) else if n = 1 then (x, 1, 0) else if n = 2 then (0, 1, x)
      else if n = 3 then (0, x, 1) else if n = 4 then (x, 0, 1) else (1, 0, x))"

definition ramp :: "nat \<Rightarrow> real \<Rightarrow> real" where
  "ramp n h = 1 - \<bar>h - 2 * real (n div 2) - 1\<bar>"

definition shade :: "real \<times> real \<times> real \<Rightarrow> u32" where
  "shade t = (case t of (r, g, b) \<Rightarrow> rgb (channel r) (channel g) (channel b))"

section \<open>Remainders\<close>

lemma fmod_returns:
  assumes "prem_reduces F mag y"
  shows "\<exists>r. fmod F x y = Inr r"
proof -
  have "\<exists>r. fmod_loop F x y = Some r" for x
  proof (induction "mag x" arbitrary: x rule: less_induct)
    case less
    show ?case
    proof (cases "snd (fl_prem F x y)")
      case True
      then have "mag (fst (fl_prem F x y)) < mag x" using assms by (simp add: prem_reduces_def)
      with less obtain r where "fmod_loop F (fst (fl_prem F x y)) y = Some r" by blast
      then show ?thesis using True by (simp add: fmod_loop.simps [of F x y])
    next
      case False
      then show ?thesis by (simp add: fmod_loop.simps [of F x y])
    qed
  qed
  then obtain r where "fmod_loop F x y = Some r" by blast
  then show ?thesis by (simp add: fmod_def)
qed

lemma fmod_exact: "fmod exact x y = Inr (x - y * of_int (toward_zero (x / y)))"
  by (simp add: fmod_def fmod_loop.simps exact_def)

lemma toward_zero_eq: "of_int n \<le> x \<Longrightarrow> x < of_int n + 1 \<Longrightarrow> 0 \<le> n \<Longrightarrow> toward_zero x = n"
  by (auto simp: toward_zero_def floor_eq_iff intro: order_trans [of 0 "real_of_int n"])

lemma prem_reduces_exact: "prem_reduces exact mag y"
  by (simp add: prem_reduces_def exact_def)

section \<open>Channels\<close>

lemma rgb_channels [simp]: "red (rgb r g b) = r" "green (rgb r g b) = g" "blue (rgb r g b) = b"
  by (auto simp: red_def green_def blue_def rgb_def bit_eq_iff bit_simps dest: bit_imp_le_length)

lemma rgb_top: "drop_bit 24 (rgb r g b) = 0"
  by (auto simp: rgb_def bit_eq_iff bit_simps dest: bit_imp_le_length)

text \<open>The quadrant offsets of \<^verbatim>\<open>atan2\<close>, in quarter turns from which the angle is measured forwards or back.\<close>

lemma atan2_quadrants:
  "quadrant 0 0 = 0" "quadrant SIGN_MASK 0 = 2" "quadrant SIGN_MASK SIGN_MASK = 2" "quadrant 0 SIGN_MASK = 4"
  by (simp_all add: quadrant_def SIGN_MASK_def)

section \<open>The colour circle\<close>

text \<open>One sixth of the circle at a time: \<open>n\<close> is its number, \<open>d\<close> where it starts a pair.\<close>

lemma sixth:
  fixes h :: real
  assumes "real n \<le> h" "h < real n + 1" "n < 6"
  shows "fl_u32 exact h mod 6 = of_nat n" "fmod exact h 2 = Inr (h - 2 * real (n div 2))"
proof -
  have "toward_zero h = int n" by (rule toward_zero_eq) (use assms in simp_all)
  moreover have "(of_nat n :: u32) mod 6 = of_nat n" using assms(3) by (simp add: word_unat_eq_iff unat_mod unat_u32_of_nat)
  ultimately show "fl_u32 exact h mod 6 = of_nat n" by (simp add: exact_def)
  have n: "real n = 2 * real (n div 2) + real (n mod 2)" using mult_div_mod_eq [of 2 n] by (metis of_nat_add of_nat_mult of_nat_numeral)
  have "real (n mod 2) \<le> 1" by simp
  then have "toward_zero (h / 2) = int (n div 2)"
    by (intro toward_zero_eq) (use assms n in auto)
  then show "fmod exact h 2 = Inr (h - 2 * real (n div 2))" by (simp add: fmod_exact)
qed

lemma six_cases:
  fixes h :: real
  assumes "0 \<le> h" "h < 6"
  obtains n where "real n \<le> h" "h < real n + 1" "n < 6"
proof
  let ?n = "nat \<lfloor>h\<rfloor>"
  show "real ?n \<le> h" "h < real ?n + 1" using assms(1) by (simp_all add: of_nat_nat)
  show "?n < 6" using assms by (simp add: nat_less_iff floor_less_iff)
qed

lemma channel_ends [simp]: "channel 1 = 255" "channel 0 = 0"
  by (simp_all add: channel_def)

lemma exact_byte: "0 \<le> x \<Longrightarrow> fl_u8 exact (x * 255) = channel x"
  by (simp add: exact_def toward_zero_def channel_def mult.commute)

lemma nat_less_6: "n < 6 \<Longrightarrow> n = 0 \<or> n = 1 \<or> n = 2 \<or> n = 3 \<or> n = 4 \<or> n = (5 :: nat)"
  by auto

lemma circle_sextant:
  assumes "real n \<le> h" "h < real n + 1" "n < 6"
  shows "circle h = sextant n (ramp n h)"
  using nat_less_6 [OF assms(3)] assms(1,2)
  by (elim disjE) (simp_all add: circle_def sextant_def ramp_def unit_clamp_def)

lemma ramp_unit:
  assumes "real n \<le> h" "h < real n + 1" "n < 6"
  shows "0 \<le> ramp n h"
  using nat_less_6 [OF assms(3)] assms(1,2) by (elim disjE) (simp_all add: ramp_def)

lemma fast_sextant:
  assumes "real n \<le> h" "h < real n + 1" "n < 6"
  shows "hsv2rgbfast exact h = Inr (shade (sextant n (ramp n h)))"
proof -
  have v: "fl_u8 exact (ramp n h * 255) = channel (ramp n h)" by (rule exact_byte [OF ramp_unit [OF assms]])
  have lit: "fl_lit exact m 0 = of_int m" "fl_sub exact = (-)" "fl_abs exact = abs" "fl_mul exact = (*)" for m
    by (simp_all add: exact_def)
  have "hsv2rgbfast exact h = Inr (
     let k = (of_nat n :: u32); v = channel (ramp n h) in
     let (r, g, b) = (if k = 0 then (255, v, 0) else if k = 1 then (v, 255, 0) else if k = 2 then (0, 255, v)
       else if k = 3 then (0, v, 255) else if k = 4 then (v, 0, 255) else (255, 0, v)) in rgb r g b)"
    unfolding hsv2rgbfast_def lit using sixth [OF assms] v by (simp add: Let_def ramp_def)
  then show ?thesis using nat_less_6 [OF assms(3)] by (elim disjE) (simp_all add: Let_def shade_def sextant_def)
qed

lemma general_sextant:
  assumes "real n \<le> h" "h < real n + 1" "n < 6"
  shows "hsv2rgb exact (60 * h) 1 1 = Inr (shade (sextant n (ramp n h)))"
proof -
  have v: "fl_u8 exact (ramp n h * 255) = channel (ramp n h)" by (rule exact_byte [OF ramp_unit [OF assms]])
  have c: "fl_u8 exact 255 = 255" "fl_u8 exact 0 = 0" using exact_byte [of 1] exact_byte [of 0] by simp_all
  have ops: "fl_lit exact m 0 = of_int m" "fl_of_int exact = of_int" "fl_sub exact = (-)" "fl_abs exact = abs" "fl_mul exact = (*)"
    "fl_add exact = (+)" "fl_div exact = (/)" "fl_less exact = (<)" for m
    by (simp_all add: exact_def)
  have "fmod exact (60 * h / 60) 2 = Inr (h - 2 * real (n div 2))" using sixth(2) [OF assms] by simp
  then show ?thesis
    using nat_less_6 [OF assms(3)] assms(1,2) v c
    by (elim disjE) (simp_all add: hsv2rgb_def Let_def ops shade_def sextant_def ramp_def)
qed

section \<open>Properties\<close>



text \<open>
  C23. On exact arithmetic \<^verbatim>\<open>hsv2rgbfast\<close> computes the colour circle, with every channel rounded down to a
  byte, and agrees with the general conversion \<^verbatim>\<open>hsv2rgb\<close> at full saturation and value, for every hue of
  the interval.
\<close>

theorem hsv2rgbfast_circle:
  assumes "0 \<le> h" "h < 6"
  shows "hsv2rgbfast exact h = Inr (case circle h of (r, g, b) \<Rightarrow> rgb (channel r) (channel g) (channel b)) \<and>
    hsv2rgb exact (60 * h) 1 1 = hsv2rgbfast exact h"
proof -
  obtain n where "real n \<le> h" "h < real n + 1" "n < 6" by (rule six_cases [OF assms]) (rule that)
  then show ?thesis using fast_sextant general_sextant circle_sextant by (simp add: shade_def)
qed

theorem hsv2rgbfast_circle_witness: "hsv2rgbfast exact 2 = Inr 0xFF00 \<and> hsv2rgb exact (60 * 2) 1 1 = Inr 0xFF00"
proof -
  have "circle 2 = (0, 1, 0)" by (simp add: circle_def unit_clamp_def)
  then show ?thesis using hsv2rgbfast_circle [of 2] by (simp add: rgb_def)
qed

end
