(* ===== verification/Picture.thy ===== *)
theory Picture
  imports Gfx Colors
begin

text \<open>
  The drawing loop of \<^verbatim>\<open>kernel/kernel/kernel.cpp\<close>: one image is computed pixel by pixel into a back buffer.
  An image is a list of rows of colours, and in memory the concatenation of the bytes of its pixels.
\<close>

section \<open>Model\<close>

definition M_2_PI :: "'f fpu \<Rightarrow> 'f" where
  "M_2_PI F = fl_lit F 6283185307179586 15"

text \<open>\<^verbatim>\<open>*buf++ = col\<close> stores a double word.\<close>

definition store_dword :: "linkage \<Rightarrow> ptr \<Rightarrow> u32 \<Rightarrow> vm_state \<Rightarrow> vm_state res" where
  "store_dword L a c v =
     bindE (vm_store L a (ucast c) v) (\<lambda>v.
     bindE (vm_store L (a + 1) (ucast (drop_bit 8 c)) v) (\<lambda>v.
     bindE (vm_store L (a + 2) (ucast (drop_bit 16 c)) v) (\<lambda>v.
     vm_store L (a + 3) (ucast (drop_bit 24 c)) v)))"

definition pixel :: "'f fpu \<Rightarrow> 'f \<Rightarrow> nat \<Rightarrow> u32 res" where
  "pixel F hue x = hsv2rgbfast F (fl_add F hue (fl_mul F (fl_of_int F (int x)) (fl_lit F 1 2)))"

definition row_hue :: "'f fpu \<Rightarrow> 'f \<Rightarrow> nat \<Rightarrow> 'f res" where
  "row_hue F time y =
     (let factor = fl_div F (fl_lit F 6 0) (M_2_PI F);
          scale = fl_div F (fl_sin F time) (fl_lit F 50 0)
      in fmod F (fl_add F (fl_mul F factor (fl_sin F (fl_mul F scale (fl_of_int F (int y))))) time) (fl_lit F 6 0))"

definition draw_pixel :: "linkage \<Rightarrow> 'f fpu \<Rightarrow> 'f \<Rightarrow> nat \<Rightarrow> ptr \<times> vm_state \<Rightarrow> (ptr \<times> vm_state) res" where
  "draw_pixel L F hue x st =
     (let (buf, v) = st in
      bindE (pixel F hue x) (\<lambda>col.
      bindE (store_dword L buf col v) (\<lambda>v. Inr (buf + 4, v))))"

definition draw_row :: "linkage \<Rightarrow> 'f fpu \<Rightarrow> 'f \<Rightarrow> u32 \<Rightarrow> nat \<Rightarrow> ptr \<times> vm_state \<Rightarrow> (ptr \<times> vm_state) res" where
  "draw_row L F time w y st =
     bindE (row_hue F time y) (\<lambda>hue. for_each [0..<unat w] (draw_pixel L F hue) st)"

definition draw_image :: "linkage \<Rightarrow> 'f fpu \<Rightarrow> 'f \<Rightarrow> u32 \<Rightarrow> u32 \<Rightarrow> ptr \<Rightarrow> vm_state \<Rightarrow> vm_state res" where
  "draw_image L F time w h back_buffer v =
     bindE (for_each [0..<unat h] (draw_row L F time w) (back_buffer, v)) (\<lambda>(buf, v). Inr v)"

section \<open>Specification\<close>

text \<open>The colours of a row and of an image, and their bytes.\<close>

definition row_of :: "'f fpu \<Rightarrow> 'f \<Rightarrow> nat \<Rightarrow> nat \<Rightarrow> u32 list \<Rightarrow> bool" where
  "row_of F time w y cs \<longleftrightarrow> length cs = w \<and> (\<exists>hue. row_hue F time y = Inr hue \<and> (\<forall>x < w. pixel F hue x = Inr (cs ! x)))"

definition picture_of :: "'f fpu \<Rightarrow> 'f \<Rightarrow> nat \<Rightarrow> nat \<Rightarrow> u32 list list \<Rightarrow> bool" where
  "picture_of F time w h css \<longleftrightarrow> length css = h \<and> (\<forall>y < h. row_of F time w y (css ! y))"

definition dword_bytes :: "u32 \<Rightarrow> u8 list" where
  "dword_bytes c = [ucast c, ucast (drop_bit 8 c), ucast (drop_bit 16 c), ucast (drop_bit 24 c)]"

definition image_bytes :: "u32 list list \<Rightarrow> u8 list" where
  "image_bytes css = concat (List.map dword_bytes (concat css))"

primrec store_bytes :: "linkage \<Rightarrow> ptr \<Rightarrow> u8 list \<Rightarrow> vm_state \<Rightarrow> vm_state res" where
  "store_bytes L p [] v = Inr v"
| "store_bytes L p (b # bs) v = bindE (vm_store L p b v) (store_bytes L (p + 1) bs)"

text \<open>The remainder instruction makes progress for the two divisors the loop uses.\<close>

definition fpu_ok :: "'f fpu \<Rightarrow> bool" where
  "fpu_ok F \<longleftrightarrow> (\<exists>mag. prem_reduces F mag (fl_lit F 2 0)) \<and> (\<exists>mag. prem_reduces F mag (fl_lit F 6 0))"

text \<open>The pixel of the screen at a position, read from the frame buffer.\<close>

definition screen_pixel :: "multiboot_t \<Rightarrow> vm_state \<Rightarrow> nat \<Rightarrow> nat \<Rightarrow> u32" where
  "screen_pixel mb v y x =
     (let a = framebuffer_addr mb + of_nat (4 * (y * unat (framebuffer_width mb) + x)) in
      ucast (pmem v a) OR push_bit 8 (ucast (pmem v (a + 1))) OR push_bit 16 (ucast (pmem v (a + 2))) OR
      push_bit 24 (ucast (pmem v (a + 3))))"

text \<open>The back buffer: its bytes are cells of their own, outside the frame buffer.\<close>

definition buffer_ok :: "linkage \<Rightarrow> multiboot_t \<Rightarrow> nat \<Rightarrow> ptr \<Rightarrow> (nat \<Rightarrow> paddr_t) \<Rightarrow> paging_state \<Rightarrow> bool" where
  "buffer_ok L mb n buf c pg \<longleftrightarrow>
     (\<forall>k < 4096 * n. walk L pg (buf + of_nat k) = Some (c k) \<and> c k \<notin> fb_cells mb n) \<and> inj_on c {..< 4096 * n}"

section \<open>Images as bytes\<close>

lemma store_bytes_append:
  "store_bytes L p (xs @ ys) v = bindE (store_bytes L p xs v) (store_bytes L (p + of_nat (length xs)) ys)"
proof (induction xs arbitrary: p v)
  case (Cons x xs)
  then show ?case by (cases "vm_store L p x v") (simp_all add: add.assoc)
qed simp

lemma store_dword_bytes: "store_dword L a c v = store_bytes L a (dword_bytes c) v"
  by (simp add: store_dword_def dword_bytes_def bindE_def add.assoc split: sum.splits)

text \<open>A loop whose turns each store the bytes of one part stores the bytes of all parts.\<close>

lemma store_parts:
  assumes "\<And>i st. i < n \<Longrightarrow> f i st = bindE (store_bytes L (fst st) (part i) (snd st)) (\<lambda>v. Inr (fst st + of_nat (length (part i)), v))"
  shows "for_each [0..<n] f (p, v) =
    bindE (store_bytes L p (concat (List.map part [0..<n])) v) (\<lambda>v. Inr (p + of_nat (length (concat (List.map part [0..<n]))), v))"
  using assms
proof (induction n)
  case (Suc n)
  then have "for_each [0..<n] f (p, v) =
    bindE (store_bytes L p (concat (List.map part [0..<n])) v) (\<lambda>v. Inr (p + of_nat (length (concat (List.map part [0..<n]))), v))"
    by simp
  then show ?case using Suc.prems [of n]
    by (simp add: for_each_append bindE_assoc store_bytes_append del: length_concat) (simp add: add.assoc)
qed simp

lemma map_upt_nth: "length xs = n \<Longrightarrow> List.map (\<lambda>i. f (xs ! i)) [0..<n] = List.map f xs"
  by (rule nth_equalityI) simp_all

lemma draw_row_bytes:
  assumes "row_of F time (unat w) y cs"
  shows "draw_row L F time w y st = bindE (store_bytes L (fst st) (concat (List.map dword_bytes cs)) (snd st))
    (\<lambda>v. Inr (fst st + of_nat (length (concat (List.map dword_bytes cs))), v))"
proof -
  obtain hue where hue: "row_hue F time y = Inr hue" "\<And>x. x < unat w \<Longrightarrow> pixel F hue x = Inr (cs ! x)" and n: "length cs = unat w"
    using assms by (auto simp: row_of_def)
  have "draw_pixel L F hue x st = bindE (store_bytes L (fst st) (dword_bytes (cs ! x)) (snd st))
      (\<lambda>v. Inr (fst st + of_nat (length (dword_bytes (cs ! x))), v))" if "x < unat w" for x st
    using hue(2) [OF that] by (simp add: draw_pixel_def store_dword_bytes split_beta dword_bytes_def)
  from store_parts [where f = "draw_pixel L F hue", OF this, of "unat w" "fst st" "snd st"]
  have "for_each [0..<unat w] (draw_pixel L F hue) (fst st, snd st) =
      bindE (store_bytes L (fst st) (concat (List.map (\<lambda>x. dword_bytes (cs ! x)) [0..<unat w])) (snd st))
        (\<lambda>v. Inr (fst st + of_nat (length (concat (List.map (\<lambda>x. dword_bytes (cs ! x)) [0..<unat w]))), v))" by simp
  moreover have "List.map (\<lambda>x. dword_bytes (cs ! x)) [0..<unat w] = List.map dword_bytes cs"
    by (rule map_upt_nth [OF n])
  ultimately show ?thesis unfolding draw_row_def hue(1) bindE_Inr by simp
qed

lemma image_bytes_rows: "concat (List.map (\<lambda>cs. concat (List.map dword_bytes cs)) css) = image_bytes css"
  by (induction css) (simp_all add: image_bytes_def)

lemma draw_image_bytes:
  assumes "picture_of F time (unat w) (unat h) css"
  shows "draw_image L F time w h p v = store_bytes L p (image_bytes css) v"
proof -
  have n: "length css = unat h" and r: "\<And>y. y < unat h \<Longrightarrow> row_of F time (unat w) y (css ! y)"
    using assms by (auto simp: picture_of_def)
  have m: "concat (List.map (\<lambda>y. concat (List.map dword_bytes (css ! y))) [0..<unat h]) = image_bytes css"
  proof -
    have "List.map (\<lambda>y. concat (List.map dword_bytes (css ! y))) [0..<unat h] = List.map (\<lambda>cs. concat (List.map dword_bytes cs)) css"
      by (rule map_upt_nth [OF n])
    then show ?thesis by (simp add: image_bytes_rows)
  qed
  from store_parts [where f = "draw_row L F time w" and L = L and n = "unat h" and p = p and v = v, OF draw_row_bytes [OF r]]
  show ?thesis unfolding draw_image_def m by (simp add: bindE_assoc bindE_Inr_right)
qed

lemma picture_exists:
  assumes "fpu_ok F"
  shows "\<exists>css. picture_of F time w h css"
proof -
  have "\<exists>cs. row_of F time w y cs" for y
  proof -
    from assms obtain mag where "prem_reduces F mag (fl_lit F 6 0)" by (auto simp: fpu_ok_def)
    then have "\<exists>hue. row_hue F time y = Inr hue" unfolding row_hue_def Let_def by (rule fmod_returns)
    then obtain hue where "row_hue F time y = Inr hue" by blast
    moreover have "\<exists>c. pixel F hue x = Inr c" for x
    proof -
      from assms obtain mag where "prem_reduces F mag (fl_lit F 2 0)" by (auto simp: fpu_ok_def)
      then have "\<exists>m. fmod F (fl_add F hue (fl_mul F (fl_of_int F (int x)) (fl_lit F 1 2))) (fl_lit F 2 0) = Inr m"
        by (rule fmod_returns)
      then obtain m where "fmod F (fl_add F hue (fl_mul F (fl_of_int F (int x)) (fl_lit F 1 2))) (fl_lit F 2 0) = Inr m" by blast
      then show ?thesis by (simp add: pixel_def hsv2rgbfast_def Let_def split_beta)
    qed
    then obtain c where "\<And>x. pixel F hue x = Inr (c x)" by metis
    ultimately show ?thesis by (intro exI [of _ "List.map c [0..<w]"]) (simp add: row_of_def)
  qed
  then obtain r where "\<And>y. row_of F time w y (r y)" by metis
  then show ?thesis by (intro exI [of _ "List.map r [0..<h]"]) (simp add: picture_of_def)
qed

section \<open>Images in memory\<close>

lemma store_bytes_vm:
  assumes "\<And>i. i < length xs \<Longrightarrow> walk L (paging v) (p + of_nat i) = Some (c i)"
    and "\<And>i j. i < length xs \<Longrightarrow> j < length xs \<Longrightarrow> c i = c j \<Longrightarrow> i = j"
  shows "\<exists>m. store_bytes L p xs v = Inr (v\<lparr>pmem := m\<rparr>) \<and> (\<forall>i < length xs. m (c i) = xs ! i) \<and>
    (\<forall>a. a \<notin> c ` {..< length xs} \<longrightarrow> m a = pmem v a)"
  using assms
proof (induction xs rule: rev_induct)
  case Nil
  then show ?case by (intro exI [of _ "pmem v"]) simp
next
  case (snoc x xs)
  then obtain m where m: "store_bytes L p xs v = Inr (v\<lparr>pmem := m\<rparr>)" "\<forall>i < length xs. m (c i) = xs ! i"
    "\<forall>a. a \<notin> c ` {..< length xs} \<longrightarrow> m a = pmem v a" by auto
  let ?n = "length xs"
  have "store_bytes L p (xs @ [x]) v = Inr (v\<lparr>pmem := m(c ?n := x)\<rparr>)"
    using snoc.prems(1) [of ?n] by (simp add: store_bytes_append m(1) vm_store_def)
  moreover have "c i \<noteq> c ?n" if "i < ?n" for i using snoc.prems(2) [of i ?n] that by auto
  then have "\<forall>i < length (xs @ [x]). (m(c ?n := x)) (c i) = (xs @ [x]) ! i" using m(2) by (simp add: nth_append less_Suc_eq)
  moreover have "\<forall>a. a \<notin> c ` {..< length (xs @ [x])} \<longrightarrow> (m(c ?n := x)) a = pmem v a" using m(3) by (auto simp: lessThan_Suc)
  ultimately show ?case by blast
qed

lemma concat_nth:
  assumes "\<And>xs. xs \<in> set xss \<Longrightarrow> length xs = k" "i < length xss" "j < k"
  shows "concat xss ! (i * k + j) = xss ! i ! j"
  using assms
proof (induction xss arbitrary: i)
  case (Cons xs xss)
  then have k: "length xs = k" by simp
  show ?case
  proof (cases i)
    case 0
    then show ?thesis using Cons.prems(3) k by (simp add: nth_append)
  next
    case (Suc l)
    then have "concat xss ! (l * k + j) = xss ! l ! j" using Cons by simp
    then show ?thesis using Suc k by (simp add: nth_append algebra_simps)
  qed
qed simp

lemma length_dword_bytes [simp]: "length (dword_bytes c) = 4"
  by (simp add: dword_bytes_def)

lemma dword_of_bytes:
  "ucast (dword_bytes c ! 0) OR push_bit 8 (ucast (dword_bytes c ! 1)) OR push_bit 16 (ucast (dword_bytes c ! 2)) OR
   push_bit 24 (ucast (dword_bytes c ! 3)) = c"
proof (rule bit_eqI)
  fix n
  assume "possible_bit TYPE(u32) n"
  then have "n < 32" by simp
  then consider "n < 8" | "8 \<le> n" "n < 16" | "16 \<le> n" "n < 24" | "24 \<le> n" "n < 32" by linarith
  then show "bit (ucast (dword_bytes c ! 0) OR push_bit 8 (ucast (dword_bytes c ! 1)) OR push_bit 16 (ucast (dword_bytes c ! 2)) OR
     push_bit 24 (ucast (dword_bytes c ! 3)) :: u32) n = bit c n"
    by cases (auto simp: dword_bytes_def bit_simps dest: bit_imp_le_length)
qed

lemma image_length:
  assumes "picture_of F time w h css"
  shows "length (concat css) = h * w" "length (image_bytes css) = 4 * (h * w)"
proof -
  have "length cs = w" if "cs \<in> set css" for cs using assms that by (auto simp: picture_of_def row_of_def in_set_conv_nth)
  then have "List.map length css = List.map (\<lambda>_. w) css" by simp
  then show l: "length (concat css) = h * w" using assms by (simp add: length_concat picture_of_def map_replicate_const sum_list_replicate)
  have "List.map length (List.map dword_bytes (concat css)) = List.map (\<lambda>_. 4) (concat css)" by simp
  then show "length (image_bytes css) = 4 * (h * w)"
    unfolding image_bytes_def length_concat using l by (simp add: map_replicate_const sum_list_replicate del: map_map)
qed

lemma image_byte:
  assumes "picture_of F time w h css" "y < h" "x < w" "j < 4"
  shows "image_bytes css ! (4 * (y * w + x) + j) = dword_bytes (css ! y ! x) ! j"
proof -
  have r: "length cs = w" if "cs \<in> set css" for cs using assms(1) that by (auto simp: picture_of_def row_of_def in_set_conv_nth)
  have l: "y < length css" using assms(1,2) by (simp add: picture_of_def)
  have "y * w + x < h * w"
  proof -
    have "y * w + x < Suc y * w" using assms(3) by simp
    also have "\<dots> \<le> h * w" using assms(2) by (intro mult_le_mono1) simp
    finally show ?thesis .
  qed
  then have n: "y * w + x < length (concat css)" using image_length(1) [OF assms(1)] by simp
  then have "image_bytes css ! ((y * w + x) * 4 + j) = List.map dword_bytes (concat css) ! (y * w + x) ! j"
    unfolding image_bytes_def by (intro concat_nth) (use assms(4) in auto)
  also have "\<dots> = dword_bytes (concat css ! (y * w + x)) ! j" using n by simp
  finally show ?thesis using concat_nth [OF r l assms(3)] by (simp add: mult.commute)
qed

section \<open>Showing an image\<close>

lemma screen_pixel_shown:
  assumes "picture_of F time (unat (framebuffer_width mb)) h css" "y < h" "x < unat (framebuffer_width mb)"
    and "\<And>k. k < length (image_bytes css) \<Longrightarrow> pmem v (framebuffer_addr mb + of_nat k) = image_bytes css ! k"
  shows "screen_pixel mb v y x = css ! y ! x"
proof -
  let ?w = "unat (framebuffer_width mb)"
  let ?k = "4 * (y * ?w + x)"
  have "y * ?w + x < Suc y * ?w" using assms(3) by simp
  also have "\<dots> \<le> h * ?w" using assms(2) by (intro mult_le_mono1) simp
  finally have len: "?k + j < length (image_bytes css)" if "j < 4" for j using that image_length(2) [OF assms(1)] by simp
  define a where "a = framebuffer_addr mb + of_nat ?k"
  have "pmem v (a + of_nat j) = dword_bytes (css ! y ! x) ! j" if "j < 4" for j
    using assms(4) [OF len [OF that]] image_byte [OF assms(1-3) that] by (simp only: a_def of_nat_add add.assoc)
  from this [of 0] this [of 1] this [of 2] this [of 3] dword_of_bytes [of "css ! y ! x"]
  show ?thesis unfolding screen_pixel_def Let_def a_def [symmetric] by simp
qed

lemma image_shown:
  assumes fb: "fb_mapped L mb n (paging v)" "unat (framebuffer_addr mb) + 4096 * n \<le> 2 ^ 32" "unat (gfx_fb_size g) = 4096 * n"
    and buf: "buffer_ok L mb n buf c (paging v)"
    and pic: "picture_of F time (unat (framebuffer_width mb)) (unat (framebuffer_height mb)) css"
    and sz: "4 * (unat (framebuffer_height mb) * unat (framebuffer_width mb)) = 4096 * n"
  obtains m where "bindE (draw_image L F time (framebuffer_width mb) (framebuffer_height mb) buf v) (gfx_apply L buf g) = Inr (v\<lparr>pmem := m\<rparr>)"
    "\<And>y x. y < unat (framebuffer_height mb) \<Longrightarrow> x < unat (framebuffer_width mb) \<Longrightarrow> screen_pixel mb (v\<lparr>pmem := m\<rparr>) y x = css ! y ! x"
    "\<And>a. a \<notin> fb_cells mb n \<Longrightarrow> a \<notin> c ` {..< 4096 * n} \<Longrightarrow> m a = pmem v a"
proof -
  have len: "length (image_bytes css) = 4096 * n" using image_length(2) [OF pic] sz by simp
  have b: "\<And>k. k < 4096 * n \<Longrightarrow> walk L (paging v) (buf + of_nat k) = Some (c k)" "\<And>k. k < 4096 * n \<Longrightarrow> c k \<notin> fb_cells mb n"
    "\<And>i j. i < 4096 * n \<Longrightarrow> j < 4096 * n \<Longrightarrow> c i = c j \<Longrightarrow> i = j"
    using buf by (auto simp: buffer_ok_def dest: inj_onD)
  from store_bytes_vm [of "image_bytes css" L v buf c, unfolded len] b obtain m1 where
    m1: "store_bytes L buf (image_bytes css) v = Inr (v\<lparr>pmem := m1\<rparr>)" "\<forall>i < 4096 * n. m1 (c i) = image_bytes css ! i"
      "\<forall>a. a \<notin> c ` {..< 4096 * n} \<longrightarrow> m1 a = pmem v a" by blast
  let ?v = "v\<lparr>pmem := m1\<rparr>"
  have cells: "\<exists>d. walk L (paging ?v) (buf + of_nat k) = Some d \<and> d \<notin> fb_cells mb n" if "k < 4096 * n" for k
    using b(1,2) [OF that] by simp
  have map: "fb_mapped L mb n (paging ?v)" using fb(1) by simp
  obtain m where m: "gfx_apply L buf g ?v = Inr (?v\<lparr>pmem := m\<rparr>)"
    "\<And>k d. k < 4096 * n \<Longrightarrow> walk L (paging ?v) (buf + of_nat k) = Some d \<Longrightarrow> m (framebuffer_addr mb + of_nat k) = pmem ?v d"
    "\<And>pa. pa \<notin> fb_cells mb n \<Longrightarrow> m pa = pmem ?v pa"
    by (rule gfx_apply_spec [OF map fb(2,3) cells]) (assumption, rule that)
  have "pmem (v\<lparr>pmem := m\<rparr>) (framebuffer_addr mb + of_nat k) = image_bytes css ! k" if "k < length (image_bytes css)" for k
    using m(2) [of k "c k"] that b(1) [of k] m1(2) unfolding len by simp
  note px = screen_pixel_shown [OF pic _ _ this]
  show thesis
  proof (rule that)
    show "bindE (draw_image L F time (framebuffer_width mb) (framebuffer_height mb) buf v) (gfx_apply L buf g) = Inr (v\<lparr>pmem := m\<rparr>)"
      unfolding draw_image_bytes [OF pic] m1(1) using m(1) by simp
    show "m a = pmem v a" if "a \<notin> fb_cells mb n" "a \<notin> c ` {..< 4096 * n}" for a using m(3) [OF that(1)] m1(3) that(2) by simp
  qed (rule px)
qed

end
