(* ===== verification/Io.thy ===== *)
theory Io
  imports Prelude
begin

text \<open>
  Port input and output (\<^verbatim>\<open>kernel/io/port.c\<close>) and the state the device drivers share. The
  hardware behind the ports is a parameter, the record \<open>bus\<close>: what a read returns and how reads
  and writes change the device. Interrupt handlers are function pointers in the source; here they are
  the constructors of \<open>isr_t\<close>.
\<close>

section \<open>Model\<close>

record 'd bus =
  bus_inb :: "u16 \<Rightarrow> 'd \<Rightarrow> u8 \<times> 'd"
  bus_inw :: "u16 \<Rightarrow> 'd \<Rightarrow> u16 \<times> 'd"
  bus_inl :: "u16 \<Rightarrow> 'd \<Rightarrow> u32 \<times> 'd"
  bus_outb :: "u16 \<Rightarrow> u8 \<Rightarrow> 'd \<Rightarrow> 'd"
  bus_outw :: "u16 \<Rightarrow> u16 \<Rightarrow> 'd \<Rightarrow> 'd"
  bus_outl :: "u16 \<Rightarrow> u32 \<Rightarrow> 'd \<Rightarrow> 'd"

datatype isr_t = H_timer | H_keyboard | H_serial

record 'd io_state =
  dev :: 'd
  interrupt_handlers :: "isr_t option list"
  serial_active_port :: u16
  ns_since_boot :: u64

definition outb :: "'d bus \<Rightarrow> u16 \<Rightarrow> u8 \<Rightarrow> 'd io_state \<Rightarrow> 'd io_state" where
  "outb B port v s = s\<lparr>dev := bus_outb B port v (dev s)\<rparr>"

definition outw :: "'d bus \<Rightarrow> u16 \<Rightarrow> u16 \<Rightarrow> 'd io_state \<Rightarrow> 'd io_state" where
  "outw B port v s = s\<lparr>dev := bus_outw B port v (dev s)\<rparr>"

definition outl :: "'d bus \<Rightarrow> u16 \<Rightarrow> u32 \<Rightarrow> 'd io_state \<Rightarrow> 'd io_state" where
  "outl B port v s = s\<lparr>dev := bus_outl B port v (dev s)\<rparr>"

definition inb :: "'d bus \<Rightarrow> u16 \<Rightarrow> 'd io_state \<Rightarrow> u8 \<times> 'd io_state" where
  "inb B port s = (let (v, d) = bus_inb B port (dev s) in (v, s\<lparr>dev := d\<rparr>))"

definition inw :: "'d bus \<Rightarrow> u16 \<Rightarrow> 'd io_state \<Rightarrow> u16 \<times> 'd io_state" where
  "inw B port s = (let (v, d) = bus_inw B port (dev s) in (v, s\<lparr>dev := d\<rparr>))"

definition inl :: "'d bus \<Rightarrow> u16 \<Rightarrow> 'd io_state \<Rightarrow> u32 \<times> 'd io_state" where
  "inl B port s = (let (v, d) = bus_inl B port (dev s) in (v, s\<lparr>dev := d\<rparr>))"

text \<open>The interrupt numbers of \<^verbatim>\<open>interrupt_t\<close>, and \<^verbatim>\<open>irq_register_handler\<close> of \<^verbatim>\<open>isr.c\<close>.\<close>

datatype interrupt_t = IRQ0 | IRQ1 | IRQ2 | IRQ3 | IRQ4 | IRQ5 | IRQ6

fun irq_code :: "interrupt_t \<Rightarrow> nat" where
  "irq_code IRQ0 = 32"
| "irq_code IRQ1 = 33"
| "irq_code IRQ2 = 34"
| "irq_code IRQ3 = 35"
| "irq_code IRQ4 = 36"
| "irq_code IRQ5 = 37"
| "irq_code IRQ6 = 38"

definition irq_register_handler :: "interrupt_t \<Rightarrow> isr_t \<Rightarrow> 'd io_state \<Rightarrow> 'd io_state" where
  "irq_register_handler int_no handler s =
     s\<lparr>interrupt_handlers := (interrupt_handlers s)[irq_code int_no := Some handler]\<rparr>"

text \<open>
  \<^verbatim>\<open>irq_clear_mask\<close> of \<^verbatim>\<open>tables.c\<close>: \<^verbatim>\<open>1 << line\<close> is a shift of an
  \<^verbatim>\<open>int\<close>, undefined from 32 on.
\<close>

definition irq_clear_mask :: "'d bus \<Rightarrow> u8 \<Rightarrow> 'd io_state \<Rightarrow> 'd io_state res" where
  "irq_clear_mask B line s =
     (let (port, line) = (if line < 8 then (0x21, line) else (0xA1, line - 8)) in
      if 32 \<le> line then Inl (Undefined ''irq_clear_mask: shift amount'')
      else
        let (v, s) = inb B port s;
            value = v AND ucast (NOT (push_bit (unat line) 1 :: 32 word))
        in Inr (outb B port value s))"

section \<open>The interrupt mask\<close>

text \<open>
  What the interrupt controllers promise of their mask ports: a read returns the mask and changes
  nothing the driver can see, a write sets it, and the two controllers are independent.
\<close>

definition mask_ports :: "'d bus \<Rightarrow> (u16 \<Rightarrow> 'd \<Rightarrow> u8) \<Rightarrow> bool" where
  "mask_ports B msk \<longleftrightarrow>
     (\<forall>p \<in> {0x21, 0xA1}. \<forall>d. bus_inb B p d = (msk p d, d) \<and>
        (\<forall>v. \<forall>q \<in> {0x21, 0xA1}. msk q (bus_outb B p v d) = (if q = p then v else msk q d)))"

text \<open>A bus without devices, and the state at start, for examples.\<close>

definition silent_bus :: "'d bus" where
  "silent_bus = \<lparr>bus_inb = (\<lambda>p d. (0, d)), bus_inw = (\<lambda>p d. (0, d)), bus_inl = (\<lambda>p d. (0, d)),
     bus_outb = (\<lambda>p v d. d), bus_outw = (\<lambda>p v d. d), bus_outl = (\<lambda>p v d. d)\<rparr>"

definition io_boot :: "'d \<Rightarrow> 'd io_state" where
  "io_boot d = \<lparr>dev = d, interrupt_handlers = replicate 256 None, serial_active_port = 0, ns_since_boot = 0\<rparr>"

lemma io_simps [simp]:
  "dev (outb B p v s) = bus_outb B p v (dev s)"
  "interrupt_handlers (outb B p v s) = interrupt_handlers s"
  "serial_active_port (outb B p v s) = serial_active_port s"
  "ns_since_boot (outb B p v s) = ns_since_boot s"
  "fst (inb B p s) = fst (bus_inb B p (dev s))"
  "snd (inb B p s) = s\<lparr>dev := snd (bus_inb B p (dev s))\<rparr>"
  by (simp_all add: outb_def inb_def split: prod.splits)

lemma unmask_bit:
  fixes v :: u8
  assumes "n < 8" "i < 8"
  shows "bit (v AND ucast (NOT (push_bit n 1 :: 32 word))) i \<longleftrightarrow> bit v i \<and> i \<noteq> n"
  using assms by (auto simp: bit_simps)

section \<open>Properties\<close>

text \<open>
  \<^verbatim>\<open>irq_clear_mask\<close> enables exactly the requested interrupt line: of the sixteen lines of
  the two controllers only the one asked for loses its mask bit.
\<close>

lemma irq_clear_mask_correct:
  assumes "mask_ports B msk" "unat line < 16"
  shows "\<exists>s'. irq_clear_mask B line s = Inr s' \<and>
    (\<forall>i < 16. bit (msk (if i < 8 then 0x21 else 0xA1) (dev s')) (i mod 8) \<longleftrightarrow>
       bit (msk (if i < 8 then 0x21 else 0xA1) (dev s)) (i mod 8) \<and> i \<noteq> unat line)"
proof (cases "line < 8")
  case True
  then have l: "unat line < 8" "\<not> 32 \<le> line" by (simp_all add: word_less_nat_alt word_le_nat_alt)
  let ?v = "msk 0x21 (dev s) AND ucast (NOT (push_bit (unat line) 1 :: 32 word))"
  have run: "irq_clear_mask B line s = Inr (outb B 0x21 ?v s)"
    using True l assms(1) by (simp add: irq_clear_mask_def inb_def mask_ports_def Let_def)
  have "msk 0x21 (bus_outb B 0x21 ?v (dev s)) = ?v" "msk 0xA1 (bus_outb B 0x21 ?v (dev s)) = msk 0xA1 (dev s)"
    using assms(1) by (simp_all add: mask_ports_def)
  then have "bit (msk (if i < 8 then 0x21 else 0xA1) (bus_outb B 0x21 ?v (dev s))) (i mod 8) \<longleftrightarrow>
       bit (msk (if i < 8 then 0x21 else 0xA1) (dev s)) (i mod 8) \<and> i \<noteq> unat line" if "i < 16" for i
    using unmask_bit [OF l(1), of "i mod 8" "msk 0x21 (dev s)"] l(1) by (cases "i < 8") auto
  then show ?thesis using run by (intro exI [of _ "outb B 0x21 ?v s"]) simp
next
  case False
  then have u: "unat (line - 8) = unat line - 8" by (simp add: unat_sub not_less)
  have l: "8 \<le> unat line" "unat (line - 8) < 8" "\<not> 32 \<le> line - 8"
    using False assms(2) u by (simp_all add: word_less_nat_alt word_le_nat_alt)
  let ?v = "msk 0xA1 (dev s) AND ucast (NOT (push_bit (unat (line - 8)) 1 :: 32 word))"
  have run: "irq_clear_mask B line s = Inr (outb B 0xA1 ?v s)"
    using False l assms(1) by (simp add: irq_clear_mask_def inb_def mask_ports_def Let_def)
  have "msk 0xA1 (bus_outb B 0xA1 ?v (dev s)) = ?v" "msk 0x21 (bus_outb B 0xA1 ?v (dev s)) = msk 0x21 (dev s)"
    using assms(1) by (simp_all add: mask_ports_def)
  moreover have "i mod 8 = i - 8" if "i < 16" "\<not> i < 8" for i :: nat
    using that by (simp add: mod_if)
  ultimately have "bit (msk (if i < 8 then 0x21 else 0xA1) (bus_outb B 0xA1 ?v (dev s))) (i mod 8) \<longleftrightarrow>
       bit (msk (if i < 8 then 0x21 else 0xA1) (dev s)) (i mod 8) \<and> i \<noteq> unat line" if "i < 16" for i
    using unmask_bit [OF l(2), of "i mod 8" "msk 0xA1 (dev s)"] l(1) u that by (cases "i < 8") auto
  then show ?thesis using run by (intro exI [of _ "outb B 0xA1 ?v s"]) simp
qed

end
