(* ===== verification/Tables.thy ===== *)
theory Tables
  imports Io
begin

text \<open>
  The descriptor tables of \<^verbatim>\<open>kernel/kernel/tables.c\<close>: the global descriptor table with its
  flat segments, the interrupt descriptor table that points to the 48 entry stubs of
  \<^verbatim>\<open>isr.asm\<close>, and the programming of the two interrupt controllers. \<^verbatim>\<open>gdt_flush\<close> and
  \<^verbatim>\<open>idt_flush\<close> of \<^verbatim>\<open>tables.asm\<close> load the table registers; the latter enables interrupts.
\<close>

section \<open>Model\<close>

record dt_descriptor_t =
  dt_limit :: u16
  dt_base :: u32

record gdt_entry_t =
  g_limit_low :: u16
  g_base_low :: u16
  g_base_mid :: u8
  g_access :: u8
  g_flags_and_limit :: u8
  g_base_high :: u8

record idt_entry_t =
  i_base_low :: u16
  i_sel :: u16
  i_always0 :: u8
  i_flags :: u8
  i_base_high :: u16

record tables_state =
  gdt :: "gdt_entry_t list"
  gdt_descriptor :: dt_descriptor_t
  idt :: "idt_entry_t list"
  idt_descriptor :: dt_descriptor_t
  gdtr :: "dt_descriptor_t option"
  idtr :: "dt_descriptor_t option"
  interrupts_on :: bool

definition gdt_set_entry :: "nat \<Rightarrow> u32 \<Rightarrow> u32 \<Rightarrow> u8 \<Rightarrow> u8 \<Rightarrow> tables_state \<Rightarrow> tables_state res" where
  "gdt_set_entry num base limit access flags s =
     (if num < length (gdt s) then
        let e = gdt s ! num;
            e = e\<lparr>g_base_low := ucast (base AND 0xFFFF)\<rparr>;
            e = e\<lparr>g_base_mid := ucast (drop_bit 16 base AND 0xFF)\<rparr>;
            e = e\<lparr>g_base_high := ucast (drop_bit 24 base AND 0xFF)\<rparr>;
            e = e\<lparr>g_limit_low := ucast (limit AND 0xFFFF)\<rparr>;
            e = e\<lparr>g_flags_and_limit := ucast (drop_bit 16 limit AND 0x0F)\<rparr>;
            e = e\<lparr>g_flags_and_limit := g_flags_and_limit e OR (flags AND 0xF0)\<rparr>;
            e = e\<lparr>g_access := access\<rparr>
        in Inr (s\<lparr>gdt := (gdt s)[num := e]\<rparr>)
      else Inl (Undefined ''gdt''))"

definition gdt_flush :: "dt_descriptor_t \<Rightarrow> tables_state \<Rightarrow> tables_state" where
  "gdt_flush d s = s\<lparr>gdtr := Some d\<rparr>"

definition idt_flush :: "dt_descriptor_t \<Rightarrow> tables_state \<Rightarrow> tables_state" where
  "idt_flush d s = s\<lparr>idtr := Some d, interrupts_on := True\<rparr>"

text \<open>The addresses of the tables and of the entry stubs are the linker's; \<open>sizeof\<close> is written out.\<close>

definition gdt_init :: "u32 \<Rightarrow> tables_state \<Rightarrow> tables_state res" where
  "gdt_init gdt_addr s =
     (let s = s\<lparr>gdt_descriptor := \<lparr>dt_limit = 5 * 8 - 1, dt_base = gdt_addr\<rparr>\<rparr> in
      bindE (gdt_set_entry 0 0 0 0 0 s) (\<lambda>s.
      bindE (gdt_set_entry 1 0 0xFFFFFFFF 0x9A 0xCF s) (\<lambda>s.
      bindE (gdt_set_entry 2 0 0xFFFFFFFF 0x92 0xCF s) (\<lambda>s.
      bindE (gdt_set_entry 3 0 0xFFFFFFFF 0xFA 0xCF s) (\<lambda>s.
      bindE (gdt_set_entry 4 0 0xFFFFFFFF 0xF2 0xCF s) (\<lambda>s.
      Inr (gdt_flush (gdt_descriptor s) s)))))))"

definition idt_set_entry :: "nat \<Rightarrow> u32 \<Rightarrow> u16 \<Rightarrow> u8 \<Rightarrow> tables_state \<Rightarrow> tables_state res" where
  "idt_set_entry num func sel flags s =
     (if num < length (idt s) then
        let base = func;
            e = idt s ! num;
            e = e\<lparr>i_base_low := ucast (base AND 0xFFFF)\<rparr>;
            e = e\<lparr>i_base_high := ucast (drop_bit 16 base AND 0xFFFF)\<rparr>;
            e = e\<lparr>i_sel := sel, i_always0 := 0, i_flags := flags\<rparr>
        in Inr (s\<lparr>idt := (idt s)[num := e]\<rparr>)
      else Inl (Undefined ''idt''))"

definition idt_zero :: idt_entry_t where
  "idt_zero = \<lparr>i_base_low = 0, i_sel = 0, i_always0 = 0, i_flags = 0, i_base_high = 0\<rparr>"

definition pic_remap :: "'d bus \<Rightarrow> 'd io_state \<Rightarrow> 'd io_state" where
  "pic_remap B io =
     outb B 0xA1 0xFF (outb B 0x21 0xFF
    (outb B 0xA1 0x01 (outb B 0x21 0x01
    (outb B 0xA1 0x02 (outb B 0x21 0x04
    (outb B 0xA1 0x28 (outb B 0x21 0x20
    (outb B 0xA0 0x11 (outb B 0x20 0x11 io)))))))))"

definition idt_init ::
  "'d bus \<Rightarrow> u32 \<Rightarrow> (nat \<Rightarrow> u32) \<Rightarrow> tables_state \<times> 'd io_state \<Rightarrow> (tables_state \<times> 'd io_state) res" where
  "idt_init B idt_addr isr st =
     (let (s, io) = st;
          s = s\<lparr>idt_descriptor := \<lparr>dt_limit = 256 * 8 - 1, dt_base = idt_addr\<rparr>,
                idt := replicate 256 idt_zero\<rparr>;
          io = pic_remap B io
      in bindE (for_each [0..<48] (\<lambda>i. idt_set_entry i (isr i) 0x08 0x8E) s) (\<lambda>s.
         Inr (idt_flush (idt_descriptor s) s, io)))"

definition descriptor_tables_init ::
  "'d bus \<Rightarrow> u32 \<Rightarrow> u32 \<Rightarrow> (nat \<Rightarrow> u32) \<Rightarrow> tables_state \<times> 'd io_state \<Rightarrow> (tables_state \<times> 'd io_state) res" where
  "descriptor_tables_init B gdt_addr idt_addr isr st =
     bindE (gdt_init gdt_addr (fst st)) (\<lambda>s. idt_init B idt_addr isr (s, snd st))"

section \<open>Specification\<close>

text \<open>How the processor reads the entries.\<close>

definition seg_base :: "gdt_entry_t \<Rightarrow> u32" where
  "seg_base e = ucast (g_base_low e) OR push_bit 16 (ucast (g_base_mid e)) OR push_bit 24 (ucast (g_base_high e))"

definition seg_limit :: "gdt_entry_t \<Rightarrow> u32" where
  "seg_limit e = ucast (g_limit_low e) OR push_bit 16 (ucast (g_flags_and_limit e AND 0x0F))"

definition gate_target :: "idt_entry_t \<Rightarrow> u32" where
  "gate_target e = ucast (i_base_low e) OR push_bit 16 (ucast (i_base_high e))"

definition gate_present :: "idt_entry_t \<Rightarrow> bool" where
  "gate_present e \<longleftrightarrow> bit (i_flags e) 7"

text \<open>
  The initialisation protocol of the 8259A interrupt controller: a command with bit 4 set (here with
  a fourth command word to follow, and in cascade mode) is followed by three words on the data port,
  the vector offset, the cascade wiring and the mode; later data words set the mask.
\<close>

datatype pic_phase = Ready | Expect_ICW2 | Expect_ICW3 | Expect_ICW4

record pic8259 =
  phase :: pic_phase
  vector_offset :: u8
  wiring :: u8
  mode_word :: u8
  imr :: u8

definition pic_command :: "u8 \<Rightarrow> pic8259 \<Rightarrow> pic8259" where
  "pic_command v p = (if bit v 4 \<and> bit v 0 \<and> \<not> bit v 1 then p\<lparr>phase := Expect_ICW2\<rparr> else p)"

definition pic_data :: "u8 \<Rightarrow> pic8259 \<Rightarrow> pic8259" where
  "pic_data v p =
     (case phase p of
        Ready \<Rightarrow> p\<lparr>imr := v\<rparr>
      | Expect_ICW2 \<Rightarrow> p\<lparr>vector_offset := v, phase := Expect_ICW3\<rparr>
      | Expect_ICW3 \<Rightarrow> p\<lparr>wiring := v, phase := Expect_ICW4\<rparr>
      | Expect_ICW4 \<Rightarrow> p\<lparr>mode_word := v, phase := Ready\<rparr>)"

definition pic_write :: "u16 \<Rightarrow> u8 \<Rightarrow> pic8259 \<times> pic8259 \<Rightarrow> pic8259 \<times> pic8259" where
  "pic_write p v m =
     (if p = 0x20 then (pic_command v (fst m), snd m)
      else if p = 0x21 then (pic_data v (fst m), snd m)
      else if p = 0xA0 then (fst m, pic_command v (snd m))
      else if p = 0xA1 then (fst m, pic_data v (snd m))
      else m)"

text \<open>The bus has a master and a slave controller that follow the protocol.\<close>

definition has_pics :: "'d bus \<Rightarrow> ('d \<Rightarrow> pic8259 \<times> pic8259) \<Rightarrow> bool" where
  "has_pics B pics \<longleftrightarrow> (\<forall>p v d. pics (bus_outb B p v d) = pic_write p v (pics d))"

definition pic_bus :: "(pic8259 \<times> pic8259) bus" where
  "pic_bus = silent_bus\<lparr>bus_outb := pic_write\<rparr>"

definition pic_off :: pic8259 where
  "pic_off = \<lparr>phase = Ready, vector_offset = 8, wiring = 0, mode_word = 0, imr = 0\<rparr>"

definition tables_boot :: tables_state where
  "tables_boot =
     \<lparr>gdt = replicate 5 \<lparr>g_limit_low = 0, g_base_low = 0, g_base_mid = 0, g_access = 0, g_flags_and_limit = 0, g_base_high = 0\<rparr>,
      gdt_descriptor = \<lparr>dt_limit = 0, dt_base = 0\<rparr>, idt = replicate 256 idt_zero,
      idt_descriptor = \<lparr>dt_limit = 0, dt_base = 0\<rparr>, gdtr = None, idtr = None, interrupts_on = False\<rparr>"

section \<open>Entries\<close>

lemma split_halves:
  "ucast (ucast ((x :: u32) AND 0xFFFF) :: u16) OR push_bit 16 (ucast (ucast (drop_bit 16 x AND 0xFFFF) :: u16)) = x"
proof -
  have m: "(y AND 0xFFFF) = take_bit 16 y" for y :: u32 by (simp add: take_bit_eq_mask mask_eq_exp_minus_1)
  show ?thesis unfolding m by (rule bit_eqI) (auto simp: bit_simps)
qed

lemma gate_target_set:
  "gate_target (e\<lparr>i_base_low := ucast (base AND 0xFFFF), i_base_high := ucast (drop_bit 16 base AND 0xFFFF),
     i_sel := sel, i_always0 := 0, i_flags := fl\<rparr>) = base"
  by (simp add: gate_target_def split_halves)

lemma gdt_fields:
  fixes base limit :: u32 and flags :: u8
  shows "ucast (ucast (base AND 0xFFFF) :: u16) OR push_bit 16 (ucast (ucast (drop_bit 16 base AND 0xFF) :: u8))
      OR push_bit 24 (ucast (ucast (drop_bit 24 base AND 0xFF) :: u8)) = base"
    and "ucast (ucast (limit AND 0xFFFF) :: u16) OR
      push_bit 16 (ucast ((ucast (drop_bit 16 limit AND 0x0F) OR (flags AND 0xF0)) AND 0x0F :: u8)) = limit AND 0xFFFFF"
    and "(ucast (drop_bit 16 limit AND 0x0F) OR (flags AND 0xF0)) AND 0xF0 = flags AND 0xF0"
proof -
  have m16: "(y AND 0xFFFF) = take_bit 16 y" for y :: u32 by (simp add: take_bit_eq_mask mask_eq_exp_minus_1)
  have m8: "(y AND 0xFF) = take_bit 8 y" for y :: u32 by (simp add: take_bit_eq_mask mask_eq_exp_minus_1)
  have m4: "(y AND 0x0F) = take_bit 4 y" for y :: u32 by (simp add: take_bit_eq_mask mask_eq_exp_minus_1)
  have m20: "(y AND 0xFFFFF) = take_bit 20 y" for y :: u32 by (simp add: take_bit_eq_mask mask_eq_exp_minus_1)
  have n4: "(y AND 0x0F) = take_bit 4 y" for y :: u8 by (simp add: take_bit_eq_mask mask_eq_exp_minus_1)
  have nF: "bit (0xF0 :: int) n \<longleftrightarrow> 4 \<le> n \<and> n < 8" "bit (0xF0 :: nat) n \<longleftrightarrow> 4 \<le> n \<and> n < 8" for n
  proof -
    have "(0xF0 :: int) = push_bit 4 (mask 4)" "(0xF0 :: nat) = push_bit 4 (mask 4)"
      by (simp_all add: mask_eq_exp_minus_1)
    then have "bit (0xF0 :: int) n \<longleftrightarrow> bit (push_bit 4 (mask 4) :: int) n"
      "bit (0xF0 :: nat) n \<longleftrightarrow> bit (push_bit 4 (mask 4) :: nat) n" by (simp_all only:)
    then show "bit (0xF0 :: int) n \<longleftrightarrow> 4 \<le> n \<and> n < 8" "bit (0xF0 :: nat) n \<longleftrightarrow> 4 \<le> n \<and> n < 8"
      by (auto simp: bit_simps)
  qed
  show "ucast (ucast (base AND 0xFFFF) :: u16) OR push_bit 16 (ucast (ucast (drop_bit 16 base AND 0xFF) :: u8))
      OR push_bit 24 (ucast (ucast (drop_bit 24 base AND 0xFF) :: u8)) = base"
    unfolding m16 m8
    apply (rule bit_eqI)
    apply (auto simp: bit_simps)
    subgoal for n by (cases "24 \<le> n") auto
    done
  show "ucast (ucast (limit AND 0xFFFF) :: u16) OR
      push_bit 16 (ucast ((ucast (drop_bit 16 limit AND 0x0F) OR (flags AND 0xF0)) AND 0x0F :: u8)) = limit AND 0xFFFFF"
    unfolding m16 m4 m20 n4 by (rule bit_eqI) (auto simp: bit_simps nF)
  show "(ucast (drop_bit 16 limit AND 0x0F) OR (flags AND 0xF0)) AND 0xF0 = flags AND 0xF0"
    unfolding m4 by (rule bit_eqI) (auto simp: bit_simps nF)
qed

lemma gdt_set_entry_spec:
  assumes "num < length (gdt s)"
  shows "\<exists>e. gdt_set_entry num base limit acc fl s = Inr (s\<lparr>gdt := (gdt s)[num := e]\<rparr>) \<and>
    seg_base e = base \<and> seg_limit e = limit AND 0xFFFFF \<and> g_access e = acc \<and> g_flags_and_limit e AND 0xF0 = fl AND 0xF0"
proof -
  let ?e = "(gdt s ! num)\<lparr>g_base_low := ucast (base AND 0xFFFF), g_base_mid := ucast (drop_bit 16 base AND 0xFF),
    g_base_high := ucast (drop_bit 24 base AND 0xFF), g_limit_low := ucast (limit AND 0xFFFF),
    g_flags_and_limit := ucast (drop_bit 16 limit AND 0x0F) OR (fl AND 0xF0), g_access := acc\<rparr>"
  have "gdt_set_entry num base limit acc fl s = Inr (s\<lparr>gdt := (gdt s)[num := ?e]\<rparr>)"
    using assms by (simp add: gdt_set_entry_def Let_def)
  then show ?thesis using gdt_fields(1) [of base] gdt_fields(2,3) [of limit fl]
    by (intro exI [of _ ?e]) (simp add: seg_base_def seg_limit_def)
qed

lemma gdt_init_spec:
  assumes "length (gdt s) = 5"
  shows "\<exists>s'. gdt_init a s = Inr s' \<and> gdtr s' = Some \<lparr>dt_limit = 39, dt_base = a\<rparr> \<and> length (gdt s') = 5 \<and>
    idt s' = idt s \<and>
    (\<forall>i \<in> {1, 2, 3, 4}. seg_base (gdt s' ! i) = 0 \<and> seg_limit (gdt s' ! i) = 0xFFFFF \<and>
       g_flags_and_limit (gdt s' ! i) AND 0xF0 = 0xC0) \<and>
    map g_access (gdt s') = [0, 0x9A, 0x92, 0xFA, 0xF2]"
proof -
  from assms obtain a0 a1 a2 a3 a4 where "gdt s = [a0, a1, a2, a3, a4]"
    by (auto simp: numeral_eq_Suc length_Suc_conv)
  then show ?thesis
    by (simp add: gdt_init_def gdt_set_entry_def gdt_flush_def Let_def seg_base_def seg_limit_def)
qed

lemma idt_set_entry_spec:
  assumes "num < length (idt s)"
  shows "\<exists>e. idt_set_entry num func sel fl s = Inr (s\<lparr>idt := (idt s)[num := e]\<rparr>) \<and>
    gate_target e = func \<and> i_sel e = sel \<and> i_flags e = fl"
proof -
  let ?e = "(idt s ! num)\<lparr>i_base_low := ucast (func AND 0xFFFF), i_base_high := ucast (drop_bit 16 func AND 0xFFFF),
     i_sel := sel, i_always0 := 0, i_flags := fl\<rparr>"
  have "idt_set_entry num func sel fl s = Inr (s\<lparr>idt := (idt s)[num := ?e]\<rparr>)"
    using assms by (simp add: idt_set_entry_def Let_def)
  then show ?thesis by (intro exI [of _ ?e]) (simp add: gate_target_set)
qed

lemma idt_fill_spec:
  assumes "length (idt s) = 256" "n \<le> 48"
  shows "\<exists>es. for_each [0..<n] (\<lambda>i. idt_set_entry i (isr i) 0x08 0x8E) s = Inr (s\<lparr>idt := es\<rparr>) \<and> length es = 256 \<and>
    (\<forall>i < n. gate_target (es ! i) = isr i \<and> i_sel (es ! i) = 0x08 \<and> i_flags (es ! i) = 0x8E) \<and>
    (\<forall>i. n \<le> i \<longrightarrow> es ! i = idt s ! i)"
  using assms(2)
proof (induction n)
  case 0
  then show ?case using assms(1) by (intro exI [of _ "idt s"]) simp
next
  case (Suc n)
  then obtain es where es: "for_each [0..<n] (\<lambda>i. idt_set_entry i (isr i) 0x08 0x8E) s = Inr (s\<lparr>idt := es\<rparr>)"
    "length es = 256" "\<forall>i < n. gate_target (es ! i) = isr i \<and> i_sel (es ! i) = 0x08 \<and> i_flags (es ! i) = 0x8E"
    "\<forall>i. n \<le> i \<longrightarrow> es ! i = idt s ! i" by auto
  from idt_set_entry_spec [of n "s\<lparr>idt := es\<rparr>" "isr n" "0x08" "0x8E"] es(2) Suc.prems obtain e where
    e: "idt_set_entry n (isr n) 0x08 0x8E (s\<lparr>idt := es\<rparr>) = Inr (s\<lparr>idt := es[n := e]\<rparr>)"
    "gate_target e = isr n" "i_sel e = 0x08" "i_flags e = 0x8E" by auto
  then show ?case using es Suc.prems
    by (intro exI [of _ "es[n := e]"]) (auto simp: for_each_append less_Suc_eq)
qed

lemma pic_remap_spec:
  assumes "has_pics B pics" "phase (fst (pics (dev io))) = Ready" "phase (snd (pics (dev io))) = Ready"
  shows "pics (dev (pic_remap B io)) =
    (\<lparr>phase = Ready, vector_offset = 0x20, wiring = 0x04, mode_word = 0x01, imr = 0xFF\<rparr>,
     \<lparr>phase = Ready, vector_offset = 0x28, wiring = 0x02, mode_word = 0x01, imr = 0xFF\<rparr>)"
  using assms by (cases "fst (pics (dev io))"; cases "snd (pics (dev io))")
    (simp add: pic_remap_def has_pics_def pic_write_def pic_command_def pic_data_def)

section \<open>Properties\<close>

text \<open>
  \<^verbatim>\<open>gdt_set_entry\<close> stores base, limit, access byte and flags so that the processor reads them
  back: the base in full, the low twenty bits of the limit and the high half of the flags. Other entries
  keep their value; an entry outside the table is a fault.
\<close>

lemma gdt_set_entry_roundtrip:
  "(num < length (gdt s) \<longrightarrow>
     (\<exists>e. gdt_set_entry num base limit acc fl s = Inr (s\<lparr>gdt := (gdt s)[num := e]\<rparr>) \<and>
       seg_base e = base \<and> seg_limit e = limit AND 0xFFFFF \<and> g_access e = acc \<and>
       g_flags_and_limit e AND 0xF0 = fl AND 0xF0)) \<and>
   (\<not> num < length (gdt s) \<longrightarrow> gdt_set_entry num base limit acc fl s = Inl (Undefined ''gdt''))"
  using gdt_set_entry_spec [of num s base limit acc fl] by (auto simp: gdt_set_entry_def)

lemma descriptor_tables_init_spec:
  assumes "length (gdt s) = 5"
  shows "\<exists>s'. descriptor_tables_init B ga ia isr (s, io) = Inr (s', pic_remap B io) \<and> interrupts_on s' \<and>
    gdtr s' = Some \<lparr>dt_limit = 39, dt_base = ga\<rparr> \<and> idtr s' = Some \<lparr>dt_limit = 2047, dt_base = ia\<rparr> \<and>
    (\<forall>i \<in> {1, 2, 3, 4}. seg_base (gdt s' ! i) = 0 \<and> seg_limit (gdt s' ! i) = 0xFFFFF \<and>
       g_flags_and_limit (gdt s' ! i) AND 0xF0 = 0xC0) \<and>
    (\<forall>i < 256. gate_present (idt s' ! i) \<longleftrightarrow> i < 48) \<and>
    (\<forall>i < 48. gate_target (idt s' ! i) = isr i \<and> i_sel (idt s' ! i) = 0x08 \<and> i_flags (idt s' ! i) = 0x8E)"
proof -
  from gdt_init_spec [OF assms, of ga] obtain s1 where
    s1: "gdt_init ga s = Inr s1" "gdtr s1 = Some \<lparr>dt_limit = 39, dt_base = ga\<rparr>"
      "\<forall>i \<in> {1, 2, 3, 4}. seg_base (gdt s1 ! i) = 0 \<and> seg_limit (gdt s1 ! i) = 0xFFFFF \<and>
       g_flags_and_limit (gdt s1 ! i) AND 0xF0 = 0xC0" by blast
  let ?s = "s1\<lparr>idt_descriptor := \<lparr>dt_limit = 256 * 8 - 1, dt_base = ia\<rparr>, idt := replicate 256 idt_zero\<rparr>"
  from idt_fill_spec [of ?s 48 isr] obtain es where
    es: "for_each [0..<48] (\<lambda>i. idt_set_entry i (isr i) 0x08 0x8E) ?s = Inr (?s\<lparr>idt := es\<rparr>)"
      "\<forall>i < 48. gate_target (es ! i) = isr i \<and> i_sel (es ! i) = 0x08 \<and> i_flags (es ! i) = 0x8E"
      "\<forall>i. 48 \<le> i \<longrightarrow> es ! i = replicate 256 idt_zero ! i" by auto
  have "gate_present (es ! i) \<longleftrightarrow> i < 48" if "i < 256" for i
    using es(2,3) that by (cases "i < 48") (auto simp: gate_present_def idt_zero_def)
  then show ?thesis
    using s1 es
    by (simp add: descriptor_tables_init_def idt_init_def Let_def idt_flush_def)
qed

text \<open>
  C29. After \<^verbatim>\<open>descriptor_tables_init\<close> the code and data segments are flat and cover 4 GiB in
  4 KiB units, each of the 48 vectors leads to its entry stub through a present interrupt gate of
  the code segment and no other gate is present, and both interrupt controllers have gone through their whole
  initialisation sequence: vectors 32 to 39 and 40 to 47, all lines masked. Interrupts are on.
\<close>

theorem descriptor_tables_init_correct:
  assumes "has_pics B pics" "phase (fst (pics (dev io))) = Ready" "phase (snd (pics (dev io))) = Ready"
    and "length (gdt s) = 5"
  shows "\<exists>s' io'. descriptor_tables_init B ga ia isr (s, io) = Inr (s', io') \<and> interrupts_on s' \<and>
    gdtr s' = Some \<lparr>dt_limit = 39, dt_base = ga\<rparr> \<and> idtr s' = Some \<lparr>dt_limit = 2047, dt_base = ia\<rparr> \<and>
    (\<forall>i \<in> {1, 2, 3, 4}. seg_base (gdt s' ! i) = 0 \<and> seg_limit (gdt s' ! i) = 0xFFFFF \<and>
       g_flags_and_limit (gdt s' ! i) AND 0xF0 = 0xC0) \<and>
    (\<forall>i < 256. gate_present (idt s' ! i) \<longleftrightarrow> i < 48) \<and>
    (\<forall>i < 48. gate_target (idt s' ! i) = isr i \<and> i_sel (idt s' ! i) = 0x08 \<and> i_flags (idt s' ! i) = 0x8E) \<and>
    vector_offset (fst (pics (dev io'))) = 32 \<and> vector_offset (snd (pics (dev io'))) = 40 \<and>
    imr (fst (pics (dev io'))) = 0xFF \<and> imr (snd (pics (dev io'))) = 0xFF \<and>
    phase (fst (pics (dev io'))) = Ready \<and> phase (snd (pics (dev io'))) = Ready"
  using descriptor_tables_init_spec [OF assms(4), of B ga ia isr io] pic_remap_spec [OF assms(1-3)] by fastforce

theorem descriptor_tables_init_correct_witness:
  "has_pics pic_bus (\<lambda>d. d) \<and>
   (\<exists>s' io'. descriptor_tables_init pic_bus 0xC0107000 0xC0108000 (\<lambda>i. 0xC0100000 + of_nat i)
       (tables_boot, io_boot (pic_off, pic_off)) = Inr (s', io') \<and>
     gate_target (idt s' ! 14) = 0xC010000E \<and> vector_offset (snd (dev io')) = 40)"
proof -
  have p: "has_pics pic_bus (\<lambda>d. d)" by (simp add: has_pics_def pic_bus_def)
  have "length (gdt tables_boot) = 5" by (simp add: tables_boot_def)
  from descriptor_tables_init_correct [OF p _ _ this, of "io_boot (pic_off, pic_off)" "0xC0107000" "0xC0108000"
      "\<lambda>i. 0xC0100000 + of_nat i"] p
  show ?thesis by (auto simp: io_boot_def pic_off_def)
qed

end
