(* ===== verification/Printf.thy ===== *)
theory Printf
  imports Prelude "HOL-Library.Signed_Division"
begin

text \<open>
  Formatted output, \<^verbatim>\<open>libc/stdio/printf.c\<close>, over a character output function that is a
  parameter: a call gives its \<^verbatim>\<open>int\<close> result and the new state. \<^verbatim>\<open>Console\<close> supplies
  \<^verbatim>\<open>putchar\<close>. A format is the list of its characters before the terminating zero, the variable
  arguments are a list of integers, strings and floating-point numbers; taking an argument that is
  missing or has another type is undefined.
\<close>

section \<open>Model\<close>

type_synonym 's out = "u8 \<Rightarrow> 's \<Rightarrow> (int \<times> 's) res"

text \<open>
  A floating-point number is what the operations of \<^verbatim>\<open>print_double\<close> yield on it: whether it is less than
  zero, its conversion to \<^verbatim>\<open>int\<close> (undefined, here \<open>None\<close>, when it does not fit), its negation and its
  product with ten. How products are rounded is thereby left to the machine.
\<close>

codatatype double = Double (dbl_neg: bool) (dbl_int: "u32 option") (dbl_minus: double) (dbl_times10: double)

datatype arg = A_int u32 | A_str "u8 list" | A_double double

definition chars :: "string \<Rightarrow> u8 list" where
  "chars = List.map of_char"

definition hexchars :: "u8 list" where
  "hexchars = chars ''0123456789ABCDEF''"

text \<open>The loop of \<^verbatim>\<open>print\<close>: a negative result of the output function ends it.\<close>

primrec print_loop :: "'s out \<Rightarrow> u8 list \<Rightarrow> 's \<Rightarrow> (int option \<times> 's) res" where
  "print_loop P [] s = Inr (None, s)"
| "print_loop P (c # cs) s =
     bindE (P c s) (\<lambda>(r, s). if r < 0 then Inr (Some r, s) else print_loop P cs s)"

definition print :: "'s out \<Rightarrow> u8 list \<Rightarrow> 's \<Rightarrow> (int \<times> 's) res" where
  "print P buf s =
     bindE (print_loop P buf s) (\<lambda>(e, s).
     Inr (case e of Some r \<Rightarrow> r | None \<Rightarrow> sint (of_nat (length buf) :: 32 word), s))"

text \<open>The digits, last one first: \<open>i\<close> is 15 when the buffer was not large enough.\<close>

function digit_loop :: "u32 \<Rightarrow> nat \<Rightarrow> u32 \<Rightarrow> u8 list \<Rightarrow> nat \<times> u8 list" where
  "digit_loop base i unum buffer =
     (if i < 15 then
        (let buffer = buffer @ [hexchars ! unat (unum mod base)] in
         if unum < base then (i, buffer) else digit_loop base (Suc i) (unum div base) buffer)
      else (i, buffer))"
  by pat_completeness auto
termination by (relation "measure (\<lambda>(base, i, unum, buffer). 15 - i)") auto

declare digit_loop.simps [simp del]

function pad_loop :: "'s out \<Rightarrow> u8 \<Rightarrow> int \<Rightarrow> int \<Rightarrow> 's \<Rightarrow> (int option \<times> 's) res" where
  "pad_loop P pad_char width i s =
     (let width = width - 1 in
      if i < width then
        bindE (P pad_char s) (\<lambda>(r, s). if r < 0 then Inr (Some r, s) else pad_loop P pad_char width i s)
      else Inr (None, s))"
  by pat_completeness auto
termination by (relation "measure (\<lambda>(P, pad_char, width, i, s). nat (width - i))") auto

declare pad_loop.simps [simp del]

text \<open>
  \<^verbatim>\<open>print_int\<close>: its callers ignore the result, so an error only ends it early. Negating the
  least integer is undefined, and so is reading the buffer beyond its 15 characters.
\<close>

definition print_int :: "'s out \<Rightarrow> u32 \<Rightarrow> u32 \<Rightarrow> bool \<Rightarrow> int \<Rightarrow> u8 \<Rightarrow> 's \<Rightarrow> 's res" where
  "print_int P num base sig width pad_char s =
     (let neg = (sig \<and> sint num < 0) in
      bindE (if neg then P 0x2D s else Inr (0, s)) (\<lambda>(r, s).
      if r < 0 then Inr s
      else
        let width = (if neg then width - 1 else width) in
        bindE (if neg then (if num = 0x80000000 then Inl (Undefined ''print_int: negation'') else Inr (- num))
               else Inr num) (\<lambda>unum.
        let (i, buffer) = digit_loop base 0 unum [] in
        bindE (pad_loop P pad_char width (int i) s) (\<lambda>(e, s).
        case e of
          Some r \<Rightarrow> Inr s
        | None \<Rightarrow>
            for_each (rev [0..<Suc i]) (\<lambda>j s.
              if j < 15 then bindE (P (buffer ! j) s) (\<lambda>(r, s). Inr s)
              else Inl (Undefined ''print_int: buffer'')) s))))"

text \<open>
  \<^verbatim>\<open>print_double\<close>: the integer part is printed as an unsigned number, and each decimal is the last digit of the
  number shifted so far. The calls of \<^verbatim>\<open>putchar\<close> whose result is ignored are \<open>put\<close>.
\<close>

definition put :: "'s out \<Rightarrow> u8 \<Rightarrow> 's \<Rightarrow> 's res" where
  "put P c s = bindE (P c s) (\<lambda>(r, s). Inr s)"

definition dbl_to_int :: "double \<Rightarrow> u32 res" where
  "dbl_to_int x = (case dbl_int x of None \<Rightarrow> Inl (Undefined ''print_double: conversion'') | Some n \<Rightarrow> Inr n)"

primrec decimal_loop :: "'s out \<Rightarrow> nat \<Rightarrow> double \<Rightarrow> 's \<Rightarrow> 's res" where
  "decimal_loop P 0 num_shifted s = Inr s"
| "decimal_loop P (Suc n) num_shifted s =
     (let num_shifted = dbl_times10 num_shifted in
      bindE (dbl_to_int num_shifted) (\<lambda>num_int.
      let digit = sint num_int smod 10 in
      if digit < 0 then Inl (Undefined ''print_double: hexchars'')
      else bindE (put P (hexchars ! nat digit) s) (decimal_loop P n num_shifted)))"

definition print_double :: "'s out \<Rightarrow> double \<Rightarrow> int \<Rightarrow> int \<Rightarrow> u8 \<Rightarrow> 's \<Rightarrow> 's res" where
  "print_double P num width precision pad_char s =
     (let precision = (if precision > 10 then 10 else precision);
          neg = dbl_neg num
      in
      bindE (if neg then P 0x2D s else Inr (0, s)) (\<lambda>(r, s).
      if r < 0 then Inr s
      else
        let width = (if neg then width - 1 else width);
            num = (if neg then dbl_minus num else num)
        in
        bindE (dbl_to_int num) (\<lambda>n.
        bindE (print_int P n 10 False (width - precision - 1) pad_char s) (\<lambda>s.
        bindE (put P 0x2E s) (\<lambda>s.
        decimal_loop P (nat precision) num s)))))"

definition hd0 :: "u8 list \<Rightarrow> u8" where
  "hd0 xs = (case xs of [] \<Rightarrow> 0 | x # _ \<Rightarrow> x)"

fun parse_uint :: "int \<Rightarrow> u8 list \<Rightarrow> (int \<times> u8 list) res" where
  "parse_uint n [] = Inr (n, [])"
| "parse_uint n (x # xs) =
     (if 0x30 \<le> x \<and> x \<le> 0x39 then
        (let n = n * 10 + (uint x - 0x30) in
         if n < 2 ^ 31 then parse_uint n xs else Inl (Undefined ''parse_uint: overflow''))
      else Inr (n, x # xs))"

record directive =
  pad_char :: u8
  width :: int
  precision :: int
  sig :: bool
  large :: bool

text \<open>
  From after the percent sign to after the specifier: fill character and width, precision, then the
  modifiers and the specifier.
\<close>

definition parse_width :: "u8 list \<Rightarrow> (u8 \<times> int \<times> u8 list) res" where
  "parse_width format =
     (let (pad, format) = (if hd0 format = 0x30 then (0x30, tl format) else (0x20, format)) in
      bindE (parse_uint 0 format) (\<lambda>(w, format). Inr (pad, w, format)))"

definition parse_precision :: "u8 list \<Rightarrow> (int \<times> u8 list) res" where
  "parse_precision format = (if hd0 format = 0x2E then parse_uint 0 (tl format) else Inr (6, format))"

definition parse_modifiers :: "u8 list \<Rightarrow> bool \<times> bool \<times> u8 \<times> u8 list" where
  "parse_modifiers format =
     (let (sg, format) = (if hd0 format = 0x75 then (False, tl format) else (True, format));
          (lg, format) = (if hd0 format = 0x6C then (True, tl format) else (False, format))
      in (sg, lg, hd0 format, tl format))"

definition parse_directive :: "u8 list \<Rightarrow> (directive \<times> u8 \<times> u8 list) res" where
  "parse_directive format =
     bindE (parse_width format) (\<lambda>(pad, w, format).
     bindE (parse_precision format) (\<lambda>(p, format).
     let (sg, lg, specifier, format) = parse_modifiers format in
     Inr (\<lparr>pad_char = pad, width = w, precision = p, sig = sg, large = lg\<rparr>, specifier, format)))"

definition va_int :: "arg list \<Rightarrow> (u32 \<times> arg list) res" where
  "va_int args = (case args of A_int n # args \<Rightarrow> Inr (n, args) | _ \<Rightarrow> Inl (Undefined ''va_arg''))"

definition va_str :: "arg list \<Rightarrow> (u8 list \<times> arg list) res" where
  "va_str args = (case args of A_str x # args \<Rightarrow> Inr (x, args) | _ \<Rightarrow> Inl (Undefined ''va_arg''))"

definition va_double :: "arg list \<Rightarrow> (double \<times> arg list) res" where
  "va_double args = (case args of A_double x # args \<Rightarrow> Inr (x, args) | _ \<Rightarrow> Inl (Undefined ''va_arg''))"

text \<open>The padding of a string: the comparison of \<^verbatim>\<open>width\<close> with the length is one of unsigned numbers.\<close>

function str_pad :: "'s out \<Rightarrow> u8 \<Rightarrow> u32 \<Rightarrow> u32 \<Rightarrow> 's \<Rightarrow> (int option \<times> 's) res" where
  "str_pad P pad w n s =
     (if n < w then bindE (P pad s) (\<lambda>(r, s). if r < 0 then Inr (Some r, s) else str_pad P pad (w - 1) n s)
      else Inr (None, s))"
  by pat_completeness auto
termination
proof (relation "measure (\<lambda>(P, pad, w, n, s). unat w)")
  show "((P, pad, w - 1, n, s'), (P, pad, w, n, s)) \<in> measure (\<lambda>(P, pad, w, n, s). unat w)"
    if "n < w" for P :: "'s out" and pad s s' and w n :: u32
    using that by (simp add: word_less_nat_alt unat_minus_one gr_implies_not_zero flip: unat_gt_0)
qed auto

declare str_pad.simps [simp del]

definition put_str :: "'s out \<Rightarrow> directive \<Rightarrow> u8 list \<Rightarrow> 's \<Rightarrow> (int \<times> 's) res" where
  "put_str P d str s =
     bindE (str_pad P (pad_char d) (of_int (width d)) (of_nat (length str)) s) (\<lambda>(e, s).
     case e of Some r \<Rightarrow> Inr (r, s) | None \<Rightarrow> print P str s)"

text \<open>
  The cases of the specifiers that exist: the result (negative for an error), what \<^verbatim>\<open>written\<close> grows
  by, the arguments left and the state.
\<close>

definition specifiers :: "u8 list" where
  "specifiers = chars ''sdxbf''"

definition convert :: "'s out \<Rightarrow> directive \<Rightarrow> u8 \<Rightarrow> arg list \<Rightarrow> 's \<Rightarrow> (int \<times> u32 \<times> arg list \<times> 's) res" where
  "convert P d spec args s =
     (if spec = of_char CHR ''s'' then
        bindE (va_str args) (\<lambda>(str, args). bindE (put_str P d str s) (\<lambda>(r, s).
        Inr (if r < 0 then r else 0, of_nat (length str), args, s)))
      else if spec = of_char CHR ''d'' then
        bindE (va_int args) (\<lambda>(num, args).
        bindE (print_int P num 10 (sig d) (width d) (pad_char d) s) (\<lambda>s. Inr (0, 0, args, s)))
      else if spec = of_char CHR ''x'' then
        bindE (va_int args) (\<lambda>(num, args).
        bindE (if large d then
                 bindE (va_int args) (\<lambda>(high, args).
                 bindE (print_int P high 16 False (width d - 8) (pad_char d) s) (\<lambda>s. Inr (args, s)))
               else Inr (args, s)) (\<lambda>(args, s).
        bindE (print_int P num 16 False (width d) (pad_char d) s) (\<lambda>s. Inr (0, 0, args, s))))
      else if spec = of_char CHR ''b'' then
        bindE (va_int args) (\<lambda>(num, args).
        bindE (print_int P num 2 False (width d) (pad_char d) s) (\<lambda>s. Inr (0, 0, args, s)))
      else
        bindE (va_double args) (\<lambda>(num, args).
        bindE (print_double P num (width d) (precision d) (pad_char d) s) (\<lambda>s. Inr (0, 0, args, s))))"

definition unknown_specifier :: "u8 list" where
  "unknown_specifier = chars ''printf: unknown format specifier %c''"

partial_function (option) vprintf_loop :: "'s out \<Rightarrow> u8 list \<Rightarrow> arg list \<Rightarrow> u32 \<Rightarrow> 's \<Rightarrow> (int \<times> 's) res option" where
  "vprintf_loop P format args written s =
     (if format = [] then Some (Inr (sint written, s))
      else if hd format \<noteq> 0x25 \<or> hd0 (tl format) = 0x25 then
        (let format = (if hd format = 0x25 then tl format else format);
             amount = Suc (length (takeWhile (\<lambda>c. c \<noteq> 0x25) (tl format)))
         in case print P (take amount format) s of
              Inl e \<Rightarrow> Some (Inl e)
            | Inr (r, s) \<Rightarrow>
                if r < 0 then Some (Inr (r, s))
                else vprintf_loop P (drop amount format) args (written + of_nat amount) s)
      else
        (case parse_directive (tl format) of
           Inl e \<Rightarrow> Some (Inl e)
         | Inr (d, spec, format) \<Rightarrow>
             if spec \<in> set specifiers then
               (case convert P d spec args s of
                  Inl e \<Rightarrow> Some (Inl e)
                | Inr (r, n, args, s) \<Rightarrow>
                    if r < 0 then Some (Inr (r, s)) else vprintf_loop P format args (written + n) s)
             else
               Option.bind (vprintf_loop P unknown_specifier [] 0 s) (\<lambda>res.
               case res of
                 Inl e \<Rightarrow> Some (Inl e)
               | Inr (r, s) \<Rightarrow> vprintf_loop P format args written s)))"

definition vprintf :: "'s out \<Rightarrow> u8 list \<Rightarrow> arg list \<Rightarrow> 's \<Rightarrow> (int \<times> 's) res" where
  "vprintf P format args s = loop_result (vprintf_loop P format args 0 s)"

section \<open>Specification\<close>

text \<open>
  What a format means: the characters it writes. Numbers are written in positional notation, a
  field is filled up on its left, and the sign comes before the fill characters. A conversion with
  the modifier \<^verbatim>\<open>l\<close> writes the high half and then the low half, each as a number of its own.
\<close>

function to_base :: "nat \<Rightarrow> nat \<Rightarrow> u8 list" where
  "to_base b n = (if n < b \<or> b < 2 then [hexchars ! n] else to_base b (n div b) @ [hexchars ! (n mod b)])"
  by pat_completeness auto
termination by (relation "measure snd") auto

declare to_base.simps [simp del]

definition digit_value :: "u8 \<Rightarrow> nat" where
  "digit_value c = (if c \<le> 0x39 then unat c - 0x30 else unat c - 0x37)"

definition number_value :: "nat \<Rightarrow> u8 list \<Rightarrow> nat" where
  "number_value b = foldl (\<lambda>a c. a * b + digit_value c) 0"

definition field :: "int \<Rightarrow> u8 \<Rightarrow> u8 list \<Rightarrow> u8 list" where
  "field w pad xs = replicate (nat w - length xs) pad @ xs"

definition number :: "u32 \<Rightarrow> nat \<Rightarrow> bool \<Rightarrow> int \<Rightarrow> u8 \<Rightarrow> u8 list" where
  "number num b sg w pad =
     (if sg \<and> sint num < 0 then 0x2D # field (w - 1) pad (to_base b (nat (- sint num)))
      else field w pad (to_base b (unat num)))"

text \<open>A number fits the buffer of 15 characters.\<close>

definition printable :: "u32 \<Rightarrow> nat \<Rightarrow> bool \<Rightarrow> bool" where
  "printable num b sg \<longleftrightarrow> (sg \<longrightarrow> num \<noteq> 0x80000000) \<and> (b = 10 \<or> b = 16 \<or> b = 2 \<and> \<not> sg \<and> unat num < 2 ^ 15)"

text \<open>
  A floating-point number is written as its integer part and decimals, when every conversion on the
  way fits.
\<close>

primrec decimals :: "nat \<Rightarrow> double \<Rightarrow> u8 list option" where
  "decimals 0 x = Some []"
| "decimals (Suc n) x =
     (case dbl_int (dbl_times10 x) of
        None \<Rightarrow> None
      | Some k \<Rightarrow>
          if 0 \<le> sint k then map_option ((#) (hexchars ! (nat (sint k) mod 10))) (decimals n (dbl_times10 x)) else None)"

definition decimal :: "double \<Rightarrow> int \<Rightarrow> int \<Rightarrow> u8 \<Rightarrow> u8 list option" where
  "decimal x w p pad =
     (let p = min p 10; sign = (if dbl_neg x then [0x2D] else []); y = (if dbl_neg x then dbl_minus x else x) in
      case (dbl_int y, decimals (nat p) y) of
        (Some n, Some ds) \<Rightarrow> Some (sign @ field (w - int (length sign) - p - 1) pad (to_base 10 (unat n)) @ 0x2E # ds)
      | _ \<Rightarrow> None)"

definition conversion :: "directive \<Rightarrow> u8 \<Rightarrow> arg list \<Rightarrow> (u8 list \<times> arg list) option" where
  "conversion d spec args =
     (case args of
        A_str x # args \<Rightarrow>
          if spec = of_char CHR ''s'' \<and> length x < 2 ^ 31 then Some (field (width d) (pad_char d) x, args) else None
      | A_int n # args \<Rightarrow>
          if spec = of_char CHR ''d'' \<and> printable n 10 (sig d)
          then Some (number n 10 (sig d) (width d) (pad_char d), args)
          else if spec = of_char CHR ''x'' \<and> \<not> large d
          then Some (number n 16 False (width d) (pad_char d), args)
          else if spec = of_char CHR ''x'' then
            (case args of
               A_int h # args \<Rightarrow>
                 Some (number h 16 False (width d - 8) (pad_char d) @ number n 16 False (width d) (pad_char d), args)
             | _ \<Rightarrow> None)
          else if spec = of_char CHR ''b'' \<and> printable n 2 False
          then Some (number n 2 False (width d) (pad_char d), args)
          else None
      | A_double x # args \<Rightarrow>
          if spec = of_char CHR ''f'' then
            map_option (\<lambda>xs. (xs, args)) (decimal x (width d) (precision d) (pad_char d))
          else None
      | [] \<Rightarrow> None)"

function render :: "u8 list \<Rightarrow> arg list \<Rightarrow> u8 list option" where
  "render format args =
     (case format of
        [] \<Rightarrow> Some []
      | c # rest \<Rightarrow>
          if c \<noteq> 0x25 then map_option ((#) c) (render rest args)
          else if rest \<noteq> [] \<and> hd rest = 0x25 then map_option ((#) 0x25) (render (tl rest) args)
          else
            (case parse_directive rest of
               Inl e \<Rightarrow> None
             | Inr (d, spec, rest') \<Rightarrow>
                 if length rest' \<le> length rest then
                   (case conversion d spec args of
                      None \<Rightarrow> None
                    | Some (xs, args) \<Rightarrow> map_option ((@) xs) (render rest' args))
                 else None))"
  by pat_completeness auto
termination by (relation "measure (length \<circ> fst)") auto

declare render.simps [simp del]

definition never_negative :: "'s out \<Rightarrow> bool" where
  "never_negative P \<longleftrightarrow> (\<forall>c s r s'. P c s = Inr (r, s') \<longrightarrow> 0 \<le> r)"

definition total_out :: "'s out \<Rightarrow> bool" where
  "total_out P \<longleftrightarrow> (\<forall>c s. \<exists>r s'. P c s = Inr (r, s') \<and> 0 \<le> r)"

text \<open>An output function that collects what is written.\<close>

definition collect :: "u8 list out" where
  "collect c s = Inr (0, s @ [c])"

section \<open>Numbers\<close>

lemma hexchars_nth: "n < 16 \<Longrightarrow> hexchars ! n = (if n < 10 then of_nat n + 0x30 else of_nat n + 0x37)"
  by (simp add: hexchars_def chars_def less_Suc_eq numeral_eq_Suc, elim disjE) simp_all

lemma digit_value_hexchars: "n < 16 \<Longrightarrow> digit_value (hexchars ! n) = n"
  by (simp add: hexchars_nth digit_value_def word_le_nat_alt unat_word_ariths unat_of_nat take_bit_eq_mod)

lemma number_value_snoc: "number_value b (xs @ [c]) = number_value b xs * b + digit_value c"
  by (simp add: number_value_def)

lemma number_value_to_base: "2 \<le> b \<Longrightarrow> b \<le> 16 \<Longrightarrow> number_value b (to_base b n) = n"
proof (induction b n rule: to_base.induct)
  case (1 b n)
  show ?case
  proof (cases "n < b")
    case True
    then show ?thesis using 1(3) by (simp add: to_base.simps [of b n] number_value_def digit_value_hexchars)
  next
    case False
    have "n mod b < 16" using 1(2,3) by (meson le_less_trans mod_less_divisor less_le_trans zero_less_numeral)
    then show ?thesis using 1 False
      by (simp add: to_base.simps [of b n] number_value_snoc digit_value_hexchars)
  qed
qed

lemma length_to_base: "2 \<le> b \<Longrightarrow> n < b ^ k \<Longrightarrow> 0 < k \<Longrightarrow> length (to_base b n) \<le> k"
proof (induction b n arbitrary: k rule: to_base.induct)
  case (1 b n)
  show ?case
  proof (cases "n < b")
    case False
    obtain j where k: "k = Suc j" using 1(4) gr0_implies_Suc by blast
    have "0 < j" using False 1(3) by (cases j) (simp_all add: k)
    moreover have "n div b < b ^ j"
      using 1(2,3) by (simp add: k div_less_iff_less_mult mult.commute)
    ultimately show ?thesis using 1(1) [of j] 1(2) False by (simp add: to_base.simps [of b n] k)
  qed (use 1(4) in \<open>simp add: to_base.simps [of b n]\<close>)
qed

lemma to_base_nonempty: "to_base b n \<noteq> []"
  by (subst to_base.simps) simp

lemma length_to_base_ge: "2 \<le> b \<Longrightarrow> b ^ k \<le> n \<Longrightarrow> k < length (to_base b n)"
proof (induction b n arbitrary: k rule: to_base.induct)
  case (1 b n)
  show ?case
  proof (cases k)
    case 0
    then show ?thesis using to_base_nonempty by simp
  next
    case (Suc j)
    have "b ^ 1 \<le> b ^ k" using 1(2) Suc by (intro power_increasing) auto
    then have "\<not> n < b" using 1(3) by simp
    moreover have "b ^ j \<le> n div b" using 1(2,3) Suc by (simp add: less_eq_div_iff_mult_less_eq mult.commute)
    ultimately show ?thesis using 1(1) [of j] 1(2) Suc by (simp add: to_base.simps [of b n])
  qed
qed

lemma digit_loop_ok:
  assumes "2 \<le> unat base" "i + length (to_base (unat base) (unat n)) \<le> 15"
  shows "digit_loop base i n buf =
    (i + length (to_base (unat base) (unat n)) - 1, buf @ rev (to_base (unat base) (unat n)))"
  using assms
proof (induction base i n buf rule: digit_loop.induct)
  case (1 base i n buf)
  have "0 < length (to_base (unat base) (unat n))" using to_base_nonempty by simp
  then have i: "i < 15" using 1(3) by linarith
  show ?case
  proof (cases "n < base")
    case True
    then show ?thesis
      using i 1(2) by (subst digit_loop.simps)
        (simp add: to_base.simps [of "unat base" "unat n"] word_less_nat_alt unat_mod)
  next
    case False
    have tb: "to_base (unat base) (unat n) =
        to_base (unat base) (unat (n div base)) @ [hexchars ! unat (n mod base)]"
      using False 1(2) by (simp add: to_base.simps [of "unat base" "unat n"] word_less_nat_alt unat_div unat_mod)
    have "digit_loop base (Suc i) (n div base) (buf @ [hexchars ! unat (n mod base)]) =
        (Suc i + length (to_base (unat base) (unat (n div base))) - 1,
         (buf @ [hexchars ! unat (n mod base)]) @ rev (to_base (unat base) (unat (n div base))))"
      by (rule 1(1) [OF i refl False 1(2)]) (use 1(3) tb in simp)
    then show ?thesis
      using i False tb by (subst digit_loop.simps) (simp add: Let_def)
  qed
qed

lemma digit_loop_long:
  assumes "2 \<le> unat base" "15 < i + length (to_base (unat base) (unat n))" "i \<le> 15"
  shows "fst (digit_loop base i n buf) = 15"
  using assms
proof (induction base i n buf rule: digit_loop.induct)
  case (1 base i n buf)
  show ?case
  proof (cases "i < 15")
    case True
    then have "1 < length (to_base (unat base) (unat n))" using 1(3) by linarith
    then have nb: "\<not> n < base" by (auto simp: to_base.simps [of "unat base" "unat n"] word_less_nat_alt)
    have "to_base (unat base) (unat n) =
        to_base (unat base) (unat (n div base)) @ [hexchars ! unat (n mod base)]"
      using nb 1(2) by (simp add: to_base.simps [of "unat base" "unat n"] word_less_nat_alt unat_div unat_mod)
    then have "fst (digit_loop base (Suc i) (n div base) (buf @ [hexchars ! unat (n mod base)])) = 15"
      by (intro 1(1) [OF True refl nb 1(2)]) (use 1(3) True in simp_all)
    then show ?thesis using True nb by (subst digit_loop.simps) (simp add: Let_def)
  qed (use 1(4) in \<open>subst digit_loop.simps, simp\<close>)
qed

section \<open>Output\<close>

lemma try_put:
  "never_negative P \<Longrightarrow> bindE (P c s) (\<lambda>(r, s). if r < 0 then f r s else g s) = bindE (put P c s) g"
  by (cases "P c s") (fastforce simp: put_def never_negative_def)+

lemma print_loop_ok:
  assumes "never_negative P"
  shows "print_loop P xs s = bindE (for_each xs (put P) s) (\<lambda>s. Inr (None, s))"
proof (induction xs arbitrary: s)
  case (Cons x xs)
  have "print_loop P xs = (\<lambda>s. bindE (for_each xs (put P) s) (\<lambda>s. Inr (None, s)))"
    using Cons by blast
  then show ?case by (simp add: try_put [OF assms] bindE_assoc)
qed simp

lemma print_ok:
  assumes "never_negative P" "length xs < 2 ^ 31"
  shows "print P xs s = bindE (for_each xs (put P) s) (\<lambda>s. Inr (int (length xs), s))"
  using assms by (simp add: print_def print_loop_ok bindE_assoc sint_small)

lemma pad_loop_ok:
  assumes "never_negative P"
  shows "pad_loop P pad w i s = bindE (for_each (replicate (nat (w - 1 - i)) pad) (put P) s) (\<lambda>s. Inr (None, s))"
proof (induction "nat (w - 1 - i)" arbitrary: w s)
  case 0
  then show ?case by (subst pad_loop.simps) simp
next
  case (Suc n)
  have n: "n = nat (w - 1 - 1 - i)" using Suc(2) by arith
  have "replicate (nat (w - 1 - i)) pad = pad # replicate (nat (w - 1 - 1 - i)) pad"
    using n Suc(2) by (metis replicate_Suc)
  moreover have "i < w - 1" using Suc(2) by arith
  ultimately show ?case
    using Suc(1) [OF n] by (subst pad_loop.simps) (simp add: try_put [OF assms] bindE_assoc Let_def)
qed

lemma str_pad_ok:
  assumes "never_negative P"
  shows "str_pad P pad w n s = bindE (for_each (replicate (unat w - unat n) pad) (put P) s) (\<lambda>s. Inr (None, s))"
proof (induction "unat w - unat n" arbitrary: w s)
  case 0
  then show ?case by (subst str_pad.simps) (simp add: word_less_nat_alt)
next
  case (Suc k)
  have lt: "n < w" using Suc(2) by (simp add: word_less_nat_alt)
  then have "w \<noteq> 0" by auto
  then have u: "unat (w - 1) = unat w - 1" by (rule unat_minus_one)
  have "k = unat (w - 1) - unat n" using Suc(2) u by simp
  moreover have "replicate (unat w - unat n) pad = pad # replicate (unat (w - 1) - unat n) pad"
    using calculation Suc(2) by (metis replicate_Suc)
  ultimately show ?case
    using Suc(1) lt by (subst str_pad.simps) (simp add: try_put [OF assms] bindE_assoc)
qed

lemma buffer_out:
  assumes "length buf = Suc i" "i < 15"
  shows "for_each (rev [0..<Suc i]) (\<lambda>j s. if j < 15 then bindE (P (buf ! j) s) (\<lambda>(r, s). Inr s)
      else Inl (Undefined msg)) s = for_each (rev buf) (put P) s"
proof -
  have "rev buf = List.map ((!) buf) (rev [0..<Suc i])"
    using assms(1) by (metis map_nth rev_map)
  then show ?thesis using assms(2)
    by (simp only: for_each_map, intro for_each_cong) (auto simp: put_def)
qed

lemma to_base_fits:
  assumes "b = 10 \<or> b = 16 \<or> b = 2 \<and> unat n < 2 ^ 15"
  shows "length (to_base b (unat (n :: u32))) \<le> 15"
proof -
  have "unat n < 10 ^ 10" "unat n < 16 ^ 8" using less_trans [OF unat_lt_2p32 [of n]] by simp_all
  then show ?thesis
    using assms length_to_base [of 10 "unat n" 10] length_to_base [of 16 "unat n" 8] length_to_base [of 2 "unat n" 15]
    by auto
qed

lemma digits_out:
  assumes "never_negative P" "2 \<le> unat base" "length (to_base (unat base) (unat n)) \<le> 15"
  shows "(let (i, buffer) = digit_loop base 0 n [] in
      bindE (pad_loop P pad w (int i) s) (\<lambda>(e, s).
        case e of
          Some r \<Rightarrow> Inr s
        | None \<Rightarrow>
            for_each (rev [0..<Suc i]) (\<lambda>j s.
              if j < 15 then bindE (P (buffer ! j) s) (\<lambda>(r, s). Inr s)
              else Inl (Undefined msg)) s)) =
    for_each (field w pad (to_base (unat base) (unat n))) (put P) s"
proof -
  let ?ds = "to_base (unat base) (unat n)"
  obtain k where k: "length ?ds = Suc k" using to_base_nonempty by (metis Suc_pred length_greater_0_conv)
  have loop: "digit_loop base 0 n [] = (k, rev ?ds)"
    using digit_loop_ok [OF assms(2), of 0 n "[]"] assms(3) k by simp
  have "nat (w - 1 - int k) = nat w - length ?ds" using k by simp
  then show ?thesis
    using buffer_out [of "rev ?ds" k P msg] k assms(3)
    by (simp add: loop pad_loop_ok [OF assms(1)] field_def for_each_append bindE_assoc)
qed

lemma neg_word:
  assumes "sint (num :: u32) < 0"
  shows "unat (- num) = nat (- sint num)"
proof -
  have "- num = word_of_int (- sint num)" by simp
  moreover have "- sint num \<le> 2 ^ 31" using sint_ge [of num] by simp
  ultimately show ?thesis using assms by (simp only: unat_eq_nat_uint uint_word_of_int) simp
qed

lemma print_int_ok:
  assumes "never_negative P" "printable num (unat base) sg"
  shows "print_int P num base sg w pad s = for_each (number num (unat base) sg w pad) (put P) s"
proof (cases "sg \<and> sint num < 0")
  case True
  then have "length (to_base (unat base) (unat (- num))) \<le> 15" "2 \<le> unat base" "num \<noteq> 0x80000000"
    using assms(2) by (auto simp: printable_def intro!: to_base_fits)
  then show ?thesis
    using True digits_out [OF assms(1), of base "- num"]
    by (simp add: print_int_def number_def neg_word try_put [OF assms(1)])
next
  case False
  then have "length (to_base (unat base) (unat num)) \<le> 15" "2 \<le> unat base"
    using assms(2) by (auto simp: printable_def intro!: to_base_fits)
  then show ?thesis
    using False digits_out [OF assms(1), of base num] by (auto simp: print_int_def number_def Let_def)
qed

lemma smod_ten: "0 \<le> k \<Longrightarrow> k smod 10 = k mod (10 :: int)"
  by (cases "k = 0") (simp_all add: signed_modulo_int_def sgn_if)

lemma decimal_loop_ok: "decimals n x = Some ds \<Longrightarrow> decimal_loop P n x = for_each ds (put P)"
proof (induction n arbitrary: x ds)
  case (Suc n)
  then obtain k es where k: "dbl_int (dbl_times10 x) = Some k" "0 \<le> sint k" "decimals n (dbl_times10 x) = Some es"
    "ds = hexchars ! (nat (sint k) mod 10) # es" by (auto split: option.splits if_splits)
  have "nat (sint k mod 10) = nat (sint k) mod 10" "\<not> sint k mod 10 < 0" using k(2) by (simp_all add: nat_mod_distrib)
  then show ?case using k Suc(1) [OF k(3)] by (intro ext) (simp add: dbl_to_int_def smod_ten Let_def)
qed (simp add: fun_eq_iff)

lemma print_double_ok:
  assumes "never_negative P" "decimal x w p pad = Some xs"
  shows "print_double P x w p pad s = for_each xs (put P) s"
proof -
  let ?y = "if dbl_neg x then dbl_minus x else x"
  obtain n ds where n: "dbl_int ?y = Some n" "decimals (nat (min p 10)) ?y = Some ds"
    using assms(2) by (auto simp: decimal_def Let_def split: option.splits)
  have pi: "print_int P n 10 False w pad s = for_each (field w pad (to_base 10 (unat n))) (put P) s" for w s
    using print_int_ok [OF assms(1), of n 10 False w pad s] by (simp add: printable_def number_def)
  have p: "(if 10 < p then 10 else p) = min p 10" by simp
  have out: "for_each (as @ 0x2E # ds) (put P) = (\<lambda>s. bindE (for_each as (put P) s) (\<lambda>s. bindE (put P 0x2E s) (for_each ds (put P))))" for as
    by (intro ext) (simp add: for_each_append bindE_def split: sum.splits)
  show ?thesis
    unfolding print_double_def p Let_def
    using assms(2) n decimal_loop_ok [OF n(2), of P]
    by (cases "dbl_neg x")
      (auto simp: decimal_def Let_def try_put [OF assms(1)] dbl_to_int_def pi out algebra_simps)
qed

section \<open>Formats\<close>

lemma parse_uint_nonneg: "parse_uint n xs = Inr (m, ys) \<Longrightarrow> 0 \<le> n \<Longrightarrow> n < 2 ^ 31 \<Longrightarrow> 0 \<le> m \<and> m < 2 ^ 31"
proof (induction n xs rule: parse_uint.induct)
  case (2 n x xs)
  have "0 \<le> n * 10 + (uint x - 48)" if "0x30 \<le> x" using that 2(3) by (simp add: word_le_def)
  then show ?case using 2 by (auto simp: Let_def split: if_splits)
qed simp

lemma parse_uint_length: "parse_uint n xs = Inr (m, ys) \<Longrightarrow> length ys \<le> length xs"
  by (induction n xs rule: parse_uint.induct) (fastforce simp: Let_def split: if_splits)+

lemma parse_directive_ok:
  assumes "parse_directive xs = Inr (d, spec, ys)"
  shows "0 \<le> width d \<and> width d < 2 ^ 31 \<and> length ys \<le> length xs"
proof -
  obtain pad w f1 p f2 sg lg where w: "parse_width xs = Inr (pad, w, f1)"
    and p: "parse_precision f1 = Inr (p, f2)" and m: "parse_modifiers f2 = (sg, lg, spec, ys)"
    and d: "width d = w"
    using assms by (auto simp: parse_directive_def bindE_eq_Inr split_beta Let_def prod_eq_iff)
  have "length f1 \<le> length xs \<and> 0 \<le> w \<and> w < 2 ^ 31"
    using w parse_uint_length [of 0 "tl xs"] parse_uint_length [of 0 xs] parse_uint_nonneg [of 0 "tl xs"]
      parse_uint_nonneg [of 0 xs]
    by (fastforce simp: parse_width_def bindE_eq_Inr split: if_splits)
  moreover have "length f2 \<le> length f1"
    using p parse_uint_length [of 0 "tl f1"] by (fastforce simp: parse_precision_def split: if_splits)
  moreover have "length ys \<le> length f2" using m by (auto simp: parse_modifiers_def split: if_splits)
  ultimately show ?thesis using d by simp
qed

lemma unat_of_width: "0 \<le> w \<Longrightarrow> w < 2 ^ 31 \<Longrightarrow> unat (of_int w :: u32) = nat w"
  by (simp add: unat_eq_nat_uint uint_word_of_int)

lemma put_str_ok:
  assumes "never_negative P" "length x < 2 ^ 31" "0 \<le> width d" "width d < 2 ^ 31"
  shows "put_str P d x s = bindE (for_each (field (width d) (pad_char d) x) (put P) s) (\<lambda>s. Inr (int (length x), s))"
proof -
  have "unat (of_nat (length x) :: u32) = length x" using assms(2) by (simp add: unat_simps)
  then show ?thesis
    by (simp add: put_str_def str_pad_ok [OF assms(1)] print_ok [OF assms(1,2)] unat_of_width [OF assms(3,4)]
        field_def for_each_append bindE_assoc)
qed

lemma convert_ok:
  assumes "never_negative P" "conversion d spec args = Some (xs, args')" "0 \<le> width d" "width d < 2 ^ 31"
  shows "spec \<in> set specifiers \<and>
    (\<exists>n. \<forall>s. convert P d spec args s = bindE (for_each xs (put P) s) (\<lambda>s. Inr (0, n, args', s)))"
proof -
  have b: "unat (10 :: u32) = 10" "unat (16 :: u32) = 16" "unat (2 :: u32) = 2" by simp_all
  have h: "printable n 16 False" for n by (simp add: printable_def)
  note pi = print_int_ok [OF assms(1), of _ 10, unfolded b] print_int_ok [OF assms(1), of _ 2, unfolded b]
    print_int_ok [OF assms(1), of _ 16, unfolded b, OF h]
  note ps = put_str_ok [OF assms(1) _ assms(3,4)] print_double_ok [OF assms(1)]
  show ?thesis
    using assms(2)
    by (auto simp: conversion_def convert_def specifiers_def chars_def va_int_def va_str_def va_double_def pi ps bindE_assoc for_each_append
        split: list.splits arg.splits if_splits)
qed

lemma render_literal:
  "0x25 \<notin> set xs \<Longrightarrow> render (xs @ ys) args = map_option ((@) xs) (render ys args)"
proof (induction xs)
  case (Cons x xs)
  then show ?case by (subst render.simps) (cases "render ys args"; auto)
qed (cases "render ys args"; simp)

lemma render_percent: "render (0x25 # 0x25 # ys) args = map_option ((#) 0x25) (render ys args)"
  by (subst render.simps) simp

lemma vprintf_literal:
  assumes P: "never_negative P"
    and run: "format = c # xs @ rest \<and> c \<noteq> 0x25 \<or> format = 0x25 # c # xs @ rest \<and> c = 0x25"
    and xs: "0x25 \<notin> set xs" "rest = [] \<or> hd rest = 0x25" and len: "length xs < 2 ^ 31 - 1"
    and IH: "\<And>s. vprintf_loop P rest args (written + of_nat (Suc (length xs))) s =
      Some (bindE (for_each outp (put P) s) (\<lambda>s. Inr (r, s)))"
  shows "vprintf_loop P format args written s =
    Some (bindE (for_each ((c # xs) @ outp) (put P) s) (\<lambda>s. Inr (r, s)))"
proof -
  have tw: "takeWhile (\<lambda>c. c \<noteq> 0x25) (xs @ rest) = xs"
    using xs by (cases rest; subst takeWhile_append2) auto
  have pr: "print P (c # xs) s = bindE (for_each (c # xs) (put P) s) (\<lambda>s. Inr (int (length (c # xs)), s))"
    by (rule print_ok [OF P]) (use len in simp)
  have "vprintf_loop P format args written s =
      (case print P (c # xs) s of
         Inl e \<Rightarrow> Some (Inl e)
       | Inr (r, s) \<Rightarrow> if r < 0 then Some (Inr (r, s))
           else vprintf_loop P rest args (written + of_nat (Suc (length xs))) s)"
    using run by (subst vprintf_loop.simps, elim disjE conjE)
      (simp_all add: tw hd0_def Let_def cong: sum.case_cong prod.case_cong if_cong)
  also have "\<dots> = Some (bindE (for_each ((c # xs) @ outp) (put P) s) (\<lambda>s. Inr (r, s)))"
    unfolding pr for_each_append bindE_assoc using IH by (cases "for_each (c # xs) (put P) s") simp_all
  finally show ?thesis .
qed

text \<open>
  A format for which \<open>render\<close> gives an output either is empty or starts with a run of literal characters,
  a doubled percent sign and such a run, or a directive; what follows has an output, too.
\<close>

definition prints :: "'s out \<Rightarrow> u8 list \<Rightarrow> arg list \<Rightarrow> u32 \<Rightarrow> u8 list \<Rightarrow> bool" where
  "prints P format args written out \<longleftrightarrow>
     (\<exists>r. \<forall>s. vprintf_loop P format args written s = Some (bindE (for_each out (put P) s) (\<lambda>s. Inr (r, s))))"

lemma render_cases:
  assumes "render format args = Some out"
  obtains (empty) "format = []" "out = []"
    | (literal) c xs rest zs where "format = c # xs @ rest \<and> c \<noteq> 0x25 \<or> format = 0x25 # c # xs @ rest \<and> c = 0x25"
        "0x25 \<notin> set xs" "rest = [] \<or> hd rest = 0x25" "render rest args = Some zs" "out = (c # xs) @ zs"
    | (conv) rest d spec ys xs args' zs where "format = 0x25 # rest" "hd0 rest \<noteq> 0x25" "parse_directive rest = Inr (d, spec, ys)"
        "conversion d spec args = Some (xs, args')" "render ys args' = Some zs" "out = xs @ zs"
proof -
  have run: "\<exists>xs rest. ys = xs @ rest \<and> 0x25 \<notin> set xs \<and> (rest = [] \<or> hd rest = 0x25)" for ys :: "u8 list"
    using hd_dropWhile [of "\<lambda>c. c \<noteq> 0x25" ys]
    by (intro exI [of _ "takeWhile (\<lambda>c. c \<noteq> 0x25) ys"] exI [of _ "dropWhile (\<lambda>c. c \<noteq> 0x25) ys"]) (auto dest: set_takeWhileD)
  consider "format = []" | c ys where "format = c # ys" "c \<noteq> 0x25" | ys where "format = 0x25 # 0x25 # ys"
    | rest where "format = 0x25 # rest" "rest = [] \<or> hd rest \<noteq> 0x25" by (metis list.exhaust list.sel(1))
  then show thesis
  proof cases
    case 1
    then show thesis using assms empty by (simp add: render.simps [of "[]"])
  next
    case (2 c ys)
    from run [of ys] obtain xs rest where r: "ys = xs @ rest" "0x25 \<notin> set xs" "rest = [] \<or> hd rest = 0x25" by blast
    then obtain zs where "render rest args = Some zs" "out = (c # xs) @ zs"
      using assms 2 render_literal [of "c # xs" rest args] by (cases "render rest args") auto
    then show thesis using literal [of c xs rest zs] 2 r by simp
  next
    case (3 ys)
    from run [of ys] obtain xs rest where r: "ys = xs @ rest" "0x25 \<notin> set xs" "rest = [] \<or> hd rest = 0x25" by blast
    then obtain zs where "render rest args = Some zs" "out = (0x25 # xs) @ zs"
      using assms 3 render_literal [of xs rest args] by (cases "render rest args") (auto simp: render_percent)
    then show thesis using literal [of "0x25" xs rest zs] 3 r by simp
  next
    case (4 rest)
    have "hd0 rest \<noteq> 0x25" using 4(2) by (cases rest) (auto simp: hd0_def)
    then show thesis using assms 4 conv
      by (auto simp: render.simps [of "0x25 # rest"] split: sum.splits option.splits if_splits)
  qed
qed

lemma prints_directive:
  assumes P: "never_negative P" and d: "hd0 rest \<noteq> 0x25" "parse_directive rest = Inr (d, spec, ys)" "conversion d spec args = Some (xs, args')"
    and IH: "\<And>w. prints P ys args' w zs"
  shows "prints P (0x25 # rest) args written (xs @ zs)"
proof -
  from convert_ok [OF P d(3)] parse_directive_ok [OF d(2)] obtain n where sp: "spec \<in> set specifiers"
    and n: "convert P d spec args s = bindE (for_each xs (put P) s) (\<lambda>s. Inr (0, n, args', s))" for s by blast
  from IH [of "written + n"] obtain r where
    r: "vprintf_loop P ys args' (written + n) s = Some (bindE (for_each zs (put P) s) (\<lambda>s. Inr (r, s)))" for s
    unfolding prints_def by blast
  have "vprintf_loop P (0x25 # rest) args written s = Some (bindE (for_each (xs @ zs) (put P) s) (\<lambda>s. Inr (r, s)))" for s
    using sp d(1,2) r
    by (subst vprintf_loop.simps) (cases "for_each xs (put P) s"; simp add: n for_each_append bindE_assoc)
  then show ?thesis unfolding prints_def by blast
qed

lemma vprintf_loop_prints:
  assumes "never_negative P"
  shows "render format args = Some out \<Longrightarrow> length format < 2 ^ 31 - 1 \<Longrightarrow> prints P format args written out"
proof (induction format arbitrary: args written out rule: length_induct)
  case (1 format)
  note IH = 1(1) [rule_format]
  from 1(2) show ?case
  proof (cases rule: render_cases)
    case empty
    then show ?thesis by (simp add: prints_def vprintf_loop.simps)
  next
    case (literal c xs rest zs)
    have "prints P rest args (written + of_nat (Suc (length xs))) zs" using IH [OF _ literal(4)] literal(1) 1(3) by auto
    then obtain r where r: "vprintf_loop P rest args (written + of_nat (Suc (length xs))) s =
      Some (bindE (for_each zs (put P) s) (\<lambda>s. Inr (r, s)))" for s unfolding prints_def by blast
    have "length xs < 2 ^ 31 - 1" using literal(1) 1(3) by auto
    from vprintf_literal [OF assms literal(1-3) this r] show ?thesis unfolding literal(5) prints_def by blast
  next
    case (conv rest d spec ys xs args' zs)
    have "prints P ys args' w zs" for w using IH [OF _ conv(5)] parse_directive_ok [OF conv(3)] conv(1) 1(3) by auto
    from prints_directive [OF assms conv(2-4) this] show ?thesis using conv(1,6) by simp
  qed
qed

lemmas vprintf_loop_ok = vprintf_loop_prints [unfolded prints_def]

section \<open>Unknown specifiers and long numbers\<close>

lemma total_never_negative: "total_out P \<Longrightarrow> never_negative P"
  unfolding total_out_def never_negative_def by (metis Inr_inject Pair_inject)

lemma put_total: "total_out P \<Longrightarrow> \<exists>s'. put P c s = Inr s'"
  unfolding total_out_def put_def by (metis bindE_Inr case_prod_conv)

lemma for_each_put_total: "total_out P \<Longrightarrow> \<exists>s'. for_each xs (put P) s = Inr s'"
proof (induction xs arbitrary: s)
  case (Cons c xs)
  then obtain r s' where "P c s = Inr (r, s')" unfolding total_out_def by blast
  then show ?case using Cons by (simp add: put_def)
qed simp

lemma print_total:
  assumes "total_out P" "length xs < 2 ^ 31"
  shows "\<exists>s'. print P xs s = Inr (int (length xs), s')"
  using for_each_put_total [OF assms(1), of xs s] print_ok [OF total_never_negative [OF assms(1)] assms(2)] by auto

lemma unknown_format:
  "unknown_specifier = chars ''printf: unknown format specifier '' @ chars ''%c''"
  by (simp add: unknown_specifier_def chars_def)

lemma unknown_take:
  "hd unknown_specifier \<noteq> 0x25" "unknown_specifier \<noteq> []"
  "Suc (length (takeWhile (\<lambda>c. c \<noteq> 0x25) (tl unknown_specifier))) = 33"
  "drop 33 unknown_specifier = chars ''%c''" "length (take 33 unknown_specifier) = 33"
  by (simp_all add: unknown_specifier_def chars_def)

lemma percent_c:
  "hd (chars ''%c'') = 0x25" "hd0 (tl (chars ''%c'')) \<noteq> 0x25" "chars ''%c'' \<noteq> []"
  "\<exists>d. parse_directive (tl (chars ''%c'')) = Inr (d, 0x63, [])" "0x63 \<notin> set specifiers"
  by (simp_all add: chars_def hd0_def parse_directive_def parse_width_def parse_precision_def parse_modifiers_def
      specifiers_def Let_def)

lemma unknown_never_returns:
  assumes "vprintf_loop P fmt args w s = Some y"
  shows "total_out P \<longrightarrow> fmt \<noteq> unknown_specifier \<and> fmt \<noteq> chars ''%c''"
proof -
  have "(\<lambda>((((P, fmt), args), w), s) y. total_out P \<longrightarrow> fmt \<noteq> unknown_specifier \<and> fmt \<noteq> chars ''%c'')
      ((((P, fmt), args), w), s) y"
  proof (rule vprintf_loop.raw_induct [OF _ assms], unfold prod.case, goal_cases)
    case (1 loop P format args written s y)
    note IH = 1(1) and body = 1(2)
    show ?case
    proof (intro impI conjI notI)
      assume P: "total_out P" and f: "format = unknown_specifier"
      obtain s' where "print P (take 33 unknown_specifier) s = Inr (33, s')"
        using print_total [OF P, of "take 33 unknown_specifier" s] unknown_take(5) by auto
      then have "loop P (chars ''%c'') args (written + 33) s' = Some y"
        using body unknown_take f by (simp add: Let_def)
      then show False using IH P by blast
    next
      assume P: "total_out P" and f: "format = chars ''%c''"
      obtain d where "parse_directive (tl (chars ''%c'')) = Inr (d, 0x63, [])" using percent_c(4) by blast
      then have "loop P unknown_specifier [] 0 s \<noteq> None"
        using body percent_c f by (cases "loop P unknown_specifier [] 0 s") simp_all
      then show False using IH P by blast
    qed
  qed
  then show ?thesis by simp
qed

lemma binary_overflow:
  assumes "total_out P" "2 ^ 15 \<le> unat num"
  shows "print_int P num 2 False w pad s = Inl (Undefined ''print_int: buffer'')"
proof -
  have "15 < length (to_base 2 (unat num))" by (rule length_to_base_ge) (use assms(2) in simp_all)
  then obtain buf where loop: "digit_loop 2 0 num [] = (15, buf)"
    using digit_loop_long [of 2 0 num "[]"] by (cases "digit_loop 2 0 num []") simp
  obtain s' where "for_each (replicate (nat (w - 16)) pad) (put P) s = Inr s'"
    using for_each_put_total [OF assms(1)] by blast
  moreover have "rev [0..<16 :: nat] = 15 # rev [0..<15]" by (simp add: upt_rec)
  ultimately show ?thesis
    by (simp add: print_int_def loop pad_loop_ok [OF total_never_negative [OF assms(1)]] algebra_simps)
qed

section \<open>Properties\<close>

text \<open>
  For every format and argument list that the conversions support, \<^verbatim>\<open>vprintf\<close> returns and has
  written exactly the characters that the format means, in order: literal runs, percent signs, filled
  fields, strings and numbers.
\<close>

lemma vprintf_renders:
  assumes "never_negative P" "render format args = Some out" "length format < 2 ^ 31 - 1"
  shows "\<exists>r. \<forall>s. vprintf P format args s = bindE (for_each out (put P) s) (\<lambda>s. Inr (r, s))"
  using vprintf_loop_ok [OF assms(1,2,3), of 0] by (auto simp: vprintf_def)

lemma collect_out: "for_each xs (put collect) s = Inr (s @ xs)"
  by (induction xs arbitrary: s) (simp_all add: put_def collect_def)

lemma never_negative_collect: "never_negative collect" and total_collect: "total_out collect"
  by (simp_all add: never_negative_def total_out_def collect_def)

text \<open>
  \<^verbatim>\<open>print_int\<close> in base ten, sixteen, or two for numbers below \<open>2 ^ 15\<close>, writes a minus
  sign for a negative signed number, fill characters up to the width, and digits whose value is the
  magnitude of the number.
\<close>

lemma print_int_value:
  assumes "never_negative P" "printable num (unat base) sg"
  shows "\<exists>sign ds. sign = (if sg \<and> sint num < 0 then [0x2D] else []) \<and> ds \<noteq> [] \<and>
    int (number_value (unat base) ds) = (if sg then \<bar>sint num\<bar> else uint num) \<and>
    print_int P num base sg w pad s =
      for_each (sign @ replicate (nat (w - int (length sign)) - length ds) pad @ ds) (put P) s"
proof -
  have b: "2 \<le> unat base" "unat base \<le> 16" using assms(2) by (auto simp: printable_def)
  have pos: "sint num = uint num" if "\<not> sint num < 0"
    using that uint_sint [of num] sint_lt [of num] by (simp add: take_bit_int_eq_self)
  show ?thesis
  proof (cases "sg \<and> sint num < 0")
    case True
    then show ?thesis
      using b print_int_ok [OF assms]
      by (intro exI [of _ "[0x2D]"] exI [of _ "to_base (unat base) (nat (- sint num))"])
        (simp add: number_def field_def number_value_to_base to_base_nonempty)
  next
    case False
    then show ?thesis
      using b pos print_int_ok [OF assms]
      by (intro exI [of _ "[]"] exI [of _ "to_base (unat base) (unat num)"])
        (auto simp: number_def field_def number_value_to_base to_base_nonempty)
  qed
qed

text \<open>
  A number of more than 15 binary digits does not fit the buffer of \<^verbatim>\<open>print_int\<close>: in base two
  every number from \<open>2 ^ 15\<close> on makes it read behind the buffer.
\<close>

lemma print_int_binary_overflow:
  assumes "total_out P" "2 ^ 15 \<le> unat num"
  shows "print_int P num 2 False w pad s = Inl (Undefined ''print_int: buffer'')"
  using binary_overflow [OF assms] .

text \<open>
  C40. A specifier that does not exist makes \<^verbatim>\<open>vprintf\<close> recurse without end: the message it prints
  then itself contains such a specifier.
\<close>

theorem vprintf_unknown_diverges:
  assumes "total_out P" "parse_directive format = Inr (d, spec, rest)" "spec \<notin> set specifiers" "hd0 format \<noteq> 0x25"
  shows "vprintf P (0x25 # format) args s = Inl Diverges"
proof -
  have "vprintf_loop P unknown_specifier [] 0 s = None"
    using unknown_never_returns [of P unknown_specifier "[]" 0 s] assms(1)
    by (cases "vprintf_loop P unknown_specifier [] 0 s") auto
  then have "vprintf_loop P (0x25 # format) args 0 s = None"
    using assms(2-4) by (subst vprintf_loop.simps) simp
  then show ?thesis by (simp add: vprintf_def)
qed

theorem vprintf_unknown_diverges_witness:
  "total_out collect \<and> vprintf collect (chars ''%i'') [A_int 3] [] = Inl Diverges"
proof -
  obtain d where "parse_directive (chars ''i'') = Inr (d, 0x69, [])"
    by (simp add: chars_def hd0_def parse_directive_def parse_width_def parse_precision_def parse_modifiers_def Let_def)
  from vprintf_unknown_diverges [OF total_collect this, of "[A_int 3]" "[]"] show ?thesis
    by (simp add: total_collect chars_def hd0_def specifiers_def)
qed

end
