(* ===== verification/Tty.thy ===== *)
theory Tty
  imports Prelude
begin

text \<open>
  The text screen of \<^verbatim>\<open>kernel/io/tty.c\<close>: a frame buffer of 25 rows of 80 cells at a fixed
  address, the cursor and the current colour. The buffer is the list of its 2000 cells; a write
  outside it would hit other memory and is a fault. A C character is its byte.
\<close>

section \<open>Model\<close>

datatype tty_color_t =
    TTY_COLOR_BLACK | TTY_COLOR_BLUE | TTY_COLOR_GREEN | TTY_COLOR_CYAN | TTY_COLOR_RED
  | TTY_COLOR_MAGENTA | TTY_COLOR_BROWN | TTY_COLOR_LIGHT_GREY | TTY_COLOR_DARK_GREY
  | TTY_COLOR_LIGHT_BLUE | TTY_COLOR_LIGHT_GREEN | TTY_COLOR_LIGHT_CYAN | TTY_COLOR_LIGHT_RED
  | TTY_COLOR_LIGHT_MAGENTA | TTY_COLOR_LIGHT_BROWN | TTY_COLOR_WHITE

fun color_code :: "tty_color_t \<Rightarrow> nat" where
  "color_code TTY_COLOR_BLACK = 0"
| "color_code TTY_COLOR_BLUE = 1"
| "color_code TTY_COLOR_GREEN = 2"
| "color_code TTY_COLOR_CYAN = 3"
| "color_code TTY_COLOR_RED = 4"
| "color_code TTY_COLOR_MAGENTA = 5"
| "color_code TTY_COLOR_BROWN = 6"
| "color_code TTY_COLOR_LIGHT_GREY = 7"
| "color_code TTY_COLOR_DARK_GREY = 8"
| "color_code TTY_COLOR_LIGHT_BLUE = 9"
| "color_code TTY_COLOR_LIGHT_GREEN = 10"
| "color_code TTY_COLOR_LIGHT_CYAN = 11"
| "color_code TTY_COLOR_LIGHT_RED = 12"
| "color_code TTY_COLOR_LIGHT_MAGENTA = 13"
| "color_code TTY_COLOR_LIGHT_BROWN = 14"
| "color_code TTY_COLOR_WHITE = 15"

record tty_state =
  tty_row :: size_t
  tty_column :: size_t
  tty_buf :: "u16 list"
  tty_color :: u8

definition TTY_WIDTH :: size_t where
  "TTY_WIDTH = 80"

definition TTY_HEIGHT :: size_t where
  "TTY_HEIGHT = 25"

definition tty_entry :: "u8 \<Rightarrow> u8 \<Rightarrow> u16" where
  "tty_entry c color = ucast c OR push_bit 8 (ucast color)"

definition tty_makecolor :: "tty_color_t \<Rightarrow> tty_color_t \<Rightarrow> u8" where
  "tty_makecolor fg bg = ucast ((of_nat (color_code fg) :: 32 word) OR push_bit 4 (of_nat (color_code bg)))"

definition tty_putcharat :: "u8 \<Rightarrow> u8 \<Rightarrow> size_t \<Rightarrow> size_t \<Rightarrow> tty_state \<Rightarrow> tty_state res" where
  "tty_putcharat c color x y s =
     (let index = y * TTY_WIDTH + x in
      if unat index < length (tty_buf s)
      then Inr (s\<lparr>tty_buf := (tty_buf s)[unat index := tty_entry c color]\<rparr>)
      else Inl (Undefined ''tty_buf''))"

definition newline :: "tty_state \<Rightarrow> tty_state res" where
  "newline s =
     (let s = s\<lparr>tty_row := tty_row s + 1\<rparr>;
          s = (if tty_row s = TTY_HEIGHT then s\<lparr>tty_row := 0\<rparr> else s)
      in for_each [0..<unat TTY_WIDTH] (\<lambda>i s. tty_putcharat 0x20 0 (of_nat i) (tty_row s) s) s)"

text \<open>\<^verbatim>\<open>memset\<close> over all bytes of the buffer.\<close>

definition tty_clear :: "tty_state \<Rightarrow> tty_state" where
  "tty_clear s = s\<lparr>tty_buf := replicate (unat (TTY_WIDTH * TTY_HEIGHT)) 0\<rparr>"

definition tty_init :: "tty_state \<Rightarrow> tty_state" where
  "tty_init s = tty_clear (s\<lparr>tty_color := tty_makecolor TTY_COLOR_WHITE TTY_COLOR_BLACK\<rparr>)"

definition tty_putchar :: "u8 \<Rightarrow> tty_state \<Rightarrow> tty_state res" where
  "tty_putchar c s =
     (if c = 0x0A then bindE (newline s) (\<lambda>s. Inr (s\<lparr>tty_column := 0\<rparr>))
      else if c = 0x0D then Inr (s\<lparr>tty_column := 0\<rparr>)
      else
        bindE (tty_putcharat c (tty_color s) (tty_column s) (tty_row s) s) (\<lambda>s.
        let s = s\<lparr>tty_column := tty_column s + 1\<rparr> in
        if tty_column s = TTY_WIDTH then newline (s\<lparr>tty_column := 0\<rparr>) else Inr s))"

definition tty_setcolor :: "u8 \<Rightarrow> tty_state \<Rightarrow> tty_state" where
  "tty_setcolor color s = s\<lparr>tty_color := color\<rparr>"

text \<open>The buffer argument is the list of the bytes it points to; reading past its end is a fault.\<close>

definition tty_writebuf :: "u8 list \<Rightarrow> size_t \<Rightarrow> tty_state \<Rightarrow> tty_state res" where
  "tty_writebuf buf sz s =
     for_each [0..<unat sz] (\<lambda>i s.
       if i < length buf then tty_putchar (buf ! i) s else Inl (Undefined ''buf'')) s"

fun tty_writestr :: "u8 list \<Rightarrow> tty_state \<Rightarrow> tty_state res" where
  "tty_writestr [] s = Inl (Undefined ''str'')"
| "tty_writestr (x # xs) s = (if x \<noteq> 0 then bindE (tty_putchar x s) (tty_writestr xs) else Inr s)"

section \<open>Specification\<close>

text \<open>
  The screen as rows of cells. \<open>tty_inv\<close>: the cursor is on the screen. \<open>put_spec\<close> is what
  writing one character does to the screen and the cursor; only the row below the cursor is erased
  when a line ends.
\<close>

definition tty_inv :: "tty_state \<Rightarrow> bool" where
  "tty_inv s \<longleftrightarrow> unat (tty_row s) < 25 \<and> unat (tty_column s) < 80 \<and> length (tty_buf s) = 2000"

definition cell :: "tty_state \<Rightarrow> nat \<Rightarrow> nat \<Rightarrow> u16" where
  "cell s r c = tty_buf s ! (r * 80 + c)"

record screen =
  cells :: "nat \<Rightarrow> nat \<Rightarrow> u16"
  crow :: nat
  ccol :: nat
  colour :: u8

definition blank :: u16 where
  "blank = 0x20"

definition next_line :: "screen \<Rightarrow> screen" where
  "next_line t =
     (let r = (crow t + 1) mod 25 in
      t\<lparr>crow := r, ccol := 0, cells := (\<lambda>r' c. if r' = r \<and> c < 80 then blank else cells t r' c)\<rparr>)"

definition put_spec :: "u8 \<Rightarrow> screen \<Rightarrow> screen" where
  "put_spec ch t =
     (if ch = 0x0A then next_line t
      else if ch = 0x0D then t\<lparr>ccol := 0\<rparr>
      else
        let t' = t\<lparr>cells := (\<lambda>r c. if r = crow t \<and> c = ccol t then tty_entry ch (colour t) else cells t r c),
                   ccol := ccol t + 1\<rparr>
        in if ccol t' = 80 then next_line t' else t')"

definition shows_as :: "tty_state \<Rightarrow> screen \<Rightarrow> bool" where
  "shows_as s t \<longleftrightarrow>
     crow t = unat (tty_row s) \<and> ccol t = unat (tty_column s) \<and> colour t = tty_color s \<and>
     (\<forall>r < 25. \<forall>c < 80. cells t r c = cell s r c)"

text \<open>An example: an empty screen.\<close>

definition tty_example :: tty_state where
  "tty_example = tty_init \<lparr>tty_row = 3, tty_column = 78, tty_buf = [], tty_color = 0\<rparr>"

definition screen_of :: "tty_state \<Rightarrow> screen" where
  "screen_of s = \<lparr>cells = cell s, crow = unat (tty_row s), ccol = unat (tty_column s), colour = tty_color s\<rparr>"

section \<open>One character\<close>

lemma unat_numeral_25: "unat (25 :: size_t) = 25"
  by simp

lemma row_col_inj: "c < 80 \<Longrightarrow> c' < 80 \<Longrightarrow> r * 80 + c = r' * 80 + c' \<longleftrightarrow> r = r' \<and> c = (c' :: nat)"
  by (metis div_mult_self3 mod_mult_self3 add.commute div_less mod_less add.right_neutral zero_neq_numeral)

lemma putcharat_spec:
  assumes "length (tty_buf s) = 2000" "unat x < 80" "unat y < 25"
  shows "\<exists>s'. tty_putcharat ch col x y s = Inr s' \<and> length (tty_buf s') = 2000 \<and>
    tty_row s' = tty_row s \<and> tty_column s' = tty_column s \<and> tty_color s' = tty_color s \<and>
    (\<forall>r < 25. \<forall>c < 80. cell s' r c = (if r = unat y \<and> c = unat x then tty_entry ch col else cell s r c))"
proof -
  have "unat (y * 80) = unat y * 80" using assms(3) by (simp add: unat_word_ariths)
  then have i: "unat (y * TTY_WIDTH + x) = unat y * 80 + unat x"
    using assms(2,3) by (simp add: TTY_WIDTH_def unat_word_ariths)
  have "tty_putcharat ch col x y s = Inr (s\<lparr>tty_buf := (tty_buf s)[unat y * 80 + unat x := tty_entry ch col]\<rparr>)"
    using assms i by (simp add: tty_putcharat_def Let_def)
  moreover have "r * 80 + c < 2000" if "r < 25" "c < 80" for r c :: nat using that by linarith
  ultimately show ?thesis
    using assms row_col_inj by (auto simp: cell_def nth_list_update)
qed

lemma clear_row_spec:
  assumes "length (tty_buf s) = 2000" "unat (tty_row s) < 25" "n \<le> 80"
  shows "\<exists>s'. for_each [0..<n] (\<lambda>i s. tty_putcharat 0x20 0 (of_nat i) (tty_row s) s) s = Inr s' \<and>
    length (tty_buf s') = 2000 \<and> tty_row s' = tty_row s \<and> tty_column s' = tty_column s \<and>
    tty_color s' = tty_color s \<and>
    (\<forall>r < 25. \<forall>c < 80. cell s' r c = (if r = unat (tty_row s) \<and> c < n then blank else cell s r c))"
  using assms(3)
proof (induction n)
  case 0
  then show ?case using assms(1) by simp
next
  case (Suc n)
  then obtain s1 where s1: "for_each [0..<n] (\<lambda>i s. tty_putcharat 0x20 0 (of_nat i) (tty_row s) s) s = Inr s1"
    "length (tty_buf s1) = 2000" "tty_row s1 = tty_row s" "tty_column s1 = tty_column s" "tty_color s1 = tty_color s"
    "\<forall>r < 25. \<forall>c < 80. cell s1 r c = (if r = unat (tty_row s) \<and> c < n then blank else cell s r c)" by auto
  have n: "unat (of_nat n :: size_t) = n" using Suc.prems by (simp add: unat_of_nat take_bit_eq_mod)
  have b: "tty_entry 0x20 0 = blank" by (simp add: tty_entry_def blank_def)
  from putcharat_spec [OF s1(2), of "of_nat n" "tty_row s1" "0x20" 0] n Suc.prems assms(2) s1(3) obtain s2 where
    s2: "tty_putcharat 0x20 0 (of_nat n) (tty_row s1) s1 = Inr s2" "length (tty_buf s2) = 2000"
    "tty_row s2 = tty_row s" "tty_column s2 = tty_column s1" "tty_color s2 = tty_color s1"
    "\<forall>r < 25. \<forall>c < 80. cell s2 r c = (if r = unat (tty_row s) \<and> c = n then blank else cell s1 r c)"
    by (auto simp: b)
  have "cell s2 r c = (if r = unat (tty_row s) \<and> c < Suc n then blank else cell s r c)" if "r < 25" "c < 80" for r c
    using s1(6) s2(6) that by (auto simp: less_Suc_eq)
  then show ?case using s1 s2 by (simp add: for_each_append)
qed

lemma newline_spec:
  assumes "tty_inv s" "shows_as s t"
  shows "\<exists>s'. newline s = Inr s' \<and> tty_row s' = of_nat ((unat (tty_row s) + 1) mod 25) \<and>
    tty_column s' = tty_column s \<and> tty_color s' = tty_color s \<and> length (tty_buf s') = 2000 \<and>
    (\<forall>r < 25. \<forall>c < 80. cell s' r c = cells (next_line t) r c)"
proof -
  let ?r = "(unat (tty_row s) + 1) mod 25"
  define s1 where "s1 = s\<lparr>tty_row := of_nat ?r\<rparr>"
  have ur: "unat (of_nat ?r :: size_t) = ?r" by (simp add: unat_of_nat take_bit_eq_mod)
  have "newline s = for_each [0..<80] (\<lambda>i s. tty_putcharat 0x20 0 (of_nat i) (tty_row s) s) s1"
  proof (cases "unat (tty_row s) = 24")
    case True
    then have "tty_row s = 24" by (metis of_nat_numeral of_nat_unat ucast_id)
    then show ?thesis using True by (simp add: newline_def Let_def s1_def TTY_HEIGHT_def TTY_WIDTH_def)
  next
    case False
    then have l: "unat (tty_row s) + 1 < 25" using assms(1) by (simp add: tty_inv_def)
    then have "unat (tty_row s + 1) = unat (tty_row s) + 1" by (simp add: unat_word_ariths)
    moreover from this have "tty_row s + 1 \<noteq> 25" using l by (metis less_irrefl unat_numeral_25)
    moreover have "?r = unat (tty_row s) + 1" using l by simp
    ultimately have "tty_row s + 1 \<noteq> 25" "tty_row s + 1 = of_nat ?r" by (metis of_nat_unat ucast_id)+
    then show ?thesis by (simp add: newline_def Let_def s1_def TTY_HEIGHT_def TTY_WIDTH_def)
  qed
  moreover have s1: "length (tty_buf s1) = 2000" "unat (tty_row s1) = ?r" "tty_row s1 = of_nat ?r"
    "tty_column s1 = tty_column s" "tty_color s1 = tty_color s" "cell s1 = cell s"
    using assms(1) ur by (simp_all add: s1_def tty_inv_def cell_def fun_eq_iff)
  moreover have "?r < 25" by simp
  ultimately obtain s' where
    "newline s = Inr s'" "length (tty_buf s') = 2000" "tty_row s' = of_nat ?r" "tty_column s' = tty_column s"
    "tty_color s' = tty_color s"
    "\<forall>r < 25. \<forall>c < 80. cell s' r c = (if r = ?r \<and> c < 80 then blank else cell s r c)"
    using clear_row_spec [of s1 80] by auto
  then show ?thesis using assms(2) by (auto simp: next_line_def Let_def shows_as_def)
qed

lemma shows_newline:
  assumes "tty_inv s" "shows_as s t"
  shows "\<exists>s'. newline s = Inr s' \<and> tty_inv (s'\<lparr>tty_column := 0\<rparr>) \<and> shows_as (s'\<lparr>tty_column := 0\<rparr>) (next_line t) \<and>
    tty_column s' = tty_column s"
proof -
  from newline_spec [OF assms] obtain s' where s': "newline s = Inr s'"
    "tty_row s' = of_nat ((unat (tty_row s) + 1) mod 25)" "tty_column s' = tty_column s"
    "tty_color s' = tty_color s" "length (tty_buf s') = 2000"
    "\<forall>r < 25. \<forall>c < 80. cell s' r c = cells (next_line t) r c" by blast
  have "unat (tty_row s') = (unat (tty_row s) + 1) mod 25" unfolding s'(2) by (simp add: unat_of_nat take_bit_eq_mod)
  then show ?thesis using s' assms(2)
    by (auto simp: tty_inv_def shows_as_def next_line_def Let_def cell_def)
qed

lemma putchar_spec:
  assumes "tty_inv s" "shows_as s t"
  shows "\<exists>s'. tty_putchar ch s = Inr s' \<and> tty_inv s' \<and> shows_as s' (put_spec ch t)"
proof (cases "ch = 0x0A \<or> ch = 0x0D")
  case True
  then show ?thesis
    using shows_newline [OF assms] assms
    by (auto simp: tty_putchar_def put_spec_def tty_inv_def shows_as_def cell_def)
next
  case False
  have b: "length (tty_buf s) = 2000" "unat (tty_column s) < 80" "unat (tty_row s) < 25"
    using assms(1) by (simp_all add: tty_inv_def)
  from putcharat_spec [OF b, of ch "tty_color s"] obtain s1 where
    s1: "tty_putcharat ch (tty_color s) (tty_column s) (tty_row s) s = Inr s1" "length (tty_buf s1) = 2000"
    "tty_row s1 = tty_row s" "tty_column s1 = tty_column s" "tty_color s1 = tty_color s"
    "\<forall>r < 25. \<forall>c < 80. cell s1 r c =
      (if r = unat (tty_row s) \<and> c = unat (tty_column s) then tty_entry ch (tty_color s) else cell s r c)" by blast
  define t1 where "t1 = t\<lparr>cells := (\<lambda>r c. if r = crow t \<and> c = ccol t then tty_entry ch (colour t) else cells t r c)\<rparr>"
  define s2 where "s2 = s1\<lparr>tty_column := tty_column s1 + 1\<rparr>"
  have uc: "unat (tty_column s1 + 1) = unat (tty_column s) + 1" using b(2) s1(4) by (simp add: unat_word_ariths)
  have sh: "shows_as s1 t1" using s1 assms(2) by (auto simp: shows_as_def t1_def)
  have run: "tty_putchar ch s = (if tty_column s2 = TTY_WIDTH then newline (s2\<lparr>tty_column := 0\<rparr>) else Inr s2)"
    using False s1(1) by (simp add: tty_putchar_def Let_def s2_def)
  have spec: "put_spec ch t = (if ccol t + 1 = 80 then next_line (t1\<lparr>ccol := ccol t + 1\<rparr>) else t1\<lparr>ccol := ccol t + 1\<rparr>)"
    using False by (simp add: put_spec_def Let_def t1_def)
  have cc: "ccol t = unat (tty_column s)" using assms(2) by (simp add: shows_as_def)
  show ?thesis
  proof (cases "unat (tty_column s) + 1 = 80")
    case True
    then have "tty_column s2 = TTY_WIDTH" using uc by (simp add: s2_def TTY_WIDTH_def word_unat_eq_iff)
    moreover have "tty_inv (s2\<lparr>tty_column := 0\<rparr>)" "shows_as (s2\<lparr>tty_column := 0\<rparr>) (t1\<lparr>ccol := 0\<rparr>)"
      using s1(2,3) b(3) sh by (auto simp: s2_def tty_inv_def shows_as_def cell_def)
    moreover have "next_line (t1\<lparr>ccol := 0\<rparr>) = next_line (t1\<lparr>ccol := ccol t + 1\<rparr>)"
      by (simp add: next_line_def Let_def cong: if_cong)
    ultimately show ?thesis
      using shows_newline [of "s2\<lparr>tty_column := 0\<rparr>" "t1\<lparr>ccol := 0\<rparr>"] True cc run spec
      by (auto simp: tty_inv_def shows_as_def cell_def)
  next
    case False
    then have "tty_column s2 \<noteq> TTY_WIDTH" using uc by (auto simp: s2_def TTY_WIDTH_def word_unat_eq_iff)
    moreover have "tty_inv s2" using s1 b False uc by (simp add: tty_inv_def s2_def)
    moreover have "shows_as s2 (t1\<lparr>ccol := ccol t + 1\<rparr>)" using sh uc cc by (simp add: shows_as_def s2_def cell_def)
    ultimately show ?thesis using run spec False cc by simp
  qed
qed

lemma shows_screen_of: "shows_as s (screen_of s)"
  by (simp add: shows_as_def screen_of_def)

lemma writebuf_take:
  assumes "tty_inv s" "shows_as s t" "n \<le> length buf"
  shows "\<exists>s'. for_each [0..<n] (\<lambda>i s. if i < length buf then tty_putchar (buf ! i) s else Inl (Undefined ''buf'')) s
      = Inr s' \<and> tty_inv s' \<and> shows_as s' (fold put_spec (take n buf) t)"
  using assms(3)
proof (induction n)
  case 0
  then show ?case using assms(1,2) by simp
next
  case (Suc n)
  then obtain s1 where s1: "for_each [0..<n] (\<lambda>i s. if i < length buf then tty_putchar (buf ! i) s
      else Inl (Undefined ''buf'')) s = Inr s1" "tty_inv s1" "shows_as s1 (fold put_spec (take n buf) t)" by auto
  from putchar_spec [OF s1(2,3), of "buf ! n"] show ?case
    using s1(1) Suc.prems by (auto simp: for_each_append take_Suc_conv_app_nth)
qed

section \<open>Properties\<close>

text \<open>
  C24. \<^verbatim>\<open>tty_writebuf\<close> never leaves the frame buffer and does to the screen exactly what writing
  its characters one after the other means: printable characters appear at the cursor in the current
  colour, a full line or a newline erases the next row (the first after the last), and a carriage
  return goes to the start of the row.
\<close>

theorem tty_writebuf_refines:
  assumes "tty_inv s" "shows_as s t" "unat n \<le> length buf"
  shows "\<exists>s'. tty_writebuf buf n s = Inr s' \<and> tty_inv s' \<and> shows_as s' (fold put_spec (take (unat n) buf) t)"
  using writebuf_take [OF assms] by (simp add: tty_writebuf_def)

theorem tty_writebuf_refines_witness:
  "tty_inv tty_example \<and> (\<exists>s'. tty_writebuf [0x4D, 0x61, 0x4F] 3 tty_example = Inr s' \<and> cell s' 3 79 = 0x0F61 \<and>
     cell s' 4 0 = 0x0F4F \<and> unat (tty_row s') = 4 \<and> unat (tty_column s') = 1)"
proof -
  have inv: "tty_inv tty_example"
    by (simp add: tty_inv_def tty_example_def tty_init_def tty_clear_def TTY_WIDTH_def TTY_HEIGHT_def)
  have col: "tty_color tty_example = 0x0F" "unat (tty_row tty_example) = 3" "unat (tty_column tty_example) = 78"
    by (simp_all add: tty_example_def tty_init_def tty_clear_def tty_makecolor_def)
  from tty_writebuf_refines [OF inv shows_screen_of, of 3 "[0x4D, 0x61, 0x4F]"] obtain s' where
    s': "tty_writebuf [0x4D, 0x61, 0x4F] 3 tty_example = Inr s'"
    "shows_as s' (fold put_spec [0x4D, 0x61, 0x4F] (screen_of tty_example))" by auto
  have "cells (fold put_spec [0x4D, 0x61, 0x4F] (screen_of tty_example)) 3 79 = 0x0F61"
    "cells (fold put_spec [0x4D, 0x61, 0x4F] (screen_of tty_example)) 4 0 = 0x0F4F"
    "crow (fold put_spec [0x4D, 0x61, 0x4F] (screen_of tty_example)) = 4"
    "ccol (fold put_spec [0x4D, 0x61, 0x4F] (screen_of tty_example)) = 1"
    by (simp_all add: put_spec_def next_line_def Let_def screen_of_def col tty_entry_def)
  then show ?thesis using s' inv by (auto simp: shows_as_def)
qed

text \<open>
  Colours and characters survive the encoding of a cell: the low byte is the character and the
  high byte the colour, whose low and high halves are the foreground and background codes.
\<close>

lemma tty_cell_encoding:
  "ucast (tty_entry c col) = c \<and> ucast (drop_bit 8 (tty_entry c col)) = col \<and>
   unat (tty_makecolor fg bg AND 0xF) = color_code fg \<and> unat (drop_bit 4 (tty_makecolor fg bg)) = color_code bg"
proof (intro conjI)
  show "ucast (tty_entry c col) = c"
    by (simp add: tty_entry_def bit_eq_iff bit_simps)
  show "ucast (drop_bit 8 (tty_entry c col)) = col"
    by (auto simp: tty_entry_def bit_eq_iff bit_simps) (auto dest: bit_imp_le_length)
  show "unat (tty_makecolor fg bg AND 0xF) = color_code fg" "unat (drop_bit 4 (tty_makecolor fg bg)) = color_code bg"
    by (cases fg; cases bg; simp add: tty_makecolor_def)+
qed

end
