(* ===== verification/Serial.thy ===== *)
theory Serial
  imports Io
begin

text \<open>
  The serial line driver \<^verbatim>\<open>kernel/io/serial.c\<close>. Its two loops wait for the device, so they may
  not end on a device that never becomes ready: they are partial functions, and not returning is the
  fault \<open>Diverges\<close>. The specification is the register file of a 16550 on the first serial port.
\<close>

section \<open>Model\<close>

definition COM1 :: u16 where
  "COM1 = 0x3F8"

definition serial_rx_data_ready :: "'d bus \<Rightarrow> 'd io_state \<Rightarrow> u8 \<times> 'd io_state" where
  "serial_rx_data_ready B s = (let (v, s) = inb B (COM1 + 5) s in (v AND 0x01, s))"

definition serial_tx_empty :: "'d bus \<Rightarrow> 'd io_state \<Rightarrow> u8 \<times> 'd io_state" where
  "serial_tx_empty B s = (let (v, s) = inb B (COM1 + 5) s in (v AND 0x20, s))"

partial_function (option) tx_wait :: "'d bus \<Rightarrow> 'd io_state \<Rightarrow> 'd io_state option" where
  "tx_wait B s = (let (v, s) = serial_tx_empty B s in if v = 0 then tx_wait B s else Some s)"

function serial_putchar :: "'d bus \<Rightarrow> u8 \<Rightarrow> 'd io_state \<Rightarrow> 'd io_state res" where
  "serial_putchar B a s =
     bindE (if a = 0x0A then serial_putchar B 0x0D s else Inr s) (\<lambda>s.
     case tx_wait B s of
       None \<Rightarrow> Inl Diverges
     | Some s \<Rightarrow> Inr (outb B (serial_active_port s) a s))"
  by pat_completeness auto
termination
  by (relation "measure (\<lambda>(B, a, s). if a = 0x0A then 1 else 0)") auto

declare serial_putchar.simps [simp del]

definition serial_handler :: "'d bus \<Rightarrow> 'd io_state \<Rightarrow> 'd io_state res" where
  "serial_handler B s = (let (c, s) = inb B (serial_active_port s) s in serial_putchar B c s)"

partial_function (option) rx_drain :: "'d bus \<Rightarrow> u16 \<Rightarrow> 'd io_state \<Rightarrow> 'd io_state option" where
  "rx_drain B port s =
     (let (v, s) = serial_rx_data_ready B s in
      if v \<noteq> 0 then rx_drain B port (snd (inb B port s)) else Some s)"

definition serial_init :: "'d bus \<Rightarrow> u16 \<Rightarrow> 'd io_state \<Rightarrow> (err_t \<times> 'd io_state) res" where
  "serial_init B port s =
     (let s = irq_register_handler IRQ4 H_serial s;
          s = s\<lparr>serial_active_port := 0\<rparr>;
          s = outb B (port + 1) 0x00 s;
          s = outb B (port + 3) 0x80 s;
          s = outb B (port + 0) 0x03 s;
          s = outb B (port + 1) 0x00 s;
          s = outb B (port + 3) 0x03 s;
          s = outb B (port + 2) 0xC7 s;
          s = outb B (port + 4) 0x0B s;
          s = s\<lparr>serial_active_port := port\<rparr>;
          s = outb B (port + 4) 0x0F s;
          s = outb B (port + 1) 0x01 s
      in bindE (irq_clear_mask B 4 s) (\<lambda>s.
         case rx_drain B port s of None \<Rightarrow> Inl Diverges | Some s \<Rightarrow> Inr (E_OK, s)))"

section \<open>Specification\<close>

text \<open>
  The registers of a 16550: with the divisor latch bit set, the first two registers are the baud rate
  divisor. \<open>tx_delay\<close> is the number of status reads until the transmitter is empty again,
  \<open>busy\<close> the delay after each byte; \<open>rx\<close> are the bytes received, \<open>sent\<close> those sent.
\<close>

record uart =
  dll :: u8
  dlm :: u8
  ier :: u8
  fcr :: u8
  lcr :: u8
  mcr :: u8
  rx :: "u8 list"
  sent :: "u8 list"
  tx_delay :: nat
  busy :: nat

definition uart_write :: "u16 \<Rightarrow> u8 \<Rightarrow> uart \<Rightarrow> uart" where
  "uart_write off v u =
     (if off = 0 then (if bit (lcr u) 7 then u\<lparr>dll := v\<rparr> else u\<lparr>sent := sent u @ [v], tx_delay := busy u\<rparr>)
      else if off = 1 then (if bit (lcr u) 7 then u\<lparr>dlm := v\<rparr> else u\<lparr>ier := v\<rparr>)
      else if off = 2 then u\<lparr>fcr := v\<rparr>
      else if off = 3 then u\<lparr>lcr := v\<rparr>
      else if off = 4 then u\<lparr>mcr := v\<rparr>
      else u)"

definition line_status :: "uart \<Rightarrow> u8" where
  "line_status u = (if rx u = [] then 0 else 0x01) OR (if tx_delay u = 0 then 0x20 else 0)"

definition uart_read :: "u16 \<Rightarrow> uart \<Rightarrow> u8 \<times> uart" where
  "uart_read off u =
     (if off = 0 \<and> \<not> bit (lcr u) 7 then
        (case rx u of [] \<Rightarrow> (0, u) | c # cs \<Rightarrow> (c, u\<lparr>rx := cs\<rparr>))
      else if off = 5 then (line_status u, u\<lparr>tx_delay := tx_delay u - 1\<rparr>)
      else (0, u))"

text \<open>The bus has such a device at the addresses of the first port, and no other port touches it.\<close>

definition has_uart :: "'d bus \<Rightarrow> ('d \<Rightarrow> uart) \<Rightarrow> bool" where
  "has_uart B u \<longleftrightarrow>
     (\<forall>p v d. u (bus_outb B p v d) = (if COM1 \<le> p \<and> p < COM1 + 8 then uart_write (p - COM1) v (u d) else u d)) \<and>
     (\<forall>p d. if COM1 \<le> p \<and> p < COM1 + 8
        then fst (bus_inb B p d) = fst (uart_read (p - COM1) (u d)) \<and> u (snd (bus_inb B p d)) = snd (uart_read (p - COM1) (u d))
        else u (snd (bus_inb B p d)) = u d)"

text \<open>A bus with nothing but the device, for examples.\<close>

definition uart_bus :: "uart bus" where
  "uart_bus = silent_bus\<lparr>
     bus_inb := (\<lambda>p u. if COM1 \<le> p \<and> p < COM1 + 8 then uart_read (p - COM1) u else (0, u)),
     bus_outb := (\<lambda>p v u. if COM1 \<le> p \<and> p < COM1 + 8 then uart_write (p - COM1) v u else u)\<rparr>"

definition uart_off :: uart where
  "uart_off = \<lparr>dll = 0, dlm = 0, ier = 0, fcr = 0, lcr = 0, mcr = 0, rx = [0x41, 0x42], sent = [], tx_delay = 3, busy = 2\<rparr>"

section \<open>Waiting for the device\<close>

lemma has_uart_out:
  assumes "has_uart B u"
  shows "u (bus_outb B COM1 v d) = uart_write 0 v (u d)"
    "u (bus_outb B (COM1 + 1) v d) = uart_write 1 v (u d)"
    "u (bus_outb B (COM1 + 2) v d) = uart_write 2 v (u d)"
    "u (bus_outb B (COM1 + 3) v d) = uart_write 3 v (u d)"
    "u (bus_outb B (COM1 + 4) v d) = uart_write 4 v (u d)"
    "u (bus_outb B 0x21 v d) = u d"
  using assms by (simp_all add: has_uart_def COM1_def)

lemma has_uart_in:
  assumes "has_uart B u"
  shows "fst (bus_inb B (COM1 + 5) d) = line_status (u d)"
    "u (snd (bus_inb B (COM1 + 5) d)) = (u d)\<lparr>tx_delay := tx_delay (u d) - 1\<rparr>"
    "fst (bus_inb B COM1 d) = fst (uart_read 0 (u d))" "u (snd (bus_inb B COM1 d)) = snd (uart_read 0 (u d))"
    "u (snd (bus_inb B 0x21 d)) = u d"
proof -
  from assms have *: "if COM1 \<le> p \<and> p < COM1 + 8
        then fst (bus_inb B p d) = fst (uart_read (p - COM1) (u d)) \<and> u (snd (bus_inb B p d)) = snd (uart_read (p - COM1) (u d))
        else u (snd (bus_inb B p d)) = u d" for p by (simp add: has_uart_def)
  show "fst (bus_inb B (COM1 + 5) d) = line_status (u d)"
    "u (snd (bus_inb B (COM1 + 5) d)) = (u d)\<lparr>tx_delay := tx_delay (u d) - 1\<rparr>"
    using * [of "COM1 + 5"] by (simp_all add: COM1_def uart_read_def)
  show "fst (bus_inb B COM1 d) = fst (uart_read 0 (u d))" "u (snd (bus_inb B COM1 d)) = snd (uart_read 0 (u d))"
    using * [of COM1] by (simp_all add: COM1_def)
  show "u (snd (bus_inb B 0x21 d)) = u d" using * [of "0x21"] by (simp add: COM1_def)
qed

lemma line_status_bits:
  "line_status u AND 0x20 = 0 \<longleftrightarrow> 0 < tx_delay u" "line_status u AND 0x01 = 0 \<longleftrightarrow> rx u = []"
  by (simp_all add: line_status_def)

lemma tx_wait_ends:
  assumes "has_uart B u"
  shows "\<exists>d. tx_wait B s = Some (s\<lparr>dev := d\<rparr>) \<and> u d = (u (dev s))\<lparr>tx_delay := 0\<rparr>"
proof (induction "tx_delay (u (dev s))" arbitrary: s)
  case 0
  have "tx_wait B s = Some (s\<lparr>dev := snd (bus_inb B (COM1 + 5) (dev s))\<rparr>)"
    using 0 has_uart_in(1) [OF assms, of "dev s"] line_status_bits(1) [of "u (dev s)"]
    by (subst tx_wait.simps) (simp add: serial_tx_empty_def inb_def split_beta Let_def)
  then show ?case using 0 has_uart_in(2) [OF assms, of "dev s"] by auto
next
  case (Suc n)
  let ?s = "s\<lparr>dev := snd (bus_inb B (COM1 + 5) (dev s))\<rparr>"
  have "tx_wait B s = tx_wait B ?s"
    using Suc.hyps(2) has_uart_in(1) [OF assms, of "dev s"] line_status_bits(1) [of "u (dev s)"]
    by (subst tx_wait.simps) (simp add: serial_tx_empty_def inb_def split_beta Let_def)
  moreover have "n = tx_delay (u (dev ?s))" using has_uart_in(2) [OF assms, of "dev s"] Suc.hyps(2) by simp
  from Suc.hyps(1) [OF this] obtain d where "tx_wait B ?s = Some (?s\<lparr>dev := d\<rparr>)" "u d = (u (dev ?s))\<lparr>tx_delay := 0\<rparr>" by blast
  ultimately show ?case using has_uart_in(2) [OF assms, of "dev s"] by auto
qed

lemma serial_putchar_plain:
  assumes "has_uart B u" "serial_active_port s = COM1" "\<not> bit (lcr (u (dev s))) 7" "c \<noteq> 0x0A"
  shows "\<exists>d. serial_putchar B c s = Inr (s\<lparr>dev := d\<rparr>) \<and>
    u d = (u (dev s))\<lparr>sent := sent (u (dev s)) @ [c], tx_delay := busy (u (dev s))\<rparr>"
proof -
  from tx_wait_ends [OF assms(1), of s] obtain d where
    d: "tx_wait B s = Some (s\<lparr>dev := d\<rparr>)" "u d = (u (dev s))\<lparr>tx_delay := 0\<rparr>" by blast
  have "serial_putchar B c s = Inr (outb B COM1 c (s\<lparr>dev := d\<rparr>))"
    using assms(2,4) d(1) by (subst serial_putchar.simps) simp
  moreover have "u (dev (outb B COM1 c (s\<lparr>dev := d\<rparr>))) = uart_write 0 c (u d)"
    using has_uart_out(1) [OF assms(1), of c d] by simp
  ultimately show ?thesis using assms(3) d(2) by (auto simp: outb_def uart_write_def)
qed

lemma serial_putchar_spec:
  assumes "has_uart B u" "serial_active_port s = COM1" "\<not> bit (lcr (u (dev s))) 7"
  shows "\<exists>d. serial_putchar B c s = Inr (s\<lparr>dev := d\<rparr>) \<and>
    u d = (u (dev s))\<lparr>sent := sent (u (dev s)) @ (if c = 0x0A then [0x0D, 0x0A] else [c]), tx_delay := busy (u (dev s))\<rparr>"
proof (cases "c = 0x0A")
  case False
  then show ?thesis using serial_putchar_plain [OF assms False] by simp
next
  case True
  from serial_putchar_plain [OF assms, of "0x0D"] obtain d where
    d: "serial_putchar B 0x0D s = Inr (s\<lparr>dev := d\<rparr>)"
    "u d = (u (dev s))\<lparr>sent := sent (u (dev s)) @ [0x0D], tx_delay := busy (u (dev s))\<rparr>" by auto
  from tx_wait_ends [OF assms(1), of "s\<lparr>dev := d\<rparr>"] obtain d' where
    d': "tx_wait B (s\<lparr>dev := d\<rparr>) = Some (s\<lparr>dev := d'\<rparr>)" "u d' = (u d)\<lparr>tx_delay := 0\<rparr>" by auto
  have "serial_putchar B c s = Inr (outb B COM1 c (s\<lparr>dev := d'\<rparr>))"
    using assms(2) True d(1) d'(1) by (subst serial_putchar.simps) simp
  moreover have "u (dev (outb B COM1 c (s\<lparr>dev := d'\<rparr>))) = uart_write 0 c (u d')"
    using has_uart_out(1) [OF assms(1), of c d'] by simp
  ultimately show ?thesis using assms(3) d(2) d'(2) True by (auto simp: outb_def uart_write_def)
qed

text \<open>The handler takes one received byte, if there is one, and sends it back.\<close>

lemma serial_handler_spec:
  assumes "has_uart B u" "serial_active_port s = COM1" "\<not> bit (lcr (u (dev s))) 7" "uart_read 0 (u (dev s)) = (c, v)"
  shows "\<exists>d. serial_handler B s = Inr (s\<lparr>dev := d\<rparr>) \<and>
    u d = v\<lparr>sent := sent v @ (if c = 0x0A then [0x0D, 0x0A] else [c]), tx_delay := busy v\<rparr>"
proof -
  let ?s = "s\<lparr>dev := snd (bus_inb B COM1 (dev s))\<rparr>"
  have r: "fst (bus_inb B COM1 (dev s)) = c" "u (dev ?s) = v" using has_uart_in(3,4) [OF assms(1), of "dev s"] assms(4) by simp_all
  have "\<not> bit (lcr v) 7" using assms(3,4) by (auto simp: uart_read_def split: list.splits if_splits)
  then show ?thesis using serial_putchar_spec [OF assms(1), of ?s c] assms(2) r
    by (simp add: serial_handler_def inb_def split_beta)
qed

lemma rx_drain_ends:
  assumes "has_uart B u" "\<not> bit (lcr (u (dev s))) 7"
  shows "\<exists>d n. rx_drain B COM1 s = Some (s\<lparr>dev := d\<rparr>) \<and> u d = (u (dev s))\<lparr>rx := [], tx_delay := n\<rparr>"
  using assms(2)
proof (induction "length (rx (u (dev s)))" arbitrary: s)
  case 0
  have "rx_drain B COM1 s = Some (s\<lparr>dev := snd (bus_inb B (COM1 + 5) (dev s))\<rparr>)"
    using 0 has_uart_in(1) [OF assms(1), of "dev s"] line_status_bits(2) [of "u (dev s)"]
    by (subst rx_drain.simps) (simp add: serial_rx_data_ready_def inb_def split_beta Let_def)
  moreover have "u (snd (bus_inb B (COM1 + 5) (dev s))) = (u (dev s))\<lparr>rx := [], tx_delay := tx_delay (u (dev s)) - 1\<rparr>"
    using 0(1) has_uart_in(2) [OF assms(1), of "dev s"] by (cases "u (dev s)") simp
  ultimately show ?case by blast
next
  case (Suc n)
  let ?d1 = "snd (bus_inb B (COM1 + 5) (dev s))"
  let ?s = "s\<lparr>dev := snd (bus_inb B COM1 ?d1)\<rparr>"
  have ne: "rx (u (dev s)) \<noteq> []" using Suc.hyps(2) by auto
  have run: "rx_drain B COM1 s = rx_drain B COM1 ?s"
    using ne has_uart_in(1) [OF assms(1), of "dev s"] line_status_bits(2) [of "u (dev s)"]
    by (subst rx_drain.simps) (simp add: serial_rx_data_ready_def inb_def split_beta Let_def)
  have u1: "u ?d1 = (u (dev s))\<lparr>tx_delay := tx_delay (u (dev s)) - 1\<rparr>" using has_uart_in(2) [OF assms(1)] .
  obtain c cs where cs: "rx (u (dev s)) = c # cs" using ne by (cases "rx (u (dev s))") auto
  have u2: "u (dev ?s) = (u (dev s))\<lparr>tx_delay := tx_delay (u (dev s)) - 1, rx := cs\<rparr>"
    using has_uart_in(4) [OF assms(1), of ?d1] u1 cs Suc.prems by (simp add: uart_read_def)
  then have "n = length (rx (u (dev ?s)))" "\<not> bit (lcr (u (dev ?s))) 7" using cs Suc.hyps(2) Suc.prems by simp_all
  from Suc.hyps(1) [OF this] obtain d m where
    "rx_drain B COM1 ?s = Some (s\<lparr>dev := d\<rparr>)" "u d = (u (dev ?s))\<lparr>rx := [], tx_delay := m\<rparr>" by auto
  then show ?case using run u2 by (intro exI [of _ d] exI [of _ m]) simp
qed

section \<open>Properties\<close>

text \<open>
  On a device that becomes ready after finitely many status reads, \<^verbatim>\<open>serial_putchar\<close> returns
  and exactly its character has been sent, a newline with a carriage return before it.
\<close>

lemma serial_putchar_sends:
  assumes "has_uart B u" "serial_active_port s = COM1" "\<not> bit (lcr (u (dev s))) 7"
  shows "\<exists>s'. serial_putchar B c s = Inr s' \<and>
    sent (u (dev s')) = sent (u (dev s)) @ (if c = 0x0A then [0x0D, 0x0A] else [c]) \<and>
    rx (u (dev s')) = rx (u (dev s)) \<and> serial_active_port s' = COM1 \<and> lcr (u (dev s')) = lcr (u (dev s))"
  using serial_putchar_spec [OF assms, of c] assms(2) by auto

lemma has_uart_bus: "has_uart uart_bus (\<lambda>d. d)"
  by (auto simp: has_uart_def uart_bus_def)

lemma serial_init_spec:
  assumes "has_uart B u"
  shows "\<exists>s'. serial_init B COM1 s = Inr (E_OK, s') \<and> serial_active_port s' = COM1 \<and>
    dll (u (dev s')) = 3 \<and> dlm (u (dev s')) = 0 \<and> lcr (u (dev s')) = 3 \<and> ier (u (dev s')) = 1 \<and>
    mcr (u (dev s')) = 0x0F \<and> rx (u (dev s')) = [] \<and> sent (u (dev s')) = sent (u (dev s)) \<and>
    interrupt_handlers s' = (interrupt_handlers s)[36 := Some H_serial] \<and> ns_since_boot s' = ns_since_boot s"
proof -
  let ?s0 = "(irq_register_handler IRQ4 H_serial s)\<lparr>serial_active_port := 0\<rparr>"
  let ?s1 = "outb B (COM1 + 4) 0x0B (outb B (COM1 + 2) 0xC7 (outb B (COM1 + 3) 0x03 (outb B (COM1 + 1) 0x00
    (outb B COM1 0x03 (outb B (COM1 + 3) 0x80 (outb B (COM1 + 1) 0x00 ?s0))))))"
  define s2 where "s2 = outb B (COM1 + 1) 0x01 (outb B (COM1 + 4) 0x0F (?s1\<lparr>serial_active_port := COM1\<rparr>))"
  define s3 where "s3 = outb B 0x21 (fst (bus_inb B 0x21 (dev s2)) AND ucast (NOT (push_bit 4 1 :: 32 word)))
    (s2\<lparr>dev := snd (bus_inb B 0x21 (dev s2))\<rparr>)"
  have cl: "irq_clear_mask B 4 s2 = Inr s3" by (simp add: irq_clear_mask_def inb_def split_beta Let_def s3_def)
  have run: "serial_init B COM1 s = (case rx_drain B COM1 s3 of None \<Rightarrow> Inl Diverges | Some s \<Rightarrow> Inr (E_OK, s))"
    unfolding serial_init_def Let_def add_0_right s2_def [symmetric] cl bindE_Inr by (rule refl)
  note io = has_uart_out [OF assms(1)] has_uart_in(5) [OF assms(1)]
  have u: "dll (u (dev s2)) = 3" "dlm (u (dev s2)) = 0" "lcr (u (dev s2)) = 3" "ier (u (dev s2)) = 1" "mcr (u (dev s2)) = 0x0F"
    "sent (u (dev s2)) = sent (u (dev s))"
    by (simp_all add: s2_def io uart_write_def irq_register_handler_def)
  have h: "interrupt_handlers s2 = (interrupt_handlers s)[36 := Some H_serial]" "serial_active_port s2 = COM1" "ns_since_boot s2 = ns_since_boot s"
    by (simp_all add: s2_def irq_register_handler_def)
  have s3: "u (dev s3) = u (dev s2)" "interrupt_handlers s3 = interrupt_handlers s2" "serial_active_port s3 = serial_active_port s2"
    "ns_since_boot s3 = ns_since_boot s2"
    by (simp_all add: s3_def io)
  then have "\<not> bit (lcr (u (dev s3))) 7" using u(3) by simp
  from rx_drain_ends [OF assms(1) this] obtain d n where
    "rx_drain B COM1 s3 = Some (s3\<lparr>dev := d\<rparr>)" "u d = (u (dev s3))\<lparr>rx := [], tx_delay := n\<rparr>" by blast
  then show ?thesis using run u h s3 by simp
qed



end
