(* ===== verification/Console.thy ===== *)
theory Console
  imports Printf Tty Serial
begin

text \<open>
  The console: \<^verbatim>\<open>libc/stdio/putchar.c\<close> and \<^verbatim>\<open>puts.c\<close> as they are built into the kernel,
  \<^verbatim>\<open>printf\<close> over them, and \<^verbatim>\<open>kernel_panic\<close> of \<^verbatim>\<open>kernel/kernel/common.c\<close>. Every
  character goes to the screen and to the serial line. \<^verbatim>\<open>putchar\<close> has no return statement although
  \<^verbatim>\<open>printf\<close> uses its result: the value it happens to leave is the parameter \<open>R\<close>.
\<close>

section \<open>Model\<close>

record 'd con =
  con_tty :: tty_state
  con_io :: "'d io_state"

definition putchar :: "(u8 \<Rightarrow> int) \<Rightarrow> 'd bus \<Rightarrow> 'd con out" where
  "putchar R B c k =
     bindE (tty_putchar c (con_tty k)) (\<lambda>t.
     bindE (serial_putchar B c (con_io k)) (\<lambda>s.
     Inr (R c, k\<lparr>con_tty := t, con_io := s\<rparr>)))"

definition puts :: "(u8 \<Rightarrow> int) \<Rightarrow> 'd bus \<Rightarrow> u8 list \<Rightarrow> 'd con \<Rightarrow> 'd con res" where
  "puts R B str k = for_each str (\<lambda>c k. bindE (putchar R B c k) (\<lambda>(r, k). Inr k)) k"

definition printf :: "(u8 \<Rightarrow> int) \<Rightarrow> 'd bus \<Rightarrow> u8 list \<Rightarrow> arg list \<Rightarrow> 'd con \<Rightarrow> (int \<times> 'd con) res" where
  "printf R B format args k = vprintf (putchar R B) format args k"

definition print_line :: "(u8 \<Rightarrow> int) \<Rightarrow> 'd bus \<Rightarrow> 'd con \<Rightarrow> 'd con res" where
  "print_line R B k =
     puts R B (chars ''\<newline>'' @ replicate 79 0x2D @ chars ''\<newline>'') k"

text \<open>
  \<^verbatim>\<open>kernel_panic\<close> up to the loop that halts for ever: the result is the state it halts in. In
  the other theories the fault \<open>Panic\<close> stands for a call of it.
\<close>

definition kernel_panic ::
  "(u8 \<Rightarrow> int) \<Rightarrow> 'd bus \<Rightarrow> u8 list \<Rightarrow> u32 \<Rightarrow> u8 list \<Rightarrow> arg list \<Rightarrow> 'd con \<Rightarrow> 'd con res" where
  "kernel_panic R B filename line format args k =
     (let k = k\<lparr>con_tty := tty_setcolor 12 (con_tty k)\<rparr> in
      bindE (print_line R B k) (\<lambda>k.
      bindE (printf R B (chars ''KERNEL PANIC at %s:%d\<newline>'') [A_str filename, A_int line] k) (\<lambda>(r, k).
      bindE (vprintf (putchar R B) format args k) (\<lambda>(r, k).
      bindE (print_line R B k) (\<lambda>k. print_line R B k)))))"

section \<open>Specification\<close>

text \<open>
  The console works: the screen's cursor is on it, and the serial line is set up on a device that
  becomes ready. \<open>crlf\<close> is how a character goes over the line; \<open>same_kernel\<close>: nothing but
  the devices and the screen has changed.
\<close>

definition con_ready :: "'d bus \<Rightarrow> ('d \<Rightarrow> uart) \<Rightarrow> 'd con \<Rightarrow> bool" where
  "con_ready B u k \<longleftrightarrow>
     has_uart B u \<and> serial_active_port (con_io k) = COM1 \<and> \<not> bit (lcr (u (dev (con_io k)))) 7 \<and> tty_inv (con_tty k)"

definition crlf :: "u8 \<Rightarrow> u8 list" where
  "crlf c = (if c = 0x0A then [0x0D, 0x0A] else [c])"

definition same_kernel :: "'d con \<Rightarrow> 'd con \<Rightarrow> bool" where
  "same_kernel k k' \<longleftrightarrow> (\<exists>d. con_io k' = (con_io k)\<lparr>dev := d\<rparr>)"

text \<open>What has been written when \<open>k\<close> has become \<open>k'\<close>.\<close>

definition wrote :: "('d \<Rightarrow> uart) \<Rightarrow> 'd con \<Rightarrow> u8 list \<Rightarrow> 'd con \<Rightarrow> bool" where
  "wrote u k xs k' \<longleftrightarrow>
     same_kernel k k' \<and>
     sent (u (dev (con_io k'))) = sent (u (dev (con_io k))) @ concat (List.map crlf xs) \<and>
     (\<forall>t. shows_as (con_tty k) t \<longrightarrow> shows_as (con_tty k') (fold put_spec xs t))"

text \<open>An example: a fresh screen and a device that needs two status reads per byte.\<close>

definition con_example :: "uart con" where
  "con_example = \<lparr>con_tty = tty_example, con_io = (io_boot uart_off)\<lparr>serial_active_port := COM1\<rparr>\<rparr>"

section \<open>Writing characters\<close>

lemma same_kernel_refl: "same_kernel k k"
  by (auto simp: same_kernel_def intro: exI [of _ "dev (con_io k)"])

lemma same_kernel_trans: "same_kernel k k' \<Longrightarrow> same_kernel k' k'' \<Longrightarrow> same_kernel k k''"
  by (auto simp: same_kernel_def)

lemma wrote_nil: "wrote u k [] k"
  by (simp add: wrote_def same_kernel_refl)

lemma wrote_append: "wrote u k xs k' \<Longrightarrow> wrote u k' ys k'' \<Longrightarrow> wrote u k (xs @ ys) k''"
  by (auto simp: wrote_def intro: same_kernel_trans)

lemma putchar_ready:
  assumes "con_ready B u k"
  shows "\<exists>k'. putchar R B c k = Inr (R c, k') \<and> con_ready B u k' \<and> wrote u k [c] k'"
proof -
  from assms have u: "has_uart B u" "serial_active_port (con_io k) = COM1" "\<not> bit (lcr (u (dev (con_io k)))) 7"
    and t: "tty_inv (con_tty k)" by (simp_all add: con_ready_def)
  from putchar_spec [OF t shows_screen_of, of c] obtain t' where
    t': "tty_putchar c (con_tty k) = Inr t'" "tty_inv t'" by blast
  have sh: "shows_as t' (put_spec c scr)" if "shows_as (con_tty k) scr" for scr
    using putchar_spec [OF t that, of c] t'(1) by auto
  from serial_putchar_spec [OF u, of c] obtain d where
    d: "serial_putchar B c (con_io k) = Inr ((con_io k)\<lparr>dev := d\<rparr>)"
    "u d = (u (dev (con_io k)))\<lparr>sent := sent (u (dev (con_io k))) @ crlf c, tx_delay := busy (u (dev (con_io k)))\<rparr>"
    by (auto simp: crlf_def)
  let ?k = "k\<lparr>con_tty := t', con_io := (con_io k)\<lparr>dev := d\<rparr>\<rparr>"
  have "wrote u k [c] ?k" using d(2) sh by (auto simp: wrote_def same_kernel_def)
  moreover have "con_ready B u ?k" using u t'(2) d(2) by (simp add: con_ready_def)
  ultimately show ?thesis using t'(1) d(1) by (simp add: putchar_def)
qed

lemma puts_ready:
  assumes "con_ready B u k"
  shows "\<exists>k'. for_each xs (put (putchar R B)) k = Inr k' \<and> con_ready B u k' \<and> wrote u k xs k'"
  using assms
proof (induction xs arbitrary: k)
  case Nil
  then show ?case by (simp add: wrote_nil)
next
  case (Cons c xs)
  from putchar_ready [OF Cons.prems, of R c] obtain k1 where
    k1: "putchar R B c k = Inr (R c, k1)" "con_ready B u k1" "wrote u k [c] k1" by blast
  from Cons.IH [OF k1(2)] obtain k' where
    k': "for_each xs (put (putchar R B)) k1 = Inr k'" "con_ready B u k'" "wrote u k1 xs k'" by blast
  have "put (putchar R B) c k = Inr k1" by (simp add: put_def k1(1))
  then show ?case using k' wrote_append [OF k1(3) k'(3)] by simp
qed

lemma never_negative_putchar: "\<forall>c. 0 \<le> R c \<Longrightarrow> never_negative (putchar R B)"
  by (auto simp: never_negative_def putchar_def bindE_eq_Inr)

lemma vprintf_ready:
  assumes "con_ready B u k" "\<forall>c. 0 \<le> R c" "render format args = Some out" "length format < 2 ^ 31 - 1"
  shows "\<exists>r k'. vprintf (putchar R B) format args k = Inr (r, k') \<and> con_ready B u k' \<and> wrote u k out k'"
proof -
  from vprintf_loop_ok [OF never_negative_putchar [OF assms(2)] assms(3,4), of B 0] obtain r where
    "vprintf (putchar R B) format args k = bindE (for_each out (put (putchar R B)) k) (\<lambda>k. Inr (r, k))"
    by (auto simp: vprintf_def)
  with puts_ready [OF assms(1), of out R] show ?thesis by auto
qed

lemma print_line_ready:
  assumes "con_ready B u k"
  shows "\<exists>k'. print_line R B k = Inr k' \<and> con_ready B u k' \<and> wrote u k (chars ''\<newline>'' @ replicate 79 0x2D @ chars ''\<newline>'') k'"
  using puts_ready [OF assms, of _ R] unfolding print_line_def puts_def put_def .

section \<open>Properties\<close>


lemma con_example_ready: "con_ready uart_bus (\<lambda>d. d) con_example"
  using has_uart_bus
  by (simp add: con_ready_def con_example_def tty_inv_def tty_example_def tty_init_def tty_clear_def TTY_WIDTH_def
      TTY_HEIGHT_def io_boot_def uart_off_def)


text \<open>
  \<^verbatim>\<open>kernel_panic\<close> reaches its halt on a working console, for every format it is given that the
  conversions support: the place and the message go to the serial line between three rules, and the
  screen colour is light red from then on.
\<close>

lemma kernel_panic_reports:
  assumes "con_ready B u k" "\<forall>c. 0 \<le> R c" "render format args = Some out" "length format < 2 ^ 31 - 1"
    and "length filename < 2 ^ 31" "line \<noteq> 0x80000000"
  shows "\<exists>k' rule. kernel_panic R B filename line format args k = Inr k' \<and>
    rule = chars ''\<newline>'' @ replicate 79 0x2D @ chars ''\<newline>'' \<and>
    sent (u (dev (con_io k'))) = sent (u (dev (con_io k))) @ concat (List.map crlf
      (rule @ chars ''KERNEL PANIC at '' @ filename @ chars '':'' @ number line 10 True 0 0x20 @ chars ''\<newline>'' @
       out @ rule @ rule)) \<and>
    shows_as (con_tty k') (fold put_spec
      (rule @ chars ''KERNEL PANIC at '' @ filename @ chars '':'' @ number line 10 True 0 0x20 @ chars ''\<newline>'' @
       out @ rule @ rule) ((screen_of (con_tty k))\<lparr>colour := 12\<rparr>))"
proof -
  let ?rule = "chars ''\<newline>'' @ replicate 79 0x2D @ chars ''\<newline>''"
  let ?place = "chars ''KERNEL PANIC at '' @ filename @ chars '':'' @ number line 10 True 0 0x20 @ chars ''\<newline>''"
  let ?k = "k\<lparr>con_tty := tty_setcolor 12 (con_tty k)\<rparr>"
  have rk: "con_ready B u ?k" using assms(1) by (simp add: con_ready_def tty_setcolor_def tty_inv_def)
  from print_line_ready [OF rk] obtain k1 where k1: "print_line R B ?k = Inr k1" "con_ready B u k1" "wrote u ?k ?rule k1" by blast
  have rp: "render (chars ''KERNEL PANIC at %s:%d\<newline>'') [A_str filename, A_int line] = Some ?place"
    using assms(5,6)
    by (simp add: chars_def render.simps parse_directive_def parse_width_def parse_precision_def parse_modifiers_def
        hd0_def Let_def conversion_def printable_def field_def [of 0])
  from vprintf_ready [OF k1(2) assms(2) rp] obtain r2 k2 where
    k2: "printf R B (chars ''KERNEL PANIC at %s:%d\<newline>'') [A_str filename, A_int line] k1 = Inr (r2, k2)" "con_ready B u k2"
    "wrote u k1 ?place k2" by (auto simp: printf_def chars_def)
  from vprintf_ready [OF k2(2) assms(2,3,4)] obtain r3 k3 where
    k3: "vprintf (putchar R B) format args k2 = Inr (r3, k3)" "con_ready B u k3" "wrote u k2 out k3" by blast
  from print_line_ready [OF k3(2)] obtain k4 where k4: "print_line R B k3 = Inr k4" "con_ready B u k4" "wrote u k3 ?rule k4" by blast
  from print_line_ready [OF k4(2)] obtain k5 where k5: "print_line R B k4 = Inr k5" "wrote u k4 ?rule k5" by blast
  have run: "kernel_panic R B filename line format args k = Inr k5"
    by (simp add: kernel_panic_def Let_def k1(1) k2(1) k3(1) k4(1) k5(1))
  have w: "wrote u ?k (?rule @ ?place @ out @ ?rule @ ?rule) k5"
    using wrote_append [OF k1(3) wrote_append [OF k2(3) wrote_append [OF k3(3) wrote_append [OF k4(3) k5(2)]]]] .
  have sc: "shows_as (con_tty ?k) ((screen_of (con_tty k))\<lparr>colour := 12\<rparr>)"
    by (simp add: shows_as_def screen_of_def tty_setcolor_def cell_def)
  show ?thesis
    using w sc unfolding wrote_def append_assoc by (intro exI [of _ k5] exI [of _ ?rule]) (simp add: run)
qed

end
