(* ===== verification/Keyboard.thy ===== *)
theory Keyboard
  imports Console
begin

text \<open>
  The keyboard driver \<^verbatim>\<open>kernel/io/keyboard.c\<close>. Its loops wait for the controller and may not
  end. The specification is the 8042 controller: commands to port 0x64, data through port 0x60.
\<close>

section \<open>Model\<close>

definition port_status :: u16 where
  "port_status = 0x64"

definition port_command :: u16 where
  "port_command = 0x64"

definition port_data :: u16 where
  "port_data = 0x60"

partial_function (option) flush_input_buffer :: "'d bus \<Rightarrow> 'd io_state \<Rightarrow> 'd io_state option" where
  "flush_input_buffer B s =
     (let (v, s) = inb B port_status s in if v AND 2 \<noteq> 0 then flush_input_buffer B s else Some s)"

partial_function (option) flush_output_buffer :: "'d bus \<Rightarrow> 'd io_state \<Rightarrow> 'd io_state option" where
  "flush_output_buffer B s =
     (let (v, s) = inb B port_status s in
      if v AND 1 \<noteq> 0 then flush_output_buffer B (snd (inb B port_data s)) else Some s)"

definition ends :: "'s option \<Rightarrow> 's res" where
  "ends r = (case r of None \<Rightarrow> Inl Diverges | Some s \<Rightarrow> Inr s)"

definition send_command :: "'d bus \<Rightarrow> u8 \<Rightarrow> 'd io_state \<Rightarrow> 'd io_state res" where
  "send_command B cmd s = ends (flush_input_buffer B (outb B port_command cmd s))"

definition send_data :: "'d bus \<Rightarrow> u8 \<Rightarrow> 'd io_state \<Rightarrow> 'd io_state res" where
  "send_data B v s = ends (flush_input_buffer B (outb B port_data v s))"

partial_function (option) wait_output :: "'d bus \<Rightarrow> 'd io_state \<Rightarrow> 'd io_state option" where
  "wait_output B s =
     (let (v, s) = inb B port_status s in if v AND 1 = 0 then wait_output B s else Some s)"

definition expect_data :: "'d bus \<Rightarrow> 'd io_state \<Rightarrow> (u8 \<times> 'd io_state) res" where
  "expect_data B s = bindE (ends (wait_output B s)) (\<lambda>s. Inr (inb B port_data s))"

definition keyboard_handler :: "(u8 \<Rightarrow> int) \<Rightarrow> 'd bus \<Rightarrow> 'd con \<Rightarrow> 'd con res" where
  "keyboard_handler R B k =
     (let (v, s) = inb B port_data (con_io k) in
      bindE (printf R B (chars ''0x%x\<newline>'') [A_int (ucast v)] (k\<lparr>con_io := s\<rparr>)) (\<lambda>(r, k). Inr k))"

definition keyboard_init :: "'d bus \<Rightarrow> 'd io_state \<Rightarrow> 'd io_state res" where
  "keyboard_init B s =
     bindE (irq_clear_mask B 1 (irq_register_handler IRQ1 H_keyboard s)) (\<lambda>s.
     bindE (send_command B 0xAD s) (\<lambda>s.
     bindE (send_command B 0xA7 s) (\<lambda>s.
     bindE (ends (flush_output_buffer B s)) (\<lambda>s.
     bindE (send_command B 0x20 s) (\<lambda>s.
     bindE (expect_data B s) (\<lambda>(conf, s).
     let conf = conf AND 0xBC in
     bindE (send_command B 0x60 s) (\<lambda>s.
     bindE (send_data B conf s) (\<lambda>s.
     bindE (send_command B 0xAA s) (\<lambda>s.
     bindE (expect_data B s) (\<lambda>(tmp, s).
     bindE (ASSERT (tmp = 0x55) ''Keyboard Self Test fail'') (\<lambda>_.
     bindE (send_command B 0xAB s) (\<lambda>s.
     bindE (expect_data B s) (\<lambda>(tmp, s).
     bindE (ASSERT (tmp = 0x00) ''Keyboard first port fail'') (\<lambda>_.
     bindE (send_command B 0xAE s) (\<lambda>s.
     bindE (send_command B 0x20 s) (\<lambda>s.
     bindE (expect_data B s) (\<lambda>(conf, s).
     let conf = conf OR 1 in
     bindE (send_command B 0x60 s) (\<lambda>s.
     send_data B conf s))))))))))))))))))"

section \<open>Specification\<close>

text \<open>
  The controller: the configuration byte, the output queue the processor reads through port 0x60,
  whether the next data byte is a new configuration, and how many status reads the input buffer
  stays full. Bits 4 and 5 of the configuration disable the two ports. \<open>self_test\<close> and \<open>port_test\<close> are what the tests answer.
\<close>

record i8042 =
  kb_config :: u8
  kb_out :: "u8 list"
  kb_expects :: bool
  kb_busy :: nat
  kb_delay :: nat
  self_test :: u8
  port_test :: u8

definition kb_command :: "u8 \<Rightarrow> i8042 \<Rightarrow> i8042" where
  "kb_command c d =
     (let d = d\<lparr>kb_busy := kb_delay d, kb_expects := False\<rparr> in
      if c = 0x20 then d\<lparr>kb_out := kb_out d @ [kb_config d]\<rparr>
      else if c = 0x60 then d\<lparr>kb_expects := True\<rparr>
      else if c = 0xA7 then d\<lparr>kb_config := kb_config d OR 0x20\<rparr>
      else if c = 0xAD then d\<lparr>kb_config := kb_config d OR 0x10\<rparr>
      else if c = 0xAE then d\<lparr>kb_config := kb_config d AND 0xEF\<rparr>
      else if c = 0xAA then d\<lparr>kb_out := kb_out d @ [self_test d]\<rparr>
      else if c = 0xAB then d\<lparr>kb_out := kb_out d @ [port_test d]\<rparr>
      else d)"

definition kb_data :: "u8 \<Rightarrow> i8042 \<Rightarrow> i8042" where
  "kb_data v d =
     (if kb_expects d then d\<lparr>kb_config := v, kb_expects := False, kb_busy := kb_delay d\<rparr>
      else d\<lparr>kb_busy := kb_delay d\<rparr>)"

definition kb_status :: "i8042 \<Rightarrow> u8" where
  "kb_status d = (if kb_out d = [] then 0 else 1) OR (if kb_busy d = 0 then 0 else 2)"

definition has_i8042 :: "'d bus \<Rightarrow> ('d \<Rightarrow> i8042) \<Rightarrow> bool" where
  "has_i8042 B kb \<longleftrightarrow>
     (\<forall>p v d. kb (bus_outb B p v d) =
        (if p = 0x64 then kb_command v (kb d) else if p = 0x60 then kb_data v (kb d) else kb d)) \<and>
     (\<forall>d. fst (bus_inb B 0x64 d) = kb_status (kb d) \<and> kb (snd (bus_inb B 0x64 d)) = (kb d)\<lparr>kb_busy := kb_busy (kb d) - 1\<rparr>) \<and>
     (\<forall>d. fst (bus_inb B 0x60 d) = (if kb_out (kb d) = [] then 0 else hd (kb_out (kb d))) \<and>
        kb (snd (bus_inb B 0x60 d)) = (kb d)\<lparr>kb_out := tl (kb_out (kb d))\<rparr>) \<and>
     (\<forall>p d. p \<noteq> 0x60 \<and> p \<noteq> 0x64 \<longrightarrow> kb (snd (bus_inb B p d)) = kb d)"

text \<open>A bus with nothing but the controller, for examples.\<close>

definition kb_bus :: "i8042 bus" where
  "kb_bus = silent_bus\<lparr>
     bus_inb := (\<lambda>p d. if p = 0x64 then (kb_status d, d\<lparr>kb_busy := kb_busy d - 1\<rparr>)
       else if p = 0x60 then (if kb_out d = [] then 0 else hd (kb_out d), d\<lparr>kb_out := tl (kb_out d)\<rparr>) else (0, d)),
     bus_outb := (\<lambda>p v d. if p = 0x64 then kb_command v d else if p = 0x60 then kb_data v d else d)\<rparr>"

definition kb_off :: i8042 where
  "kb_off = \<lparr>kb_config = 0x47, kb_out = [0x1C], kb_expects = False, kb_busy = 0, kb_delay = 2,
     self_test = 0x55, port_test = 0\<rparr>"

section \<open>Waiting for the controller\<close>

lemma kb_in:
  assumes "has_i8042 B kb"
  shows "fst (bus_inb B port_status d) = kb_status (kb d)"
    "kb (snd (bus_inb B port_status d)) = (kb d)\<lparr>kb_busy := kb_busy (kb d) - 1\<rparr>"
    "kb_out (kb d) \<noteq> [] \<Longrightarrow> fst (bus_inb B port_data d) = hd (kb_out (kb d))"
    "kb (snd (bus_inb B port_data d)) = (kb d)\<lparr>kb_out := tl (kb_out (kb d))\<rparr>"
    "kb (snd (bus_inb B 0x21 d)) = kb d"
  using assms by (simp_all add: has_i8042_def port_status_def port_data_def)

lemma kb_outs:
  assumes "has_i8042 B kb"
  shows "kb (bus_outb B port_command v d) = kb_command v (kb d)" "kb (bus_outb B port_data v d) = kb_data v (kb d)"
    "kb (bus_outb B 0x21 v d) = kb d"
  using assms by (simp_all add: has_i8042_def port_command_def port_data_def)

lemma kb_status_bits: "kb_status d AND 1 = 0 \<longleftrightarrow> kb_out d = []" "kb_status d AND 2 = 0 \<longleftrightarrow> kb_busy d = 0"
  by (simp_all add: kb_status_def)

lemma flush_input_ends:
  assumes "has_i8042 B kb"
  shows "\<exists>d. flush_input_buffer B s = Some (s\<lparr>dev := d\<rparr>) \<and> kb d = (kb (dev s))\<lparr>kb_busy := 0\<rparr>"
proof (induction "kb_busy (kb (dev s))" arbitrary: s)
  case 0
  then show ?case
    using kb_in [OF assms, of "dev s"]
    by (intro exI [of _ "snd (bus_inb B port_status (dev s))"], subst flush_input_buffer.simps)
      (simp add: split_beta kb_status_bits)
next
  case (Suc n)
  let ?s = "s\<lparr>dev := snd (bus_inb B port_status (dev s))\<rparr>"
  have "n = kb_busy (kb (dev ?s))" using Suc(2) kb_in(2) [OF assms] by (simp flip: Suc(2))
  from Suc(1) [OF this] obtain d where
    "flush_input_buffer B ?s = Some (s\<lparr>dev := d\<rparr>)" "kb d = (kb (dev s))\<lparr>kb_busy := 0\<rparr>"
    using kb_in(2) [OF assms, of "dev s"] by auto
  moreover have "flush_input_buffer B s = flush_input_buffer B ?s"
    using Suc(2) kb_in(1) [OF assms, of "dev s"]
    by (subst flush_input_buffer.simps) (simp add: split_beta kb_status_bits)
  ultimately show ?case by auto
qed

lemma flush_output_ends:
  assumes "has_i8042 B kb"
  shows "\<exists>d n. flush_output_buffer B s = Some (s\<lparr>dev := d\<rparr>) \<and> kb d = (kb (dev s))\<lparr>kb_out := [], kb_busy := n\<rparr>"
proof (induction "length (kb_out (kb (dev s)))" arbitrary: s)
  case 0
  then show ?case
    using kb_in [OF assms, of "dev s"]
    by (intro exI [of _ "snd (bus_inb B port_status (dev s))"] exI [of _ "kb_busy (kb (dev s)) - 1"], subst flush_output_buffer.simps)
      (simp add: split_beta kb_status_bits)
next
  case (Suc n)
  let ?d = "snd (bus_inb B port_data (snd (bus_inb B port_status (dev s))))"
  let ?s = "s\<lparr>dev := ?d\<rparr>"
  have k: "kb ?d = (kb (dev s))\<lparr>kb_busy := kb_busy (kb (dev s)) - 1, kb_out := tl (kb_out (kb (dev s)))\<rparr>"
    using kb_in [OF assms] by simp
  have "n = length (kb_out (kb (dev ?s)))" using Suc(2) k by (simp flip: Suc(2))
  from Suc(1) [OF this] obtain d m where
    "flush_output_buffer B ?s = Some (s\<lparr>dev := d\<rparr>)" "kb d = (kb (dev s))\<lparr>kb_out := [], kb_busy := m\<rparr>"
    using k by auto
  moreover have "flush_output_buffer B s = flush_output_buffer B ?s"
    using Suc(2) kb_in(1) [OF assms, of "dev s"]
    by (subst flush_output_buffer.simps) (auto simp: split_beta kb_status_bits)
  ultimately show ?case by auto
qed

lemma send_command_ok:
  assumes "has_i8042 B kb"
  shows "\<exists>d. send_command B c s = Inr (s\<lparr>dev := d\<rparr>) \<and> kb d = (kb_command c (kb (dev s)))\<lparr>kb_busy := 0\<rparr>"
  using flush_input_ends [OF assms, of "outb B port_command c s"] kb_outs(1) [OF assms]
  by (auto simp: send_command_def ends_def outb_def)

lemma send_data_ok:
  assumes "has_i8042 B kb"
  shows "\<exists>d. send_data B v s = Inr (s\<lparr>dev := d\<rparr>) \<and> kb d = (kb_data v (kb (dev s)))\<lparr>kb_busy := 0\<rparr>"
  using flush_input_ends [OF assms, of "outb B port_data v s"] kb_outs(2) [OF assms]
  by (auto simp: send_data_def ends_def outb_def)

lemma expect_data_ok:
  assumes "has_i8042 B kb" "kb_out (kb (dev s)) = c # cs"
  shows "\<exists>d. expect_data B s = Inr (c, s\<lparr>dev := d\<rparr>) \<and>
    kb d = (kb (dev s))\<lparr>kb_out := cs, kb_busy := kb_busy (kb (dev s)) - 1\<rparr>"
proof -
  let ?s = "s\<lparr>dev := snd (bus_inb B port_status (dev s))\<rparr>"
  have "wait_output B s = Some ?s"
    using kb_in(1) [OF assms(1), of "dev s"] assms(2)
    by (subst wait_output.simps) (simp add: split_beta kb_status_bits)
  then show ?thesis
    using kb_in [OF assms(1)] assms(2)
    by (intro exI [of _ "snd (bus_inb B port_data (dev ?s))"]) (simp add: expect_data_def ends_def prod_eq_iff)
qed

lemma kb_commands:
  "kb_command 0xAD d = d\<lparr>kb_busy := kb_delay d, kb_expects := False, kb_config := kb_config d OR 0x10\<rparr>"
  "kb_command 0xA7 d = d\<lparr>kb_busy := kb_delay d, kb_expects := False, kb_config := kb_config d OR 0x20\<rparr>"
  "kb_command 0x20 d = d\<lparr>kb_busy := kb_delay d, kb_expects := False, kb_out := kb_out d @ [kb_config d]\<rparr>"
  "kb_command 0x60 d = d\<lparr>kb_busy := kb_delay d, kb_expects := True\<rparr>"
  "kb_command 0xAA d = d\<lparr>kb_busy := kb_delay d, kb_expects := False, kb_out := kb_out d @ [self_test d]\<rparr>"
  "kb_command 0xAB d = d\<lparr>kb_busy := kb_delay d, kb_expects := False, kb_out := kb_out d @ [port_test d]\<rparr>"
  "kb_command 0xAE d = d\<lparr>kb_busy := kb_delay d, kb_expects := False, kb_config := kb_config d AND 0xEF\<rparr>"
  by (simp_all add: kb_command_def Let_def)

lemma bits_of_byte:
  assumes "bit (x :: u8) 0 = bit y 0" "bit x 1 = bit y 1" "bit x 2 = bit y 2" "bit x 3 = bit y 3"
    "bit x 4 = bit y 4" "bit x 5 = bit y 5" "bit x 6 = bit y 6" "bit x 7 = bit y 7"
  shows "x = y"
proof (rule bit_word_eqI)
  fix n assume "n < LENGTH(8)"
  then consider "n = 0" | "n = 1" | "n = 2" | "n = 3" | "n = 4" | "n = 5" | "n = 6" | "n = 7" by fastforce
  then show "bit x n = bit y n" using assms by cases simp_all
qed

lemma config_byte:
  "((c OR 0x10) OR 0x20) AND 0xBC = (c AND 0x8C) OR (0x30 :: u8)"
  "(((c AND 0x8C) OR 0x30) AND 0xEF) OR 1 = (c AND 0x8C) OR (0x21 :: u8)"
  by (rule bits_of_byte; simp add: bit_simps)+

text \<open>Up to the self test, and from there on.\<close>

lemma init_to_self_test:
  assumes "has_i8042 B kb"
  shows "\<exists>d. keyboard_init B s =
     bindE (ASSERT (self_test (kb (dev s)) = 0x55) ''Keyboard Self Test fail'') (\<lambda>_.
     let s = s\<lparr>interrupt_handlers := (interrupt_handlers s)[33 := Some H_keyboard], dev := d\<rparr> in
     bindE (send_command B 0xAB s) (\<lambda>s.
     bindE (expect_data B s) (\<lambda>(tmp, s).
     bindE (ASSERT (tmp = 0x00) ''Keyboard first port fail'') (\<lambda>_.
     bindE (send_command B 0xAE s) (\<lambda>s.
     bindE (send_command B 0x20 s) (\<lambda>s.
     bindE (expect_data B s) (\<lambda>(conf, s).
     let conf = conf OR 1 in
     bindE (send_command B 0x60 s) (\<lambda>s.
     send_data B conf s)))))))) \<and>
   kb d = (kb (dev s))\<lparr>kb_config := (kb_config (kb (dev s)) AND 0x8C) OR 0x30, kb_out := [], kb_expects := False, kb_busy := 0\<rparr>"
proof -
  let ?h = "(interrupt_handlers s)[33 := Some H_keyboard]"
  note cmd = send_command_ok [OF assms]
  define d0 where "d0 = bus_outb B 0x21 (fst (bus_inb B 0x21 (dev s)) AND ucast (NOT (push_bit 1 1 :: 32 word)))
    (snd (bus_inb B 0x21 (dev s)))"
  have d0: "irq_clear_mask B 1 (irq_register_handler IRQ1 H_keyboard s) =
      Inr (s\<lparr>interrupt_handlers := ?h, dev := d0\<rparr>)" "kb d0 = kb (dev s)"
    using kb_outs(3) [OF assms] kb_in(5) [OF assms]
    by (simp_all add: d0_def irq_clear_mask_def irq_register_handler_def inb_def outb_def split_beta Let_def word_le_nat_alt)
  let ?s = "\<lambda>d. s\<lparr>interrupt_handlers := ?h, dev := d\<rparr>"
  obtain d1 where d1: "send_command B 0xAD (?s d0) = Inr (?s d1)" "kb d1 = (kb_command 0xAD (kb d0))\<lparr>kb_busy := 0\<rparr>"
    using cmd [of "0xAD" "?s d0"] by auto
  obtain d2 where d2: "send_command B 0xA7 (?s d1) = Inr (?s d2)" "kb d2 = (kb_command 0xA7 (kb d1))\<lparr>kb_busy := 0\<rparr>"
    using cmd [of "0xA7" "?s d1"] by auto
  obtain d3 n3 where d3: "flush_output_buffer B (?s d2) = Some (?s d3)" "kb d3 = (kb d2)\<lparr>kb_out := [], kb_busy := n3\<rparr>"
    using flush_output_ends [OF assms, of "?s d2"] by auto
  obtain d4 where d4: "send_command B 0x20 (?s d3) = Inr (?s d4)" "kb d4 = (kb_command 0x20 (kb d3))\<lparr>kb_busy := 0\<rparr>"
    using cmd [of "0x20" "?s d3"] by auto
  have o4: "kb_out (kb d4) = [kb_config (kb d2)]" by (simp add: d4(2) d3(2) kb_commands)
  obtain d5 where d5: "expect_data B (?s d4) = Inr (kb_config (kb d2), ?s d5)"
      "kb d5 = (kb d4)\<lparr>kb_out := [], kb_busy := kb_busy (kb d4) - 1\<rparr>"
    using expect_data_ok [OF assms, of "?s d4"] o4 by auto
  obtain d6 where d6: "send_command B 0x60 (?s d5) = Inr (?s d6)" "kb d6 = (kb_command 0x60 (kb d5))\<lparr>kb_busy := 0\<rparr>"
    using cmd [of "0x60" "?s d5"] by auto
  obtain d7 where d7: "send_data B (kb_config (kb d2) AND 0xBC) (?s d6) = Inr (?s d7)"
      "kb d7 = (kb_data (kb_config (kb d2) AND 0xBC) (kb d6))\<lparr>kb_busy := 0\<rparr>"
    using send_data_ok [OF assms, of _ "?s d6"] by auto
  obtain d8 where d8: "send_command B 0xAA (?s d7) = Inr (?s d8)" "kb d8 = (kb_command 0xAA (kb d7))\<lparr>kb_busy := 0\<rparr>"
    using cmd [of "0xAA" "?s d7"] by auto
  have o8: "kb_out (kb d8) = [self_test (kb (dev s))]"
    by (simp add: d8(2) d7(2) d6(2) d5(2) d4(2) d3(2) d2(2) d1(2) d0(2) kb_commands kb_data_def)
  obtain d9 where d9: "expect_data B (?s d8) = Inr (self_test (kb (dev s)), ?s d9)"
      "kb d9 = (kb d8)\<lparr>kb_out := [], kb_busy := kb_busy (kb d8) - 1\<rparr>"
    using expect_data_ok [OF assms, of "?s d8"] o8 by auto
  have conf: "((c OR 0x10) OR 0x20) AND 0xBC = (c AND 0x8C) OR (0x30 :: u8)" for c
    by (rule config_byte(1))
  have "kb d9 = (kb (dev s))\<lparr>kb_config := (kb_config (kb (dev s)) AND 0x8C) OR 0x30, kb_out := [], kb_expects := False, kb_busy := 0\<rparr>"
    by (simp add: d9(2) d8(2) d7(2) d6(2) d5(2) d4(2) d3(2) d2(2) d1(2) d0(2) kb_commands kb_data_def conf)
  then show ?thesis
    by (intro exI [of _ d9])
      (simp add: keyboard_init_def d0(1) d1(1) d2(1) d3(1) d4(1) d5(1) d6(1) d7(1) d8(1) d9(1) ends_def Let_def)
qed

section \<open>Properties\<close>


lemma has_i8042_bus: "has_i8042 kb_bus (\<lambda>d. d)"
  by (simp add: has_i8042_def kb_bus_def)


end
