(* ===== verification/Isr.thy ===== *)
theory Isr
  imports Keyboard Paging
begin

text \<open>
  Interrupt dispatch, \<^verbatim>\<open>kernel/kernel/isr.c\<close>, with the handlers that can be registered, and
  the programmable interval timer, \<^verbatim>\<open>kernel/kernel/timer.c\<close>. \<^verbatim>\<open>sleep\<close> halts until the next
  interrupt; the interrupts that arrive are a parameter, the sequence of the register sets the stubs
  pass to \<^verbatim>\<open>isr_handler\<close>. \<open>R\<close> is the parameter of \<^verbatim>\<open>putchar\<close>.
\<close>

section \<open>Model\<close>

record registers_t =
  reg_dummy1 :: u32
  reg_dummy2 :: u32
  reg_ds :: u32
  reg_edi :: u32
  reg_esi :: u32
  reg_ebp :: u32
  reg_esp :: u32
  reg_ebx :: u32
  reg_edx :: u32
  reg_ecx :: u32
  reg_eax :: u32
  reg_int_no :: u32
  reg_err_code :: u32
  reg_eip :: u32

text \<open>What the page fault handler looks at: the page structures and the faulting address in \<^verbatim>\<open>cr2\<close>.\<close>

record fault_view =
  fv_linkage :: linkage
  fv_paging :: paging_state
  fv_cr2 :: u32

definition reload_value :: u16 where
  "reload_value = 0xFFFF"

definition ns_per_tick :: u64 where
  "ns_per_tick = (ucast reload_value * 1000000000) div 1193182"

definition timer_handler :: "'d con \<Rightarrow> 'd con" where
  "timer_handler k = k\<lparr>con_io := (con_io k)\<lparr>ns_since_boot := ns_since_boot (con_io k) + ns_per_tick\<rparr>\<rparr>"

fun run_handler :: "(u8 \<Rightarrow> int) \<Rightarrow> 'd bus \<Rightarrow> isr_t \<Rightarrow> 'd con \<Rightarrow> 'd con res" where
  "run_handler R B H_timer k = Inr (timer_handler k)"
| "run_handler R B H_keyboard k = keyboard_handler R B k"
| "run_handler R B H_serial k = bindE (serial_handler B (con_io k)) (\<lambda>s. Inr (k\<lparr>con_io := s\<rparr>))"

text \<open>The entries as the double words that are passed to \<^verbatim>\<open>printf\<close>.\<close>

definition pde_word :: "pde_t \<Rightarrow> u32" where
  "pde_word e =
     ucast (pde_present e) OR push_bit 1 (ucast (pde_rw e)) OR push_bit 2 (ucast (pde_user e)) OR
     push_bit 3 (ucast (pde_pwt e)) OR push_bit 4 (ucast (pde_pcd e)) OR push_bit 5 (ucast (pde_accessed e)) OR
     push_bit 6 (ucast (pde_dirty e)) OR push_bit 7 (ucast (pde_page_size e)) OR push_bit 8 (ucast (pde_ignored e)) OR
     push_bit 12 (ucast (pde_page_table e))"

definition pte_word :: "pte_t \<Rightarrow> u32" where
  "pte_word e =
     ucast (pte_present e) OR push_bit 1 (ucast (pte_rw e)) OR push_bit 2 (ucast (pte_user e)) OR
     push_bit 3 (ucast (pte_pwt e)) OR push_bit 4 (ucast (pte_pcd e)) OR push_bit 5 (ucast (pte_accessed e)) OR
     push_bit 6 (ucast (pte_dirty e)) OR push_bit 7 (ucast (pte_pat e)) OR push_bit 8 (ucast (pte_global e)) OR
     push_bit 9 (ucast (pte_ignored e)) OR push_bit 12 (ucast (pte_frame e))"

definition print_fmt :: "(u8 \<Rightarrow> int) \<Rightarrow> 'd bus \<Rightarrow> string \<Rightarrow> arg list \<Rightarrow> 'd con \<Rightarrow> 'd con res" where
  "print_fmt R B format args k = bindE (printf R B (chars format) args k) (\<lambda>(r, k). Inr k)"

text \<open>The lines about the directory and the table, when there is an address space.\<close>

definition report_entries ::
  "(u8 \<Rightarrow> int) \<Rightarrow> 'd bus \<Rightarrow> fault_view \<Rightarrow> u32 \<Rightarrow> u32 \<Rightarrow> 'd con \<Rightarrow> 'd con res" where
  "report_entries R B F di ti k =
     (let p = fv_paging F in
      bindE (deref_as (current_as p) p) (\<lambda>as.
      bindE (print_fmt R B ''Directory is located at 0x%08x, Dir entry at 0x%08x\<newline>''
        [A_int (directory_phys as), A_int (directory_phys as + 4 * di)] k) (\<lambda>k.
      if directory as \<noteq> KERNEL_PAGE_DIRECTORY (fv_linkage F) then Inl (Undefined ''page directory'')
      else
        let e = page_directory p ! unat di in
        bindE (print_fmt R B ''Dir Entry: 0x%08x P:%d RW:%d Frame:%d\<newline>''
          [A_int (pde_word e), A_int (ucast (pde_present e)), A_int (ucast (pde_rw e)), A_int (ucast (pde_page_table e))] k)
        (\<lambda>k.
        if pde_present e = 0 then Inr k
        else
          bindE (print_fmt R B ''Table is located at 0x%08x, Table entry at 0x%08x\<newline>''
            [A_int (ucast (pde_page_table e) * PAGE_SIZE), A_int (ucast (pde_page_table e) * PAGE_SIZE + 4 * ti)] k) (\<lambda>k.
          bindE (deref_table (fv_linkage F) (tables as ! unat di)) (\<lambda>t.
          let te = page_tables p ! t ! unat ti in
          print_fmt R B ''Tab Entry: 0x%08x P:%d RW:%d Frame:%d\<newline>''
            [A_int (pte_word te), A_int (ucast (pte_present te)), A_int (ucast (pte_rw te)), A_int (ucast (pte_frame te))] k))))))"

definition isr_handle_page_fault ::
  "(u8 \<Rightarrow> int) \<Rightarrow> 'd bus \<Rightarrow> fault_view \<Rightarrow> u32 \<Rightarrow> u32 \<Rightarrow> 'd con \<Rightarrow> 'd con res" where
  "isr_handle_page_fault R B F err_code eip k =
     (let addr = fv_cr2 F;
          di = drop_bit 22 addr;
          ti = drop_bit 12 addr AND MASK 10;
          pi = addr AND MASK 12
      in
      bindE (print_fmt R B ''\<newline>PAGE FAULT addr=0x%08x DIR=%d TAB=%d ADR=%d\<newline>''
        [A_int addr, A_int di, A_int ti, A_int pi] k) (\<lambda>k.
      bindE (if current_as (fv_paging F) = AS_NULL then Inr k else report_entries R B F di ti k) (\<lambda>k.
      Inl (Panic ''Page Fault''))))"

definition isr_handle_exception ::
  "(u8 \<Rightarrow> int) \<Rightarrow> 'd bus \<Rightarrow> fault_view \<Rightarrow> u8 \<Rightarrow> u32 \<Rightarrow> u32 \<Rightarrow> 'd con \<Rightarrow> 'd con res" where
  "isr_handle_exception R B F int_no err_code eip k =
     (if int_no = 14 then isr_handle_page_fault R B F err_code eip k
      else print_fmt R B ''ISR EXCEPTION #%d\<newline>'' [A_int (ucast int_no)] k)"

definition isr_handle_irq :: "(u8 \<Rightarrow> int) \<Rightarrow> 'd bus \<Rightarrow> u8 \<Rightarrow> 'd con \<Rightarrow> 'd con res" where
  "isr_handle_irq R B int_no k =
     (let s = con_io k;
          s = (if 40 \<le> int_no then outb B 0xA0 0x20 s else s);
          s = outb B 0x20 0x20 s;
          k = k\<lparr>con_io := s\<rparr>
      in case interrupt_handlers s ! unat int_no of
           Some handler \<Rightarrow> run_handler R B handler k
         | None \<Rightarrow> print_fmt R B ''IRQ%d\<newline>'' [A_int (ucast int_no - 32)] k)"

text \<open>The callees take \<^verbatim>\<open>regs.int_no\<close> as a byte.\<close>

definition isr_handler :: "(u8 \<Rightarrow> int) \<Rightarrow> 'd bus \<Rightarrow> fault_view \<Rightarrow> registers_t \<Rightarrow> 'd con \<Rightarrow> 'd con res" where
  "isr_handler R B F regs k =
     (if reg_int_no regs \<le> 31
      then isr_handle_exception R B F (ucast (reg_int_no regs)) (reg_err_code regs) (reg_eip regs) k
      else isr_handle_irq R B (ucast (reg_int_no regs)) k)"

definition timer_compare :: "u64 \<Rightarrow> u64 \<Rightarrow> int" where
  "timer_compare a b = (if b < a then 1 else 0)"

text \<open>
  \<^verbatim>\<open>timer_init\<close>; the 64-bit argument of \<^verbatim>\<open>printf\<close> is passed as two double words, the low one
  first.
\<close>

definition timer_init :: "(u8 \<Rightarrow> int) \<Rightarrow> 'd bus \<Rightarrow> 'd con \<Rightarrow> 'd con res" where
  "timer_init R B k =
     (let _ = timer_compare 1 1;
          k = k\<lparr>con_io := irq_register_handler IRQ0 H_timer (con_io k)\<rparr> in
      bindE (print_fmt R B ''[PIT] Reload value: %04x Delta %08lx\<newline>''
        [A_int (ucast reload_value), A_int (ucast ns_per_tick), A_int (ucast (drop_bit 32 ns_per_tick))] k) (\<lambda>k.
      let s = con_io k;
          s = outb B 0x43 0x34 s;
          s = outb B 0x40 (ucast (reload_value AND 0xFF)) s;
          s = outb B 0x40 (ucast (drop_bit 8 reload_value)) s
      in bindE (irq_clear_mask B 0 s) (\<lambda>s. Inr (k\<lparr>con_io := s\<rparr>))))"

text \<open>
  The loop of \<^verbatim>\<open>sleep\<close>: \<open>env i\<close> are the registers at the interrupt that ends the \<open>i\<close>-th
  halt. The result counts the halts.
\<close>

partial_function (option) sleep_loop ::
  "(u8 \<Rightarrow> int) \<Rightarrow> 'd bus \<Rightarrow> fault_view \<Rightarrow> (nat \<Rightarrow> registers_t) \<Rightarrow> nat \<Rightarrow> u64 \<Rightarrow> 'd con \<Rightarrow> (nat \<times> 'd con) res option" where
  "sleep_loop R B F env i end_time k =
     (if ns_since_boot (con_io k) < end_time then
        (case isr_handler R B F (env i) k of
           Inl e \<Rightarrow> Some (Inl e)
         | Inr k \<Rightarrow> sleep_loop R B F env (Suc i) end_time k)
      else Some (Inr (i, k)))"

definition sleep ::
  "(u8 \<Rightarrow> int) \<Rightarrow> 'd bus \<Rightarrow> fault_view \<Rightarrow> (nat \<Rightarrow> registers_t) \<Rightarrow> u32 \<Rightarrow> 'd con \<Rightarrow> (nat \<times> 'd con) res" where
  "sleep R B F env millis k =
     (let end_time = ns_since_boot (con_io k) + ucast millis * 1000000 in
      loop_result (sleep_loop R B F env 0 end_time k))"

section \<open>Specification\<close>

text \<open>
  The interrupts that may arrive: those of the timer and of the serial line, and others of the two
  controllers without a handler; and of those the timer interrupts never cease.
\<close>

definition benign :: "isr_t option list \<Rightarrow> registers_t \<Rightarrow> bool" where
  "benign hs regs \<longleftrightarrow>
     reg_int_no regs = 32 \<or> (reg_int_no regs = 36 \<and> hs ! 36 = Some H_serial) \<or>
     (32 < reg_int_no regs \<and> reg_int_no regs < 48 \<and> hs ! unat (reg_int_no regs) = None)"

definition quiet :: "isr_t option list \<Rightarrow> (nat \<Rightarrow> registers_t) \<Rightarrow> bool" where
  "quiet hs env \<longleftrightarrow>
     hs ! 32 = Some H_timer \<and> (\<forall>i. benign hs (env i)) \<and> (\<forall>i. \<exists>j \<ge> i. reg_int_no (env j) = 32)"

definition reg_example :: registers_t where
  "reg_example = \<lparr>reg_dummy1 = 0, reg_dummy2 = 0, reg_ds = 0, reg_edi = 0, reg_esi = 0, reg_ebp = 0, reg_esp = 0,
     reg_ebx = 0, reg_edx = 0, reg_ecx = 0, reg_eax = 0, reg_int_no = 32, reg_err_code = 0, reg_eip = 0\<rparr>"

definition fault_example :: fault_view where
  "fault_example = \<lparr>fv_linkage = linkage_example, fv_paging = paging_boot 0, fv_cr2 = 0xDEADBEEF\<rparr>"

text \<open>The structures the page fault handler walks through are there.\<close>

definition fault_walkable :: "fault_view \<Rightarrow> bool" where
  "fault_walkable F \<longleftrightarrow>
     (let p = fv_paging F; di = unat (drop_bit 22 (fv_cr2 F)) in
      current_as p = AS_NULL \<or>
      directory (vm_first_as p) = KERNEL_PAGE_DIRECTORY (fv_linkage F) \<and>
      (pde_present (page_directory p ! di) \<noteq> 0 \<longrightarrow> table_no (fv_linkage F) (tables (vm_first_as p) ! di) \<noteq> None))"

section \<open>Dispatch\<close>

lemma ns_per_tick_value: "ns_per_tick = 54924563"
  by (simp add: ns_per_tick_def reload_value_def)

lemma ready_out:
  assumes "con_ready B u k" "p < COM1"
  shows "con_ready B u (k\<lparr>con_io := outb B p v (con_io k)\<rparr>)"
    "u (bus_outb B p v d) = u d"
proof -
  have "u (bus_outb B p v d) = u d" for d using assms by (auto simp: con_ready_def has_uart_def)
  then show "con_ready B u (k\<lparr>con_io := outb B p v (con_io k)\<rparr>)" "u (bus_outb B p v d) = u d"
    using assms(1) by (simp_all add: con_ready_def)
qed

lemma print_fmt_ready:
  assumes "con_ready B u k" "\<forall>c. 0 \<le> R c" "render (chars format) args = Some out" "length format < 2 ^ 31 - 1"
  shows "\<exists>k'. print_fmt R B format args k = Inr k' \<and> con_ready B u k' \<and> wrote u k out k'"
proof -
  have "length (chars format) < 2 ^ 31 - 1" using assms(4) by (simp add: chars_def)
  from vprintf_ready [OF assms(1-3) this] show ?thesis by (auto simp: print_fmt_def printf_def)
qed

lemmas render_simps = chars_def render.simps parse_directive_def parse_width_def parse_precision_def
  parse_modifiers_def hd0_def Let_def conversion_def printable_def

lemma render_irq:
  assumes "n \<noteq> 0x80000000"
  shows "render (chars ''IRQ%d\<newline>'') [A_int n] = Some (chars ''IRQ'' @ number n 10 True 0 0x20 @ chars ''\<newline>'')"
  using assms by (simp add: render_simps)

lemma isr_timer:
  assumes "con_ready B u k" "interrupt_handlers (con_io k) ! 32 = Some H_timer" "reg_int_no r = 32"
  shows "\<exists>d. isr_handler R B F r k = Inr (timer_handler (k\<lparr>con_io := (con_io k)\<lparr>dev := d\<rparr>\<rparr>)) \<and>
    con_ready B u (k\<lparr>con_io := (con_io k)\<lparr>dev := d\<rparr>\<rparr>)"
  using assms ready_out(1) [OF assms(1), of "0x20" "0x20"]
  by (intro exI [of _ "bus_outb B 0x20 0x20 (dev (con_io k))"])
    (simp add: isr_handler_def isr_handle_irq_def Let_def outb_def COM1_def)

lemma isr_serial:
  assumes "con_ready B u k" "interrupt_handlers (con_io k) ! 36 = Some H_serial" "reg_int_no r = 36"
    and "uart_read 0 (u (dev (con_io k))) = (c, v)"
  shows "\<exists>k'. isr_handler R B F r k = Inr k' \<and> con_ready B u k' \<and> same_kernel k k' \<and>
    u (dev (con_io k')) = v\<lparr>sent := sent v @ crlf c, tx_delay := busy v\<rparr>"
proof -
  let ?k = "k\<lparr>con_io := outb B 0x20 0x20 (con_io k)\<rparr>"
  have r: "con_ready B u ?k" "u (dev (con_io ?k)) = u (dev (con_io k))"
    using ready_out [OF assms(1), of "0x20"] by (simp_all add: COM1_def)
  have l: "lcr v = lcr (u (dev (con_io k)))" using assms(4) by (auto simp: uart_read_def split: list.splits if_splits)
  from serial_handler_spec [of B u "con_io ?k" c v] r assms(4) obtain d where
    d: "serial_handler B (con_io ?k) = Inr ((con_io ?k)\<lparr>dev := d\<rparr>)" "u d = v\<lparr>sent := sent v @ crlf c, tx_delay := busy v\<rparr>"
    by (auto simp: con_ready_def crlf_def)
  have "isr_handler R B F r k = Inr (k\<lparr>con_io := (con_io k)\<lparr>dev := d\<rparr>\<rparr>)"
    using assms(2,3) d(1) by (simp add: isr_handler_def isr_handle_irq_def Let_def outb_def)
  moreover have "con_ready B u (k\<lparr>con_io := (con_io k)\<lparr>dev := d\<rparr>\<rparr>)" using assms(1) d(2) l by (simp add: con_ready_def)
  ultimately show ?thesis using d(2) by (auto simp: same_kernel_def)
qed

lemma isr_unhandled:
  assumes "con_ready B u k" "\<forall>c. 0 \<le> R c" "32 < reg_int_no r" "reg_int_no r < 48"
    and "interrupt_handlers (con_io k) ! unat (reg_int_no r) = None"
  shows "\<exists>k'. isr_handler R B F r k = Inr k' \<and> con_ready B u k' \<and> same_kernel k k' \<and>
    sent (u (dev (con_io k'))) = sent (u (dev (con_io k))) @ concat (List.map crlf
      (chars ''IRQ'' @ number (reg_int_no r - 32) 10 True 0 0x20 @ chars ''\<newline>''))"
proof -
  let ?n = "ucast (reg_int_no r) :: u8"
  have lt: "unat (reg_int_no r) < 48" "\<not> reg_int_no r \<le> 31"
    using assms(3,4) by (simp_all add: word_less_nat_alt word_le_nat_alt)
  then have n: "unat ?n = unat (reg_int_no r)" by (simp add: unsigned_ucast_eq take_bit_eq_mod unat_mod)
  then have c: "ucast ?n = reg_int_no r" using lt by (simp add: word_unat_eq_iff unsigned_ucast_eq take_bit_eq_mod unat_mod)
  define k1 where "k1 = (if 40 \<le> ?n then k\<lparr>con_io := outb B 0xA0 0x20 (con_io k)\<rparr> else k)"
  define k2 where "k2 = k1\<lparr>con_io := outb B 0x20 0x20 (con_io k1)\<rparr>"
  have r1: "con_ready B u k1" "u (dev (con_io k1)) = u (dev (con_io k))"
    using ready_out [OF assms(1), of "0xA0"] assms(1) by (simp_all add: k1_def COM1_def)
  have r2: "con_ready B u k2" "u (dev (con_io k2)) = u (dev (con_io k))"
    using ready_out [OF r1(1), of "0x20"] r1(2) by (simp_all add: k2_def COM1_def)
  have same: "same_kernel k k2" by (auto simp: same_kernel_def k1_def k2_def outb_def)
  have ne: "reg_int_no r - 32 \<noteq> 0x80000000"
  proof
    assume "reg_int_no r - 32 = 0x80000000"
    then have "reg_int_no r = 0x80000020" by (simp add: diff_eq_eq)
    then show False using lt(1) by simp
  qed
  from print_fmt_ready [OF r2(1) assms(2) render_irq [OF ne]] obtain k' where
    k': "print_fmt R B ''IRQ%d\<newline>'' [A_int (reg_int_no r - 32)] k2 = Inr k'" "con_ready B u k'"
    "wrote u k2 (chars ''IRQ'' @ number (reg_int_no r - 32) 10 True 0 0x20 @ chars ''\<newline>'') k'" by auto
  have "interrupt_handlers (con_io k2) ! unat ?n = None"
    using assms(5) n by (simp add: k2_def k1_def)
  moreover have "k2 = (let s = con_io k; s = (if 40 \<le> ?n then outb B 0xA0 0x20 s else s); s = outb B 0x20 0x20 s
      in k\<lparr>con_io := s\<rparr>)" by (simp add: k2_def k1_def Let_def)
  ultimately have "isr_handler R B F r k = print_fmt R B ''IRQ%d\<newline>'' [A_int (reg_int_no r - 32)] k2"
    using lt(2) c by (simp add: isr_handler_def isr_handle_irq_def Let_def)
  then show ?thesis
    using k' r2(2) same_kernel_trans [OF same] by (auto simp: wrote_def)
qed

section \<open>Exceptions\<close>

lemma ucast_not_min: "LENGTH('a :: len) < 32 \<Longrightarrow> ucast (x :: 'a word) \<noteq> (0x80000000 :: u32)"
proof
  assume l: "LENGTH('a) < 32" and e: "ucast x = (0x80000000 :: u32)"
  have "bit (ucast x :: u32) 31" unfolding e by simp
  then show False using l bit_imp_le_length [of x 31] by (simp add: bit_simps)
qed

lemma small_not_min: "unat n < 0x80000000 \<Longrightarrow> n \<noteq> (0x80000000 :: u32)"
  by auto

lemma render_reports:
  assumes "b \<noteq> 0x80000000" "c \<noteq> 0x80000000" "d \<noteq> 0x80000000"
  shows "\<exists>out. render (chars ''\<newline>PAGE FAULT addr=0x%08x DIR=%d TAB=%d ADR=%d\<newline>'') [A_int a, A_int b, A_int c, A_int d] = Some out"
    and "\<exists>out. render (chars ''Dir Entry: 0x%08x P:%d RW:%d Frame:%d\<newline>'') [A_int a, A_int b, A_int c, A_int d] = Some out"
    and "\<exists>out. render (chars ''Tab Entry: 0x%08x P:%d RW:%d Frame:%d\<newline>'') [A_int a, A_int b, A_int c, A_int d] = Some out"
    and "\<exists>out. render (chars ''Directory is located at 0x%08x, Dir entry at 0x%08x\<newline>'') [A_int a, A_int e] = Some out"
    and "\<exists>out. render (chars ''Table is located at 0x%08x, Table entry at 0x%08x\<newline>'') [A_int a, A_int e] = Some out"
  using assms by (simp_all add: render_simps)

lemma print_some:
  assumes "con_ready B u k" "\<forall>c. 0 \<le> R c" "\<exists>out. render (chars format) args = Some out" "length format < 2 ^ 31 - 1"
  shows "\<exists>k'. print_fmt R B format args k = Inr k' \<and> con_ready B u k'"
  using assms(3) print_fmt_ready [OF assms(1,2) _ assms(4)] by blast

lemma report_entries_ready:
  assumes "con_ready B u k" "\<forall>c. 0 \<le> R c" "fault_walkable F" "current_as (fv_paging F) \<noteq> AS_NULL"
    and "unat di = unat (drop_bit 22 (fv_cr2 F))"
  shows "\<exists>k'. report_entries R B F di ti k = Inr k' \<and> con_ready B u k'"
proof -
  let ?p = "fv_paging F" and ?as = "vm_first_as (fv_paging F)"
  let ?e = "page_directory ?p ! unat di"
  have as: "deref_as (current_as ?p) ?p = Inr ?as"
    using assms(4) by (cases "current_as ?p") (simp_all add: deref_as_def)
  note ne = ucast_not_min [of "pde_present ?e"] ucast_not_min [of "pde_rw ?e"] ucast_not_min [of "pde_page_table ?e"]
  from print_some [OF assms(1,2), of "''Directory is located at 0x%08x, Dir entry at 0x%08x\<newline>''"
      "[A_int (directory_phys ?as), A_int (directory_phys ?as + 4 * di)]"] render_reports(4) [of 0 0 0] obtain k1 where
    k1: "print_fmt R B ''Directory is located at 0x%08x, Dir entry at 0x%08x\<newline>''
      [A_int (directory_phys ?as), A_int (directory_phys ?as + 4 * di)] k = Inr k1" "con_ready B u k1" by auto
  from print_some [OF k1(2) assms(2), of "''Dir Entry: 0x%08x P:%d RW:%d Frame:%d\<newline>''"
      "[A_int (pde_word ?e), A_int (ucast (pde_present ?e)), A_int (ucast (pde_rw ?e)), A_int (ucast (pde_page_table ?e))]"]
    render_reports(2) [of "ucast (pde_present ?e)" "ucast (pde_rw ?e)" "ucast (pde_page_table ?e)"] ne obtain k2 where
    k2: "print_fmt R B ''Dir Entry: 0x%08x P:%d RW:%d Frame:%d\<newline>''
      [A_int (pde_word ?e), A_int (ucast (pde_present ?e)), A_int (ucast (pde_rw ?e)), A_int (ucast (pde_page_table ?e))] k1
        = Inr k2" "con_ready B u k2" by auto
  have dir: "directory ?as = KERNEL_PAGE_DIRECTORY (fv_linkage F)"
    using assms(3,4) by (simp add: fault_walkable_def Let_def)
  show ?thesis
  proof (cases "pde_present ?e = 0")
    case True
    then show ?thesis using k2 by (simp add: report_entries_def Let_def as k1(1) dir bindE_Inr_right)
  next
    case False
    then obtain n where n: "deref_table (fv_linkage F) (tables ?as ! unat di) = Inr n"
      using assms(3-5) by (auto simp: fault_walkable_def Let_def deref_table_def)
    let ?te = "page_tables ?p ! n ! unat ti"
    let ?tab = "ucast (pde_page_table ?e) * PAGE_SIZE"
    note te = ucast_not_min [of "pte_present ?te"] ucast_not_min [of "pte_rw ?te"] ucast_not_min [of "pte_frame ?te"]
    from print_some [OF k2(2) assms(2), of "''Table is located at 0x%08x, Table entry at 0x%08x\<newline>''"
        "[A_int ?tab, A_int (?tab + 4 * ti)]"] render_reports(5) [of 0 0 0] obtain k3 where
      k3: "print_fmt R B ''Table is located at 0x%08x, Table entry at 0x%08x\<newline>'' [A_int ?tab, A_int (?tab + 4 * ti)] k2 = Inr k3"
      "con_ready B u k3" by auto
    from print_some [OF k3(2) assms(2), of "''Tab Entry: 0x%08x P:%d RW:%d Frame:%d\<newline>''"
        "[A_int (pte_word ?te), A_int (ucast (pte_present ?te)), A_int (ucast (pte_rw ?te)), A_int (ucast (pte_frame ?te))]"]
      render_reports(3) [of "ucast (pte_present ?te)" "ucast (pte_rw ?te)" "ucast (pte_frame ?te)"] te show ?thesis
      by (simp add: report_entries_def Let_def as k1(1) k2(1) dir False n k3(1) [unfolded PAGE_SIZE_eq])
  qed
qed

lemma address_parts:
  fixes addr :: vaddr_t
  shows "drop_bit 22 addr \<noteq> 0x80000000" "drop_bit 12 addr AND MASK 10 \<noteq> 0x80000000" "addr AND MASK 12 \<noteq> 0x80000000"
proof -
  have lt: "unat (x AND MASK m) < 2 ^ m" if "m < 32" for x m
    using that by (simp add: MASK_eq_mask flip: take_bit_eq_mask) (simp add: unsigned_take_bit_eq)
  have "unat (drop_bit 22 addr) < 2 ^ 10" using unat_lt_2p32 [of addr] by (simp add: unat_drop_bit_u32 div_less_iff_less_mult)
  then show "drop_bit 22 addr \<noteq> 0x80000000" "drop_bit 12 addr AND MASK 10 \<noteq> 0x80000000" "addr AND MASK 12 \<noteq> 0x80000000"
    using lt [of 10 "drop_bit 12 addr"] lt [of 12 addr] by (auto intro!: small_not_min)
qed

lemma page_fault_panics:
  assumes "con_ready B u k" "\<forall>c. 0 \<le> R c" "fault_walkable F"
  shows "isr_handle_page_fault R B F err_code eip k = Inl (Panic ''Page Fault'')"
proof -
  let ?di = "drop_bit 22 (fv_cr2 F)" and ?ti = "drop_bit 12 (fv_cr2 F) AND MASK 10" and ?pi = "fv_cr2 F AND MASK 12"
  note ne = address_parts [of "fv_cr2 F"]
  from print_some [OF assms(1,2), of "''\<newline>PAGE FAULT addr=0x%08x DIR=%d TAB=%d ADR=%d\<newline>''"
      "[A_int (fv_cr2 F), A_int ?di, A_int ?ti, A_int ?pi]"] render_reports(1) [OF ne] obtain k1 where
    k1: "print_fmt R B ''\<newline>PAGE FAULT addr=0x%08x DIR=%d TAB=%d ADR=%d\<newline>'' [A_int (fv_cr2 F), A_int ?di, A_int ?ti, A_int ?pi] k = Inr k1"
    "con_ready B u k1" by auto
  show ?thesis
    using report_entries_ready [OF k1(2) assms(2,3) _ refl, of ?ti] k1(1)
    by (cases "current_as (fv_paging F) = AS_NULL") (auto simp: isr_handle_page_fault_def Let_def)
qed

section \<open>Sleeping\<close>

lemma timer_handler_ready:
  "con_ready B u k \<Longrightarrow> con_ready B u (timer_handler k)"
  by (simp add: con_ready_def timer_handler_def)

text \<open>Such an interrupt leaves the console ready, and only the timer's moves the clock.\<close>

lemma benign_handler:
  assumes "con_ready B u k" "\<forall>c. 0 \<le> R c" "interrupt_handlers (con_io k) ! 32 = Some H_timer"
    "benign (interrupt_handlers (con_io k)) r"
  shows "\<exists>k'. isr_handler R B F r k = Inr k' \<and> con_ready B u k' \<and>
    interrupt_handlers (con_io k') = interrupt_handlers (con_io k) \<and>
    ns_since_boot (con_io k') = (if reg_int_no r = 32 then ns_since_boot (con_io k) + ns_per_tick else ns_since_boot (con_io k))"
proof (cases "reg_int_no r = 32")
  case True
  from isr_timer [OF assms(1,3) True, of R F] obtain d where
    d: "isr_handler R B F r k = Inr (timer_handler (k\<lparr>con_io := (con_io k)\<lparr>dev := d\<rparr>\<rparr>))"
    "con_ready B u (k\<lparr>con_io := (con_io k)\<lparr>dev := d\<rparr>\<rparr>)" by auto
  from d(1) timer_handler_ready [OF d(2)] True show ?thesis by (simp add: timer_handler_def)
next
  case False
  show ?thesis
  proof (cases "reg_int_no r = 36 \<and> interrupt_handlers (con_io k) ! 36 = Some H_serial")
    case True
    with isr_serial [OF assms(1), of r _ _ R F] show ?thesis
      by (cases "uart_read 0 (u (dev (con_io k)))") (fastforce simp: same_kernel_def)
  next
    case False
    with \<open>reg_int_no r \<noteq> 32\<close> assms(4) have "32 < reg_int_no r" "reg_int_no r < 48"
      "interrupt_handlers (con_io k) ! unat (reg_int_no r) = None" by (auto simp: benign_def)
    from isr_unhandled [OF assms(1,2) this, of F] \<open>reg_int_no r \<noteq> 32\<close> show ?thesis by (auto simp: same_kernel_def)
  qed
qed

text \<open>
  What code that waits for interrupts relies on: in a state that is \<open>ok\<close>, every interrupt of the kinds above
  is served, the state stays \<open>ok\<close>, the handlers stay registered, and the clock advances by one tick if
  it was the timer's.
\<close>

locale interrupt_service =
  fixes H :: "registers_t \<Rightarrow> 'd con \<Rightarrow> 'd con res" and ok :: "'d con \<Rightarrow> bool"
  assumes served: "ok k \<Longrightarrow> benign (interrupt_handlers (con_io k)) r \<Longrightarrow>
    \<exists>k'. H r k = Inr k' \<and> ok k' \<and> interrupt_handlers (con_io k') = interrupt_handlers (con_io k) \<and>
      ns_since_boot (con_io k') = (if reg_int_no r = 32 then ns_since_boot (con_io k) + ns_per_tick else ns_since_boot (con_io k))"
begin

lemma served_result:
  assumes "ok k" "benign (interrupt_handlers (con_io k)) r" "H r k = Inr k'"
  shows "ok k'" "interrupt_handlers (con_io k') = interrupt_handlers (con_io k)"
    "ns_since_boot (con_io k') = (if reg_int_no r = 32 then ns_since_boot (con_io k) + ns_per_tick else ns_since_boot (con_io k))"
  using served [OF assms(1,2)] assms(3) by auto

lemma tick_served:
  assumes "ok k"
  obtains k' where "H reg_example k = Inr k'" "ok k'" "ns_since_boot (con_io k') = ns_since_boot (con_io k) + ns_per_tick"
  using served [OF assms, of reg_example] that by (auto simp: benign_def reg_example_def)

end

interpretation isr: interrupt_service "isr_handler R B F"
  "\<lambda>k. con_ready B u k \<and> (\<forall>c. 0 \<le> R c) \<and> interrupt_handlers (con_io k) ! 32 = Some H_timer" for R B F u
proof unfold_locales
  fix k r
  assume k: "con_ready B u k \<and> (\<forall>c. 0 \<le> R c) \<and> interrupt_handlers (con_io k) ! 32 = Some H_timer"
    and r: "benign (interrupt_handlers (con_io k)) r"
  from benign_handler [of B u k R r F] k r obtain k' where
    "isr_handler R B F r k = Inr k'" "con_ready B u k'" "interrupt_handlers (con_io k') = interrupt_handlers (con_io k)"
    "ns_since_boot (con_io k') = (if reg_int_no r = 32 then ns_since_boot (con_io k) + ns_per_tick else ns_since_boot (con_io k))"
    by blast
  then show "\<exists>k'. isr_handler R B F r k = Inr k' \<and>
      (con_ready B u k' \<and> (\<forall>c. 0 \<le> R c) \<and> interrupt_handlers (con_io k') ! 32 = Some H_timer) \<and>
      interrupt_handlers (con_io k') = interrupt_handlers (con_io k) \<and>
      ns_since_boot (con_io k') = (if reg_int_no r = 32 then ns_since_boot (con_io k) + ns_per_tick else ns_since_boot (con_io k))"
    using k by auto
qed

lemma quiet_step:
  assumes "con_ready B u k" "\<forall>c. 0 \<le> R c" "quiet (interrupt_handlers (con_io k)) env"
  shows "\<exists>k'. isr_handler R B F (env i) k = Inr k' \<and> con_ready B u k' \<and>
    interrupt_handlers (con_io k') = interrupt_handlers (con_io k) \<and>
    ns_since_boot (con_io k') = (if reg_int_no (env i) = 32 then ns_since_boot (con_io k) + ns_per_tick else ns_since_boot (con_io k))"
  using benign_handler [OF assms(1,2)] assms(3) by (simp add: quiet_def)

lemma sleep_skips:
  assumes "\<forall>c. 0 \<le> R c" "con_ready B u k" "quiet (interrupt_handlers (con_io k)) env"
    "ns_since_boot (con_io k) < end_time" "i \<le> j" "\<forall>l. i \<le> l \<and> l < j \<longrightarrow> reg_int_no (env l) \<noteq> 32"
  shows "\<exists>k'. sleep_loop R B F env i end_time k = sleep_loop R B F env j end_time k' \<and> con_ready B u k' \<and>
    interrupt_handlers (con_io k') = interrupt_handlers (con_io k) \<and> ns_since_boot (con_io k') = ns_since_boot (con_io k)"
  using assms(5,6)
proof (induction j rule: dec_induct)
  case base
  show ?case using assms(2) by auto
next
  case (step j)
  then obtain k1 where k1: "sleep_loop R B F env i end_time k = sleep_loop R B F env j end_time k1" "con_ready B u k1"
    "interrupt_handlers (con_io k1) = interrupt_handlers (con_io k)" "ns_since_boot (con_io k1) = ns_since_boot (con_io k)"
    by auto
  have ne: "reg_int_no (env j) \<noteq> 32" using step.prems step.hyps by simp
  from quiet_step [OF k1(2) assms(1), of env F j] k1(3) assms(3) ne obtain k2 where
    k2: "isr_handler R B F (env j) k1 = Inr k2" "con_ready B u k2"
    "interrupt_handlers (con_io k2) = interrupt_handlers (con_io k1)" "ns_since_boot (con_io k2) = ns_since_boot (con_io k1)"
    by auto
  have "sleep_loop R B F env j end_time k1 = sleep_loop R B F env (Suc j) end_time k2"
    using assms(4) k1(4) k2(1) by (subst sleep_loop.simps) simp
  then show ?case using k1 k2 by auto
qed

lemma next_timer:
  assumes "quiet hs env"
  obtains j where "i \<le> j" "reg_int_no (env j) = 32" "\<forall>l. i \<le> l \<and> l < j \<longrightarrow> reg_int_no (env l) \<noteq> 32"
proof -
  have ex: "\<exists>j. i \<le> j \<and> reg_int_no (env j) = 32" using assms by (auto simp: quiet_def)
  define j where "j = (LEAST j. i \<le> j \<and> reg_int_no (env j) = 32)"
  have "i \<le> j \<and> reg_int_no (env j) = 32" unfolding j_def by (rule LeastI_ex [OF ex])
  moreover have "\<forall>l. i \<le> l \<and> l < j \<longrightarrow> reg_int_no (env l) \<noteq> 32" unfolding j_def using not_less_Least by blast
  ultimately show thesis using that by blast
qed

lemma unat_u64_tick:
  assumes "unat x + 54924563 < 2 ^ 64"
  shows "unat (x + ns_per_tick) = unat x + 54924563"
  using assms by (simp add: ns_per_tick_value unat_word_ariths)

lemma sleep_loop_ends:
  assumes "\<forall>c. 0 \<le> R c" "unat end_time + 54924563 < 2 ^ 64"
    and "con_ready B u k" "quiet (interrupt_handlers (con_io k)) env"
  shows "\<exists>n k'. sleep_loop R B F env i end_time k = Some (Inr (n, k')) \<and> con_ready B u k' \<and>
    unat end_time \<le> unat (ns_since_boot (con_io k')) \<and>
    (if unat (ns_since_boot (con_io k)) < unat end_time then unat (ns_since_boot (con_io k')) < unat end_time + 54924563
     else ns_since_boot (con_io k') = ns_since_boot (con_io k)) \<and>
    interrupt_handlers (con_io k') = interrupt_handlers (con_io k)"
  using assms(3,4)
proof (induction "unat end_time - unat (ns_since_boot (con_io k))" arbitrary: k i rule: less_induct)
  case less
  show ?case
  proof (cases "ns_since_boot (con_io k) < end_time")
    case False
    then have "sleep_loop R B F env i end_time k = Some (Inr (i, k))" by (subst sleep_loop.simps) simp
    then show ?thesis using False less.prems(1) by (auto simp: word_less_nat_alt not_less)
  next
    case True
    from next_timer [OF less.prems(2), of i] obtain j where
      j: "i \<le> j" "reg_int_no (env j) = 32" "\<forall>l. i \<le> l \<and> l < j \<longrightarrow> reg_int_no (env l) \<noteq> 32" .
    from sleep_skips [OF assms(1) less.prems True j(1,3), of F] obtain k1 where
      k1: "sleep_loop R B F env i end_time k = sleep_loop R B F env j end_time k1" "con_ready B u k1"
      "interrupt_handlers (con_io k1) = interrupt_handlers (con_io k)" "ns_since_boot (con_io k1) = ns_since_boot (con_io k)"
      by blast
    have q1: "quiet (interrupt_handlers (con_io k1)) env" using less.prems(2) k1(3) by simp
    from quiet_step [OF k1(2) assms(1) q1, of F j] j(2) obtain k2 where
      k2: "isr_handler R B F (env j) k1 = Inr k2" "con_ready B u k2"
      "interrupt_handlers (con_io k2) = interrupt_handlers (con_io k)"
      "ns_since_boot (con_io k2) = ns_since_boot (con_io k) + ns_per_tick" using k1(3,4) by auto
    have st: "sleep_loop R B F env j end_time k1 = sleep_loop R B F env (Suc j) end_time k2"
      using True k1(4) k2(1) by (subst sleep_loop.simps) simp
    have ns: "unat (ns_since_boot (con_io k2)) = unat (ns_since_boot (con_io k)) + 54924563"
      using True assms(2) unat_u64_tick [of "ns_since_boot (con_io k)"] k2(4) by (simp add: word_less_nat_alt)
    have dec: "unat end_time - unat (ns_since_boot (con_io k2)) < unat end_time - unat (ns_since_boot (con_io k))"
      using True ns by (simp add: word_less_nat_alt)
    have q2: "quiet (interrupt_handlers (con_io k2)) env" using less.prems(2) k2(3) by simp
    from less.hyps [OF dec k2(2) q2, of "Suc j"] obtain n k' where
      "sleep_loop R B F env (Suc j) end_time k2 = Some (Inr (n, k'))" "con_ready B u k'"
      "unat end_time \<le> unat (ns_since_boot (con_io k'))"
      "if unat (ns_since_boot (con_io k2)) < unat end_time then unat (ns_since_boot (con_io k')) < unat end_time + 54924563
       else ns_since_boot (con_io k') = ns_since_boot (con_io k2)"
      "interrupt_handlers (con_io k') = interrupt_handlers (con_io k2)" by auto
    then show ?thesis using k1(1) st ns k2(3) True by (auto simp: word_less_nat_alt split: if_splits)
  qed
qed

section \<open>The timer\<close>

lemma con_ready_io:
  assumes "con_ready B u k" "serial_active_port io = serial_active_port (con_io k)" "u (dev io) = u (dev (con_io k))"
  shows "con_ready B u (k\<lparr>con_io := io\<rparr>)"
  using assms by (simp add: con_ready_def)

lemma render_pit:
  "render (chars ''[PIT] Reload value: %04x Delta %08lx\<newline>'')
     [A_int (ucast reload_value), A_int (ucast ns_per_tick), A_int (ucast (drop_bit 32 ns_per_tick))] =
   Some (chars ''[PIT] Reload value: FFFF Delta 003461513\<newline>'')"
proof -
  have r: "render (chars ''[PIT] Reload value: %04x Delta %08lx\<newline>'') [A_int a, A_int b, A_int c] =
      Some (chars ''[PIT] Reload value: '' @ number a 16 False 4 0x30 @ chars '' Delta '' @ number c 16 False 0 0x30 @
        number b 16 False 8 0x30 @ chars ''\<newline>'')" for a b c
    by (simp add: render_simps)
  have n: "number 0xFFFF 16 False 4 0x30 = chars ''FFFF''" "number 54924563 16 False 8 0x30 = chars ''03461513''"
    "number 0 16 False 0 0x30 = chars ''0''"
    by (simp_all add: number_def field_def to_base.simps hexchars_def chars_def)
  have a: "ucast reload_value = (0xFFFF :: u32)" "ucast ns_per_tick = (54924563 :: u32)" "ucast (drop_bit 32 ns_per_tick) = (0 :: u32)"
    by (simp_all add: reload_value_def ns_per_tick_value)
  show ?thesis unfolding r a n by (simp add: chars_def)
qed

lemma irq_clear_mask_quiet:
  assumes "has_uart B u" "line < 8"
  obtains io' where "irq_clear_mask B line io = Inr io'" "u (dev io') = u (dev io)"
    "serial_active_port io' = serial_active_port io" "interrupt_handlers io' = interrupt_handlers io" "ns_since_boot io' = ns_since_boot io"
proof -
  have l: "\<not> 32 \<le> line" using assms(2) by (simp add: word_less_nat_alt word_le_nat_alt)
  have "u (snd (bus_inb B 0x21 d)) = u d" "u (bus_outb B 0x21 v d) = u d" for v d
    using assms(1) by (simp_all add: has_uart_def COM1_def)
  then show thesis using assms(2) l
    by (intro that [of "outb B 0x21 (fst (bus_inb B 0x21 (dev io)) AND ucast (NOT (push_bit (unat line) 1 :: 32 word)))
        (io\<lparr>dev := snd (bus_inb B 0x21 (dev io))\<rparr>)"])
      (simp_all add: irq_clear_mask_def Let_def inb_def split_beta)
qed

lemma timer_init_ready:
  assumes "con_ready B u k" "\<forall>c. 0 \<le> R c"
  obtains k' where "timer_init R B k = Inr k'" "con_ready B u k'"
    "interrupt_handlers (con_io k') = (interrupt_handlers (con_io k))[32 := Some H_timer]"
    "ns_since_boot (con_io k') = ns_since_boot (con_io k)"
    "sent (u (dev (con_io k'))) = sent (u (dev (con_io k))) @
       concat (List.map crlf (chars ''[PIT] Reload value: FFFF Delta 003461513\<newline>''))"
proof -
  let ?k = "k\<lparr>con_io := irq_register_handler IRQ0 H_timer (con_io k)\<rparr>"
  have "con_ready B u ?k" using assms(1) by (intro con_ready_io) (simp_all add: irq_register_handler_def)
  from print_fmt_ready [OF this assms(2) render_pit] obtain k1 where
    k1: "print_fmt R B ''[PIT] Reload value: %04x Delta %08lx\<newline>''
        [A_int (ucast reload_value), A_int (ucast ns_per_tick), A_int (ucast (drop_bit 32 ns_per_tick))] ?k = Inr k1"
      "con_ready B u k1" "wrote u ?k (chars ''[PIT] Reload value: FFFF Delta 003461513\<newline>'') k1" by auto
  have uart: "has_uart B u" using assms(1) by (simp add: con_ready_def)
  define io where "io = outb B 0x40 (ucast (drop_bit 8 reload_value)) (outb B 0x40 (ucast (reload_value AND 0xFF)) (outb B 0x43 0x34 (con_io k1)))"
  have "u (bus_outb B 0x40 v d) = u d" "u (bus_outb B 0x43 v d) = u d" for v d
    using uart by (simp_all add: has_uart_def COM1_def)
  then have io: "u (dev io) = u (dev (con_io k1))" "serial_active_port io = serial_active_port (con_io k1)"
    "interrupt_handlers io = interrupt_handlers (con_io k1)" "ns_since_boot io = ns_since_boot (con_io k1)" by (simp_all add: io_def)
  obtain io' where io': "irq_clear_mask B 0 io = Inr io'" "u (dev io') = u (dev io)"
    "serial_active_port io' = serial_active_port io" "interrupt_handlers io' = interrupt_handlers io" "ns_since_boot io' = ns_since_boot io"
    by (rule irq_clear_mask_quiet [OF uart, of 0]) (simp, rule that)
  have "timer_init R B k = Inr (k1\<lparr>con_io := io'\<rparr>)"
    unfolding timer_init_def Let_def k1(1) bindE_Inr io_def [symmetric] io'(1) ..
  moreover have "con_ready B u (k1\<lparr>con_io := io'\<rparr>)" by (rule con_ready_io [OF k1(2)]) (simp_all add: io io')
  ultimately show thesis using k1(3) io io'
    by (intro that [of "k1\<lparr>con_io := io'\<rparr>"]) (auto simp: wrote_def same_kernel_def irq_register_handler_def)
qed

section \<open>Properties\<close>

lemma sleep_spec:
  assumes "con_ready B u k" "\<forall>c. 0 \<le> R c" "quiet (interrupt_handlers (con_io k)) env"
    and "unat (ns_since_boot (con_io k)) + unat millis * 1000000 + 54924563 < 2 ^ 64" "0 < millis"
  shows "\<exists>n k'. sleep R B F env millis k = Inr (n, k') \<and> con_ready B u k' \<and>
    unat (ns_since_boot (con_io k)) + unat millis * 1000000 \<le> unat (ns_since_boot (con_io k')) \<and>
    unat (ns_since_boot (con_io k')) < unat (ns_since_boot (con_io k)) + unat millis * 1000000 + unat ns_per_tick \<and>
    interrupt_handlers (con_io k') = interrupt_handlers (con_io k)"
proof -
  define e where "e = ns_since_boot (con_io k) + ucast millis * 1000000"
  have m: "unat (ucast millis :: u64) = unat millis"
    using less_trans [OF unat_lt_2p32 [of millis], of "18446744073709551616"]
    by (simp add: unsigned_ucast_eq take_bit_eq_mod)
  have u: "unat e = unat (ns_since_boot (con_io k)) + unat millis * 1000000"
    using assms(4) m by (simp add: e_def unat_word_ariths)
  have "0 < unat millis" using assms(5) by (simp add: unat_gt_0)
  then have "unat (ns_since_boot (con_io k)) < unat e" using u by simp
  with sleep_loop_ends [OF assms(2) _ assms(1,3), of e F 0] u assms(4) show ?thesis
    by (auto simp: sleep_def e_def [symmetric] Let_def ns_per_tick_value)
qed



text \<open>
  C31. Exceptions: a page fault always ends in a panic, and every other exception is announced on the
  console and then returned from with nothing done about it.
\<close>

theorem isr_exceptions:
  assumes "con_ready B u k" "\<forall>c. 0 \<le> R c" "fault_walkable F" "reg_int_no regs \<le> 31"
  shows "if reg_int_no regs = 14 then isr_handler R B F regs k = Inl (Panic ''Page Fault'')
    else \<exists>k'. isr_handler R B F regs k = Inr k' \<and> con_ready B u k' \<and> same_kernel k k' \<and>
      sent (u (dev (con_io k'))) = sent (u (dev (con_io k))) @ concat (List.map crlf
        (chars ''ISR EXCEPTION #'' @ number (reg_int_no regs) 10 True 0 0x20 @ chars ''\<newline>''))"
proof -
  have lt: "unat (reg_int_no regs) < 32" using assms(4) by (simp add: word_le_nat_alt)
  then have c: "ucast (ucast (reg_int_no regs) :: u8) = reg_int_no regs"
    by (simp add: word_unat_eq_iff unsigned_ucast_eq take_bit_eq_mod unat_mod)
  then have 14: "ucast (reg_int_no regs) = (14 :: u8) \<longleftrightarrow> reg_int_no regs = 14" by auto
  have "reg_int_no regs \<noteq> 0x80000000" using lt by (intro small_not_min) simp
  then have r: "render (chars ''ISR EXCEPTION #%d\<newline>'') [A_int (reg_int_no regs)] =
      Some (chars ''ISR EXCEPTION #'' @ number (reg_int_no regs) 10 True 0 0x20 @ chars ''\<newline>'')"
    by (simp add: render_simps)
  show ?thesis
    using page_fault_panics [OF assms(1-3)] print_fmt_ready [OF assms(1,2) r] assms(4) c 14
    by (auto simp: isr_handler_def isr_handle_exception_def wrote_def)
qed

theorem isr_exceptions_witness:
  "fault_walkable fault_example \<and>
   isr_handler (\<lambda>_. 0) uart_bus fault_example (reg_example\<lparr>reg_int_no := 14\<rparr>) con_example = Inl (Panic ''Page Fault'') \<and>
   (\<exists>k'. isr_handler (\<lambda>_. 0) uart_bus fault_example (reg_example\<lparr>reg_int_no := 0\<rparr>) con_example = Inr k' \<and>
     sent (dev (con_io k')) = chars ''ISR EXCEPTION #0'' @ [0x0D, 0x0A])"
proof -
  have f: "fault_walkable fault_example" by (simp add: fault_walkable_def fault_example_def paging_boot_def)
  have z: "\<forall>c :: u8. 0 \<le> (0 :: int)" by simp
  have n: "number 0 10 True 0 0x20 = chars ''0''" by (simp add: number_def field_def to_base.simps hexchars_def chars_def)
  show ?thesis
    using f isr_exceptions [OF con_example_ready z f, of "reg_example\<lparr>reg_int_no := 14\<rparr>"]
      isr_exceptions [OF con_example_ready z f, of "reg_example\<lparr>reg_int_no := 0\<rparr>"]
    by (auto simp: n chars_def crlf_def con_example_def io_boot_def uart_off_def)
qed

end
