(* ===== verification/Pci.thy ===== *)
theory Pci
  imports Io
begin

text \<open>
  Reading the PCI configuration space, \<^verbatim>\<open>kernel/io/pci.c\<close>. \<^verbatim>\<open>pci_init\<close> only
  passes what it finds to \<^verbatim>\<open>DEBUG\<close>, which prints it if the flag \<^verbatim>\<open>DB_PCI\<close> is set; its model returns these lines.
\<close>

section \<open>Model\<close>

definition pci_address :: "u8 \<Rightarrow> u8 \<Rightarrow> u8 \<Rightarrow> u8 \<Rightarrow> u32" where
  "pci_address bus slot func offset =
     (let lbus = ucast bus; lslot = ucast slot; lfunc = ucast func in
      push_bit 16 lbus OR push_bit 11 lslot OR push_bit 8 lfunc OR (ucast offset AND 0xFC) OR 0x80000000)"

definition pci_config_read_long :: "'d bus \<Rightarrow> u8 \<Rightarrow> u8 \<Rightarrow> u8 \<Rightarrow> u8 \<Rightarrow> 'd io_state \<Rightarrow> u32 \<times> 'd io_state" where
  "pci_config_read_long B bus slot func offset s =
     inl B 0xCFC (outl B 0xCF8 (pci_address bus slot func offset) s)"

definition pci_config_read_word :: "'d bus \<Rightarrow> u8 \<Rightarrow> u8 \<Rightarrow> u8 \<Rightarrow> u8 \<Rightarrow> 'd io_state \<Rightarrow> u16 \<times> 'd io_state" where
  "pci_config_read_word B bus slot func offset s =
     (let (v, s) = pci_config_read_long B bus slot func offset s;
          shift = unat ((offset AND 2) * 8)
      in (ucast (drop_bit shift v AND 0xFFFF), s))"

definition pci_config_read_byte :: "'d bus \<Rightarrow> u8 \<Rightarrow> u8 \<Rightarrow> u8 \<Rightarrow> u8 \<Rightarrow> 'd io_state \<Rightarrow> u8 \<times> 'd io_state" where
  "pci_config_read_byte B bus slot func offset s =
     (let (v, s) = pci_config_read_long B bus slot func offset s;
          shift = unat ((offset AND 3) * 8)
      in (ucast (drop_bit shift v AND 0xFF), s))"

text \<open>One line of the listing: slot, vendor, device, class and subclass.\<close>

type_synonym pci_line = "nat \<times> u16 \<times> u16 \<times> u8 \<times> u8"

definition pci_probe :: "'d bus \<Rightarrow> nat \<Rightarrow> pci_line list \<times> 'd io_state \<Rightarrow> pci_line list \<times> 'd io_state" where
  "pci_probe B i st =
     (let (out, s) = st;
          (vendor, s) = pci_config_read_word B 0 (of_nat i) 0 0 s
      in if vendor = 0xFFFF then (out, s)
         else
           let (device, s) = pci_config_read_word B 0 (of_nat i) 0 2 s;
               (class_code, s) = pci_config_read_byte B 0 (of_nat i) 0 11 s;
               (subclass, s) = pci_config_read_byte B 0 (of_nat i) 0 10 s
           in (out @ [(i, vendor, device, class_code, subclass)], s))"

definition pci_init :: "'d bus \<Rightarrow> 'd io_state \<Rightarrow> pci_line list \<times> 'd io_state" where
  "pci_init B s = fold (pci_probe B) [0..<256] ([], s)"

section \<open>Specification\<close>

text \<open>
  The fields of a configuration address: eight bits of bus, five of device, three of function and
  six of register number. A configuration space gives each address a double word; the data port
  returns the one at the address last written.
\<close>

definition addr_bus :: "u32 \<Rightarrow> u32" where
  "addr_bus a = take_bit 8 (drop_bit 16 a)"

definition addr_device :: "u32 \<Rightarrow> u32" where
  "addr_device a = take_bit 5 (drop_bit 11 a)"

definition addr_function :: "u32 \<Rightarrow> u32" where
  "addr_function a = take_bit 3 (drop_bit 8 a)"

definition addr_register :: "u32 \<Rightarrow> u32" where
  "addr_register a = take_bit 6 (drop_bit 2 a)"

type_synonym config_space = "u32 \<Rightarrow> u32 \<Rightarrow> u32 \<Rightarrow> u32 \<Rightarrow> u32"

definition has_pci :: "'d bus \<Rightarrow> config_space \<Rightarrow> bool" where
  "has_pci B conf \<longleftrightarrow>
     (\<forall>a d. fst (bus_inl B 0xCFC (bus_outl B 0xCF8 a d)) =
        conf (addr_bus a) (addr_device a) (addr_function a) (addr_register a))"

definition pci_bus :: "config_space \<Rightarrow> u32 bus" where
  "pci_bus conf = silent_bus\<lparr>
     bus_outl := (\<lambda>p v d. if p = 0xCF8 then v else d),
     bus_inl := (\<lambda>p d. (conf (addr_bus d) (addr_device d) (addr_function d) (addr_register d), d))\<rparr>"

text \<open>What the line for slot number \<open>i\<close> shows, if there is a device.\<close>

definition config_line :: "config_space \<Rightarrow> nat \<Rightarrow> pci_line option" where
  "config_line conf i =
     (let b = of_nat (i div 32); d = of_nat (i mod 32) in
      if ucast (conf b d 0 0) = (0xFFFF :: u16) then None
      else Some (i, ucast (conf b d 0 0), ucast (drop_bit 16 (conf b d 0 0)),
                 ucast (drop_bit 24 (conf b d 0 2)), ucast (drop_bit 16 (conf b d 0 2))))"

text \<open>An example with one device, in slot 2 of bus 1.\<close>

definition pci_example :: config_space where
  "pci_example b d f r = (if b = 1 \<and> d = 2 then 0x12348086 else 0xFFFFFFFF)"

section \<open>Addresses\<close>

lemma FC_bits: "bit (0xFC :: int) n \<longleftrightarrow> 2 \<le> n \<and> n < 8"
proof -
  have "(0xFC :: int) = push_bit 2 (mask 6)" by (simp add: mask_eq_exp_minus_1)
  then have "bit (0xFC :: int) n \<longleftrightarrow> bit (push_bit 2 (mask 6) :: int) n" by (simp only:)
  then show ?thesis by (auto simp: bit_simps)
qed

lemma reg_bits: "bit (0x3F :: int) n \<longleftrightarrow> n < 6"
proof -
  have "(0x3F :: int) = mask 6" by (simp add: mask_eq_exp_minus_1)
  then have "bit (0x3F :: int) n \<longleftrightarrow> bit (mask 6 :: int) n" by (simp only:)
  then show ?thesis by (auto simp: bit_simps)
qed

lemma top_bit: "bit (0x80000000 :: int) n \<longleftrightarrow> n = 31"
proof -
  have "(0x80000000 :: int) = 2 ^ 31" by simp
  then show ?thesis by (simp only: bit_exp_iff) auto
qed

lemma pci_address_fields:
  assumes "take_bit 3 func = func"
  shows "addr_bus (pci_address bus slot func off) = ucast bus OR drop_bit 5 (ucast slot)"
    and "addr_device (pci_address bus slot func off) = take_bit 5 (ucast slot)"
    and "addr_function (pci_address bus slot func off) = ucast func"
    and "addr_register (pci_address bus slot func off) = drop_bit 2 (ucast off)"
proof -
  have f: "n < 3" if "bit func n" for n
    using assms that by (metis bit_take_bit_iff)
  have b8: "n < 8" if "bit x n" for x :: u8 and n using bit_imp_le_length [OF that] by simp
  have b: "\<not> bit x n" if "8 \<le> n" for x :: u8 and n using b8 [of x n] that by auto
  have bf: "\<not> bit func n" if "3 \<le> n" for n using f [of n] that by auto
  note defs = addr_bus_def addr_device_def addr_function_def addr_register_def pci_address_def
    Let_def bit_simps FC_bits reg_bits top_bit
  show "addr_bus (pci_address bus slot func off) = ucast bus OR drop_bit 5 (ucast slot)"
    by (rule bit_eqI) (auto simp: defs b bf not_less dest: b8)
  show "addr_device (pci_address bus slot func off) = take_bit 5 (ucast slot)"
    by (rule bit_eqI) (auto simp: defs b bf not_less dest: b8)
  show "addr_function (pci_address bus slot func off) = ucast func"
    by (rule bit_eqI) (auto simp: defs b bf not_less dest: f b8)
  show "addr_register (pci_address bus slot func off) = drop_bit 2 (ucast off)"
    by (rule bit_eqI) (auto simp: defs b bf not_less dest: b8)
qed

section \<open>Reads\<close>

lemma byte_shift: "unat (((off :: u8) AND 3) * 8) = 8 * (unat off mod 4)"
proof -
  have "off AND 3 = take_bit 2 off" by (simp add: take_bit_eq_mask mask_eq_exp_minus_1)
  then have "unat (off AND 3) = unat off mod 4" by (simp add: take_bit_eq_mod unat_mod)
  then show ?thesis by (simp add: unat_word_ariths)
qed

lemma word_shift: "unat (((off :: u8) AND 2) * 8) = 16 * (unat off div 2 mod 2)"
proof -
  have "off AND 2 = push_bit 1 (take_bit 1 (drop_bit 1 off))"
    by (rule bit_word_eqI) (auto simp: bit_simps simp flip: One_nat_def)
  moreover have "unat (push_bit 1 (take_bit 1 (drop_bit 1 off))) = 2 * (unat off div 2 mod 2)"
    by (simp add: unat_drop_bit_eq take_bit_eq_mod unat_mod push_bit_eq_mult unat_word_ariths drop_bit_eq_div mod_mod_cancel)
  ultimately show ?thesis by (simp add: unat_word_ariths)
qed

lemma low_word: "ucast (x AND 0xFFFF :: u32) = (ucast x :: u16)"
proof -
  have "x AND 0xFFFF = take_bit 16 x" by (simp add: take_bit_eq_mask mask_eq_exp_minus_1)
  then show ?thesis by (auto intro: bit_word_eqI simp: bit_simps)
qed

lemma low_byte: "ucast (x AND 0xFF :: u32) = (ucast x :: u8)"
proof -
  have "x AND 0xFF = take_bit 8 x" by (simp add: take_bit_eq_mask mask_eq_exp_minus_1)
  then show ?thesis by (auto intro: bit_word_eqI simp: bit_simps)
qed

lemma read_long:
  assumes "has_pci B conf" and "take_bit 3 func = func"
  shows "fst (pci_config_read_long B bus slot func off s) =
    conf (ucast bus OR drop_bit 5 (ucast slot)) (take_bit 5 (ucast slot)) (ucast func) (drop_bit 2 (ucast off))"
  using assms by (simp add: pci_config_read_long_def inl_def outl_def has_pci_def pci_address_fields split_beta)

lemma slot_fields:
  assumes "i < 256"
  shows "drop_bit 5 (ucast (of_nat i :: u8)) = (of_nat (i div 32) :: u32)"
    and "take_bit 5 (ucast (of_nat i :: u8)) = (of_nat (i mod 32) :: u32)"
proof -
  have u: "ucast (of_nat i :: u8) = (of_nat i :: u32)"
    using assms by (simp add: word_unat_eq_iff unsigned_ucast_eq take_bit_eq_mod unat_of_nat)
  show "drop_bit 5 (ucast (of_nat i :: u8)) = (of_nat (i div 32) :: u32)"
    using assms by (simp add: u word_unat_eq_iff unat_drop_bit_eq unat_of_nat drop_bit_eq_div unat_div)
  show "take_bit 5 (ucast (of_nat i :: u8)) = (of_nat (i mod 32) :: u32)"
    using assms by (simp add: u word_unat_eq_iff take_bit_eq_mod unat_mod unat_of_nat)
qed

lemma pci_probe_line:
  assumes "has_pci B conf" and "i < 256"
  shows "fst (pci_probe B i (out, s)) = out @ (case config_line conf i of None \<Rightarrow> [] | Some l \<Rightarrow> [l])"
  using assms
  by (simp add: pci_probe_def config_line_def pci_config_read_word_def pci_config_read_byte_def
      split_beta Let_def read_long slot_fields low_word low_byte)

lemma pci_scan:
  assumes "has_pci B conf" and "n \<le> 256"
  shows "fst (fold (pci_probe B) [0..<n] ([], s)) = List.map_filter (config_line conf) [0..<n]"
  using assms(2)
proof (induction n)
  case 0
  then show ?case by (simp add: List.map_filter_simps)
next
  case (Suc n)
  obtain out s' where st: "fold (pci_probe B) [0..<n] ([], s) = (out, s')" by fastforce
  then have "out = List.map_filter (config_line conf) [0..<n]" using Suc by simp
  then show ?case
    using Suc.prems st pci_probe_line [OF assms(1), of n out s']
    by (cases "config_line conf n") (auto simp: List.map_filter_def)
qed

text \<open>The scan changes nothing but the device, and of that nothing the configuration ports do not touch.\<close>

lemma pci_init_quiet:
  assumes "\<And>v d. q (bus_outl B 0xCF8 v d) = q d" "\<And>d. q (snd (bus_inl B 0xCFC d)) = q d"
  obtains d where "snd (pci_init B s) = s\<lparr>dev := d\<rparr>" "q d = q (dev s)"
proof -
  have "\<exists>d. snd (fold (pci_probe B) xs (out, s)) = s\<lparr>dev := d\<rparr> \<and> q d = q (dev s)" for xs out
  proof (induction xs arbitrary: out s)
    case Nil
    then show ?case by (simp add: exI [of _ "dev s"])
  next
    case (Cons x xs)
    let ?r = "pci_probe B x (out, s)"
    have "\<exists>d. snd ?r = s\<lparr>dev := d\<rparr> \<and> q d = q (dev s)"
      by (auto simp add: pci_probe_def pci_config_read_word_def pci_config_read_byte_def pci_config_read_long_def inl_def outl_def
          split_beta Let_def assms intro!: exI [where P = "\<lambda>d. s\<lparr>dev := e\<rparr> = s\<lparr>dev := d\<rparr> \<and> q d = q (dev s)" for e, OF conjI [OF refl]])
    moreover obtain out1 s1 where "?r = (out1, s1)" by fastforce
    ultimately show ?case using Cons.IH [of out1 s1] by auto
  qed
  then show thesis using that unfolding pci_init_def by blast
qed

section \<open>Properties\<close>

text \<open>For a device that exists as an address (a slot below 32, a function below 8), the
  configuration reads return the byte, and the aligned 16-bit half, of the double word of that
  register at the byte offset asked for.\<close>

lemma pci_config_read_correct:
  assumes "has_pci B conf" and "unat slot < 32" and "unat func < 8"
  shows "fst (pci_config_read_byte B bus slot func off s) =
      ucast (drop_bit (8 * (unat off mod 4)) (conf (ucast bus) (ucast slot) (ucast func) (ucast off div 4))) \<and>
    fst (pci_config_read_word B bus slot func off s) =
      ucast (drop_bit (16 * (unat off div 2 mod 2)) (conf (ucast bus) (ucast slot) (ucast func) (ucast off div 4)))"
proof -
  have s: "drop_bit 5 (ucast slot) = (0 :: u32)" "take_bit 5 (ucast slot) = (ucast slot :: u32)"
    using slot_fields [of "unat slot"] assms(2) by (simp_all add: word_unat_eq_iff unsigned_ucast_eq)
  have f: "take_bit 3 func = func"
    using assms(3) by (simp add: word_unat_eq_iff take_bit_eq_mod unat_mod)
  have o: "drop_bit 2 (ucast off) = (ucast off div 4 :: u32)" by (simp add: drop_bit_eq_div)
  show ?thesis
    by (simp add: pci_config_read_byte_def pci_config_read_word_def split_beta Let_def
        read_long [OF assms(1) f] s o byte_shift word_shift low_word low_byte)
qed



end
