(* ===== verification/Kernel.thy ===== *)
theory Kernel
  imports Picture Tables Isr Pci
begin

text \<open>
  \<^verbatim>\<open>kernel_main\<close> of \<^verbatim>\<open>kernel/kernel/kernel.cpp\<close>: the initialisers in their order, the first lines on the
  console, and then either the drawing loop or a message that there are no graphics. This theory puts
  the components together; its state is made of theirs. The drawing loop never ends, so the model
  takes the number of images to draw.
\<close>

section \<open>Model\<close>

record 'd kernel =
  k_con :: "'d con"
  k_tables :: tables_state
  k_heap :: "vm_state liballoc"
  k_gfx :: gfx_state

text \<open>
  What the source leaves to the compiler, the linker and the machine: the value of \<^verbatim>\<open>putchar\<close>, the
  devices, addresses, the memory behind the kernel, the floating-point unit, and the interrupts that
  arrive during each call of \<^verbatim>\<open>sleep\<close>.
\<close>

record ('d, 'f) platform =
  pf_ret :: "u8 \<Rightarrow> int"
  pf_bus :: "'d bus"
  pf_linkage :: linkage
  pf_gdt :: u32
  pf_idt :: u32
  pf_isr :: "nat \<Rightarrow> u32"
  pf_end :: paddr_t
  pf_mem :: "u32 \<Rightarrow> u32"
  pf_cr2 :: u32
  pf_fpu :: "'f fpu"
  pf_env :: "nat \<Rightarrow> nat \<Rightarrow> registers_t"

definition on_io :: "('d io_state \<Rightarrow> 'd io_state) \<Rightarrow> 'd con \<Rightarrow> 'd con" where
  "on_io f k = k\<lparr>con_io := f (con_io k)\<rparr>"

text \<open>The calls up to \<^verbatim>\<open>vm_init\<close>, and the rest up to the first use of the graphics.\<close>

definition init_memory :: "('d, 'f) platform \<Rightarrow> multiboot_t \<Rightarrow> vm_state \<Rightarrow> vm_state res" where
  "init_memory P mb v =
     bindE (pmm_init (pf_mem P) (pf_end P) (pmm v) (mem_upper mb * KiB + 1 * MiB)) (\<lambda>p.
     vm_init (pf_linkage P) (v\<lparr>pmm := p\<rparr>))"

definition greet :: "(u8 \<Rightarrow> int) \<Rightarrow> 'd bus \<Rightarrow> multiboot_t \<Rightarrow> 'd con \<Rightarrow> 'd con res" where
  "greet R B mb k =
     bindE (print_fmt R B ''Hello, World!!\<newline>'' [] k) (\<lambda>k.
     bindE (print_fmt R B ''Multiboot flags: %012b\<newline>'' [A_int (mb_flags mb)] k) (\<lambda>k.
     print_fmt R B ''Screen: %dx%d %d bpp pitch: %d\<newline>''
       [A_int (framebuffer_width mb), A_int (framebuffer_height mb), A_int (ucast (framebuffer_bpp mb)), A_int (framebuffer_pitch mb)] k))"

definition kernel_init :: "('d, 'f) platform \<Rightarrow> multiboot_t \<Rightarrow> 'd kernel \<Rightarrow> 'd kernel res" where
  "kernel_init P mb K =
     (let R = pf_ret P; B = pf_bus P; k = (k_con K)\<lparr>con_tty := tty_init (con_tty (k_con K))\<rparr> in
      bindE (descriptor_tables_init B (pf_gdt P) (pf_idt P) (pf_isr P) (k_tables K, con_io k)) (\<lambda>(t, io).
      bindE (serial_init B COM1 io) (\<lambda>(e, io).
      bindE (init_memory P mb (below (k_heap K))) (\<lambda>v.
      bindE (timer_init R B (k\<lparr>con_io := io\<rparr>)) (\<lambda>k.
      let k = on_io (\<lambda>io. snd (pci_init B io)) k in
      bindE (greet R B mb k) (\<lambda>k.
      Inr (K\<lparr>k_con := k, k_tables := t, k_heap := (k_heap K)\<lparr>below := v\<rparr>\<rparr>)))))))"

text \<open>One turn of the drawing loop; \<open>i\<close> counts the turns.\<close>

definition draw_frame :: "('d, 'f) platform \<Rightarrow> multiboot_t \<Rightarrow> ptr \<Rightarrow> nat \<Rightarrow> 'f \<times> 'd kernel \<Rightarrow> ('f \<times> 'd kernel) res" where
  "draw_frame P mb back_buffer i st =
     (let (time, K) = st; L = pf_linkage P; F = pf_fpu P in
      bindE (draw_image L F time (framebuffer_width mb) (framebuffer_height mb) back_buffer (below (k_heap K))) (\<lambda>v.
      bindE (gfx_apply L back_buffer (k_gfx K) v) (\<lambda>v.
      let time = fl_add F time (fl_lit F 1 1) in
      bindE (sleep (pf_ret P) (pf_bus P) \<lparr>fv_linkage = L, fv_paging = paging v, fv_cr2 = pf_cr2 P\<rparr> (pf_env P i) 100 (k_con K)) (\<lambda>(n, k).
      Inr (time, K\<lparr>k_con := k, k_heap := (k_heap K)\<lparr>below := v\<rparr>\<rparr>)))))"

definition no_graphics :: "('d, 'f) platform \<Rightarrow> 'd con \<Rightarrow> 'd con res" where
  "no_graphics P k =
     (let R = pf_ret P; B = pf_bus P;
          k = k\<lparr>con_tty := tty_setcolor (tty_makecolor TTY_COLOR_BLACK TTY_COLOR_LIGHT_RED) (con_tty k)\<rparr>
      in
      bindE (print_fmt R B ''Graphics not supported!\<newline>'' [] k) (\<lambda>k.
      let k = k\<lparr>con_tty := tty_setcolor (of_nat (color_code TTY_COLOR_WHITE)) (con_tty k)\<rparr> in
      print_fmt R B ''Done\<newline>'' [] k))"

definition kernel_main :: "('d, 'f) platform \<Rightarrow> multiboot_t \<Rightarrow> nat \<Rightarrow> 'd kernel \<Rightarrow> 'd kernel res" where
  "kernel_main P mb images K =
     bindE (kernel_init P mb K) (\<lambda>K.
     bindE (gfx_init (pf_linkage P) mb (k_gfx K, below (k_heap K))) (\<lambda>(ok, g, v).
     let K = K\<lparr>k_gfx := g, k_heap := (k_heap K)\<lparr>below := v\<rparr>\<rparr> in
     if ok then
       let depth = framebuffer_bpp mb div 8;
           buffer_size = framebuffer_width mb * framebuffer_height mb * ucast depth
       in
       bindE (malloc (liballoc_alloc (pf_linkage P)) buffer_size (k_heap K)) (\<lambda>(back_buffer, s).
       bindE (for_each [0..<images] (draw_frame P mb back_buffer) (fl_lit (pf_fpu P) 10 0, K\<lparr>k_heap := s\<rparr>)) (\<lambda>(time, K).
       Inr K))
     else bindE (no_graphics P (k_con K)) (\<lambda>k. Inr (K\<lparr>k_con := k\<rparr>))))"

section \<open>Specification\<close>

text \<open>The lines the kernel writes before it draws.\<close>

definition greeting :: "multiboot_t \<Rightarrow> u8 list" where
  "greeting mb =
     chars ''Hello, World!!\<newline>'' @
     chars ''Multiboot flags: '' @ number (mb_flags mb) 2 False 12 0x30 @ chars ''\<newline>'' @
     chars ''Screen: '' @ number (framebuffer_width mb) 10 True 0 0x20 @ chars ''x'' @
     number (framebuffer_height mb) 10 True 0 0x20 @ chars '' '' @ number (ucast (framebuffer_bpp mb)) 10 True 0 0x20 @
     chars '' bpp pitch: '' @ number (framebuffer_pitch mb) 10 True 0 0x20 @ chars ''\<newline>''"

definition boot_log :: "multiboot_t \<Rightarrow> u8 list" where
  "boot_log mb = chars ''[PIT] Reload value: FFFF Delta 003461513\<newline>'' @ greeting mb"

text \<open>
  The machine: a serial line that the other ports do not touch, linker addresses as the kernel needs
  them, and a \<^verbatim>\<open>putchar\<close> that leaves no negative value. The state at entry: static variables as in the
  image, the cursor anywhere on the screen. The memory the boot loader reports holds the kernel and
  its bookkeeping.
\<close>

definition machine_ok :: "('d, 'f) platform \<Rightarrow> ('d \<Rightarrow> uart) \<Rightarrow> bool" where
  "machine_ok P u \<longleftrightarrow>
     has_uart (pf_bus P) u \<and> (\<forall>v d. u (bus_outl (pf_bus P) 0xCF8 v d) = u d) \<and> (\<forall>d. u (snd (bus_inl (pf_bus P) 0xCFC d)) = u d) \<and>
     (\<forall>c. 0 \<le> pf_ret P c) \<and> linkage_ok (pf_linkage P) \<and> first_bucket_addr (pf_linkage P) \<noteq> NULL"

definition at_entry :: "'d kernel \<Rightarrow> bool" where
  "at_entry K \<longleftrightarrow>
     unat (tty_row (con_tty (k_con K))) < 25 \<and> unat (tty_column (con_tty (k_con K))) < 80 \<and>
     length (interrupt_handlers (con_io (k_con K))) = 256 \<and> length (gdt (k_tables K)) = 5 \<and>
     (\<exists>st c p m. k_heap K = liballoc_boot st (vm_boot c p m) \<and> length (buddies p) = 7)"

definition memory_end :: "multiboot_t \<Rightarrow> paddr_t" where
  "memory_end mb = mem_upper mb * 1024 + 0x100000"

definition memory_fits :: "('d, 'f) platform \<Rightarrow> multiboot_t \<Rightarrow> bool" where
  "memory_fits P mb \<longleftrightarrow>
     pf_end P \<le> memory_end mb \<and> init_first (pf_end P) (memory_end mb) \<le> unat (memory_end mb) \<and>
     init_first (pf_end P) (memory_end mb) \<le> 0xC0800000"

definition printable_info :: "multiboot_t \<Rightarrow> bool" where
  "printable_info mb \<longleftrightarrow>
     unat (mb_flags mb) < 2 ^ 15 \<and> framebuffer_width mb \<noteq> 0x80000000 \<and> framebuffer_height mb \<noteq> 0x80000000 \<and>
     framebuffer_pitch mb \<noteq> 0x80000000"

text \<open>What the initialisers leave behind: the memory manager as \<^verbatim>\<open>vm_init\<close> sets it up.\<close>

definition booted :: "('d, 'f) platform \<Rightarrow> multiboot_t \<Rightarrow> vm_state \<Rightarrow> bool" where
  "booted P mb v \<longleftrightarrow>
     vm_inv (pf_linkage P) v [first_bucket_addr (pf_linkage P)] [] \<and>
     free_ranges v [first_bucket_addr (pf_linkage P)] = [(0xC0800, 0xC1800)] \<and>
     free_frames (pmm v) = {..< init_frames (pf_end P) (memory_end mb)} \<and>
     frames (pmm v) = init_frames (pf_end P) (memory_end mb) \<and>
     unat (buddy_base (pmm v)) = init_first (pf_end P) (memory_end mb)"

text \<open>The value of \<^verbatim>\<open>time\<close> for each image.\<close>

definition time_at :: "'f fpu \<Rightarrow> nat \<Rightarrow> 'f" where
  "time_at F i = ((\<lambda>t. fl_add F t (fl_lit F 1 1)) ^^ i) (fl_lit F 10 0)"

text \<open>
  What each turn of the drawing loop finds: a working console, quiet interrupts, and buffers for
  \<open>n\<close> pages of pixels. The clock is at \<open>t\<close> nanoseconds or less than a tick per turn later.
\<close>

definition drawing ::
  "('d, 'f) platform \<Rightarrow> ('d \<Rightarrow> uart) \<Rightarrow> multiboot_t \<Rightarrow> nat \<Rightarrow> ptr \<Rightarrow> (nat \<Rightarrow> paddr_t) \<Rightarrow> isr_t option list \<Rightarrow> nat \<Rightarrow> nat \<Rightarrow> 'd kernel \<Rightarrow> bool" where
  "drawing P u mb n buf c hs t i K \<longleftrightarrow>
     con_ready (pf_bus P) u (k_con K) \<and> interrupt_handlers (con_io (k_con K)) = hs \<and>
     t + i * 100000000 \<le> unat (ns_since_boot (con_io (k_con K))) \<and>
     unat (ns_since_boot (con_io (k_con K))) \<le> t + i * 154924563 \<and>
     fb_mapped (pf_linkage P) mb n (paging (below (k_heap K))) \<and> buffer_ok (pf_linkage P) mb n buf c (paging (below (k_heap K))) \<and>
     unat (gfx_fb_size (k_gfx K)) = 4096 * n"

text \<open>The screen shows the image of turn \<open>i\<close>.\<close>

definition shows_image :: "'f fpu \<Rightarrow> multiboot_t \<Rightarrow> nat \<Rightarrow> vm_state \<Rightarrow> bool" where
  "shows_image F mb i v \<longleftrightarrow>
     (\<forall>y < unat (framebuffer_height mb). \<exists>hue. row_hue F (time_at F i) y = Inr hue \<and>
        (\<forall>x < unat (framebuffer_width mb). pixel F hue x = Inr (screen_pixel mb v y x)))"

text \<open>A machine with nothing but a serial line, exact arithmetic and a ticking timer, and the image at entry.\<close>

definition platform_example :: "(uart, real) platform" where
  "platform_example =
     \<lparr>pf_ret = (\<lambda>_. 0), pf_bus = uart_bus, pf_linkage = linkage_example, pf_gdt = 0xC0107000, pf_idt = 0xC0108000,
      pf_isr = (\<lambda>i. 0xC0100000 + of_nat i), pf_end = 0x700000, pf_mem = (\<lambda>_. 0), pf_cr2 = 0, pf_fpu = exact,
      pf_env = (\<lambda>_ _. reg_example)\<rparr>"

definition kernel_example :: "uart kernel" where
  "kernel_example =
     \<lparr>k_con = \<lparr>con_tty = \<lparr>tty_row = 0, tty_column = 0, tty_buf = [], tty_color = 0\<rparr>, con_io = io_boot uart_off\<rparr>,
      k_tables = tables_boot,
      k_heap = liballoc_boot (\<lambda>_. \<lparr>magic = 0, tag_size = 0, real_size = 0, tag_index = 0, split_left = 0, split_right = 0,
        tag_next = 0, tag_prev = 0\<rparr>) (vm_boot 0 pmm_bss (\<lambda>_. 0)),
      k_gfx = \<lparr>gfx_enabled = False, gfx_fb_size = 0\<rparr>\<rparr>"

section \<open>The first lines\<close>

lemma render_hello:
  "render (chars ''Hello, World!!\<newline>'') [] = Some (chars ''Hello, World!!\<newline>'')"
  "render (chars ''Graphics not supported!\<newline>'') [] = Some (chars ''Graphics not supported!\<newline>'')"
  "render (chars ''Done\<newline>'') [] = Some (chars ''Done\<newline>'')"
  by (simp_all add: render_simps)

lemma render_flags:
  assumes "unat flags < 2 ^ 15"
  shows "render (chars ''Multiboot flags: %012b\<newline>'') [A_int flags] =
    Some (chars ''Multiboot flags: '' @ number flags 2 False 12 0x30 @ chars ''\<newline>'')"
  using assms by (simp add: render_simps)

lemma render_screen:
  assumes "w \<noteq> 0x80000000" "h \<noteq> 0x80000000" "p \<noteq> 0x80000000"
  shows "render (chars ''Screen: %dx%d %d bpp pitch: %d\<newline>'') [A_int w, A_int h, A_int (ucast (b :: u8)), A_int p] =
    Some (chars ''Screen: '' @ number w 10 True 0 0x20 @ chars ''x'' @ number h 10 True 0 0x20 @ chars '' '' @
      number (ucast b) 10 True 0 0x20 @ chars '' bpp pitch: '' @ number p 10 True 0 0x20 @ chars ''\<newline>'')"
  using assms ucast_not_min [where x = b] by (simp add: render_simps)

section \<open>Initialisation\<close>

lemma init_memory_spec:
  assumes "machine_ok P u" "memory_fits P mb" "length (buddies p) = 7"
  obtains v where "init_memory P mb (vm_boot c p m) = Inr v" "booted P mb v"
proof -
  let ?L = "pf_linkage P"
  from pmm_init_inv [of p "pf_end P" "memory_end mb" "pf_mem P"] assms(2,3) obtain t where
    t: "pmm_init (pf_mem P) (pf_end P) p (memory_end mb) = Inr t" "pmm_inv t" "unat (managed_first t) = init_first (pf_end P) (memory_end mb)"
      "buddy_base t = managed_first t" "frames t = init_frames (pf_end P) (memory_end mb)"
      "free_frames t = {..< init_frames (pf_end P) (memory_end mb)}"
    unfolding memory_fits_def by auto
  from vm_init_spec [of ?L t c m] t(2) assms(1) obtain v where
    v: "vm_init ?L (vm_boot c t m) = Inr v" "vm_inv ?L v [first_bucket_addr ?L] []"
      "free_ranges v [first_bucket_addr ?L] = [(0xC0800, 0xC1800)]" "pmm v = t"
    unfolding machine_ok_def by blast
  have "(vm_boot c p m)\<lparr>pmm := t\<rparr> = vm_boot c t m" "pmm (vm_boot c p m) = p" by (simp_all add: vm_boot_def)
  then have "init_memory P mb (vm_boot c p m) = Inr v" using t(1) v(1) by (simp add: init_memory_def memory_end_def)
  moreover have "booted P mb v" using v(2-4) t(3-6) by (simp add: booted_def)
  ultimately show thesis by (rule that)
qed

lemma tty_init_inv: "unat (tty_row s) < 25 \<Longrightarrow> unat (tty_column s) < 80 \<Longrightarrow> tty_inv (tty_init s)"
  by (simp add: tty_inv_def tty_init_def tty_clear_def TTY_WIDTH_def TTY_HEIGHT_def)

text \<open>The first three calls: the screen, the tables and the serial line.\<close>

lemma init_console:
  assumes "machine_ok P u" "at_entry K"
  obtains t io io' e where
    "descriptor_tables_init (pf_bus P) (pf_gdt P) (pf_idt P) (pf_isr P) (k_tables K, con_io (k_con K)) = Inr (t, io)"
    "serial_init (pf_bus P) COM1 io = Inr (e, io')" "interrupts_on t"
    "con_ready (pf_bus P) u ((k_con K)\<lparr>con_tty := tty_init (con_tty (k_con K)), con_io := io'\<rparr>)"
    "interrupt_handlers io' = (interrupt_handlers (con_io (k_con K)))[36 := Some H_serial]"
    "ns_since_boot io' = ns_since_boot (con_io (k_con K))" "sent (u (dev io')) = sent (u (dev (con_io (k_con K))))"
proof -
  let ?B = "pf_bus P" and ?io = "con_io (k_con K)"
  have uart: "has_uart ?B u" using assms(1) by (simp add: machine_ok_def)
  from descriptor_tables_init_spec [of "k_tables K" ?B "pf_gdt P" "pf_idt P" "pf_isr P" ?io] assms(2) obtain t where
    t: "descriptor_tables_init ?B (pf_gdt P) (pf_idt P) (pf_isr P) (k_tables K, ?io) = Inr (t, pic_remap ?B ?io)" "interrupts_on t"
    unfolding at_entry_def by blast
  from serial_init_spec [OF uart, of "pic_remap ?B ?io"] obtain io' where
    s: "serial_init ?B COM1 (pic_remap ?B ?io) = Inr (E_OK, io')" "serial_active_port io' = COM1" "lcr (u (dev io')) = 3"
      "sent (u (dev io')) = sent (u (dev (pic_remap ?B ?io)))"
      "interrupt_handlers io' = (interrupt_handlers (pic_remap ?B ?io))[36 := Some H_serial]" "ns_since_boot io' = ns_since_boot (pic_remap ?B ?io)"
    by blast
  have "u (bus_outb ?B q v d) = u d" if "q \<in> {0x20, 0x21, 0xA0, 0xA1}" for q v d
    using uart that by (auto simp: has_uart_def COM1_def)
  then have pr: "u (dev (pic_remap ?B ?io)) = u (dev ?io)" "interrupt_handlers (pic_remap ?B ?io) = interrupt_handlers ?io"
    "ns_since_boot (pic_remap ?B ?io) = ns_since_boot ?io" by (simp_all add: pic_remap_def)
  have "con_ready ?B u ((k_con K)\<lparr>con_tty := tty_init (con_tty (k_con K)), con_io := io'\<rparr>)"
    using uart s(2,3) tty_init_inv assms(2) by (simp add: con_ready_def at_entry_def)
  then show thesis using that [OF t(1) s(1) t(2)] s(4-6) pr by simp
qed

text \<open>The state of the kernel when the graphics are first used.\<close>

lemma pci_init_ready:
  assumes "machine_ok P u" "con_ready (pf_bus P) u k"
  obtains d where "on_io (\<lambda>io. snd (pci_init (pf_bus P) io)) k = k\<lparr>con_io := (con_io k)\<lparr>dev := d\<rparr>\<rparr>" "u d = u (dev (con_io k))"
    "con_ready (pf_bus P) u (k\<lparr>con_io := (con_io k)\<lparr>dev := d\<rparr>\<rparr>)"
proof -
  have "u (bus_outl (pf_bus P) 0xCF8 v d) = u d" "u (snd (bus_inl (pf_bus P) 0xCFC d)) = u d" for v d
    using assms(1) by (simp_all add: machine_ok_def)
  from pci_init_quiet [of u, OF this] obtain d where "snd (pci_init (pf_bus P) (con_io k)) = (con_io k)\<lparr>dev := d\<rparr>" "u d = u (dev (con_io k))"
    by blast
  then show thesis using that con_ready_io [OF assms(2)] by (simp add: on_io_def)
qed

text \<open>One line on a working console, seen from the serial line.\<close>

lemma print_sent:
  assumes "con_ready B u k" "\<forall>c. 0 \<le> R c" "render (chars format) args = Some out" "length format < 2 ^ 31 - 1"
  obtains k' where "print_fmt R B format args k = Inr k'" "con_ready B u k'"
    "sent (u (dev (con_io k'))) = sent (u (dev (con_io k))) @ concat (List.map crlf out)"
    "interrupt_handlers (con_io k') = interrupt_handlers (con_io k)" "ns_since_boot (con_io k') = ns_since_boot (con_io k)"
proof -
  from print_fmt_ready [OF assms] obtain k' where "print_fmt R B format args k = Inr k'" "con_ready B u k'" "wrote u k out k'" by blast
  then show thesis using that [of k'] by (auto simp: wrote_def same_kernel_def)
qed

lemma greet_ready:
  assumes "con_ready B u k" "\<forall>c. 0 \<le> R c" "printable_info mb"
  obtains k' where "greet R B mb k = Inr k'" "con_ready B u k'"
    "sent (u (dev (con_io k'))) = sent (u (dev (con_io k))) @ concat (List.map crlf (greeting mb))"
    "interrupt_handlers (con_io k') = interrupt_handlers (con_io k)" "ns_since_boot (con_io k') = ns_since_boot (con_io k)"
proof -
  obtain k3 where k3: "print_fmt R B ''Hello, World!!\<newline>'' [] k = Inr k3" "con_ready B u k3"
    "sent (u (dev (con_io k3))) = sent (u (dev (con_io k))) @ concat (List.map crlf (chars ''Hello, World!!\<newline>''))"
    "interrupt_handlers (con_io k3) = interrupt_handlers (con_io k)" "ns_since_boot (con_io k3) = ns_since_boot (con_io k)"
    by (rule print_sent [OF assms(1,2) render_hello(1)]) (simp, rule that)
  obtain k4 where k4: "print_fmt R B ''Multiboot flags: %012b\<newline>'' [A_int (mb_flags mb)] k3 = Inr k4" "con_ready B u k4"
    "sent (u (dev (con_io k4))) = sent (u (dev (con_io k3))) @ concat (List.map crlf (chars ''Multiboot flags: '' @
        number (mb_flags mb) 2 False 12 0x30 @ chars ''\<newline>''))"
    "interrupt_handlers (con_io k4) = interrupt_handlers (con_io k3)" "ns_since_boot (con_io k4) = ns_since_boot (con_io k3)"
    by (rule print_sent [OF k3(2) assms(2) render_flags [of "mb_flags mb"]]) (use assms(3) in \<open>simp_all add: printable_info_def that\<close>)
  let ?args = "[A_int (framebuffer_width mb), A_int (framebuffer_height mb), A_int (ucast (framebuffer_bpp mb)), A_int (framebuffer_pitch mb)]"
  obtain k5 where k5: "print_fmt R B ''Screen: %dx%d %d bpp pitch: %d\<newline>'' ?args k4 = Inr k5" "con_ready B u k5"
    "sent (u (dev (con_io k5))) = sent (u (dev (con_io k4))) @ concat (List.map crlf (chars ''Screen: '' @
        number (framebuffer_width mb) 10 True 0 0x20 @ chars ''x'' @ number (framebuffer_height mb) 10 True 0 0x20 @ chars '' '' @
        number (ucast (framebuffer_bpp mb)) 10 True 0 0x20 @ chars '' bpp pitch: '' @ number (framebuffer_pitch mb) 10 True 0 0x20 @ chars ''\<newline>''))"
    "interrupt_handlers (con_io k5) = interrupt_handlers (con_io k4)" "ns_since_boot (con_io k5) = ns_since_boot (con_io k4)"
    by (rule print_sent [OF k4(2) assms(2) render_screen [of "framebuffer_width mb" "framebuffer_height mb" "framebuffer_pitch mb" "framebuffer_bpp mb"]]) (use assms(3) in \<open>simp_all add: printable_info_def that\<close>)
  show thesis
  proof (rule that [OF _ k5(2)])
    show "greet R B mb k = Inr k5" using k3(1) k4(1) k5(1) by (simp add: greet_def)
  qed (use k5(3-5) k4(3-5) k3(3-5) in \<open>simp_all add: greeting_def\<close>)
qed

lemma kernel_init_spec:
  assumes "machine_ok P u" "at_entry K" "memory_fits P mb" "printable_info mb"
  obtains K' v where "kernel_init P mb K = Inr K'" "con_ready (pf_bus P) u (k_con K')"
    "interrupt_handlers (con_io (k_con K')) = (interrupt_handlers (con_io (k_con K)))[36 := Some H_serial, 32 := Some H_timer]"
    "ns_since_boot (con_io (k_con K')) = ns_since_boot (con_io (k_con K))"
    "sent (u (dev (con_io (k_con K')))) = sent (u (dev (con_io (k_con K)))) @ concat (List.map crlf (boot_log mb))"
    "interrupts_on (k_tables K')" "k_gfx K' = k_gfx K" "\<exists>st. k_heap K' = liballoc_boot st v" "booted P mb v"
proof -
  let ?B = "pf_bus P" and ?R = "pf_ret P"
  have R: "\<forall>c. 0 \<le> ?R c" using assms(1) by (simp add: machine_ok_def)
  obtain st c p m where heap: "k_heap K = liballoc_boot st (vm_boot c p m)" "length (buddies p) = 7"
    using assms(2) unfolding at_entry_def by blast
  obtain v where v: "init_memory P mb (vm_boot c p m) = Inr v" "booted P mb v"
    by (rule init_memory_spec [OF assms(1,3) heap(2)]) (rule that)
  obtain t io io' e where s:
    "descriptor_tables_init ?B (pf_gdt P) (pf_idt P) (pf_isr P) (k_tables K, con_io (k_con K)) = Inr (t, io)"
    "serial_init ?B COM1 io = Inr (e, io')" "interrupts_on t"
    "con_ready ?B u ((k_con K)\<lparr>con_tty := tty_init (con_tty (k_con K)), con_io := io'\<rparr>)"
    "interrupt_handlers io' = (interrupt_handlers (con_io (k_con K)))[36 := Some H_serial]"
    "ns_since_boot io' = ns_since_boot (con_io (k_con K))" "sent (u (dev io')) = sent (u (dev (con_io (k_con K))))"
    by (rule init_console [OF assms(1,2)]) (rule that)
  let ?k = "(k_con K)\<lparr>con_tty := tty_init (con_tty (k_con K)), con_io := io'\<rparr>"
  obtain k1 where k1: "timer_init ?R ?B ?k = Inr k1" "con_ready ?B u k1"
    "interrupt_handlers (con_io k1) = (interrupt_handlers (con_io ?k))[32 := Some H_timer]" "ns_since_boot (con_io k1) = ns_since_boot (con_io ?k)"
    "sent (u (dev (con_io k1))) = sent (u (dev (con_io ?k))) @ concat (List.map crlf (chars ''[PIT] Reload value: FFFF Delta 003461513\<newline>''))"
    by (rule timer_init_ready [OF s(4) R]) (rule that)
  obtain d where d: "on_io (\<lambda>io. snd (pci_init ?B io)) k1 = k1\<lparr>con_io := (con_io k1)\<lparr>dev := d\<rparr>\<rparr>" "u d = u (dev (con_io k1))"
    "con_ready ?B u (k1\<lparr>con_io := (con_io k1)\<lparr>dev := d\<rparr>\<rparr>)"
    by (rule pci_init_ready [OF assms(1) k1(2)]) (rule that)
  let ?k2 = "k1\<lparr>con_io := (con_io k1)\<lparr>dev := d\<rparr>\<rparr>"
  obtain k5 where k5: "greet ?R ?B mb ?k2 = Inr k5" "con_ready ?B u k5"
    "sent (u (dev (con_io k5))) = sent (u (dev (con_io ?k2))) @ concat (List.map crlf (greeting mb))"
    "interrupt_handlers (con_io k5) = interrupt_handlers (con_io ?k2)" "ns_since_boot (con_io k5) = ns_since_boot (con_io ?k2)"
    by (rule greet_ready [OF d(3) R assms(4)]) (rule that)
  let ?K = "K\<lparr>k_con := k5, k_tables := t, k_heap := (k_heap K)\<lparr>below := v\<rparr>\<rparr>"
  have "below (k_heap K) = vm_boot c p m" "\<exists>st. k_heap ?K = liballoc_boot st v" by (simp_all add: heap(1) liballoc_boot_def)
  then have "kernel_init P mb K = Inr ?K"
    using s(1,2) v(1) k1(1) d(1) k5(1) by (simp add: kernel_init_def Let_def)
  moreover have "sent (u (dev (con_io k5))) = sent (u (dev (con_io (k_con K)))) @ concat (List.map crlf (boot_log mb))"
    using k5(3) d(2) k1(5) s(7) by (simp add: boot_log_def)
  ultimately show thesis using that [of ?K v] k5(2,4,5) k1(3,4) s(3,5,6) v(2) \<open>\<exists>st. k_heap ?K = liballoc_boot st v\<close> by simp
qed

section \<open>Drawing\<close>

text \<open>The back buffer lies in frames of the memory manager, hence outside a frame buffer above memory.\<close>

lemma buffer_ready:
  assumes inv: "linkage_ok L" "vm_inv L v xs ws" "free_ranges v xs = [(0xC0800, 0xC1800)]"
    and n: "0 < n" "n \<le> 4096" "heap_pages (4096 * n) \<le> card (free_frames (pmm v))" "unat sz = 4096 * n"
    and fb: "unat (buddy_base (pmm v)) + 4096 * frames (pmm v) \<le> unat (framebuffer_addr mb)" "fb_mapped L mb n (paging v)"
  obtains p s' c where "malloc (liballoc_alloc L) sz (liballoc_boot st v) = Inr (p, s')"
    "buffer_ok L mb n p c (paging (below s'))" "fb_mapped L mb n (paging (below s'))"
proof -
  have h: "heap_pages (4096 * n) \<le> 4097" "0 < heap_pages (4096 * n)" using n(2) by (auto simp: heap_pages_def)
  then have "first_fit (heap_pages (unat sz)) (free_ranges v xs) =
      Some (0xC0800, [(0xC0800 + heap_pages (unat sz), 0xC1800 - heap_pages (unat sz))])" unfolding n(4) inv(3) by simp
  moreover have "(0xC0000 :: nat) \<le> 0xC0800" "0xC0800 + heap_pages (unat sz) \<le> 2 ^ 20" "heap_pages (unat sz) \<le> card (free_frames (pmm v))"
    "0 < unat sz" "unat sz \<le> 2 ^ 32 - 4128" using h n by simp_all
  ultimately obtain p s' fs where p: "malloc (liballoc_alloc L) sz (liballoc_boot st v) = Inr (p, s')" "length fs = heap_pages (unat sz)"
    "backed L v (below s') 0xC0800 fs" "\<And>i. i < unat sz \<Longrightarrow> 0xC0800 \<le> page_of (p + of_nat i) \<and> page_of (p + of_nat i) < 0xC0800 + length fs"
    "inj_on (\<lambda>i. walk L (paging (below s')) (p + of_nat i)) {..< unat sz}"
    by (rule first_block [OF inv(1,2)]) (rule that)
  let ?pg = "paging (below s')"
  define c where "c k = frame_paddr v (fs ! (page_of (p + of_nat k) - 0xC0800)) + page_off (p + of_nat k)" for k
  have w: "walk L ?pg (p + of_nat k) = Some (c k)" if "k < 4096 * n" for k
    using p(3) p(4) [of k] that n(4) by (simp add: backed_def c_def)
  have out: "c k \<notin> fb_cells mb n" if k: "k < 4096 * n" for k
  proof -
    let ?f = "fs ! (page_of (p + of_nat k) - 0xC0800)"
    have pm: "pmm_inv (pmm v)" using inv(2) by (simp add: vm_inv_def)
    have "?f \<in> set fs" using p(4) [of k] k n(4) by (intro nth_mem) linarith
    then have f: "?f < frames (pmm v)" using p(3) pm.free_bound [OF pm] by (auto simp: backed_def)
    note a = frame_page [OF pm f, of "p + of_nat k", folded c_def]
    have "unat (c k) div 4096 < unat (buddy_base (pmm v)) div 4096 + frames (pmm v)" using a(1) f by (simp add: page_of_def)
    then have "unat (c k) < unat (framebuffer_addr mb)" using fb(1) by (simp add: less_mult_imp_div_less)
    then show ?thesis by (simp add: fb_cells_def)
  qed
  have "inj_on c {..< 4096 * n}"
    using p(5) w unfolding n(4) inj_on_def by auto
  then have "buffer_ok L mb n p c ?pg" using w out by (simp add: buffer_ok_def)
  moreover have "fb_mapped L mb n ?pg" unfolding fb_mapped_def
  proof (intro allI impI)
    fix k
    assume k: "k < 4096 * n"
    have "unat (gfx_framebuffer + of_nat k) = 0xFF000000 + k" using k n(2) by (subst fb_address [of k n]) (simp_all add: gfx_framebuffer_def)
    then have "0xC0800 + length fs \<le> page_of (gfx_framebuffer + of_nat k)" using h(1) p(2) n(4) by (simp add: page_of_def)
    then show "walk L ?pg (gfx_framebuffer + of_nat k) = Some (framebuffer_addr mb + of_nat k)"
      using p(3) fb(2) k by (simp add: backed_def fb_mapped_def)
  qed
  ultimately show thesis by (rule that [OF p(1)])
qed

lemma draw_frame_step:
  assumes D: "drawing P u mb n buf c hs t i K" and R: "\<forall>c. 0 \<le> pf_ret P c" and F: "fpu_ok (pf_fpu P)"
    and fb: "unat (framebuffer_addr mb) + 4096 * n \<le> 2 ^ 32" "4 * (unat (framebuffer_height mb) * unat (framebuffer_width mb)) = 4096 * n"
    and q: "quiet hs (pf_env P i)" and ns: "t + Suc i * 154924563 < 2 ^ 64"
  obtains K' where "draw_frame P mb buf i (time_at (pf_fpu P) i, K) = Inr (time_at (pf_fpu P) (Suc i), K')"
    "drawing P u mb n buf c hs t (Suc i) K'" "shows_image (pf_fpu P) mb i (below (k_heap K'))"
proof -
  let ?L = "pf_linkage P" and ?F = "pf_fpu P" and ?v = "below (k_heap K)" and ?time = "time_at (pf_fpu P) i"
  have d: "con_ready (pf_bus P) u (k_con K)" "interrupt_handlers (con_io (k_con K)) = hs" "t + i * 100000000 \<le> unat (ns_since_boot (con_io (k_con K)))"
    "unat (ns_since_boot (con_io (k_con K))) \<le> t + i * 154924563" "fb_mapped ?L mb n (paging ?v)" "buffer_ok ?L mb n buf c (paging ?v)"
    "unat (gfx_fb_size (k_gfx K)) = 4096 * n" using D by (simp_all add: drawing_def)
  obtain css where css: "picture_of ?F ?time (unat (framebuffer_width mb)) (unat (framebuffer_height mb)) css"
    using picture_exists [OF F] by blast
  obtain m where m: "bindE (draw_image ?L ?F ?time (framebuffer_width mb) (framebuffer_height mb) buf ?v) (gfx_apply ?L buf (k_gfx K)) = Inr (?v\<lparr>pmem := m\<rparr>)"
    "\<And>y x. y < unat (framebuffer_height mb) \<Longrightarrow> x < unat (framebuffer_width mb) \<Longrightarrow> screen_pixel mb (?v\<lparr>pmem := m\<rparr>) y x = css ! y ! x"
    by (rule image_shown [OF d(5) fb(1) d(7,6) css fb(2)]) (rule that)
  have time: "fl_add ?F ?time (fl_lit ?F 1 1) = time_at ?F (Suc i)" by (simp add: time_at_def)
  have "unat (ns_since_boot (con_io (k_con K))) + unat (100 :: u32) * 1000000 + 54924563 < 2 ^ 64" "(0 :: u32) < 100" using d(4) ns by simp_all
  from sleep_spec [OF d(1) R _ this, of "pf_env P i" "\<lparr>fv_linkage = ?L, fv_paging = paging (?v\<lparr>pmem := m\<rparr>), fv_cr2 = pf_cr2 P\<rparr>"] q d(2)
  obtain l k where k: "sleep (pf_ret P) (pf_bus P) \<lparr>fv_linkage = ?L, fv_paging = paging (?v\<lparr>pmem := m\<rparr>), fv_cr2 = pf_cr2 P\<rparr> (pf_env P i) 100 (k_con K) = Inr (l, k)"
    "con_ready (pf_bus P) u k" "unat (ns_since_boot (con_io (k_con K))) + 100000000 \<le> unat (ns_since_boot (con_io k))"
    "unat (ns_since_boot (con_io k)) < unat (ns_since_boot (con_io (k_con K))) + 154924563" "interrupt_handlers (con_io k) = hs"
    by (auto simp: ns_per_tick_value)
  let ?K = "K\<lparr>k_con := k, k_heap := (k_heap K)\<lparr>below := ?v\<lparr>pmem := m\<rparr>\<rparr>\<rparr>"
  show thesis
  proof (rule that)
    show "draw_frame P mb buf i (?time, K) = Inr (time_at ?F (Suc i), ?K)"
      using m(1) k(1) unfolding draw_frame_def Let_def split time bindE_eq_Inr by (auto simp: bindE_eq_Inr)
    show "drawing P u mb n buf c hs t (Suc i) ?K" using d k by (simp add: drawing_def)
    show "shows_image ?F mb i (below (k_heap ?K))"
      using css m(2) by (auto simp: shows_image_def picture_of_def row_of_def)
  qed
qed

lemma draw_frames:
  assumes D: "drawing P u mb n buf c hs t 0 K" and R: "\<forall>c. 0 \<le> pf_ret P c" and F: "fpu_ok (pf_fpu P)"
    and fb: "unat (framebuffer_addr mb) + 4096 * n \<le> 2 ^ 32" "4 * (unat (framebuffer_height mb) * unat (framebuffer_width mb)) = 4096 * n"
    and q: "\<forall>i. quiet hs (pf_env P i)" and ns: "t + images * 154924563 < 2 ^ 64"
  shows "\<exists>K'. for_each [0..<images] (draw_frame P mb buf) (time_at (pf_fpu P) 0, K) = Inr (time_at (pf_fpu P) images, K') \<and>
    drawing P u mb n buf c hs t images K' \<and> (0 < images \<longrightarrow> shows_image (pf_fpu P) mb (images - 1) (below (k_heap K')))"
  using ns
proof (induction images)
  case 0
  then show ?case using D by simp
next
  case (Suc i)
  then obtain K1 where K1: "for_each [0..<i] (draw_frame P mb buf) (time_at (pf_fpu P) 0, K) = Inr (time_at (pf_fpu P) i, K1)"
    "drawing P u mb n buf c hs t i K1" by auto
  obtain K' where "draw_frame P mb buf i (time_at (pf_fpu P) i, K1) = Inr (time_at (pf_fpu P) (Suc i), K')"
    "drawing P u mb n buf c hs t (Suc i) K'" "shows_image (pf_fpu P) mb i (below (k_heap K'))"
    by (rule draw_frame_step [OF K1(2) R F fb _ Suc.prems]) (use q in blast, rule that)
  then show ?case using K1(1) by (simp add: for_each_append)
qed

lemma booted_with:
  assumes "booted P mb v" "paging_inv (pf_linkage P) pg"
  shows "vm_inv (pf_linkage P) (v\<lparr>paging := pg, pmem := m\<rparr>) [first_bucket_addr (pf_linkage P)] []"
    "free_ranges (v\<lparr>paging := pg, pmem := m\<rparr>) [first_bucket_addr (pf_linkage P)] = [(0xC0800, 0xC1800)]"
proof -
  have "vm_inv L v xs ws \<Longrightarrow> paging_inv L pg \<Longrightarrow> vm_inv L (v\<lparr>paging := pg, pmem := m\<rparr>) xs ws"
    "free_ranges (v\<lparr>paging := pg, pmem := m\<rparr>) xs = free_ranges v xs" for L xs ws
    by (simp_all add: vm_inv_def free_ranges_def)
  then show "vm_inv (pf_linkage P) (v\<lparr>paging := pg, pmem := m\<rparr>) [first_bucket_addr (pf_linkage P)] []"
    "free_ranges (v\<lparr>paging := pg, pmem := m\<rparr>) [first_bucket_addr (pf_linkage P)] = [(0xC0800, 0xC1800)]"
    using assms unfolding booted_def by metis+
qed

lemma pixel_bytes:
  assumes "has_framebuffer mb n" "framebuffer_bpp mb = 32"
  shows "4 * (unat (framebuffer_height mb) * unat (framebuffer_width mb)) = 4096 * n"
    "unat (framebuffer_width mb * framebuffer_height mb * ucast (framebuffer_bpp mb div 8)) = 4096 * n"
proof -
  have wh: "unat (framebuffer_width mb) * unat (framebuffer_height mb) * 32 = 8 * (4096 * n)" and n: "n \<le> 4096"
    using assms by (simp_all add: has_framebuffer_def)
  then show e: "4 * (unat (framebuffer_height mb) * unat (framebuffer_width mb)) = 4096 * n" by (simp add: mult.commute)
  have "unat (framebuffer_width mb * framebuffer_height mb) = unat (framebuffer_width mb) * unat (framebuffer_height mb)"
    using e n by (intro unat_u32_mult) (simp add: mult.commute [of "unat (framebuffer_width mb)"])
  then show "unat (framebuffer_width mb * framebuffer_height mb * ucast (framebuffer_bpp mb div 8)) = 4096 * n"
    using e n assms(2) by (subst unat_u32_mult) (simp_all add: mult.commute)
qed

section \<open>The example machine\<close>

lemma platform_example_ok: "machine_ok platform_example (\<lambda>d. d)" "at_entry kernel_example" "fpu_ok (pf_fpu platform_example)"
proof -
  show "machine_ok platform_example (\<lambda>d. d)"
    using has_uart_bus linkage_example_ok
    by (simp add: machine_ok_def platform_example_def uart_bus_def silent_bus_def linkage_example_def NULL_def)
  show "at_entry kernel_example"
    by (auto simp: at_entry_def kernel_example_def io_boot_def tables_boot_def pmm_bss_def intro!: exI)
  show "fpu_ok (pf_fpu platform_example)" using prem_reduces_exact by (auto simp: fpu_ok_def platform_example_def)
qed

lemma memory_example:
  assumes "mem_upper mb = 0xF000"
  shows "memory_fits platform_example mb" "init_first (pf_end platform_example) (memory_end mb) + 4096 * init_frames (pf_end platform_example) (memory_end mb) \<le> 0xFD000000"
    "heap_pages (4096 * 250) \<le> init_frames (pf_end platform_example) (memory_end mb)"
proof -
  have "memory_end mb = 0x3D00000" "pf_end platform_example = 0x700000" using assms by (simp_all add: memory_end_def platform_example_def)
  then show "memory_fits platform_example mb" "init_first (pf_end platform_example) (memory_end mb) + 4096 * init_frames (pf_end platform_example) (memory_end mb) \<le> 0xFD000000"
    "heap_pages (4096 * 250) \<le> init_frames (pf_end platform_example) (memory_end mb)"
    by (simp_all add: memory_fits_def init_first_def init_frames_def heap_pages_def word_le_nat_alt)
qed

section \<open>Properties\<close>





end
