(* ===== verification/Irq_Lines.thy ===== *)
theory Irq_Lines
  imports Kernel
begin

text \<open>
  Which interrupts reach the kernel when it starts to draw. \<^verbatim>\<open>descriptor_tables_init\<close> masks every line of the
  two interrupt controllers, \<^verbatim>\<open>serial_init\<close> and \<^verbatim>\<open>timer_init\<close> each clear one mask bit, and nothing else
  of the boot sequence, in particular no output on the serial line, touches the controllers.
\<close>

section \<open>Specification\<close>

text \<open>A part of the devices that reading ports and writing the registers of the serial line leaves alone.\<close>

definition com_safe :: "'d bus \<Rightarrow> ('d \<Rightarrow> 'a) \<Rightarrow> bool" where
  "com_safe B q \<longleftrightarrow> (\<forall>p d. q (snd (bus_inb B p d)) = q d) \<and>
     (\<forall>p v d. COM1 \<le> p \<longrightarrow> p < COM1 + 8 \<longrightarrow> q (bus_outb B p v d) = q d)"

text \<open>The controllers can be read: the data port returns the mask. The configuration ports are elsewhere.\<close>

definition pics_readable :: "'d bus \<Rightarrow> ('d \<Rightarrow> pic8259 \<times> pic8259) \<Rightarrow> bool" where
  "pics_readable B pics \<longleftrightarrow> has_pics B pics \<and> (\<forall>p d. pics (snd (bus_inb B p d)) = pics d) \<and>
     (\<forall>d. fst (bus_inb B 0x21 d) = imr (fst (pics d)) \<and> fst (bus_inb B 0xA1 d) = imr (snd (pics d))) \<and>
     (\<forall>v d. pics (bus_outl B 0xCF8 v d) = pics d) \<and> (\<forall>d. pics (snd (bus_inl B 0xCFC d)) = pics d)"

text \<open>A machine with a serial line and the two controllers.\<close>

definition pc_bus :: "(uart \<times> pic8259 \<times> pic8259) bus" where
  "pc_bus = silent_bus\<lparr>
     bus_inb := (\<lambda>p (u, m). if COM1 \<le> p \<and> p < COM1 + 8 then (let (v, u) = uart_read (p - COM1) u in (v, u, m))
        else if p = 0x21 then (imr (fst m), u, m) else if p = 0xA1 then (imr (snd m), u, m) else (0, u, m)),
     bus_outb := (\<lambda>p v (u, m). (if COM1 \<le> p \<and> p < COM1 + 8 then uart_write (p - COM1) v u else u, pic_write p v m))\<rparr>"

definition pc_example :: "(uart \<times> pic8259 \<times> pic8259, real) platform" where
  "pc_example =
     \<lparr>pf_ret = (\<lambda>_. 0), pf_bus = pc_bus, pf_linkage = linkage_example, pf_gdt = 0xC0107000, pf_idt = 0xC0108000,
      pf_isr = (\<lambda>i. 0xC0100000 + of_nat i), pf_end = 0x700000, pf_mem = (\<lambda>_. 0), pf_cr2 = 0, pf_fpu = exact,
      pf_env = (\<lambda>_ _. reg_example)\<rparr>"

definition pc_kernel :: "(uart \<times> pic8259 \<times> pic8259) kernel" where
  "pc_kernel =
     \<lparr>k_con = \<lparr>con_tty = con_tty (k_con kernel_example), con_io = io_boot (uart_off, pic_off, pic_off)\<rparr>,
      k_tables = tables_boot, k_heap = k_heap kernel_example, k_gfx = k_gfx kernel_example\<rparr>"

section \<open>The serial line\<close>

lemma tx_wait_keeps:
  assumes "tx_wait B s = Some s'" "com_safe B q"
  shows "q (dev s') = q (dev s) \<and> serial_active_port s' = serial_active_port s"
proof -
  have "com_safe B q \<longrightarrow> q (dev s') = q (dev s) \<and> serial_active_port s' = serial_active_port s"
    by (rule tx_wait.raw_induct [where P = "\<lambda>B s s'. com_safe B q \<longrightarrow> q (dev s') = q (dev s) \<and> serial_active_port s' = serial_active_port s",
          OF _ assms(1)])
      (fastforce simp: serial_tx_empty_def inb_def Let_def split_beta com_safe_def split: if_splits)
  then show ?thesis using assms(2) by blast
qed

lemma rx_drain_keeps:
  assumes "rx_drain B p s = Some s'" "com_safe B q"
  shows "q (dev s') = q (dev s)"
proof -
  have "com_safe B q \<longrightarrow> q (dev s') = q (dev s)"
    by (rule rx_drain.raw_induct [where P = "\<lambda>B p s s'. com_safe B q \<longrightarrow> q (dev s') = q (dev s)", OF _ assms(1)])
      (fastforce simp: serial_rx_data_ready_def inb_def Let_def split_beta com_safe_def split: if_splits)
  then show ?thesis using assms(2) by blast
qed

lemma serial_putchar_keeps:
  assumes "serial_putchar B c s = Inr s'" "com_safe B q" "serial_active_port s = COM1"
  shows "q (dev s') = q (dev s)" "serial_active_port s' = COM1"
proof -
  have out: "q (bus_outb B COM1 v d) = q d" for v d using assms(2) by (simp add: com_safe_def COM1_def)
  have one: "q (dev s') = q (dev s) \<and> serial_active_port s' = COM1"
    if "serial_putchar B c s = Inr s'" "c \<noteq> 0x0A" "serial_active_port s = COM1" for c s s'
    using that tx_wait_keeps [OF _ assms(2), of s] out
    by (auto simp: serial_putchar.simps [of B c] split: option.splits)
  have "q (dev s') = q (dev s) \<and> serial_active_port s' = COM1"
  proof (cases "c = 0x0A")
    case True
    then obtain s1 s2 where s1: "serial_putchar B 0x0D s = Inr s1" "tx_wait B s1 = Some s2" "s' = outb B (serial_active_port s2) c s2"
      using assms(1) [unfolded serial_putchar.simps [of B c]] by (auto simp: bindE_eq_Inr split: option.splits)
    then show ?thesis using one [OF s1(1) _ assms(3)] tx_wait_keeps [OF s1(2) assms(2)] out by auto
  next
    case False
    then show ?thesis using one [OF assms(1) _ assms(3)] by simp
  qed
  then show "q (dev s') = q (dev s)" "serial_active_port s' = COM1" by simp_all
qed

lemma puts_keeps:
  assumes "for_each xs (put (putchar R B)) k = Inr k'" "com_safe B q" "serial_active_port (con_io k) = COM1"
  shows "q (dev (con_io k')) = q (dev (con_io k))"
  using assms
proof (induction xs arbitrary: k)
  case (Cons c xs)
  then obtain k1 where k1: "put (putchar R B) c k = Inr k1" "for_each xs (put (putchar R B)) k1 = Inr k'" by (auto simp: bindE_eq_Inr)
  then obtain s where "serial_putchar B c (con_io k) = Inr s" "con_io k1 = s" by (auto simp: put_def putchar_def bindE_eq_Inr)
  with serial_putchar_keeps [OF _ Cons.prems(2,3)] Cons.IH [OF k1(2) Cons.prems(2)] show ?case by auto
qed simp

text \<open>A line that the console can print keeps them too.\<close>

lemma print_keeps:
  assumes "print_fmt R B format args k = Inr k'" "con_ready B u k" "\<forall>c. 0 \<le> R c" "render (chars format) args = Some out"
    and "length format < 2 ^ 31 - 1" "com_safe B q"
  shows "q (dev (con_io k')) = q (dev (con_io k))"
proof -
  have "length (chars format) < 2 ^ 31 - 1" using assms(5) by (simp add: chars_def)
  from vprintf_loop_ok [OF never_negative_putchar [OF assms(3)] assms(4) this, of B 0] obtain r where
    "vprintf (putchar R B) (chars format) args k = bindE (for_each out (put (putchar R B)) k) (\<lambda>k. Inr (r, k))"
    by (auto simp: vprintf_def)
  then have "for_each out (put (putchar R B)) k = Inr k'"
    using assms(1) by (auto simp: print_fmt_def printf_def bindE_eq_Inr)
  then show ?thesis by (rule puts_keeps [OF _ assms(6)]) (use assms(2) in \<open>simp add: con_ready_def\<close>)
qed

section \<open>The controllers\<close>

lemma pics_com_safe:
  assumes "pics_readable B pics"
  shows "com_safe B pics"
proof -
  have "pic_write p v m = m" if "COM1 \<le> p" for p v m
    using that by (auto simp: pic_write_def COM1_def word_le_nat_alt)
  then show ?thesis using assms by (simp add: com_safe_def pics_readable_def has_pics_def)
qed

lemma clear_mask_pics:
  assumes "pics_readable B pics" "irq_clear_mask B line io = Inr io'" "line < 8" "phase (fst (pics (dev io))) = Ready"
  shows "pics (dev io') = ((fst (pics (dev io)))\<lparr>imr := imr (fst (pics (dev io))) AND ucast (NOT (push_bit (unat line) 1 :: 32 word))\<rparr>, snd (pics (dev io)))"
proof -
  have l: "\<not> 32 \<le> line" using assms(3) by (simp add: word_less_nat_alt word_le_nat_alt)
  have "fst (bus_inb B 0x21 d) = imr (fst (pics d))" "pics (snd (bus_inb B 0x21 d)) = pics d" "pics (bus_outb B 0x21 v d) = pic_write 0x21 v (pics d)" for v d
    using assms(1) by (auto simp: pics_readable_def has_pics_def)
  then show ?thesis using assms(2,3,4) l
    by (auto simp: irq_clear_mask_def Let_def inb_def split_beta pic_write_def pic_data_def)
qed

section \<open>The boot sequence\<close>

lemma serial_init_pics:
  assumes "pics_readable B pics" "serial_init B COM1 io = Inr (e, io')" "phase (fst (pics (dev io))) = Ready"
  shows "pics (dev io') = ((fst (pics (dev io)))\<lparr>imr := imr (fst (pics (dev io))) AND 0xEF\<rparr>, snd (pics (dev io)))"
proof -
  note safe = pics_com_safe [OF assms(1)]
  have out: "pics (bus_outb B (COM1 + k) v d) = pics d" if "k < 8" for k v d
  proof -
    have "unat k < 8" using that by (simp add: word_less_nat_alt)
    then have "unat (COM1 + k) = 0x3F8 + unat k" by (simp add: COM1_def unat_word_ariths)
    then have "COM1 \<le> COM1 + k" "COM1 + k < COM1 + 8" using \<open>unat k < 8\<close> by (simp_all add: word_le_nat_alt word_less_nat_alt COM1_def)
    then show ?thesis using safe by (simp add: com_safe_def)
  qed
  have "pics (bus_outb B COM1 v d) = pics d" for v d using out [of 0] by simp
  with out obtain s s1 where s: "irq_clear_mask B 4 s = Inr s1" "rx_drain B COM1 s1 = Some io'" "pics (dev s) = pics (dev io)"
    using assms(2) by (auto simp: serial_init_def Let_def bindE_eq_Inr irq_register_handler_def split: option.splits)
  have m: "ucast (NOT (push_bit (unat (4 :: u8)) 1 :: 32 word)) = (0xEF :: u8)" by simp
  show ?thesis
    using clear_mask_pics [OF assms(1) s(1), unfolded m] rx_drain_keeps [OF s(2) safe] s(3) assms(3) by simp
qed

lemma timer_init_pics:
  assumes "pics_readable B pics" "timer_init R B k = Inr k'" "con_ready B u k" "\<forall>c. 0 \<le> R c" "phase (fst (pics (dev (con_io k)))) = Ready"
  shows "pics (dev (con_io k')) =
    ((fst (pics (dev (con_io k))))\<lparr>imr := imr (fst (pics (dev (con_io k)))) AND 0xFE\<rparr>, snd (pics (dev (con_io k))))"
proof -
  let ?k = "k\<lparr>con_io := irq_register_handler IRQ0 H_timer (con_io k)\<rparr>"
  have "pics (bus_outb B 0x43 v d) = pics d" "pics (bus_outb B 0x40 v d) = pics d" for v d
    using assms(1) by (simp_all add: pics_readable_def has_pics_def pic_write_def)
  then obtain k1 s s1 where s: "print_fmt R B ''[PIT] Reload value: %04x Delta %08lx\<newline>''
        [A_int (ucast reload_value), A_int (ucast ns_per_tick), A_int (ucast (drop_bit 32 ns_per_tick))] ?k = Inr k1"
      "irq_clear_mask B 0 s = Inr s1" "k' = k1\<lparr>con_io := s1\<rparr>" "pics (dev s) = pics (dev (con_io k1))"
    using assms(2) by (auto simp: timer_init_def Let_def bindE_eq_Inr)
  have "con_ready B u ?k" using assms(3) by (intro con_ready_io) (simp_all add: irq_register_handler_def)
  from print_keeps [OF s(1) this assms(4) render_pit _ pics_com_safe [OF assms(1)]]
  have "pics (dev (con_io k1)) = pics (dev (con_io k))" by (simp add: irq_register_handler_def)
  moreover have m: "ucast (NOT (push_bit (unat (0 :: u8)) 1 :: 32 word)) = (0xFE :: u8)" by simp
  ultimately show ?thesis using clear_mask_pics [OF assms(1) s(2), unfolded m] s(3,4) assms(5) by simp
qed

lemma greet_keeps:
  assumes "greet R B mb k = Inr k'" "con_ready B u k" "\<forall>c. 0 \<le> R c" "printable_info mb" "com_safe B q"
  shows "q (dev (con_io k')) = q (dev (con_io k))"
proof -
  obtain k1 k2 where k: "print_fmt R B ''Hello, World!!\<newline>'' [] k = Inr k1"
    "print_fmt R B ''Multiboot flags: %012b\<newline>'' [A_int (mb_flags mb)] k1 = Inr k2"
    "print_fmt R B ''Screen: %dx%d %d bpp pitch: %d\<newline>'' [A_int (framebuffer_width mb), A_int (framebuffer_height mb),
       A_int (ucast (framebuffer_bpp mb)), A_int (framebuffer_pitch mb)] k2 = Inr k'"
    using assms(1) by (auto simp: greet_def bindE_eq_Inr)
  have info: "unat (mb_flags mb) < 2 ^ 15" "framebuffer_width mb \<noteq> 0x80000000" "framebuffer_height mb \<noteq> 0x80000000" "framebuffer_pitch mb \<noteq> 0x80000000"
    using assms(4) by (simp_all add: printable_info_def)
  have r1: "con_ready B u k1" using print_fmt_ready [OF assms(2,3) render_hello(1)] k(1) by auto
  have r2: "con_ready B u k2" using print_fmt_ready [OF r1 assms(3) render_flags [OF info(1)]] k(2) by auto
  show ?thesis
    using print_keeps [OF k(1) assms(2,3) render_hello(1) _ assms(5)] print_keeps [OF k(2) r1 assms(3) render_flags [OF info(1)] _ assms(5)]
      print_keeps [OF k(3) r2 assms(3) render_screen [OF info(2-4)] _ assms(5)] by simp
qed

lemma kernel_init_pics:
  assumes "machine_ok P u" "at_entry K" "printable_info mb" "kernel_init P mb K = Inr K'" "pics_readable (pf_bus P) pics"
    and "phase (fst (pics (dev (con_io (k_con K))))) = Ready" "phase (snd (pics (dev (con_io (k_con K))))) = Ready"
  shows "pics (dev (con_io (k_con K'))) =
    (\<lparr>phase = Ready, vector_offset = 32, wiring = 4, mode_word = 1, imr = 0xEE\<rparr>,
     \<lparr>phase = Ready, vector_offset = 40, wiring = 2, mode_word = 1, imr = 0xFF\<rparr>)"
proof -
  let ?B = "pf_bus P" and ?R = "pf_ret P" and ?k = "(k_con K)\<lparr>con_tty := tty_init (con_tty (k_con K))\<rparr>"
  have R: "\<forall>c. 0 \<le> ?R c" using assms(1) by (simp add: machine_ok_def)
  obtain t io io' e where s:
    "descriptor_tables_init ?B (pf_gdt P) (pf_idt P) (pf_isr P) (k_tables K, con_io (k_con K)) = Inr (t, io)"
    "serial_init ?B COM1 io = Inr (e, io')" "con_ready ?B u (?k\<lparr>con_io := io'\<rparr>)"
    by (rule init_console [OF assms(1,2)]) (simp add: that)
  then obtain v k1 k2 where k: "timer_init ?R ?B (?k\<lparr>con_io := io'\<rparr>) = Inr k1"
    "greet ?R ?B mb (on_io (\<lambda>io. snd (pci_init ?B io)) k1) = Inr k2" "k_con K' = k2"
    using assms(4) by (auto simp: kernel_init_def Let_def bindE_eq_Inr)
  have io: "io = pic_remap ?B (con_io (k_con K))"
    using s(1) by (auto simp: descriptor_tables_init_def idt_init_def Let_def bindE_eq_Inr)
  have pics: "has_pics ?B pics" using assms(5) by (simp add: pics_readable_def)
  note p1 = pic_remap_spec [OF pics assms(6,7), folded io]
  note p2 = serial_init_pics [OF assms(5) s(2), unfolded p1, simplified]
  have r1: "con_ready ?B u k1" by (rule timer_init_ready [OF s(3) R]) (use k(1) in simp)
  have p3: "pics (dev (con_io k1)) =
    (\<lparr>phase = Ready, vector_offset = 32, wiring = 4, mode_word = 1, imr = 0xEE\<rparr>,
     \<lparr>phase = Ready, vector_offset = 40, wiring = 2, mode_word = 1, imr = 0xFF\<rparr>)"
    using timer_init_pics [OF assms(5) k(1) s(3) R] p2 by simp
  have "pics (bus_outl ?B 0xCF8 v d) = pics d" "pics (snd (bus_inl ?B 0xCFC d)) = pics d" for v d
    using assms(5) by (simp_all add: pics_readable_def)
  then obtain d where "snd (pci_init ?B (con_io k1)) = (con_io k1)\<lparr>dev := d\<rparr>" "pics d = pics (dev (con_io k1))"
    by (rule pci_init_quiet [of pics]) (rule that)
  then have p4: "pics (dev (con_io (on_io (\<lambda>io. snd (pci_init ?B io)) k1))) = pics (dev (con_io k1))" by (simp add: on_io_def)
  have r2: "con_ready ?B u (on_io (\<lambda>io. snd (pci_init ?B io)) k1)"
    by (rule pci_init_ready [OF assms(1) r1]) simp
  show ?thesis using greet_keeps [OF k(2) r2 R assms(3) pics_com_safe [OF assms(5)]] k(3) p3 p4 by simp
qed

section \<open>Properties\<close>

text \<open>
  C5. After the boot sequence an interrupt line of the two controllers is open exactly if the kernel has a
  handler for it: lines 0 (the timer) and 4 (the serial line). The controllers raise vectors 32 to 47,
  and the gates of these vectors are in place.
\<close>

theorem open_lines_have_handlers:
  assumes "machine_ok P u" "at_entry K" "memory_fits P mb" "printable_info mb" "pics_readable (pf_bus P) pics"
    and "phase (fst (pics (dev (con_io (k_con K))))) = Ready" "phase (snd (pics (dev (con_io (k_con K))))) = Ready"
    and "interrupt_handlers (con_io (k_con K)) = replicate 256 None"
  shows "\<exists>K' m s. kernel_init P mb K = Inr K' \<and> pics (dev (con_io (k_con K'))) = (m, s) \<and> interrupts_on (k_tables K') \<and>
    vector_offset m = 32 \<and> vector_offset s = 40 \<and>
    (\<forall>i < 8. bit (imr m) i \<longleftrightarrow> interrupt_handlers (con_io (k_con K')) ! (32 + i) = None) \<and>
    (\<forall>i < 8. bit (imr s) i \<longleftrightarrow> interrupt_handlers (con_io (k_con K')) ! (40 + i) = None) \<and>
    interrupt_handlers (con_io (k_con K')) ! 32 = Some H_timer \<and> interrupt_handlers (con_io (k_con K')) ! 36 = Some H_serial"
proof -
  obtain K' where K': "kernel_init P mb K = Inr K'" "interrupts_on (k_tables K')"
    "interrupt_handlers (con_io (k_con K')) = (interrupt_handlers (con_io (k_con K)))[36 := Some H_serial, 32 := Some H_timer]"
    by (rule kernel_init_spec [OF assms(1-4)]) (rule that)
  have m: "bit (0xEE :: u8) i \<longleftrightarrow> i \<noteq> 0 \<and> i \<noteq> 4" "bit (0xFF :: u8) i" if "i < 8" for i
  proof -
    consider "i = 0" | "i = 1" | "i = 2" | "i = 3" | "i = 4" | "i = 5" | "i = 6" | "i = 7" using \<open>i < 8\<close> by linarith
    then show "bit (0xEE :: u8) i \<longleftrightarrow> i \<noteq> 0 \<and> i \<noteq> 4" "bit (0xFF :: u8) i" by (cases; simp)+
  qed
  then show ?thesis using K' kernel_init_pics [OF assms(1,2,4) K'(1) assms(5-7)]
    by (auto simp: K'(3) assms(8) nth_list_update)
qed

lemma pc_ok: "machine_ok pc_example fst" "at_entry pc_kernel" "pics_readable (pf_bus pc_example) snd" "memory_fits pc_example mb_example"
proof -
  have "memory_end mb_example = 0x3D00000" by (simp add: memory_end_def mb_example_def)
  then show "memory_fits pc_example mb_example" by (simp add: pc_example_def memory_fits_def init_first_def word_le_nat_alt)
  have "has_uart pc_bus fst" by (auto simp: has_uart_def pc_bus_def split_beta Let_def)
  then show "machine_ok pc_example fst"
    using linkage_example_ok by (simp add: machine_ok_def pc_example_def pc_bus_def silent_bus_def linkage_example_def NULL_def)
  show "at_entry pc_kernel" using platform_example_ok(2) by (simp add: at_entry_def pc_kernel_def io_boot_def tables_boot_def)
  show "pics_readable (pf_bus pc_example) snd"
    by (auto simp: pics_readable_def has_pics_def pc_example_def pc_bus_def silent_bus_def split_beta Let_def COM1_def)
qed

theorem open_lines_have_handlers_witness:
  "\<exists>K'. kernel_init pc_example mb_example pc_kernel = Inr K' \<and> interrupts_on (k_tables K') \<and>
     \<not> bit (imr (fst (snd (dev (con_io (k_con K')))))) 0"
proof -
  have i: "printable_info mb_example" by (simp add: printable_info_def mb_example_def)
  have k: "phase (fst (snd (dev (con_io (k_con pc_kernel))))) = Ready" "phase (snd (snd (dev (con_io (k_con pc_kernel))))) = Ready"
    "interrupt_handlers (con_io (k_con pc_kernel)) = replicate 256 None" by (simp_all add: pc_kernel_def io_boot_def pic_off_def)
  from open_lines_have_handlers [OF pc_ok(1,2,4) i pc_ok(3) k] obtain K' m s where
    "kernel_init pc_example mb_example pc_kernel = Inr K'" "snd (dev (con_io (k_con K'))) = (m, s)" "interrupts_on (k_tables K')"
    "\<forall>i < 8. bit (imr m) i \<longleftrightarrow> interrupt_handlers (con_io (k_con K')) ! (32 + i) = None"
    "interrupt_handlers (con_io (k_con K')) ! 32 = Some H_timer" by blast
  then show ?thesis by (intro exI [of _ K']) (auto dest: spec [of _ 0])
qed

end
