(* ===== verification/Debug.thy ===== *)
theory Debug
  imports Isr Vm
begin

text \<open>
  The functions that print the state of the memory managers: \<^verbatim>\<open>pmm_debug\<close> of \<^verbatim>\<open>kernel/memory/pmm.c\<close>,
  \<^verbatim>\<open>debug_as\<close> and \<^verbatim>\<open>vm_debug\<close> of \<^verbatim>\<open>kernel/memory/vm.c\<close>, and the macro \<^verbatim>\<open>DEBUG\<close>, which prints when a flag of
  \<^verbatim>\<open>dbflags\<close> is set. The kernel leaves \<^verbatim>\<open>dbflags\<close> at zero; here it is an argument. None of them changes
  what it shows. \<open>says\<close> is what a piece of code that only prints is for the console, and composes.
\<close>

section \<open>Model\<close>

definition pmm_debug_block :: "(u8 \<Rightarrow> int) \<Rightarrow> 'd bus \<Rightarrow> pmm_state \<Rightarrow> nat \<Rightarrow> nat \<Rightarrow> 'd con \<Rightarrow> 'd con res" where
  "pmm_debug_block R B s i j k =
     (let spacing = 2 ^ i - 1 in
      bindE (get_buddy s i) (\<lambda>b.
      bindE (bitset_read b (of_nat j)) (\<lambda>free.
      bindE (print_fmt R B ''%s'' [A_str (chars (if free then ''#'' else ''.''))] k) (\<lambda>k.
      for_each [0..<spacing] (\<lambda>_. print_fmt R B '' '' []) k))))"

definition pmm_debug_level :: "(u8 \<Rightarrow> int) \<Rightarrow> 'd bus \<Rightarrow> pmm_state \<Rightarrow> nat \<Rightarrow> 'd con \<Rightarrow> 'd con res" where
  "pmm_debug_level R B s i k =
     bindE (print_fmt R B ''%d: '' [A_int (of_nat i)] k) (\<lambda>k.
     bindE (for_each [0..<2 ^ (6 - i)] (pmm_debug_block R B s i) k) (\<lambda>k.
     print_fmt R B ''\<newline>'' [] k))"

definition pmm_debug :: "(u8 \<Rightarrow> int) \<Rightarrow> 'd bus \<Rightarrow> pmm_state \<Rightarrow> 'd con \<Rightarrow> 'd con res" where
  "pmm_debug R B s k = for_each [0..<PMM_NUM_BUDDIES] (pmm_debug_level R B s) k"

definition debug_as :: "(u8 \<Rightarrow> int) \<Rightarrow> 'd bus \<Rightarrow> linkage \<Rightarrow> paging_state \<Rightarrow> as_ptr \<Rightarrow> vaddr_t \<Rightarrow> 'd con \<Rightarrow> 'd con res" where
  "debug_as R B L p as addr k =
     (let di = drop_bit 22 addr;
          ti = drop_bit 12 addr AND MASK 10;
          pi = addr AND MASK 12
      in
      bindE (print_fmt R B ''addr: %08x DIR: %d TAB: %d PAG: %d\<newline>'' [A_int addr, A_int di, A_int ti, A_int pi] k) (\<lambda>k.
      bindE (deref_as as p) (\<lambda>a.
      bindE (print_fmt R B ''Directory: %08x %08x\<newline>'' [A_int (directory a), A_int (directory_phys a)] k) (\<lambda>k.
      if directory a \<noteq> KERNEL_PAGE_DIRECTORY L then Inl (Undefined ''page directory'')
      else
        let de = page_directory p ! unat di in
        print_fmt R B ''PDE: P: %d R/W: %d PS: %d Tab: %d\<newline>''
          [A_int (ucast (pde_present de)), A_int (ucast (pde_rw de)), A_int (ucast (pde_page_size de)),
           A_int (ucast (pde_page_table de))] k))))"

definition DB_MEMORY :: u32 where
  "DB_MEMORY = 1"

definition DEBUG :: "(u8 \<Rightarrow> int) \<Rightarrow> 'd bus \<Rightarrow> u32 \<Rightarrow> u32 \<Rightarrow> string \<Rightarrow> arg list \<Rightarrow> 'd con \<Rightarrow> 'd con res" where
  "DEBUG R B dbflags d format args k = (if dbflags AND d \<noteq> 0 then print_fmt R B format args k else Inr k)"

partial_function (option) vm_debug_loop ::
  "(u8 \<Rightarrow> int) \<Rightarrow> 'd bus \<Rightarrow> u32 \<Rightarrow> bheap \<Rightarrow> ptr \<Rightarrow> 'd con \<Rightarrow> 'd con res option" where
  "vm_debug_loop R B dbflags h node k =
     (if node = NULL then Some (Inr k)
      else case load h node of
        Inl e \<Rightarrow> Some (Inl e)
      | Inr b \<Rightarrow>
          (case DEBUG R B dbflags DB_MEMORY ''* %08x (%08x)\<newline>'' [A_int (pageno b), A_int (bk_size b)] k of
             Inl e \<Rightarrow> Some (Inl e)
           | Inr k \<Rightarrow> vm_debug_loop R B dbflags h (next_ptr b) k))"

definition vm_debug :: "(u8 \<Rightarrow> int) \<Rightarrow> 'd bus \<Rightarrow> u32 \<Rightarrow> vm_state \<Rightarrow> 'd con \<Rightarrow> 'd con res" where
  "vm_debug R B dbflags s k =
     bindE (DEBUG R B dbflags DB_MEMORY ''VM DEBUG:\<newline>'' [] k) (\<lambda>k.
     loop_result (vm_debug_loop R B dbflags (bucket_heap s) (vm_kernel_buckets s) k))"

text \<open>
  \<^verbatim>\<open>print_stacktrace\<close> of \<^verbatim>\<open>common.c\<close>, which is not called. The pointer \<^verbatim>\<open>x\<close> of the loop hides the number \<^verbatim>\<open>x\<close> before
  it, and \<^verbatim>\<open>&x\<close> is the address \<open>p\<close> of that pointer itself, which each turn stores into memory before it
  reads.
\<close>

definition stack_line :: "(u8 \<Rightarrow> int) \<Rightarrow> 'd bus \<Rightarrow> u32 \<Rightarrow> (u32 \<Rightarrow> u32) \<Rightarrow> nat \<Rightarrow> 'd con \<Rightarrow> 'd con res" where
  "stack_line R B p m i k =
     (let x = p + 4 * of_nat i;
          m = m(p := x)
      in print_fmt R B ''%08x: %08x\<newline>'' [A_int x, A_int (m x)] k)"

definition print_stacktrace :: "(u8 \<Rightarrow> int) \<Rightarrow> 'd bus \<Rightarrow> u32 \<Rightarrow> (u32 \<Rightarrow> u32) \<Rightarrow> 'd con \<Rightarrow> 'd con res" where
  "print_stacktrace R B p m k = for_each [0..<20] (stack_line R B p m) k"

section \<open>Code that only prints\<close>

definition says :: "'d bus \<Rightarrow> ('d \<Rightarrow> uart) \<Rightarrow> ('d con \<Rightarrow> 'd con res) \<Rightarrow> u8 list \<Rightarrow> bool" where
  "says B u f xs \<longleftrightarrow> (\<forall>k. con_ready B u k \<longrightarrow> (\<exists>k'. f k = Inr k' \<and> con_ready B u k' \<and> wrote u k xs k'))"

lemma saysD: "says B u f xs \<Longrightarrow> con_ready B u k \<Longrightarrow> \<exists>k'. f k = Inr k' \<and> con_ready B u k' \<and> wrote u k xs k'"
  by (simp add: says_def)

lemma says_fmt:
  "\<forall>c. 0 \<le> R c \<Longrightarrow> render (chars format) args = Some out \<Longrightarrow> length format < 2 ^ 31 - 1 \<Longrightarrow> says B u (print_fmt R B format args) out"
  using print_fmt_ready by (fastforce simp: says_def)

lemma says_nothing: "says B u Inr []"
  by (simp add: says_def wrote_nil)

lemma says_seq:
  assumes "says B u f xs" "says B u g ys"
  shows "says B u (\<lambda>k. bindE (f k) g) (xs @ ys)"
  unfolding says_def
proof (intro allI impI)
  fix k assume "con_ready B u k"
  from saysD [OF assms(1) this] obtain k1 where k1: "f k = Inr k1" "con_ready B u k1" "wrote u k xs k1" by blast
  from saysD [OF assms(2) k1(2)] obtain k2 where "g k1 = Inr k2" "con_ready B u k2" "wrote u k1 ys k2" by blast
  then show "\<exists>k'. bindE (f k) g = Inr k' \<and> con_ready B u k' \<and> wrote u k (xs @ ys) k'"
    using k1 wrote_append by fastforce
qed

lemma says_each:
  assumes "\<And>i. i \<in> set is \<Longrightarrow> says B u (f i) (out i)"
  shows "says B u (for_each is f) (concat (List.map out is))"
  using assms
proof (induction "is")
  case (Cons i "is")
  then have "says B u (\<lambda>k. bindE (f i k) (for_each is f)) (out i @ concat (List.map out is))" by (intro says_seq) simp_all
  then show ?case by (simp add: says_def)
qed (simp add: says_def wrote_nil)

section \<open>Specification\<close>

text \<open>A level of the buddy allocator in 64 columns, one for each frame; a block is marked in its first.\<close>

definition level_row :: "pmm_state \<Rightarrow> nat \<Rightarrow> u8 list" where
  "level_row s i =
     concat (List.map (\<lambda>j. (if j \<in> bs_set (buddies s ! i) then 0x23 else 0x2E) # replicate (2 ^ i - 1) 0x20) [0..<2 ^ (6 - i)])"

definition labelled :: "nat \<Rightarrow> u8 list \<Rightarrow> u8 list" where
  "labelled i row = number (of_nat i) 10 True 0 0x20 @ chars '': '' @ row @ chars ''\<newline>''"

definition dump_line :: "u32 \<Rightarrow> u32 \<Rightarrow> u8 list" where
  "dump_line x v = number x 16 False 8 0x30 @ chars '': '' @ number v 16 False 8 0x30 @ chars ''\<newline>''"

definition range_line :: "range \<Rightarrow> u8 list" where
  "range_line r = chars ''* '' @ number (of_nat (fst r)) 16 False 8 0x30 @ chars '' ('' @ number (of_nat (snd r)) 16 False 8 0x30 @ chars '')\<newline>''"

definition range_list :: "range list \<Rightarrow> u8 list" where
  "range_list rs = chars ''VM DEBUG:\<newline>'' @ concat (List.map range_line rs)"

section \<open>The levels\<close>

lemma chunks:
  assumes "\<And>j. length (g j) = m"
  shows "length (concat (List.map g [0..<n])) = n * m" and "j < n \<Longrightarrow> 0 < m \<Longrightarrow> concat (List.map g [0..<n]) ! (j * m) = g j ! 0"
proof -
  show len: "length (concat (List.map g [0..<n])) = n * m" for n by (induction n) (simp_all add: assms)
  show "j < n \<Longrightarrow> 0 < m \<Longrightarrow> concat (List.map g [0..<n]) ! (j * m) = g j ! 0"
  proof (induction n)
    case (Suc n)
    then show ?case by (cases "j = n") (simp_all add: nth_append len)
  qed simp
qed

lemma level_row_column:
  assumes "i < 7"
  shows "length (level_row s i) = 64"
    and "f < 64 \<Longrightarrow> level_row s i ! (f div 2 ^ i * 2 ^ i) = 0x23 \<longleftrightarrow> marked s i f"
proof -
  have e: "(2 :: nat) ^ (6 - i) * 2 ^ i = 64" using assms by (simp flip: power_add)
  have one: "Suc (2 ^ i - Suc 0) = 2 ^ i" by simp
  note c = chunks [where g = "\<lambda>j. (if j \<in> bs_set (buddies s ! i) then 0x23 else 0x2E) # replicate (2 ^ i - 1) (0x20 :: u8)" and m = "2 ^ i"]
  show "length (level_row s i) = 64" unfolding level_row_def by (subst c(1)) (simp_all add: one e)
  show "level_row s i ! (f div 2 ^ i * 2 ^ i) = 0x23 \<longleftrightarrow> marked s i f" if "f < 64"
  proof -
    have "f div 2 ^ i < 2 ^ (6 - i)" using that by (simp add: less_mult_imp_div_less e)
    then show ?thesis unfolding level_row_def by (subst c(2)) (simp_all add: one marked_def)
  qed
qed

lemma block_says:
  assumes "\<forall>c. 0 \<le> R c" "pmm_inv s" "0 < frames s" "i < 7" "j < 2 ^ (6 - i)"
  shows "says B u (pmm_debug_block R B s i j) ((if j \<in> bs_set (buddies s ! i) then 0x23 else 0x2E) # replicate (2 ^ i - 1) 0x20)"
proof -
  have wf: "i < length (buddies s)" "bitset_wf (buddies s ! i)" "bs_cap (buddies s ! i) = frames s div 2 ^ i" "2 ^ 6 dvd frames s"
    using assms(2,4) by (simp_all add: pmm_inv_def PMM_NUM_BUDDIES_def)
  have "64 \<le> frames s" using wf(4) assms(3) by (auto dest: dvd_imp_le)
  then have "(64 :: nat) div 2 ^ i \<le> bs_cap (buddies s ! i)" unfolding wf(3) by (rule div_le_mono)
  moreover have "(64 :: nat) div 2 ^ i = 2 ^ (6 - i)" using assms(4) power_diff [of "2 :: nat" i 6] by simp
  ultimately have "j < bs_cap (buddies s ! i)" using assms(5) by simp
  moreover have j: "unat (of_nat j :: u32) = j"
    using assms(5) power_increasing [of "6 - i" 6 "2 :: nat"] by (simp add: unat_of_nat take_bit_eq_mod)
  ultimately have rd: "bitset_read (buddies s ! i) (of_nat j) = Inr (j \<in> bs_set (buddies s ! i))"
    using bitset_read_spec [OF wf(2), of "of_nat j"] by simp
  let ?c = "chars (if j \<in> bs_set (buddies s ! i) then ''#'' else ''.'')"
  have "render (chars ''%s'') [A_str ?c] = Some ?c" by (simp add: render_simps field_def)
  note one = says_fmt [OF assms(1) this]
  have "render (chars '' '') [] = Some [0x20]" by (simp add: render_simps)
  note blank = says_fmt [OF assms(1) this]
  have "says B u (\<lambda>k. bindE (print_fmt R B ''%s'' [A_str ?c] k) (for_each [0..<2 ^ i - 1] (\<lambda>_. print_fmt R B '' '' [])))
      (?c @ concat (List.map (\<lambda>_. [0x20]) [0..<2 ^ i - 1 :: nat]))"
    by (intro says_seq says_each one blank) simp_all
  moreover have "concat (List.map (\<lambda>_. [0x20]) [0..<n :: nat]) = replicate n (0x20 :: u8)" for n
    by (induction n) (simp_all add: replicate_append_same)
  ultimately show ?thesis
    using wf(1) rd by (simp add: says_def pmm_debug_block_def get_buddy_def chars_def split: if_splits)
qed

lemma level_says:
  assumes "\<forall>c. 0 \<le> R c" "pmm_inv s" "0 < frames s" "i < 7"
  shows "says B u (pmm_debug_level R B s i) (labelled i (level_row s i))"
proof -
  have "unat (of_nat i :: u32) < 2 ^ 31" using assms(4) by (simp add: unat_of_nat take_bit_eq_mod)
  then have "render (chars ''%d: '') [A_int (of_nat i)] = Some (number (of_nat i) 10 True 0 0x20 @ chars '': '')"
    using small_not_min [of "of_nat i"] by (simp add: render_simps)
  note l = says_fmt [OF assms(1) this]
  have "render (chars ''\<newline>'') [] = Some (chars ''\<newline>'')" by (simp add: render_simps)
  note e = says_fmt [OF assms(1) this]
  have "says B u (\<lambda>k. bindE (print_fmt R B ''%d: '' [A_int (of_nat i)] k)
      (\<lambda>k. bindE (for_each [0..<2 ^ (6 - i)] (pmm_debug_block R B s i) k) (print_fmt R B ''\<newline>'' [])))
      ((number (of_nat i) 10 True 0 0x20 @ chars '': '') @ level_row s i @ chars ''\<newline>'')"
    unfolding level_row_def by (intro says_seq says_each l e block_says assms) simp_all
  then show ?thesis by (simp add: says_def pmm_debug_level_def labelled_def)
qed

section \<open>Address spaces and ranges\<close>

text \<open>\<^verbatim>\<open>debug_as\<close> on the kernel's address space prints three lines about an address and returns.\<close>

lemma debug_as_says:
  assumes "\<forall>c. 0 \<le> R c" "paging_inv L p"
  shows "\<exists>out. says B u (debug_as R B L p (current_as p) addr) out"
proof -
  let ?a = "vm_first_as p" and ?de = "page_directory p ! unat (drop_bit 22 addr)"
  have as: "deref_as (current_as p) p = Inr ?a" "directory ?a = KERNEL_PAGE_DIRECTORY L"
    using assms(2) by (auto simp: paging_inv_def paging_wf_def kernel_mapped_def deref_as_def)
  note ne = ucast_not_min [of "pde_present ?de"] ucast_not_min [of "pde_rw ?de"] ucast_not_min [of "pde_page_size ?de"]
    ucast_not_min [of "pde_page_table ?de"]
  let ?f1 = "print_fmt R B ''addr: %08x DIR: %d TAB: %d PAG: %d\<newline>''
    [A_int addr, A_int (drop_bit 22 addr), A_int (drop_bit 12 addr AND MASK 10), A_int (addr AND MASK 12)]"
  let ?f2 = "print_fmt R B ''Directory: %08x %08x\<newline>'' [A_int (directory ?a), A_int (directory_phys ?a)]"
  let ?f3 = "print_fmt R B ''PDE: P: %d R/W: %d PS: %d Tab: %d\<newline>'' [A_int (ucast (pde_present ?de)), A_int (ucast (pde_rw ?de)),
    A_int (ucast (pde_page_size ?de)), A_int (ucast (pde_page_table ?de))]"
  have "\<exists>out. says B u ?f1 out" "\<exists>out. says B u ?f2 out" "\<exists>out. says B u ?f3 out"
    by (rule exI, rule says_fmt [OF assms(1)], simp add: render_simps address_parts ne, simp)+
  then obtain x1 x2 x3 where "says B u ?f1 x1" "says B u ?f2 x2" "says B u ?f3 x3" by blast
  then have "says B u (\<lambda>k. bindE (?f1 k) (\<lambda>k. bindE (?f2 k) ?f3)) (x1 @ x2 @ x3)" by (intro says_seq)
  then show ?thesis by (intro exI) (simp add: says_def debug_as_def Let_def as)
qed

lemma DEBUG_off: "\<not> bit dbflags 0 \<Longrightarrow> DEBUG R B dbflags DB_MEMORY format args = Inr"
  and DEBUG_on: "bit dbflags 0 \<Longrightarrow> DEBUG R B dbflags DB_MEMORY format args = print_fmt R B format args"
  by (auto simp: DEBUG_def DB_MEMORY_def fun_eq_iff and_one_eq bit_0 odd_iff_mod_2_eq_one even_iff_mod_2_eq_zero)

lemma range_says:
  assumes "\<forall>c. 0 \<le> R c" "h x = Some b"
  shows "says B u (print_fmt R B ''* %08x (%08x)\<newline>'' [A_int (pageno b), A_int (bk_size b)]) (range_line (range_at h x))"
proof (rule says_fmt [OF assms(1)])
  show "render (chars ''* %08x (%08x)\<newline>'') [A_int (pageno b), A_int (bk_size b)] = Some (range_line (range_at h x))"
    using assms(2) by (simp add: range_line_def range_at_Some render_simps)
qed simp

lemma vm_debug_loop_says:
  assumes "\<forall>c. 0 \<le> R c" "bit dbflags 0" "dseg h q p xs NULL"
  shows "says B u (\<lambda>k. loop_result (vm_debug_loop R B dbflags h p k)) (concat (List.map range_line (ranges h xs)))"
  using assms(3)
proof (induction xs arbitrary: q p)
  case Nil
  then show ?case by (simp add: says_def vm_debug_loop.simps wrote_nil)
next
  case (Cons x xs)
  then obtain b where b: "p = x" "x \<noteq> NULL" "h x = Some b" "dseg h x (next_ptr b) xs NULL" by auto
  let ?line = "print_fmt R B ''* %08x (%08x)\<newline>'' [A_int (pageno b), A_int (bk_size b)]"
  have "loop_result (vm_debug_loop R B dbflags h p k) =
      bindE (?line k) (\<lambda>k. loop_result (vm_debug_loop R B dbflags h (next_ptr b) k))" for k
    using b by (subst vm_debug_loop.simps) (simp add: DEBUG_on [OF assms(2)] load_def bindE_def split: sum.splits)
  moreover have "says B u (\<lambda>k. bindE (?line k) (\<lambda>k. loop_result (vm_debug_loop R B dbflags h (next_ptr b) k)))
      (range_line (range_at h x) @ concat (List.map range_line (ranges h xs)))"
    by (intro says_seq range_says assms(1) b(3) Cons.IH [OF b(4)])
  ultimately show ?case by simp
qed

lemma vm_debug_loop_off:
  assumes "\<not> bit dbflags 0" "dseg h q p xs NULL"
  shows "vm_debug_loop R B dbflags h p k = Some (Inr k)"
  using assms(2)
proof (induction xs arbitrary: q p)
  case Nil
  then show ?case by (simp add: vm_debug_loop.simps)
next
  case (Cons x xs)
  then obtain b where "p = x" "x \<noteq> NULL" "h x = Some b" "dseg h x (next_ptr b) xs NULL" by auto
  then show ?case using Cons.IH by (subst vm_debug_loop.simps) (simp add: DEBUG_off [OF assms(1)] load_def)
qed

text \<open>
  \<^verbatim>\<open>vm_debug\<close> lists the free page ranges in their order when the memory flag of \<^verbatim>\<open>dbflags\<close> is set, and
  without it returns and writes nothing.
\<close>

lemma vm_debug_lists:
  assumes "con_ready B u k" "\<forall>c. 0 \<le> R c" "vm_inv L s xs ws"
  shows "(bit dbflags 0 \<longrightarrow> (\<exists>k'. vm_debug R B dbflags s k = Inr k' \<and> con_ready B u k' \<and> wrote u k (range_list (free_ranges s xs)) k')) \<and>
    (\<not> bit dbflags 0 \<longrightarrow> vm_debug R B dbflags s k = Inr k)"
proof -
  have d: "dseg (bucket_heap s) NULL (vm_kernel_buckets s) xs NULL" using assms(3) by (simp add: vm_inv_def vm_lists_def dll_def)
  have "render (chars ''VM DEBUG:\<newline>'') [] = Some (chars ''VM DEBUG:\<newline>'')" by (simp add: render_simps)
  note h = says_fmt [OF assms(2) this]
  show ?thesis
  proof (intro conjI impI)
    assume b: "bit dbflags 0"
    have "says B u (\<lambda>k. bindE (print_fmt R B ''VM DEBUG:\<newline>'' [] k)
        (\<lambda>k. loop_result (vm_debug_loop R B dbflags (bucket_heap s) (vm_kernel_buckets s) k))) (range_list (free_ranges s xs))"
      unfolding range_list_def free_ranges_def by (intro says_seq h vm_debug_loop_says [OF assms(2) b d]) simp
    from saysD [OF this assms(1)] show "\<exists>k'. vm_debug R B dbflags s k = Inr k' \<and> con_ready B u k' \<and> wrote u k (range_list (free_ranges s xs)) k'"
      by (simp add: vm_debug_def DEBUG_on [OF b])
  next
    assume n: "\<not> bit dbflags 0"
    show "vm_debug R B dbflags s k = Inr k" by (simp add: vm_debug_def DEBUG_off [OF n] vm_debug_loop_off [OF n d])
  qed
qed

section \<open>Properties\<close>

text \<open>
  \<^verbatim>\<open>pmm_debug\<close> returns on a working console and shows the first 64 frames: a line for each of the seven
  levels, 64 columns wide, and a frame is free exactly when the block it lies in is marked on one of them.
\<close>

lemma pmm_debug_shows:
  assumes "con_ready B u k" "\<forall>c. 0 \<le> R c" "pmm_inv s" "0 < frames s"
  shows "\<exists>k' rows. pmm_debug R B s k = Inr k' \<and> con_ready B u k' \<and>
    wrote u k (concat (List.map (\<lambda>i. labelled i (rows i)) [0..<7])) k' \<and>
    (\<forall>i < 7. length (rows i) = 64) \<and>
    (\<forall>f < 64. f \<in> free_frames s \<longleftrightarrow> (\<exists>i < 7. rows i ! (f div 2 ^ i * 2 ^ i) = 0x23))"
proof -
  have "pmm_debug R B s = for_each [0..<7] (pmm_debug_level R B s)" by (simp add: pmm_debug_def PMM_NUM_BUDDIES_def fun_eq_iff)
  then have "says B u (pmm_debug R B s) (concat (List.map (\<lambda>i. labelled i (level_row s i)) [0..<7]))"
    by (simp only:, intro says_each level_says assms) simp
  from saysD [OF this assms(1)] obtain k' where
    "pmm_debug R B s k = Inr k'" "con_ready B u k'" "wrote u k (concat (List.map (\<lambda>i. labelled i (level_row s i)) [0..<7])) k'" by blast
  moreover have "f \<in> free_frames s \<longleftrightarrow> (\<exists>i < 7. level_row s i ! (f div 2 ^ i * 2 ^ i) = 0x23)" if "f < 64" for f
    using level_row_column(2) [OF _ that] by (auto simp: free_frames_def PMM_NUM_BUDDIES_def)
  ultimately show ?thesis using level_row_column(1) by blast
qed

text \<open>The stack dump shows twenty double words from the loop's pointer on, the first of which is that pointer.\<close>

lemma print_stacktrace_shows:
  assumes "\<forall>c. 0 \<le> R c"
  shows "says B u (print_stacktrace R B p m)
    (concat (List.map (\<lambda>i. dump_line (p + 4 * of_nat i) (if i = 0 then p else m (p + 4 * of_nat i))) [0..<20]))"
proof -
  have "says B u (stack_line R B p m i) (dump_line (p + 4 * of_nat i) (if i = 0 then p else m (p + 4 * of_nat i)))"
    if "i \<in> set [0..<20]" for i
  proof -
    have "unat (4 * of_nat i :: u32) = 4 * i" using that by (simp add: unat_u32_mult unat_u32_of_nat)
    then have "4 * of_nat i = (0 :: u32) \<longleftrightarrow> i = 0" by (metis mult_is_0 unat_eq_0 zero_neq_numeral)
    then have "(m(p := p + 4 * of_nat i)) (p + 4 * of_nat i) = (if i = 0 then p else m (p + 4 * of_nat i))" by simp
    then show ?thesis unfolding stack_line_def Let_def by (intro says_fmt [OF assms]) (simp_all add: render_simps dump_line_def)
  qed
  then show ?thesis using says_each [of "[0..<20]" B u "stack_line R B p m"] by (simp add: print_stacktrace_def [abs_def])
qed

end
