(* ===== verification/Decimal.thy ===== *)
theory Decimal
  imports Printf Colors
begin

text \<open>
  \<^verbatim>\<open>%f\<close> on exact arithmetic: what \<^verbatim>\<open>print_double\<close> of \<^verbatim>\<open>libc/stdio/printf.c\<close> writes for a real number, and for
  which numbers its conversions to \<^verbatim>\<open>int\<close> overflow.
\<close>

section \<open>Real numbers as floating-point arguments\<close>

primcorec double_of :: "real \<Rightarrow> double" where
  "dbl_neg (double_of x) \<longleftrightarrow> x < 0"
| "dbl_int (double_of x) =
     (if - (2 ^ 31) \<le> toward_zero x \<and> toward_zero x < 2 ^ 31 then Some (word_of_int (toward_zero x)) else None)"
| "dbl_minus (double_of x) = double_of (- x)"
| "dbl_times10 (double_of x) = double_of (10 * x)"

lemma dbl_int_fits:
  assumes "0 \<le> x" "x < 2 ^ 31"
  obtains k where "dbl_int (double_of x) = Some k" "sint k = \<lfloor>x\<rfloor>" "unat k = nat \<lfloor>x\<rfloor>" "0 \<le> \<lfloor>x\<rfloor>"
proof -
  have f: "0 \<le> \<lfloor>x\<rfloor>" "\<lfloor>x\<rfloor> < 2 ^ 31" using assms by (simp_all add: floor_less_iff)
  then have "sint (word_of_int \<lfloor>x\<rfloor> :: u32) = \<lfloor>x\<rfloor>" by (simp add: sint_sbintrunc' signed_take_bit_int_eq_self)
  moreover have "unat (word_of_int \<lfloor>x\<rfloor> :: u32) = nat \<lfloor>x\<rfloor>"
    using f by (simp add: unat_eq_nat_uint uint_word_of_int)
  ultimately show thesis using that [of "word_of_int \<lfloor>x\<rfloor>"] f assms(1) by (simp add: toward_zero_def)
qed

lemma dbl_int_overflows: "2 ^ 31 \<le> x \<Longrightarrow> dbl_int (double_of x) = None"
  by (simp add: toward_zero_def le_floor_iff not_less)

lemma magnitude: "(if dbl_neg (double_of x) then dbl_minus (double_of x) else double_of x) = double_of \<bar>x\<bar>"
  by simp

section \<open>Decimals\<close>

lemma floor_shift: "10 * \<lfloor>y\<rfloor> + \<lfloor>10 * y\<rfloor> mod 10 = \<lfloor>10 * y :: real\<rfloor>"
  using floor_divide_real_eq_div [of 10 "10 * y"] by (simp add: mult_div_mod_eq)

lemma decimals_value:
  assumes "0 \<le> y" "y * 10 ^ n < 2 ^ 31" "int a = \<lfloor>y\<rfloor>"
  shows "\<exists>es. decimals n (double_of y) = Some es \<and> length es = n \<and>
    int (foldl (\<lambda>a c. a * 10 + digit_value c) a es) = \<lfloor>y * 10 ^ n\<rfloor>"
  using assms
proof (induction n arbitrary: y a)
  case (Suc n)
  have "10 * y * 1 \<le> 10 * y * 10 ^ n" using Suc.prems(1) by (intro mult_left_mono) simp_all
  then have y: "0 \<le> 10 * y" "10 * y < 2 ^ 31" using Suc.prems(1,2) by (simp_all add: mult.assoc mult.left_commute)
  from dbl_int_fits [OF y] obtain k where k: "dbl_int (double_of (10 * y)) = Some k" "sint k = \<lfloor>10 * y\<rfloor>" "0 \<le> \<lfloor>10 * y\<rfloor>" .
  let ?c = "nat \<lfloor>10 * y\<rfloor> mod 10"
  have "int (a * 10 + ?c) = \<lfloor>10 * y\<rfloor>" using Suc.prems(3) floor_shift [of y] k(3) by (simp add: zmod_int)
  moreover have "digit_value (hexchars ! ?c) = ?c" by (rule digit_value_hexchars) (simp add: less_trans [OF pos_mod_bound])
  moreover have "10 * y * 10 ^ n < 2 ^ 31" using Suc.prems(2) by (simp add: mult.assoc mult.left_commute)
  ultimately obtain es where "decimals n (double_of (10 * y)) = Some es" "length es = n"
    "int (foldl (\<lambda>a c. a * 10 + digit_value c) (a * 10 + digit_value (hexchars ! ?c)) es) = \<lfloor>10 * y * 10 ^ n\<rfloor>"
    using Suc.IH [OF y(1), of "a * 10 + ?c"] by auto
  then show ?case using k by (intro exI [of _ "hexchars ! ?c # es"]) (simp add: mult.assoc mult.left_commute)
qed simp

lemma decimal_loop_overflows:
  assumes "total_out P" "0 \<le> y" "y < 2 ^ 31" "2 ^ 31 \<le> y * 10 ^ n"
  shows "decimal_loop P n (double_of y) s = Inl (Undefined ''print_double: conversion'')"
  using assms(2-)
proof (induction n arbitrary: y s)
  case (Suc n)
  show ?case
  proof (cases "10 * y < 2 ^ 31")
    case True
    then obtain k where k: "dbl_int (double_of (10 * y)) = Some k" "sint k = \<lfloor>10 * y\<rfloor>" "0 \<le> \<lfloor>10 * y\<rfloor>"
      using dbl_int_fits [of "10 * y"] Suc.prems(1) by auto
    obtain s' where "put P (hexchars ! nat (sint k mod 10)) s = Inr s'"
      using put_total [OF assms(1)] by blast
    moreover have "\<not> sint k mod 10 < 0" by simp
    ultimately show ?thesis
      using k Suc.IH [of "10 * y" s'] Suc.prems True by (simp add: dbl_to_int_def smod_ten mult.assoc mult.left_commute)
  next
    case False
    then show ?thesis using dbl_int_overflows [of "10 * y"] by (simp add: dbl_to_int_def)
  qed
qed simp

section \<open>Properties\<close>



text \<open>
  For a larger number a conversion to \<^verbatim>\<open>int\<close> is out of range: with six decimals, which is what
  \<^verbatim>\<open>%f\<close> means, from 2147.483648 on.
\<close>

lemma print_double_overflow:
  assumes "total_out P" "p \<le> 10" "2 ^ 31 \<le> \<bar>x\<bar> * 10 ^ p"
  shows "print_double P (double_of x) w (int p) pad s = Inl (Undefined ''print_double: conversion'')"
proof -
  obtain r s1 where s1: "(if x < 0 then P 0x2D s else Inr (0, s)) = Inr (r, s1)" "0 \<le> r"
    using assms(1) [unfolded total_out_def, rule_format, of "0x2D" s] that [of 0 s] by (cases "x < 0") auto
  have p: "(if 10 < int p then 10 else int p) = int p" using assms(2) by simp
  show ?thesis
  proof (cases "\<bar>x\<bar> < 2 ^ 31")
    case True
    then obtain n where n: "dbl_int (double_of \<bar>x\<bar>) = Some n" using dbl_int_fits [of "\<bar>x\<bar>"] by auto
    have "printable n (unat (10 :: u32)) False" by (simp add: printable_def)
    note pi = print_int_ok [OF total_never_negative [OF assms(1)] this]
    from for_each_put_total [OF assms(1)] obtain s2 where
      s2: "print_int P n 10 False ((if x < 0 then w - 1 else w) - int p - 1) pad s1 = Inr s2" unfolding pi by blast
    from put_total [OF assms(1)] obtain s3 where "put P 0x2E s2 = Inr s3" by blast
    then show ?thesis
      unfolding print_double_def p Let_def magnitude
      using s1 s2 n decimal_loop_overflows [OF assms(1) _ True assms(3)] by (simp add: dbl_to_int_def)
  next
    case False
    then show ?thesis
      unfolding print_double_def p Let_def magnitude
      using s1 dbl_int_overflows [of "\<bar>x\<bar>"] by (simp add: dbl_to_int_def)
  qed
qed

end
