(* ===== verification/Boot.thy ===== *)
theory Boot
  imports Isr
begin

text \<open>
  The boot code \<^verbatim>\<open>kernel/kernel/boot.asm\<close>, from the entry \<^verbatim>\<open>maos_start\<close> in the boot loader's hands to the call of
  \<^verbatim>\<open>kernel_main\<close>. Memory consists of double words; an access goes through \<open>translate\<close>, the processor's
  address translation with its control registers, which is the identity until paging is enabled. The
  address the linker gives the bss section (\<open>sb\<close>, of \<^verbatim>\<open>stack_bottom\<close>) and that of the label \<^verbatim>\<open>paged\<close> are
  parameters. The translation cache is not modelled.
\<close>

section \<open>Constants and layout\<close>

definition MB_FLAGS :: u32 where
  "MB_FLAGS = push_bit 0 1 OR push_bit 1 1 OR push_bit 2 1"

definition MB_MAGIC :: u32 where
  "MB_MAGIC = 0x1BADB002"

definition MB_CHECKSUM :: u32 where
  "MB_CHECKSUM = - (MB_MAGIC + MB_FLAGS)"

definition multiboot_header :: "u32 list" where
  "multiboot_header = [MB_MAGIC, MB_FLAGS, MB_CHECKSUM, 0, 0, 0, 0, 0, 0, 640, 400, 32]"

definition PT_P :: u32 where
  "PT_P = push_bit 0 1"

definition PT_RW :: u32 where
  "PT_RW = push_bit 1 1"

definition PT_PS :: u32 where
  "PT_PS = push_bit 7 1"

definition VM_OFFSET :: u32 where
  "VM_OFFSET = 0xC0000000"

definition CR0_PG :: u32 where
  "CR0_PG = push_bit 31 1"

definition CR4_PSE :: u32 where
  "CR4_PSE = push_bit 4 1"

definition stack_top :: "vaddr_t \<Rightarrow> vaddr_t" where
  "stack_top sb = sb + 16 * 1024"

definition KERNEL_BOOT_PAGE_DIRECTORY :: "vaddr_t \<Rightarrow> vaddr_t" where
  "KERNEL_BOOT_PAGE_DIRECTORY sb = stack_top sb"

definition KERNEL_BSS_ZERO_END :: "vaddr_t \<Rightarrow> vaddr_t" where
  "KERNEL_BSS_ZERO_END sb = KERNEL_BOOT_PAGE_DIRECTORY sb + 4096 + 4096 + 4 * 1024 * 1024"

definition phys_boot_page_directory :: "vaddr_t \<Rightarrow> paddr_t" where
  "phys_boot_page_directory sb = KERNEL_BOOT_PAGE_DIRECTORY sb - VM_OFFSET"

section \<open>The processor\<close>

record boot_state =
  mem :: "paddr_t \<Rightarrow> u32"
  b_cr0 :: u32
  b_cr3 :: u32
  b_cr4 :: u32
  b_esp :: u32

text \<open>The translation of 32-bit paging, with 4 MiB pages if the page size extension is enabled.\<close>

definition translate :: "boot_state \<Rightarrow> vaddr_t \<Rightarrow> paddr_t option" where
  "translate s va =
     (if \<not> bit (b_cr0 s) 31 then Some va
      else
        let e = mem s ((b_cr3 s AND 0xFFFFF000) + 4 * drop_bit 22 va) in
        if \<not> bit e 0 then None
        else if bit e 7 \<and> bit (b_cr4 s) 4 then Some ((e AND 0xFFC00000) OR (va AND 0x3FFFFF))
        else
          let t = mem s ((e AND 0xFFFFF000) + 4 * (drop_bit 12 va AND 0x3FF)) in
          if \<not> bit t 0 then None else Some ((t AND 0xFFFFF000) OR (va AND 0xFFF)))"

definition store :: "vaddr_t \<Rightarrow> u32 \<Rightarrow> boot_state \<Rightarrow> boot_state res" where
  "store va v s =
     (case translate s va of
        None \<Rightarrow> Inl (Undefined ''page fault'')
      | Some pa \<Rightarrow> Inr (s\<lparr>mem := (mem s)(pa := v)\<rparr>))"

text \<open>The next instruction is fetched from this physical address.\<close>

definition fetch :: "vaddr_t \<Rightarrow> paddr_t \<Rightarrow> boot_state \<Rightarrow> boot_state res" where
  "fetch va pa s = (if translate s va = Some pa then Inr s else Inl (Undefined ''instruction fetch''))"

section \<open>The boot code\<close>

text \<open>The loops test at their end, with the signed comparison \<^verbatim>\<open>jl\<close>.\<close>

partial_function (option) loop_fill_zeros :: "u32 \<Rightarrow> u32 \<Rightarrow> boot_state \<Rightarrow> boot_state res option" where
  "loop_fill_zeros edi ecx s =
     (case store edi 0 s of
        Inl e \<Rightarrow> Some (Inl e)
      | Inr s \<Rightarrow> (if edi + 4 <s ecx then loop_fill_zeros (edi + 4) ecx s else Some (Inr s)))"

partial_function (option) loop_page_directory :: "u32 \<Rightarrow> u32 \<Rightarrow> u32 \<Rightarrow> boot_state \<Rightarrow> boot_state res option" where
  "loop_page_directory edi ecx eax s =
     (case store (edi + ecx * 4 + 0x300 * 4) eax s of
        Inl e \<Rightarrow> Some (Inl e)
      | Inr s \<Rightarrow> (if ecx + 1 <s 2 then loop_page_directory edi (ecx + 1) (eax + push_bit 22 1) s else Some (Inr s)))"

definition maos_start :: "vaddr_t \<Rightarrow> vaddr_t \<Rightarrow> u32 \<Rightarrow> boot_state \<Rightarrow> boot_state res" where
  "maos_start sb paged ebx s =
     bindE (loop_result (loop_fill_zeros (KERNEL_BOOT_PAGE_DIRECTORY sb - VM_OFFSET) (KERNEL_BSS_ZERO_END sb - VM_OFFSET) s)) (\<lambda>s.
     let edi = phys_boot_page_directory sb;
         eax = PT_P OR PT_RW OR PT_PS
     in
     bindE (store edi eax s) (\<lambda>s.
     bindE (loop_result (loop_page_directory edi 0 eax s)) (\<lambda>s.
     let s = s\<lparr>b_cr3 := phys_boot_page_directory sb\<rparr>;
         s = s\<lparr>b_cr4 := b_cr4 s OR CR4_PSE\<rparr>;
         s = s\<lparr>b_cr0 := b_cr0 s OR CR0_PG\<rparr>
     in
     bindE (fetch (paged - VM_OFFSET - 1) (paged - VM_OFFSET - 1) s) (\<lambda>s.
     bindE (fetch paged (paged - VM_OFFSET) s) (\<lambda>s.
     bindE (store (KERNEL_BOOT_PAGE_DIRECTORY sb) 0 s) (\<lambda>s.
     bindE (fetch paged (paged - VM_OFFSET) s) (\<lambda>s.
     let esp = stack_top sb - 4 in
     store esp (ebx + VM_OFFSET) (s\<lparr>b_esp := esp\<rparr>))))))))"

section \<open>Specification\<close>

text \<open>
  The kernel's image and its bss section lie behind the first megabyte of the kernel half and within
  the 8 MiB that are mapped, and the boot code in the first 4 MiB.
\<close>

definition boot_layout :: "vaddr_t \<Rightarrow> vaddr_t \<Rightarrow> bool" where
  "boot_layout sb paged \<longleftrightarrow>
     unat sb mod 4096 = 0 \<and> 0xC0100000 < paged \<and> paged < 0xC0400000 \<and> paged < sb \<and>
     unat sb + 0x40A000 \<le> 0xC0800000"

text \<open>The addresses of the page structures.\<close>

definition boot_linkage :: "vaddr_t \<Rightarrow> vaddr_t \<Rightarrow> linkage" where
  "boot_linkage sb bucket = \<lparr>KERNEL_PAGE_DIRECTORY = KERNEL_BOOT_PAGE_DIRECTORY sb + 4096,
     KERNEL_PAGE_TABLES = KERNEL_BOOT_PAGE_DIRECTORY sb + 4096 + 4096, first_bucket_addr = bucket\<rparr>"

text \<open>Page structures in memory, as the model of \<open>Paging\<close> has them.\<close>

definition holds_paging :: "linkage \<Rightarrow> boot_state \<Rightarrow> paging_state \<Rightarrow> bool" where
  "holds_paging L s p \<longleftrightarrow>
     b_cr3 s = cr3 p \<and>
     (\<forall>i < 1024. mem s (virtual2phys (KERNEL_PAGE_DIRECTORY L) + 4 * of_nat i) = pde_word (page_directory p ! i)) \<and>
     (\<forall>i < 1024. \<forall>j < 1024. mem s (virtual2phys (table_addr L i) + 4 * of_nat j) = pte_word (page_tables p ! i ! j))"

definition zeroed :: "u32 \<Rightarrow> nat \<Rightarrow> (u32 \<Rightarrow> u32) \<Rightarrow> u32 \<Rightarrow> u32" where
  "zeroed p n m = (\<lambda>a. if a \<in> (\<lambda>i. p + 4 * of_nat i) ` {..<n} then 0 else m a)"

text \<open>A page directory with 4 MiB pages at the two entries of the kernel half, and nothing else.\<close>

definition boot_directory :: "bool \<Rightarrow> paddr_t \<Rightarrow> (u32 \<Rightarrow> u32) \<Rightarrow> bool" where
  "boot_directory ident pd m \<longleftrightarrow>
     (\<forall>i < 1024. m (pd + 4 * of_nat i) = (if i = 0x300 then 0x83 else if i = 0x301 then 0x400083 else
        if i = 0 \<and> ident then 0x83 else 0))"

text \<open>Memory after the two loops, the removal of the identity mapping and the push.\<close>

definition boot_memory :: "bool \<Rightarrow> paddr_t \<Rightarrow> (u32 \<Rightarrow> u32) \<Rightarrow> u32 \<Rightarrow> u32" where
  "boot_memory ident pd m =
     (let m' = (zeroed pd 0x100800 m)(pd := 0x83, pd + 0xC00 := 0x83, pd + 0xC04 := 0x400083)
      in if ident then m' else m'(pd := 0))"

text \<open>The processor with paging on.\<close>

definition boot_on :: "bool \<Rightarrow> vaddr_t \<Rightarrow> boot_state \<Rightarrow> boot_state" where
  "boot_on ident sb s = s\<lparr>mem := boot_memory ident (phys_boot_page_directory sb) (mem s),
     b_cr3 := phys_boot_page_directory sb, b_cr4 := b_cr4 s OR CR4_PSE, b_cr0 := b_cr0 s OR CR0_PG\<rparr>"

definition boot_example :: boot_state where
  "boot_example = \<lparr>mem = (\<lambda>a. 0xDEADBEEF), b_cr0 = 0x11, b_cr3 = 0, b_cr4 = 0, b_esp = 0\<rparr>"

section \<open>The loops\<close>

lemma translate_off: "\<not> bit (b_cr0 s) 31 \<Longrightarrow> translate s va = Some va"
  by (simp add: translate_def)

lemma store_off: "\<not> bit (b_cr0 s) 31 \<Longrightarrow> store va v s = Inr (s\<lparr>mem := (mem s)(va := v)\<rparr>)"
  by (simp add: store_def translate_off)

text \<open>Below 2 GiB the signed comparison is the unsigned one.\<close>

lemma sless_small:
  fixes a b :: u32
  assumes "unat a < 2 ^ 31" "unat b < 2 ^ 31"
  shows "a <s b \<longleftrightarrow> unat a < unat b"
proof -
  have "sint a = int (unat a)" "sint b = int (unat b)" using sint_small [OF assms(1)] sint_small [OF assms(2)] by simp_all
  then show ?thesis by (simp only: word_sless_alt of_nat_less_iff)
qed

lemma unat_dwords:
  fixes p :: u32
  assumes "unat p + 4 * n < 4294967296"
  shows "unat (p + 4 * of_nat n) = unat p + 4 * n"
  using assms by (simp add: unat_u32_add unat_u32_mult unat_u32_of_nat)

lemma zeroed_step: "zeroed (p + 4) n ((m :: u32 \<Rightarrow> u32)(p := 0)) = zeroed p (Suc n) m"
proof -
  have "(\<lambda>i. p + 4 * of_nat i) ` {..<Suc n} = insert p ((\<lambda>i. p + 4 + 4 * of_nat i) ` {..<n})"
    by (simp add: lessThan_Suc_eq_insert_0 image_image algebra_simps)
  then show ?thesis by (auto simp: zeroed_def fun_eq_iff)
qed

lemma loop_fill_zeros_spec:
  assumes "\<not> bit (b_cr0 s) 31" "unat edi + 4 * Suc n < 2 ^ 31"
  shows "loop_fill_zeros edi (edi + 4 * of_nat (Suc n)) s = Some (Inr (s\<lparr>mem := zeroed edi (Suc n) (mem s)\<rparr>))"
  using assms
proof (induction n arbitrary: edi s)
  case 0
  have "zeroed (edi + 4) 0 m = m" for m by (simp add: zeroed_def)
  then have "zeroed edi (Suc 0) (mem s) = (mem s)(edi := 0)" using zeroed_step [of edi 0 "mem s"] by simp
  moreover have "\<not> edi + 4 <s edi + 4" by (simp add: word_sless_alt)
  ultimately show ?case using 0 by (subst loop_fill_zeros.simps) (simp add: store_off)
next
  case (Suc n)
  have u: "unat (edi + 4) = unat edi + 4" using Suc.prems(2) unat_dwords [of edi 1] by simp
  have "unat (edi + 4 * of_nat (Suc (Suc n))) = unat edi + 4 * Suc (Suc n)" using Suc.prems(2) by (intro unat_dwords) simp
  then have lt: "edi + 4 <s edi + 4 * of_nat (Suc (Suc n))" using u Suc.prems(2) by (subst sless_small) simp_all
  have e: "edi + 4 * of_nat (Suc (Suc n)) = edi + 4 + 4 * of_nat (Suc n)" by (simp add: algebra_simps)
  have "loop_fill_zeros (edi + 4) (edi + 4 + 4 * of_nat (Suc n)) (s\<lparr>mem := (mem s)(edi := 0)\<rparr>) =
      Some (Inr (s\<lparr>mem := zeroed (edi + 4) (Suc n) ((mem s)(edi := 0))\<rparr>))"
    using Suc.IH [of "s\<lparr>mem := (mem s)(edi := 0)\<rparr>" "edi + 4"] Suc.prems u by (simp del: fun_upd_apply)
  then show ?case using lt
    by (subst loop_fill_zeros.simps) (simp only: store_off [OF Suc.prems(1)] sum.case if_True e zeroed_step)
qed

lemma loop_page_directory_spec:
  assumes "\<not> bit (b_cr0 s) 31"
  shows "loop_page_directory edi 0 eax s =
    Some (Inr (s\<lparr>mem := (mem s)(edi + 0xC00 := eax, edi + 0xC04 := eax + 0x400000)\<rparr>))"
proof -
  have c: "(1 :: u32) <s 2" "\<not> (2 :: u32) <s 2" by (simp_all add: word_sless_alt)
  have "loop_page_directory edi 1 eax' s' = Some (Inr (s'\<lparr>mem := (mem s')(edi + 0xC04 := eax')\<rparr>))"
    if "\<not> bit (b_cr0 s') 31" for eax' s'
    using that c(2) by (subst loop_page_directory.simps) (simp add: store_off add.commute)
  then show ?thesis using assms c(1) by (subst loop_page_directory.simps) (simp add: store_off)
qed

section \<open>Translation\<close>

lemma big_page: "push_bit 22 (drop_bit 22 va) + (va AND 0x3FFFFF) = (va :: u32)"
proof -
  have "(0x3FFFFF :: u32) = mask 22" by (simp add: mask_eq_exp_minus_1)
  then show ?thesis using bits_ident [of 22 va] by (simp add: take_bit_eq_mask)
qed

lemma or_offset:
  "0x400000 OR (va AND 0x3FFFFF) = 0x400000 + (va AND 0x3FFFFF :: u32)"
proof -
  have m: "(0x3FFFFF :: u32) = mask 22" "(0x400000 :: u32) = push_bit 22 1" by (simp_all add: mask_eq_exp_minus_1)
  show ?thesis unfolding m by (rule disjunctive_add [symmetric], simp only: bit_push_bit_iff bit_and_iff bit_mask_iff) auto
qed

lemma aligned_mask:
  fixes p :: u32
  assumes "unat p mod 4096 = 0"
  shows "p AND 0xFFFFF000 = p"
proof -
  have m: "(0xFFFFF000 :: u32) = NOT (MASK 12)" by (simp add: MASK_def)
  have "unat (ALIGN_BITS_DOWN p 12) = unat p" using assms by (simp add: unat_ALIGN_BITS_DOWN mult.commute minus_mod_eq_mult_div [symmetric])
  then have "ALIGN_BITS_DOWN p 12 = p" by (simp only: word_unat_eq_iff)
  then show ?thesis by (simp only: ALIGN_BITS_DOWN_def m)
qed

lemma translate_boot:
  assumes "bit (b_cr0 s) 31" "bit (b_cr4 s) 4" "b_cr3 s AND 0xFFFFF000 = pd" "boot_directory ident pd (mem s)"
  shows "translate s va = (if KERNEL_OFFSET \<le> va \<and> va < KERNEL_BOOT_MAPPED then Some (virtual2phys va)
    else if va < 0x400000 \<and> ident then Some va else None)"
proof -
  let ?d = "drop_bit 22 va"
  have u: "unat ?d = unat va div 4194304" by (simp add: unat_drop_bit_u32)
  have d: "unat ?d < 1024" using unat_lt_2p32 [of va] unfolding u by (simp del: unat_lt_2p32)
  have e: "mem s (pd + 4 * ?d) = (if unat ?d = 0x300 then 0x83 else if unat ?d = 0x301 then 0x400083 else
      if unat ?d = 0 \<and> ident then 0x83 else 0)"
    using assms(4) [unfolded boot_directory_def, rule_format, OF d] by simp
  have r: "unat va div 4194304 = 0x300 \<or> unat va div 4194304 = 0x301 \<longleftrightarrow> KERNEL_OFFSET \<le> va \<and> va < KERNEL_BOOT_MAPPED"
    "unat va div 4194304 = 0 \<longleftrightarrow> va < 0x400000"
    by (auto simp: KERNEL_OFFSET_def KERNEL_BOOT_MAPPED_def word_le_nat_alt word_less_nat_alt)
  consider "unat ?d = 0x300" | "unat ?d = 0x301" | "unat ?d = 0" ident | "mem s (pd + 4 * ?d) = 0" "unat ?d \<noteq> 0x300"
    "unat ?d \<noteq> 0x301" "unat ?d \<noteq> 0 \<or> \<not> ident" using e by fastforce
  then show ?thesis
  proof cases
    case 1
    then have "?d = 0x300" by (simp add: word_unat_eq_iff)
    then have "KERNEL_OFFSET + (va AND 0x3FFFFF) = va" using big_page [of va] by (simp add: KERNEL_OFFSET_def)
    then have "va AND 0x3FFFFF = virtual2phys va" unfolding virtual2phys_def by (metis add_diff_cancel_left')
    moreover have "translate s va = Some (va AND 0x3FFFFF)" using 1 e assms(1-3) by (simp add: translate_def)
    ultimately show ?thesis using 1 r u by simp
  next
    case 2
    then have "?d = 0x301" by (simp add: word_unat_eq_iff)
    then have "KERNEL_OFFSET + (0x400000 + (va AND 0x3FFFFF)) = va" using big_page [of va] by (simp add: KERNEL_OFFSET_def)
    then have "0x400000 + (va AND 0x3FFFFF) = virtual2phys va" unfolding virtual2phys_def by (metis add_diff_cancel_left')
    moreover have "translate s va = Some (0x400000 OR (va AND 0x3FFFFF))" using 2 e assms(1-3) by (simp add: translate_def)
    ultimately show ?thesis using 2 r u by (simp add: or_offset)
  next
    case 3
    then have "?d = 0" by (simp add: word_unat_eq_iff)
    then have "va AND 0x3FFFFF = va" using big_page [of va] by simp
    moreover have "translate s va = Some (va AND 0x3FFFFF)" using 3 e assms(1-3) by (simp add: translate_def)
    ultimately show ?thesis using 3 r u by auto
  next
    case 4
    then show ?thesis using assms(1-3) r u by (auto simp: translate_def)
  qed
qed

section \<open>The whole\<close>

lemma dword_inj:
  fixes pd :: u32
  assumes "unat pd + 0x402000 < 4294967296" "i < 0x100800" "j < 0x100800"
  shows "pd + 4 * of_nat i = pd + 4 * of_nat j \<longleftrightarrow> i = j"
proof
  assume e: "pd + 4 * of_nat i = pd + 4 * of_nat j"
  have "unat pd + 4 * i = unat (pd + 4 * of_nat i)" by (rule unat_dwords [symmetric]) (use assms in linarith)
  also have "\<dots> = unat (pd + 4 * of_nat j)" by (rule arg_cong [OF e])
  also have "\<dots> = unat pd + 4 * j" by (rule unat_dwords) (use assms in linarith)
  finally show "i = j" by simp
qed simp

lemma boot_memory_dword:
  assumes "unat pd + 0x402000 < 4294967296" "i < 0x100800"
  shows "boot_memory ident pd m (pd + 4 * of_nat i) = (if i = 0x300 then 0x83 else if i = 0x301 then 0x400083 else
    if i = 0 \<and> ident then 0x83 else 0)"
proof -
  have "pd + 4 * of_nat i = pd + 0xC00 \<longleftrightarrow> i = 0x300" using dword_inj [OF assms, of "0x300"] by simp
  moreover have "pd + 4 * of_nat i = pd + 0xC04 \<longleftrightarrow> i = 0x301" using dword_inj [OF assms, of "0x301"] by simp
  moreover have "pd + 4 * of_nat i = pd \<longleftrightarrow> i = 0" using dword_inj [OF assms, of 0] by simp
  moreover have "zeroed pd 0x100800 m (pd + 4 * of_nat i) = 0" unfolding zeroed_def using assms(2) by (intro if_P imageI) simp
  ultimately show ?thesis by (cases ident) (simp_all add: boot_memory_def Let_def del: add_left_cancel add_cancel_left_right)
qed

lemma boot_memory_directory:
  "unat pd + 0x402000 < 4294967296 \<Longrightarrow> boot_directory ident pd (boot_memory ident pd m)"
  using boot_memory_dword [of pd _ ident m] by (simp add: boot_directory_def)

lemma boot_layout_unat:
  assumes "boot_layout sb paged"
  shows "unat (phys_boot_page_directory sb) = unat sb - 0xBFFFC000" "unat (phys_boot_page_directory sb) + 0x406000 \<le> 0x800000"
    "0xC0100000 \<le> unat sb" "unat (phys_boot_page_directory sb) mod 4096 = 0"
proof -
  have sb: "0xC0100000 \<le> unat sb" "unat sb + 0x40A000 \<le> 0xC0800000"
    using assms by (auto simp: boot_layout_def word_less_nat_alt)
  have "unat (sb + 16384) = unat sb + 16384" using sb by (intro unat_u32_add [THEN trans]) simp_all
  then show u: "unat (phys_boot_page_directory sb) = unat sb - 0xBFFFC000"
    using sb by (simp add: phys_boot_page_directory_def KERNEL_BOOT_PAGE_DIRECTORY_def stack_top_def VM_OFFSET_def unat_u32_diff word_le_nat_alt)
  then show "unat (phys_boot_page_directory sb) + 0x406000 \<le> 0x800000" "0xC0100000 \<le> unat sb"
    using sb by simp_all
  obtain q where "unat sb = 4096 * q" using assms by (auto simp: boot_layout_def)
  then have "unat sb - 0xBFFFC000 = 4096 * (q - 0xBFFFC)" by simp
  then show "unat (phys_boot_page_directory sb) mod 4096 = 0" unfolding u by simp
qed

lemma translate_on:
  assumes "boot_layout sb paged"
  shows "translate (boot_on ident sb s) va = (if KERNEL_OFFSET \<le> va \<and> va < KERNEL_BOOT_MAPPED then Some (virtual2phys va)
    else if va < 0x400000 \<and> ident then Some va else None)"
  using boot_layout_unat(2) [OF assms] aligned_mask [OF boot_layout_unat(4) [OF assms]]
    boot_memory_directory [of "phys_boot_page_directory sb" ident "mem s"]
  by (intro translate_boot [where pd = "phys_boot_page_directory sb"]) (simp_all add: boot_on_def CR0_PG_def CR4_PSE_def bit_simps)

lemma fetch_on:
  assumes "boot_layout sb paged"
  shows "fetch (paged - VM_OFFSET - 1) (paged - VM_OFFSET - 1) (boot_on True sb s) = Inr (boot_on True sb s)"
    "fetch paged (paged - VM_OFFSET) (boot_on ident sb s) = Inr (boot_on ident sb s)"
proof -
  have b: "unat paged < 0xC0400000" "0xC0100000 < unat paged" using assms by (simp_all add: boot_layout_def word_less_nat_alt)
  then have "unat (paged - VM_OFFSET) = unat paged - 0xC0000000" by (simp add: VM_OFFSET_def unat_u32_diff word_le_nat_alt)
  then have "unat (paged - VM_OFFSET - 1) = unat paged - 0xC0000001" using b by (subst unat_u32_diff) (simp_all add: word_le_nat_alt)
  with b show "fetch (paged - VM_OFFSET - 1) (paged - VM_OFFSET - 1) (boot_on True sb s) = Inr (boot_on True sb s)"
    "fetch paged (paged - VM_OFFSET) (boot_on ident sb s) = Inr (boot_on ident sb s)"
    by (simp_all add: fetch_def translate_on [OF assms] KERNEL_OFFSET_def KERNEL_BOOT_MAPPED_def word_less_nat_alt
      word_le_nat_alt virtual2phys_def VM_OFFSET_def)
qed

lemma unmap_identity:
  assumes "boot_layout sb paged"
  shows "store (KERNEL_BOOT_PAGE_DIRECTORY sb) 0 (boot_on True sb s) = Inr (boot_on False sb s)"
proof -
  have "unat (stack_top sb) = unat sb + 16384" using boot_layout_unat(1-3) [OF assms] by (simp add: stack_top_def unat_u32_add)
  then have "translate (boot_on True sb s) (stack_top sb) = Some (phys_boot_page_directory sb)"
    using boot_layout_unat(1-3) [OF assms] by (simp add: translate_on [OF assms] KERNEL_OFFSET_def KERNEL_BOOT_MAPPED_def
      word_less_nat_alt word_le_nat_alt virtual2phys_def phys_boot_page_directory_def VM_OFFSET_def KERNEL_BOOT_PAGE_DIRECTORY_def)
  then show ?thesis by (simp add: store_def KERNEL_BOOT_PAGE_DIRECTORY_def boot_on_def boot_memory_def Let_def)
qed

lemma push_argument:
  assumes "boot_layout sb paged"
  shows "store (stack_top sb - 4) v ((boot_on False sb s)\<lparr>b_esp := sp\<rparr>) =
    Inr ((boot_on False sb s)\<lparr>b_esp := sp, mem := (mem (boot_on False sb s))(phys_boot_page_directory sb - 4 := v)\<rparr>)"
proof -
  have st: "unat (stack_top sb) = unat sb + 16384" using boot_layout_unat(1-3) [OF assms] by (simp add: stack_top_def unat_u32_add)
  have "unat (stack_top sb - 4) = unat sb + 16380"
    using boot_layout_unat(3) [OF assms] st by (subst unat_u32_diff) (simp_all add: word_le_nat_alt)
  then have "translate (boot_on False sb s) (stack_top sb - 4) = Some (phys_boot_page_directory sb - 4)"
    using boot_layout_unat(1-3) [OF assms] by (simp add: translate_on [OF assms] KERNEL_OFFSET_def KERNEL_BOOT_MAPPED_def
      word_less_nat_alt word_le_nat_alt virtual2phys_def phys_boot_page_directory_def VM_OFFSET_def KERNEL_BOOT_PAGE_DIRECTORY_def)
  moreover have "translate (x\<lparr>b_esp := sp\<rparr>) va = translate x va" for x va by (simp add: translate_def Let_def)
  ultimately show ?thesis by (simp add: store_def)
qed

lemma maos_start_run:
  assumes "boot_layout sb paged" "\<not> bit (b_cr0 s) 31"
  shows "maos_start sb paged ebx s = Inr ((boot_on False sb s)\<lparr>b_esp := stack_top sb - 4,
    mem := (mem (boot_on False sb s))(phys_boot_page_directory sb - 4 := ebx + VM_OFFSET)\<rparr>)"
proof -
  let ?pd = "phys_boot_page_directory sb"
  have r: "KERNEL_BSS_ZERO_END sb - VM_OFFSET = ?pd + 4 * of_nat (Suc 0x1007FF)" "KERNEL_BOOT_PAGE_DIRECTORY sb - VM_OFFSET = ?pd"
    by (simp_all add: KERNEL_BSS_ZERO_END_def phys_boot_page_directory_def)
  have fill: "loop_fill_zeros (KERNEL_BOOT_PAGE_DIRECTORY sb - VM_OFFSET) (KERNEL_BSS_ZERO_END sb - VM_OFFSET) s =
      Some (Inr (s\<lparr>mem := zeroed ?pd 0x100800 (mem s)\<rparr>))"
    unfolding r using loop_fill_zeros_spec [OF assms(2), of ?pd "0x1007FF"] boot_layout_unat(2) [OF assms(1)] by simp
  have e: "PT_P OR PT_RW OR PT_PS = 0x83" by (simp add: PT_P_def PT_RW_def PT_PS_def)
  let ?s = "s\<lparr>mem := (zeroed ?pd 0x100800 (mem s))(?pd := 0x83, ?pd + 0xC00 := 0x83, ?pd + 0xC04 := 0x400083)\<rparr>"
  have "?s\<lparr>b_cr3 := ?pd, b_cr4 := b_cr4 s OR CR4_PSE, b_cr0 := b_cr0 s OR CR0_PG\<rparr> = boot_on True sb s"
    by (simp add: boot_on_def boot_memory_def Let_def)
  then show ?thesis using assms(2)
    by (simp add: maos_start_def fill e store_off loop_page_directory_spec Let_def fetch_on [OF assms(1)] unmap_identity [OF assms(1)]
      push_argument [OF assms(1)])
qed

lemma final_dword:
  assumes "boot_layout sb paged" "i < 0x100800"
  defines "pd \<equiv> phys_boot_page_directory sb"
  shows "((boot_memory False pd m)(pd - 4 := v)) (pd + 4 * of_nat i) = (if i = 0x300 then 0x83 else if i = 0x301 then 0x400083 else 0)"
proof -
  have pd: "4 \<le> unat pd" "unat pd + 0x402000 < 4294967296"
    using boot_layout_unat(1-3) [OF assms(1), folded pd_def] by simp_all
  then have "unat (pd - 4) = unat pd - 4" by (subst unat_u32_diff) (simp_all add: word_le_nat_alt)
  moreover have "unat (pd + 4 * of_nat i) = unat pd + 4 * i" by (rule unat_dwords) (use pd assms(2) in linarith)
  ultimately have "pd + 4 * of_nat i \<noteq> pd - 4" using pd(1) by (metis diff_add_inverse2 le_add1 le_add_diff_inverse2 not_add_less1 zero_less_numeral add_diff_cancel_left' diff_less less_le_trans not_less)
  then show ?thesis using boot_memory_dword [OF pd(2) assms(2), of False m] by simp
qed

lemma zero_words: "pde_word pde_zero = 0" "pte_word pte_zero = 0"
  by (simp_all add: pde_word_def pde_zero_def pte_word_def pte_zero_def)

text \<open>What the kernel's models ask of the addresses of the page structures.\<close>

lemma boot_linkage_ok:
  assumes "boot_layout sb paged"
  shows "linkage_ok (boot_linkage sb bucket)"
proof -
  have u: "0xC0100000 \<le> unat sb" "unat sb + 0x40A000 \<le> 0xC0800000" "4096 dvd unat sb"
    using boot_layout_unat(3) [OF assms] assms by (auto simp: boot_layout_def)
  have d: "unat (sb + 0x5000) = unat sb + 4096 * 5" "unat (sb + 0x6000) = unat sb + 4096 * 6"
    using u by (simp_all add: unat_u32_add)
  then have "4096 dvd unat (sb + 0x5000)" "4096 dvd unat (sb + 0x6000)" using u(3) by (simp_all only: dvd_add dvd_triv_left)
  moreover have "KERNEL_PAGE_DIRECTORY (boot_linkage sb bucket) = sb + 0x5000" "KERNEL_PAGE_TABLES (boot_linkage sb bucket) = sb + 0x6000"
    by (simp_all add: boot_linkage_def KERNEL_BOOT_PAGE_DIRECTORY_def stack_top_def)
  ultimately show ?thesis using u(1,2) d by (simp add: linkage_ok_def KERNEL_OFFSET_def word_less_nat_alt)
qed

section \<open>Properties\<close>

text \<open>
  C7. The boot code hands the kernel the machine its models start from: \<^verbatim>\<open>maos_start\<close> runs to the call of
  \<^verbatim>\<open>kernel_main\<close> without a fault, also between the enabling of paging and the jump, where instructions are
  still fetched at their physical addresses; then exactly the 8 MiB from 3 GiB on are mapped, to
  the first 8 MiB of memory; the page directory and the page tables the kernel will use are those of
  \<open>paging_boot\<close>; and the stack holds the address of the boot loader's structure in the kernel half. When
  \<^verbatim>\<open>vm_init\<close> then builds the kernel's own directory and switches to it, no translation changes.
\<close>

theorem maos_start_correct:
  assumes "boot_layout sb paged" "\<not> bit (b_cr0 s) 31"
  shows "\<exists>s'. maos_start sb paged ebx s = Inr s' \<and>
    (\<forall>va. translate s' va = (if KERNEL_OFFSET \<le> va \<and> va < KERNEL_BOOT_MAPPED then Some (virtual2phys va) else None)) \<and>
    holds_paging (boot_linkage sb bucket) s' (paging_boot (virtual2phys (KERNEL_BOOT_PAGE_DIRECTORY sb))) \<and>
    b_esp s' = stack_top sb - 4 \<and> mem s' (virtual2phys (b_esp s')) = ebx + KERNEL_OFFSET \<and>
    (\<exists>p q. init_paging (boot_linkage sb bucket) (paging_boot (b_cr3 s')) = Inr p \<and> switch_as AS_FIRST p = Inr q \<and>
       (\<forall>va. walk (boot_linkage sb bucket) q va = translate s' va))"
proof -
  let ?pd = "phys_boot_page_directory sb"
  let ?m = "(boot_memory False ?pd (mem s))(?pd - 4 := ebx + VM_OFFSET)"
  let ?s = "(boot_on False sb s)\<lparr>b_esp := stack_top sb - 4, mem := ?m\<rparr>"
  note u = boot_layout_unat [OF assms(1)]
  have v: "virtual2phys (KERNEL_BOOT_PAGE_DIRECTORY sb) = ?pd" "virtual2phys (stack_top sb - 4) = ?pd - 4"
    by (simp_all add: virtual2phys_def phys_boot_page_directory_def KERNEL_BOOT_PAGE_DIRECTORY_def KERNEL_OFFSET_def VM_OFFSET_def)
  have dw: "?m (?pd + 4 * of_nat i) = (if i = 0x300 then 0x83 else if i = 0x301 then 0x400083 else 0)" if "i < 0x100800" for i
    using final_dword [OF assms(1) that] .
  then have "boot_directory False ?pd ?m" by (simp add: boot_directory_def)
  then have "translate ?s va = (if KERNEL_OFFSET \<le> va \<and> va < KERNEL_BOOT_MAPPED then Some (virtual2phys va) else None)" for va
    using translate_boot [of ?s ?pd False va] aligned_mask [OF u(4)]
    by (simp add: boot_on_def CR0_PG_def CR4_PSE_def bit_simps)
  moreover have "holds_paging (boot_linkage sb bucket) ?s (paging_boot ?pd)"
  proof -
    have d: "virtual2phys (KERNEL_PAGE_DIRECTORY (boot_linkage sb bucket)) + 4 * of_nat i = ?pd + 4 * of_nat (1024 + i)" for i
      using v(1) by (simp add: boot_linkage_def virtual2phys_def algebra_simps)
    have t: "virtual2phys (table_addr (boot_linkage sb bucket) i) + 4 * of_nat j = ?pd + 4 * of_nat (2048 + 1024 * i + j)" for i j
      using v(1) by (simp add: boot_linkage_def table_addr_def virtual2phys_def algebra_simps)
    have "?m (?pd + 4 * of_nat (1024 + i)) = 0" if "i < 1024" for i
      using dw [of "1024 + i"] that by (simp del: fun_upd_apply of_nat_add)
    moreover have "?m (?pd + 4 * of_nat (2048 + 1024 * i + j)) = 0" if "i < 1024" "j < 1024" for i j
      using dw [of "2048 + 1024 * i + j"] that by (simp del: fun_upd_apply of_nat_add of_nat_mult)
    ultimately show ?thesis
      unfolding holds_paging_def d t
      by (simp add: boot_on_def paging_boot_def zero_words del: fun_upd_apply of_nat_add of_nat_mult)
  qed
  moreover have "b_cr3 ?s = ?pd" by (simp add: boot_on_def)
  moreover have "maos_start sb paged ebx s = Inr ?s" using maos_start_run [OF assms, of ebx] by (simp add: boot_on_def)
  ultimately show ?thesis using init_paging_spec [OF boot_linkage_ok [OF assms(1)], of bucket ?pd] v
    by (intro exI [of _ ?s]) (auto simp: KERNEL_OFFSET_def VM_OFFSET_def)
qed

theorem maos_start_correct_witness:
  "\<exists>s'. maos_start 0xC0200000 0xC0101000 0x9500 boot_example = Inr s' \<and>
     translate s' 0xC0101000 = Some 0x101000 \<and> translate s' 0x101000 = None \<and>
     holds_paging linkage_example s' (paging_boot 0x204000) \<and>
     mem s' (virtual2phys (b_esp s')) = 0xC0009500"
proof -
  have l: "boot_layout 0xC0200000 0xC0101000" by (simp add: boot_layout_def)
  have "\<not> bit (b_cr0 boot_example) 31" by (simp add: boot_example_def)
  from maos_start_correct [OF l this, of "0x9500" "0xC0606000"] show ?thesis
    by (auto simp: boot_linkage_def linkage_example_def KERNEL_BOOT_PAGE_DIRECTORY_def stack_top_def KERNEL_OFFSET_def
      KERNEL_BOOT_MAPPED_def virtual2phys_def)
qed

text \<open>The boot loader accepts the header: magic number, flags and checksum add up to zero.\<close>

lemma multiboot_header_valid:
  "multiboot_header ! 0 = 0x1BADB002" "multiboot_header ! 0 + multiboot_header ! 1 + multiboot_header ! 2 = 0"
  by (simp_all add: multiboot_header_def MB_CHECKSUM_def MB_MAGIC_def)

end
