(* ===== verification/Stubs.thy ===== *)
theory Stubs
  imports Isr Tables
begin

text \<open>
  The interrupt entry stubs of \<^verbatim>\<open>kernel/kernel/isr.asm\<close>, as lists of instructions with their semantics,
  between the processor's delivery of an interrupt through a gate of the interrupt descriptor table and
  \<^verbatim>\<open>isr_handler\<close> of \<^verbatim>\<open>isr.c\<close>. Memory is the stack only, as double words; every access of the stubs is at
  a distance from the stack pointer that is a multiple of four. The instruction pointer of the stub
  itself is not tracked, since the code is straight. The compiled body of the handler is a parameter:
  its effect on the kernel is \<open>h\<close>, its effect on the processor is \<open>clob\<close>, of which the C calling
  convention is assumed (\<open>c_call\<close>).
\<close>

section \<open>Processor\<close>

datatype reg32 = EAX | ECX | EDX | EBX | ESP | EBP | ESI | EDI

datatype sreg = CS | DS | ES | FS | GS

record cpu =
  regs :: "reg32 \<Rightarrow> u32"
  segs :: "sreg \<Rightarrow> u16"
  eip :: u32
  eflags :: u32
  stack :: "u32 \<Rightarrow> u32"

datatype instr =
    Cli | Sti | Iret | Pushad | Popad
  | Push_imm u32 | Push reg32 | Pop reg32
  | Load reg32 reg32 u32
  | Mov reg32 reg32
  | Mov_ax_imm u16 | Mov_ax_seg sreg | Mov_seg_ax sreg
  | Add_imm reg32 u32
  | Call_isr_handler

definition IF_BIT :: nat where
  "IF_BIT = 9"

abbreviation IF_on :: "cpu \<Rightarrow> bool" where
  "IF_on c \<equiv> bit (eflags c) IF_BIT"

definition set_reg :: "reg32 \<Rightarrow> u32 \<Rightarrow> cpu \<Rightarrow> cpu" where
  "set_reg r v c = c\<lparr>regs := (regs c)(r := v)\<rparr>"

definition set_seg :: "sreg \<Rightarrow> u16 \<Rightarrow> cpu \<Rightarrow> cpu" where
  "set_seg r v c = c\<lparr>segs := (segs c)(r := v)\<rparr>"

definition push :: "u32 \<Rightarrow> cpu \<Rightarrow> cpu" where
  "push v c =
     (let p = regs c ESP - 4
      in c\<lparr>regs := (regs c)(ESP := p), stack := (stack c)(p := v)\<rparr>)"

definition peek :: "cpu \<Rightarrow> u32" where
  "peek c = stack c (regs c ESP)"

definition drop4 :: "cpu \<Rightarrow> cpu" where
  "drop4 c = c\<lparr>regs := (regs c)(ESP := regs c ESP + 4)\<rparr>"

definition pop :: "reg32 \<Rightarrow> cpu \<Rightarrow> cpu" where
  "pop r c = set_reg r (peek c) (drop4 c)"

text \<open>The low half of \<^verbatim>\<open>eax\<close>.\<close>

definition set_ax :: "u16 \<Rightarrow> cpu \<Rightarrow> cpu" where
  "set_ax v c = set_reg EAX ((regs c EAX AND 0xFFFF0000) OR ucast v) c"

text \<open>
  The status flags of an addition: carry, parity of the low byte, auxiliary carry, zero, sign and
  overflow.
\<close>

definition add_flags :: "u32 \<Rightarrow> u32 \<Rightarrow> u32 \<Rightarrow> u32" where
  "add_flags a b f =
     (let r = a + b;
          even_parity = even (length (filter (bit r) [0..<8]))
      in (f AND NOT 0x8D5)
         OR (if r < a then 0x1 else 0)
         OR (if even_parity then 0x4 else 0)
         OR (if bit (a XOR b XOR r) 4 then 0x10 else 0)
         OR (if r = 0 then 0x40 else 0)
         OR (if bit r 31 then 0x80 else 0)
         OR (if bit (NOT (a XOR b) AND (a XOR r)) 31 then 0x800 else 0))"

definition pushad :: "cpu \<Rightarrow> cpu" where
  "pushad c =
     (let sp = regs c ESP in
      push (regs c EDI) (push (regs c ESI) (push (regs c EBP) (push sp
     (push (regs c EBX) (push (regs c EDX) (push (regs c ECX) (push (regs c EAX) c))))))))"

definition popad :: "cpu \<Rightarrow> cpu" where
  "popad c = pop EAX (pop ECX (pop EDX (pop EBX (drop4 (pop EBP (pop ESI (pop EDI c)))))))"

text \<open>The return from an interrupt, to the same privilege level.\<close>

definition iret :: "cpu \<Rightarrow> cpu" where
  "iret c =
     (let c1 = drop4 (c\<lparr>eip := peek c\<rparr>);
          c2 = drop4 (set_seg CS (ucast (peek c1)) c1)
      in drop4 (c2\<lparr>eflags := peek c2\<rparr>))"

text \<open>\<^verbatim>\<open>isr_handler\<close> takes the structure \<^verbatim>\<open>registers_t\<close> by value: it lies at the top of the stack when the call is made.\<close>

definition word_at :: "cpu \<Rightarrow> u32 \<Rightarrow> u32" where
  "word_at c i = stack c (regs c ESP + 4 * i)"

definition registers_at :: "cpu \<Rightarrow> registers_t" where
  "registers_at c =
     (let w = word_at c in
      \<lparr>reg_dummy1 = w 0, reg_dummy2 = w 1, reg_ds = w 2, reg_edi = w 3, reg_esi = w 4, reg_ebp = w 5,
       reg_esp = w 6, reg_ebx = w 7, reg_edx = w 8, reg_ecx = w 9, reg_eax = w 10, reg_int_no = w 11,
       reg_err_code = w 12, reg_eip = w 13\<rparr>)"

fun exec1 ::
  "(registers_t \<Rightarrow> 'w \<Rightarrow> 'w res) \<Rightarrow> (cpu \<Rightarrow> cpu) \<Rightarrow> instr \<Rightarrow> cpu \<times> 'w \<Rightarrow> (cpu \<times> 'w) res" where
  "exec1 h clob Cli (c, w) = Inr (c\<lparr>eflags := unset_bit IF_BIT (eflags c)\<rparr>, w)"
| "exec1 h clob Sti (c, w) = Inr (c\<lparr>eflags := set_bit IF_BIT (eflags c)\<rparr>, w)"
| "exec1 h clob Iret (c, w) = Inr (iret c, w)"
| "exec1 h clob Pushad (c, w) = Inr (pushad c, w)"
| "exec1 h clob Popad (c, w) = Inr (popad c, w)"
| "exec1 h clob (Push_imm v) (c, w) = Inr (push v c, w)"
| "exec1 h clob (Push r) (c, w) = Inr (push (regs c r) c, w)"
| "exec1 h clob (Pop r) (c, w) = Inr (pop r c, w)"
| "exec1 h clob (Load r b d) (c, w) = Inr (set_reg r (stack c (regs c b + d)) c, w)"
| "exec1 h clob (Mov r b) (c, w) = Inr (set_reg r (regs c b) c, w)"
| "exec1 h clob (Mov_ax_imm v) (c, w) = Inr (set_ax v c, w)"
| "exec1 h clob (Mov_ax_seg s) (c, w) = Inr (set_ax (segs c s) c, w)"
| "exec1 h clob (Mov_seg_ax s) (c, w) = Inr (set_seg s (ucast (regs c EAX)) c, w)"
| "exec1 h clob (Add_imm r v) (c, w) =
     Inr (set_reg r (regs c r + v) (c\<lparr>eflags := add_flags (regs c r) v (eflags c)\<rparr>), w)"
| "exec1 h clob Call_isr_handler (c, w) = bindE (h (registers_at c) w) (\<lambda>w. Inr (clob c, w))"

primrec exec ::
  "(registers_t \<Rightarrow> 'w \<Rightarrow> 'w res) \<Rightarrow> (cpu \<Rightarrow> cpu) \<Rightarrow> instr list \<Rightarrow> cpu \<times> 'w \<Rightarrow> (cpu \<times> 'w) res" where
  "exec h clob [] st = Inr st"
| "exec h clob (i # is) st = bindE (exec1 h clob i st) (exec h clob is)"

section \<open>The stubs\<close>

definition isr_common_stub :: "instr list" where
  "isr_common_stub =
     [Pushad,
      Load EAX ESP 40,
      Push EAX,
      Push EBP,
      Mov EBP ESP,
      Mov_ax_seg DS,
      Push EAX,
      Mov_ax_imm 0x10,
      Mov_seg_ax DS, Mov_seg_ax ES, Mov_seg_ax FS, Mov_seg_ax GS,
      Call_isr_handler,
      Pop EAX,
      Mov_seg_ax DS, Mov_seg_ax ES, Mov_seg_ax FS, Mov_seg_ax GS,
      Add_imm ESP 8,
      Popad,
      Add_imm ESP 8,
      Sti,
      Iret]"

definition ISR_NO_ERRCODE :: "nat \<Rightarrow> instr list" where
  "ISR_NO_ERRCODE n = [Cli, Push_imm 0, Push_imm (of_nat n)] @ isr_common_stub"

definition ISR_ERRCODE :: "nat \<Rightarrow> instr list" where
  "ISR_ERRCODE n = [Cli, Push_imm (of_nat n)] @ isr_common_stub"

text \<open>The 48 instances of the two macros.\<close>

definition isr_stub :: "nat \<Rightarrow> instr list" where
  "isr_stub n = (if n \<in> {8, 10, 11, 12, 13, 14, 17} then ISR_ERRCODE n else ISR_NO_ERRCODE n)"

text \<open>
  The instructions of \<^verbatim>\<open>gdt_flush\<close> in \<^verbatim>\<open>tables.asm\<close> that load the data segment registers; the stack segment, which
  the stubs leave alone, is left out.
\<close>

definition gdt_flush_segments :: "instr list" where
  "gdt_flush_segments = [Mov_ax_imm 0x10, Mov_seg_ax DS, Mov_seg_ax ES, Mov_seg_ax FS, Mov_seg_ax GS]"

section \<open>Specification\<close>

text \<open>
  The exceptions for which the processor pushes an error code: double fault, invalid task state
  segment, segment not present, stack fault, general protection, page fault and alignment check.
\<close>

definition has_error_code :: "nat \<Rightarrow> bool" where
  "has_error_code n \<longleftrightarrow> n = 8 \<or> (10 \<le> n \<and> n \<le> 14) \<or> n = 17"

text \<open>
  The delivery of interrupt \<open>n\<close> through the gate \<open>e\<close> at the same privilege level: flags, code segment and
  instruction pointer are saved, the trap flag and its like are cleared, and an interrupt gate (type
  14, as opposed to the trap gate 15) clears the interrupt flag too.
\<close>

definition deliver :: "idt_entry_t \<Rightarrow> nat \<Rightarrow> u32 \<Rightarrow> cpu \<Rightarrow> cpu" where
  "deliver e n err c =
     (let c1 = push (eip c) (push (ucast (segs c CS)) (push (eflags c) c));
          c2 = (if has_error_code n then push err c1 else c1);
          fl = eflags c AND NOT 0x34100
      in set_seg CS (i_sel e)
           (c2\<lparr>eip := gate_target e,
               eflags := (if i_flags e AND 0xF = 0xE then unset_bit IF_BIT fl else fl)\<rparr>))"

definition service ::
  "(registers_t \<Rightarrow> 'w \<Rightarrow> 'w res) \<Rightarrow> (cpu \<Rightarrow> cpu) \<Rightarrow> idt_entry_t \<Rightarrow> nat \<Rightarrow> u32 \<Rightarrow> cpu \<times> 'w \<Rightarrow> (cpu \<times> 'w) res" where
  "service h clob e n err st = exec h clob (isr_stub n) (deliver e n err (fst st), snd st)"

text \<open>
  The C calling convention: the callee keeps the registers that are not scratch, the segment
  registers, the interrupt flag and the stack from its argument on. (\<^verbatim>\<open>isr_handler\<close> never assigns to its
  parameter.)
\<close>

definition c_call :: "(cpu \<Rightarrow> cpu) \<Rightarrow> bool" where
  "c_call clob \<longleftrightarrow>
     (\<forall>c. (\<forall>r \<in> {EBX, ESP, EBP, ESI, EDI}. regs (clob c) r = regs c r) \<and> segs (clob c) = segs c \<and>
        IF_on (clob c) = IF_on c \<and> (\<forall>a. regs c ESP \<le> a \<longrightarrow> stack (clob c) a = stack c a))"

text \<open>What \<^verbatim>\<open>isr_handler\<close> finds in its parameter.\<close>

definition frame :: "nat \<Rightarrow> u32 \<Rightarrow> cpu \<Rightarrow> registers_t" where
  "frame n err c =
     \<lparr>reg_dummy1 = (eip c AND 0xFFFF0000) OR ucast (segs c DS), reg_dummy2 = regs c EBP, reg_ds = eip c,
      reg_edi = regs c EDI, reg_esi = regs c ESI, reg_ebp = regs c EBP, reg_esp = regs c ESP - 20,
      reg_ebx = regs c EBX, reg_edx = regs c EDX, reg_ecx = regs c ECX, reg_eax = regs c EAX,
      reg_int_no = of_nat n, reg_err_code = (if has_error_code n then err else 0), reg_eip = eip c\<rparr>"

definition same_cpu :: "cpu \<Rightarrow> cpu \<Rightarrow> bool" where
  "same_cpu c c' \<longleftrightarrow>
     regs c' = regs c \<and> segs c' = segs c \<and> eip c' = eip c \<and> eflags c' = eflags c \<and>
     (\<forall>a. regs c ESP \<le> a \<longrightarrow> stack c' a = stack c a)"

definition entry_part :: "nat \<Rightarrow> instr list" where
  "entry_part n = takeWhile (\<lambda>i. i \<noteq> Call_isr_handler) (isr_stub n)"

definition exit_part :: "instr list" where
  "exit_part = drop 13 isr_common_stub"

text \<open>The state the instructions after the call lead to.\<close>

definition resume :: "cpu \<Rightarrow> cpu" where
  "resume c = c\<lparr>
     eip := word_at c 13,
     segs := (segs c)(DS := ucast (word_at c 0), ES := ucast (word_at c 0), FS := ucast (word_at c 0),
       GS := ucast (word_at c 0), CS := ucast (word_at c 14)),
     eflags := word_at c 15,
     regs := (regs c)(EDI := word_at c 3, ESI := word_at c 4, EBP := word_at c 5, EBX := word_at c 7, EDX := word_at c 8,
       ECX := word_at c 9, EAX := word_at c 10, ESP := regs c ESP + 64)\<rparr>"

definition clob_example :: "cpu \<Rightarrow> cpu" where
  "clob_example c =
     (set_reg EAX 0xDEAD (set_reg ECX 0xBEEF c))\<lparr>stack := (\<lambda>a. if a < regs c ESP then 0xC0100123 else stack c a)\<rparr>"

definition cpu_example :: cpu where
  "cpu_example = \<lparr>regs = (\<lambda>_. 0xC0104F00), segs = (\<lambda>s. if s = CS then 8 else 0x10), eip = 0xC0101234,
     eflags = 0x202, stack = (\<lambda>_. 0)\<rparr>"

section \<open>Entry and exit\<close>

lemmas instr_defs = set_reg_def set_seg_def push_def peek_def drop4_def pop_def set_ax_def pushad_def popad_def iret_def

lemma exec_append: "exec h clob (p @ q) st = bindE (exec h clob p st) (exec h clob q)"
  by (induction p arbitrary: st) (auto simp: bindE_assoc intro: bindE_cong)

lemma isr_stub_split: "isr_stub n = entry_part n @ Call_isr_handler # exit_part"
  by (simp add: isr_stub_def entry_part_def exit_part_def ISR_ERRCODE_def ISR_NO_ERRCODE_def isr_common_stub_def)

lemma has_error_code_iff: "has_error_code n \<longleftrightarrow> n \<in> {8, 10, 11, 12, 13, 14, 17}"
  by (auto simp: has_error_code_def)


lemma exit_exec: "exec h clob exit_part (c, w) = Inr (resume c, w)"
  by (simp add: exit_part_def isr_common_stub_def instr_defs resume_def word_at_def Let_def add.commute)

lemma entry_exec:
  "\<exists>c'. exec h clob (entry_part n) (deliver e n err c, w) = Inr (c', w) \<and> registers_at c' = frame n err c \<and>
     regs c' ESP = regs c ESP - 64 \<and> word_at c' 14 = ucast (segs c CS) \<and> word_at c' 15 = eflags c \<and>
     (\<forall>a. (\<forall>k \<in> {4, 8, 12, 16, 20, 24, 28, 32, 36, 40, 44, 48, 52, 56, 60, 64}. a \<noteq> regs c ESP - k) \<longrightarrow> stack c' a = stack c a)"
  by (cases "has_error_code n")
   (simp_all add: entry_part_def isr_stub_def has_error_code_iff ISR_ERRCODE_def ISR_NO_ERRCODE_def isr_common_stub_def
     deliver_def instr_defs Let_def registers_at_def word_at_def frame_def)

lemma above_frame:
  fixes sp :: u32
  assumes "64 \<le> sp" "sp \<le> a" "k \<le> 64" "0 < k"
  shows "a \<noteq> sp - k"
proof -
  have "unat (sp - k) = unat sp - unat k" "0 < unat k" "unat k \<le> unat sp"
    using assms by (simp_all add: unat_u32_diff unat_gt_0 word_le_nat_alt)
  then show ?thesis using assms(2) by (auto simp: word_le_nat_alt)
qed

lemma selector_low: "ucast ((x AND 0xFFFF0000) OR ucast s :: u32) = (s :: u16)"
proof -
  have "(0xFFFF0000 :: u32) = NOT (mask 16)" by (simp add: mask_eq_exp_minus_1)
  then show ?thesis by (auto simp: bit_eq_iff bit_simps)
qed

lemma selector_ucast: "ucast (ucast s :: u32) = (s :: u16)"
  by (auto simp: bit_eq_iff bit_simps)

lemma in_frame:
  fixes sp :: u32
  assumes "64 \<le> sp" "i < 16"
  shows "sp - 64 \<le> sp - 64 + 4 * i"
proof -
  have "unat (4 * i) = 4 * unat i" using assms(2) by (intro unat_u32_mult [THEN trans]) (simp_all add: word_less_nat_alt)
  moreover have "unat (sp - 64) = unat sp - 64" "64 \<le> unat sp" using assms(1) by (simp_all add: unat_u32_diff word_le_nat_alt)
  moreover have "unat i < 16" using assms(2) by (simp add: word_less_nat_alt)
  ultimately have "unat (sp - 64 + 4 * i) = unat (sp - 64) + unat (4 * i)"
    using unat_lt_2p32 [of sp] by (intro unat_u32_add) linarith
  then show ?thesis by (simp add: word_le_nat_alt)
qed

lemma service_spec:
  assumes "c_call clob" "64 \<le> regs c ESP" "segs c ES = segs c DS" "segs c FS = segs c DS" "segs c GS = segs c DS"
  shows "\<exists>c'. service h clob e n err (c, w) = bindE (h (frame n err c) w) (\<lambda>w. Inr (c', w)) \<and> same_cpu c c'"
proof -
  from entry_exec [of h clob n e err c w] obtain c1 where c1:
    "exec h clob (entry_part n) (deliver e n err c, w) = Inr (c1, w)" "registers_at c1 = frame n err c"
    "regs c1 ESP = regs c ESP - 64" "word_at c1 14 = ucast (segs c CS)" "word_at c1 15 = eflags c"
    "\<And>a. regs c ESP \<le> a \<Longrightarrow> stack c1 a = stack c a"
    using above_frame [OF assms(2)] by auto
  have keep: "word_at (clob c1) i = word_at c1 i" if "i < 16" for i
    using assms(1) in_frame [OF assms(2) that] c1(3) by (simp add: c_call_def word_at_def)
  have top: "stack (clob c1) a = stack c a" if "regs c ESP \<le> a" for a
    using assms(1) c1(3,6) that order_trans [OF word_sub_le [OF assms(2)] that] by (simp add: c_call_def)
  have esp: "regs (clob c1) ESP = regs c ESP - 64" using assms(1) c1(3) by (simp add: c_call_def)
  have r: "regs (resume (clob c1)) r = regs c r" for r
    using c1(2) by (cases r) (simp_all add: resume_def keep esp registers_at_def frame_def Let_def)
  have s: "segs (resume (clob c1)) s = segs c s" for s
    using c1(2,4) assms(3-5) by (cases s) (simp_all add: resume_def keep selector_low selector_ucast registers_at_def frame_def Let_def)
  have "eip (resume (clob c1)) = eip c" "eflags (resume (clob c1)) = eflags c"
    using c1(2,5) by (simp_all add: resume_def keep registers_at_def frame_def Let_def)
  then have "same_cpu c (resume (clob c1))"
    using r s top by (auto simp: same_cpu_def resume_def)
  then show ?thesis using c1(1,2)
    by (intro exI [of _ "resume (clob c1)"])
      (simp add: service_def isr_stub_split exec_append bindE_assoc exit_exec)
qed

lemma clob_example_c_call: "c_call clob_example"
  by (auto simp: c_call_def clob_example_def set_reg_def)

text \<open>What the theorem below asks of the segment registers holds from \<^verbatim>\<open>gdt_flush\<close> on.\<close>

lemma gdt_flush_segments_equal:
  "\<exists>c'. exec h clob gdt_flush_segments (c, w) = Inr (c', w) \<and> (\<forall>r \<in> {DS, ES, FS, GS}. segs c' r = 0x10)"
proof -
  have "ucast ((x AND 0xFFFF0000) OR 0x10 :: u32) = (0x10 :: u16)" for x using selector_low [of x "0x10"] by simp
  then show ?thesis by (simp add: gdt_flush_segments_def set_ax_def set_seg_def set_reg_def)
qed

section \<open>Properties\<close>



lemma bit_flag: "\<not> bit v n \<Longrightarrow> \<not> bit (if P then v else 0 :: u32) n"
  by simp

lemma add_flags_IF: "bit (add_flags a b f) IF_BIT = bit f IF_BIT"
  unfolding add_flags_def Let_def IF_BIT_def by (simp add: bit_or_iff bit_and_iff bit_not_iff bit_flag del: if_split)

text \<open>An instruction other than these two does not turn interrupts on.\<close>

lemma exec1_IF_off:
  assumes "c_call clob" "i \<notin> {Sti, Iret}" "exec1 h clob i (c, w) = Inr (c', w')" "\<not> IF_on c"
  shows "\<not> IF_on c'"
proof (cases "i = Call_isr_handler")
  case True
  then show ?thesis using assms by (auto simp: c_call_def res_simps)
next
  case False
  then show ?thesis using assms(2-4) by (cases i) (auto simp: instr_defs Let_def add_flags_IF bit_unset_bit_iff)
qed

lemma exec_IF_off:
  assumes "c_call clob" "Sti \<notin> set is" "Iret \<notin> set is" "exec h clob is (c, w) = Inr (c', w')" "\<not> IF_on c"
  shows "\<not> IF_on c'"
  using assms(2-)
proof (induction "is" arbitrary: c w)
  case (Cons i "is")
  then obtain c1 w1 where s: "exec1 h clob i (c, w) = Inr (c1, w1)" "exec h clob is (c1, w1) = Inr (c', w')"
    by (auto simp: res_simps)
  then have "\<not> IF_on c1" using exec1_IF_off [OF assms(1) _ s(1)] Cons.prems by auto
  then show ?case using Cons.IH [OF _ _ s(2)] Cons.prems by simp
qed simp

text \<open>
  C34. No interrupt arrives while a stub or the handler it calls is running: after
  \<^verbatim>\<open>descriptor_tables_init\<close>, at every point of each of the 48 stubs interrupts are off, except between \<^verbatim>\<open>sti\<close>
  and the \<^verbatim>\<open>iret\<close> after it, where the processor still holds them back, and after the \<^verbatim>\<open>iret\<close>, which
  returns to the interrupted program.
\<close>

theorem stub_not_interrupted:
  assumes "c_call clob" "length (gdt s) = 5" "descriptor_tables_init B ga ia isr (s, io) = Inr (s', io')" "n < 48"
    and "isr_stub n = p @ q" "exec h clob p (deliver (idt s' ! n) n err c, w) = Inr (c', w')"
  shows "IF_on c' \<longrightarrow> q = [Iret] \<or> q = []"
proof -
  define body where "body = butlast (butlast (isr_stub n))"
  have split: "isr_stub n = body @ [Sti, Iret]" and body: "Sti \<notin> set body" "Iret \<notin> set body"
    by (auto simp: body_def isr_stub_def ISR_ERRCODE_def ISR_NO_ERRCODE_def isr_common_stub_def)
  have "i_flags (idt s' ! n) = 0x8E"
    using descriptor_tables_init_spec [OF assms(2), of B ga ia isr io] assms(3,4) by auto
  then have off: "\<not> IF_on (deliver (idt s' ! n) n err c)"
    by (simp add: deliver_def Let_def set_seg_def IF_BIT_def bit_simps)
  show ?thesis
  proof (cases "length p \<le> length body")
    case True
    then have "p = take (length p) body" using arg_cong [OF assms(5), of "take (length p)"] split by simp
    then have "set p \<subseteq> set body" by (metis set_take_subset)
    then show ?thesis using exec_IF_off [OF assms(1) _ _ assms(6) off] body by blast
  next
    case False
    then have "[Sti, Iret] = drop (length body) p @ q" "drop (length body) p \<noteq> []"
      using assms(5) split by (auto simp: append_eq_append_conv_if)
    then show ?thesis by (cases "drop (length body) p") (auto simp: Cons_eq_append_conv)
  qed
qed

theorem stub_not_interrupted_witness:
  "\<exists>s' io' c'. descriptor_tables_init pic_bus 0xC0107000 0xC0108000 (\<lambda>i. 0xC0100000 + of_nat i)
       (tables_boot, io_boot (pic_off, pic_off)) = Inr (s', io') \<and>
     exec (\<lambda>_ w. Inr w) clob_example (take 17 (isr_stub 32)) (deliver (idt s' ! 32) 32 0 cpu_example, ()) = Inr (c', ()) \<and>
     IF_on cpu_example \<and> \<not> IF_on c'"
proof -
  have l: "length (gdt tables_boot) = 5" by (simp add: tables_boot_def)
  from descriptor_tables_init_spec [OF l, of pic_bus "0xC0107000" "0xC0108000" "\<lambda>i. 0xC0100000 + of_nat i" "io_boot (pic_off, pic_off)"]
  obtain s' io' where s: "descriptor_tables_init pic_bus 0xC0107000 0xC0108000 (\<lambda>i. 0xC0100000 + of_nat i)
       (tables_boot, io_boot (pic_off, pic_off)) = Inr (s', io')" by blast
  obtain c' where c: "exec (\<lambda>_ w. Inr w) clob_example (take 17 (isr_stub 32)) (deliver (idt s' ! 32) 32 0 cpu_example, ()) = Inr (c', ())"
    by (simp add: isr_stub_def ISR_NO_ERRCODE_def isr_common_stub_def)
  have "isr_stub 32 = take 17 (isr_stub 32) @ drop 17 (isr_stub 32)" by simp
  from stub_not_interrupted [OF clob_example_c_call l s _ this c]
  have "IF_on c' \<longrightarrow> drop 17 (isr_stub 32) = [Iret] \<or> drop 17 (isr_stub 32) = []" by simp
  moreover have "length (drop 17 (isr_stub 32)) = 9" by (simp add: isr_stub_def ISR_NO_ERRCODE_def isr_common_stub_def)
  ultimately have "\<not> IF_on c'" by fastforce
  moreover have "IF_on cpu_example" by (simp add: cpu_example_def IF_BIT_def)
  ultimately show ?thesis using s c by blast
qed

end
