(* ===== verification/Sleep.thy ===== *)
theory Sleep
  imports Isr
begin

text \<open>
  \<^verbatim>\<open>sleep\<close> of \<^verbatim>\<open>kernel/kernel/timer.c\<close> once more, now with the instructions of \<^verbatim>\<open>kernel/kernel/common.c\<close> it is made
  of (\<^verbatim>\<open>cli\<close>, \<^verbatim>\<open>sti\<close>, \<^verbatim>\<open>halt\<close>) and with interrupts that may arrive between any two of its steps while the
  interrupt flag is set. The clock has 64 bits and the processor reads 32 at a time, so a
  reading consists of two steps. An interrupt is one step: interrupts are off in the handlers.
  \<^verbatim>\<open>sti\<close> and \<^verbatim>\<open>halt\<close> are calls of functions of another file, so the processor's delay of one
  instruction after \<^verbatim>\<open>sti\<close> is over before \<^verbatim>\<open>hlt\<close>, and an interrupt may come between them.
\<close>

section \<open>Model\<close>

record 'd machine =
  m_if :: bool
  m_halted :: bool
  m_con :: "'d con"

definition halt :: "'d machine \<Rightarrow> 'd machine" where
  "halt m = m\<lparr>m_halted := True\<rparr>"

definition nop :: "'d machine \<Rightarrow> 'd machine" where
  "nop m = m"

definition sti :: "'d machine \<Rightarrow> 'd machine" where
  "sti m = m\<lparr>m_if := True\<rparr>"

definition cli :: "'d machine \<Rightarrow> 'd machine" where
  "cli m = m\<lparr>m_if := False\<rparr>"

function nop_loop :: "size_t \<Rightarrow> size_t \<Rightarrow> 'd machine \<Rightarrow> 'd machine" where
  "nop_loop i n m = (if i < n then nop_loop (i + 1) n (nop m) else m)"
  by pat_completeness auto
termination
  by (relation "measure (\<lambda>(i, n, m). unat n - unat i)") (simp_all add: loop_measure)

declare nop_loop.simps [simp del]

definition nopN :: "size_t \<Rightarrow> 'd machine \<Rightarrow> 'd machine" where
  "nopN n m = nop_loop 0 n m"

text \<open>
  The points of \<^verbatim>\<open>sleep\<close>: the statement that is next, with the local variables, which are
  \<^verbatim>\<open>end_time\<close> and the half of the clock that has been read.
\<close>

datatype sleep_pc =
    Enter
  | Read_lo
  | Read_hi u32
  | Test_lo u64
  | Test_hi u64 u32
  | Loop_sti u64
  | Loop_halt u64
  | Loop_cli u64
  | Leave u64
  | Done u64

abbreviation clock :: "'d machine \<Rightarrow> u64" where
  "clock m \<equiv> ns_since_boot (con_io (m_con m))"

definition lo_half :: "u64 \<Rightarrow> u32" where
  "lo_half t = ucast t"

definition hi_half :: "u64 \<Rightarrow> u32" where
  "hi_half t = ucast (drop_bit 32 t)"

definition join :: "u32 \<Rightarrow> u32 \<Rightarrow> u64" where
  "join l h = push_bit 32 (ucast h) OR ucast l"

fun sleep_prog :: "u32 \<Rightarrow> sleep_pc \<Rightarrow> 'd machine \<Rightarrow> (sleep_pc \<times> 'd machine) option" where
  "sleep_prog millis Enter m = Some (Read_lo, cli m)"
| "sleep_prog millis Read_lo m = Some (Read_hi (lo_half (clock m)), m)"
| "sleep_prog millis (Read_hi l) m = Some (Test_lo (join l (hi_half (clock m)) + ucast millis * 1000000), m)"
| "sleep_prog millis (Test_lo e) m = Some (Test_hi e (lo_half (clock m)), m)"
| "sleep_prog millis (Test_hi e l) m = Some (if join l (hi_half (clock m)) < e then Loop_sti e else Leave e, m)"
| "sleep_prog millis (Loop_sti e) m = Some (Loop_halt e, sti m)"
| "sleep_prog millis (Loop_halt e) m = Some (Loop_cli e, halt m)"
| "sleep_prog millis (Loop_cli e) m = Some (Test_lo e, cli m)"
| "sleep_prog millis (Leave e) m = Some (Done e, sti m)"
| "sleep_prog millis (Done e) m = None"

definition returned :: "sleep_pc \<Rightarrow> bool" where
  "returned p \<longleftrightarrow> (case p of Done e \<Rightarrow> True | _ \<Rightarrow> False)"

text \<open>
  A halted processor waits for an interrupt, which is taken whenever the flag is set. \<open>H\<close> is what an
  interrupt does to the kernel, for which the theorems below have \<open>isr_handler\<close>.
\<close>

inductive sleep_step ::
  "(registers_t \<Rightarrow> 'd con \<Rightarrow> 'd con res) \<Rightarrow> u32 \<Rightarrow> sleep_pc \<times> 'd machine \<Rightarrow> sleep_pc \<times> 'd machine \<Rightarrow> bool"
  for H :: "registers_t \<Rightarrow> 'd con \<Rightarrow> 'd con res" and millis :: u32 where
  program: "\<not> m_halted m \<Longrightarrow> sleep_prog millis p m = Some s \<Longrightarrow> sleep_step H millis (p, m) s"
| interrupt: "m_if m \<Longrightarrow> \<not> returned p \<Longrightarrow> benign (interrupt_handlers (con_io (m_con m))) regs \<Longrightarrow>
    H regs (m_con m) = Inr k \<Longrightarrow> sleep_step H millis (p, m) (p, m\<lparr>m_con := k, m_halted := False\<rparr>)"

inductive_cases sleep_step_cases: "sleep_step H millis (p, m) (p', m')"

text \<open>
  Runs in which all interrupts are timer interrupts, with the number of steps of \<^verbatim>\<open>sleep\<close> itself.
  The clock does not overflow, which takes more than five hundred years.
\<close>

inductive ticking_run ::
  "(registers_t \<Rightarrow> 'd con \<Rightarrow> 'd con res) \<Rightarrow> u32 \<Rightarrow> nat \<Rightarrow> sleep_pc \<times> 'd machine \<Rightarrow> sleep_pc \<times> 'd machine \<Rightarrow> bool"
  for H :: "registers_t \<Rightarrow> 'd con \<Rightarrow> 'd con res" and millis :: u32 where
  start: "ticking_run H millis 0 s s"
| program: "ticking_run H millis n s (p, m) \<Longrightarrow> \<not> m_halted m \<Longrightarrow> sleep_prog millis p m = Some s' \<Longrightarrow>
    ticking_run H millis (Suc n) s s'"
| tick: "ticking_run H millis n s (p, m) \<Longrightarrow> m_if m \<Longrightarrow> \<not> returned p \<Longrightarrow> reg_int_no regs = 32 \<Longrightarrow>
    H regs (m_con m) = Inr k \<Longrightarrow> unat (clock m) + unat ns_per_tick < 2 ^ 64 \<Longrightarrow>
    ticking_run H millis n s (p, m\<lparr>m_con := k, m_halted := False\<rparr>)"

section \<open>Specification\<close>

text \<open>
  The clock after ticks from \<open>t0\<close> on, of which there are none before interrupts are off unless they were
  on (\<open>b\<close>); and the clock after further ticks, when the end time is \<open>e\<close>.
\<close>

definition ticked :: "bool \<Rightarrow> u64 \<Rightarrow> u64 \<Rightarrow> bool" where
  "ticked b t0 t \<longleftrightarrow> (\<exists>j. (\<not> b \<longrightarrow> j = 0) \<and> t = t0 + of_nat j * ns_per_tick)"

definition ends_at :: "u32 \<Rightarrow> bool \<Rightarrow> u64 \<Rightarrow> u64 \<Rightarrow> u64 \<Rightarrow> bool" where
  "ends_at millis b t0 e t \<longleftrightarrow>
     (\<exists>s i. ticked b t0 s \<and> e = s + ucast millis * 1000000 \<and> t = s + of_nat i * ns_per_tick)"

text \<open>
  The invariant of \<^verbatim>\<open>sleep\<close>, called when the clock was \<open>t0\<close> and the interrupt flag \<open>b\<close>: where interrupts are
  on and off, where the processor may be halted, and what is known of the clock.
\<close>

fun sleep_point :: "u32 \<Rightarrow> u64 \<Rightarrow> bool \<Rightarrow> sleep_pc \<Rightarrow> 'd machine \<Rightarrow> bool" where
  "sleep_point millis t0 b Enter m \<longleftrightarrow>
     m_if m = b \<and> \<not> m_halted m \<and> ticked b t0 (clock m)"
| "sleep_point millis t0 b Read_lo m \<longleftrightarrow>
     \<not> m_if m \<and> \<not> m_halted m \<and> ticked b t0 (clock m)"
| "sleep_point millis t0 b (Read_hi l) m \<longleftrightarrow>
     \<not> m_if m \<and> \<not> m_halted m \<and> l = lo_half (clock m) \<and> ticked b t0 (clock m)"
| "sleep_point millis t0 b (Test_lo e) m \<longleftrightarrow>
     \<not> m_if m \<and> \<not> m_halted m \<and> ends_at millis b t0 e (clock m)"
| "sleep_point millis t0 b (Test_hi e l) m \<longleftrightarrow>
     \<not> m_if m \<and> \<not> m_halted m \<and> l = lo_half (clock m) \<and> ends_at millis b t0 e (clock m)"
| "sleep_point millis t0 b (Loop_sti e) m \<longleftrightarrow>
     \<not> m_if m \<and> \<not> m_halted m \<and> clock m < e \<and> ends_at millis b t0 e (clock m)"
| "sleep_point millis t0 b (Loop_halt e) m \<longleftrightarrow>
     m_if m \<and> \<not> m_halted m \<and> ends_at millis b t0 e (clock m)"
| "sleep_point millis t0 b (Loop_cli e) m \<longleftrightarrow>
     m_if m \<and> ends_at millis b t0 e (clock m)"
| "sleep_point millis t0 b (Leave e) m \<longleftrightarrow>
     \<not> m_if m \<and> \<not> m_halted m \<and> e \<le> clock m \<and> ends_at millis b t0 e (clock m)"
| "sleep_point millis t0 b (Done e) m \<longleftrightarrow>
     m_if m \<and> \<not> m_halted m \<and> e \<le> clock m \<and> ends_at millis b t0 e (clock m)"

definition sleep_inv :: "('d con \<Rightarrow> bool) \<Rightarrow> u32 \<Rightarrow> u64 \<Rightarrow> bool \<Rightarrow> sleep_pc \<times> 'd machine \<Rightarrow> bool" where
  "sleep_inv ok millis t0 b s \<longleftrightarrow> ok (m_con (snd s)) \<and> sleep_point millis t0 b (fst s) (snd s)"

text \<open>
  The ticks until the end time, and a bound on the steps of \<^verbatim>\<open>sleep\<close> that are left if every interrupt is a
  tick. A halt that has missed its tick takes one more.
\<close>

definition ticks_left :: "u64 \<Rightarrow> u64 \<Rightarrow> nat" where
  "ticks_left e t = (unat e - unat t + 54924562) div 54924563"

definition ticks_of :: "u32 \<Rightarrow> nat" where
  "ticks_of millis = (unat millis * 1000000 + 54924562) div 54924563"

fun steps_left :: "u32 \<Rightarrow> sleep_pc \<Rightarrow> 'd machine \<Rightarrow> nat" where
  "steps_left millis Enter m = 6 * ticks_of millis + 7"
| "steps_left millis Read_lo m = 6 * ticks_of millis + 6"
| "steps_left millis (Read_hi l) m = 6 * ticks_of millis + 5"
| "steps_left millis (Test_lo e) m = 6 * ticks_left e (clock m) + 4"
| "steps_left millis (Test_hi e l) m = 6 * ticks_left e (clock m) + 3"
| "steps_left millis (Loop_sti e) m = 6 * ticks_left e (clock m) + 2"
| "steps_left millis (Loop_halt e) m = 6 * max 1 (ticks_left e (clock m)) + 1"
| "steps_left millis (Loop_cli e) m =
     (if m_halted m then 6 * max 1 (ticks_left e (clock m)) else 6 * ticks_left e (clock m) + 5)"
| "steps_left millis (Leave e) m = 1"
| "steps_left millis (Done e) m = 0"

definition machine_of :: "bool \<Rightarrow> 'd con \<Rightarrow> 'd machine" where
  "machine_of b k = \<lparr>m_if = b, m_halted = False, m_con = k\<rparr>"

section \<open>One step\<close>

lemma join_halves: "join (lo_half t) (hi_half t) = t"
  by (auto simp: join_def lo_half_def hi_half_def bit_eq_iff bit_simps not_less)

lemma nop_loop_id: "nop_loop i n m = m"
  by (induction i n m rule: nop_loop.induct) (subst nop_loop.simps, simp add: nop_def)

lemma ticked_start: "ticked b t t"
  by (auto simp: ticked_def intro: exI [of _ 0])

lemma ticked_tick: "ticked True t0 t \<Longrightarrow> ticked True t0 (t + ns_per_tick)"
proof -
  assume "ticked True t0 t"
  then obtain j where "t = t0 + of_nat j * ns_per_tick" by (auto simp: ticked_def)
  then have "t + ns_per_tick = t0 + of_nat (Suc j) * ns_per_tick" by (simp add: algebra_simps)
  then show ?thesis unfolding ticked_def by blast
qed

lemma ends_at_start: "ticked b t0 t \<Longrightarrow> ends_at millis b t0 (t + ucast millis * 1000000) t"
  by (auto simp: ends_at_def intro!: exI [of _ t] exI [of _ 0])

lemma ends_at_tick: "ends_at millis b t0 e t \<Longrightarrow> ends_at millis b t0 e (t + ns_per_tick)"
proof -
  assume "ends_at millis b t0 e t"
  then obtain s i where s: "ticked b t0 s" "e = s + ucast millis * 1000000" "t = s + of_nat i * ns_per_tick"
    by (auto simp: ends_at_def)
  then have "t + ns_per_tick = s + of_nat (Suc i) * ns_per_tick" by (simp add: algebra_simps)
  then show ?thesis unfolding ends_at_def using s(1,2) by blast
qed

lemmas instr_simps = cli_def sti_def halt_def

lemma program_keeps_inv:
  assumes "sleep_inv ok millis t0 b (p, m)" "\<not> m_halted m" "sleep_prog millis p m = Some s"
  shows "sleep_inv ok millis t0 b s"
  using assms
  by (cases p) (auto simp: sleep_inv_def instr_simps join_halves not_less intro: ends_at_start)

context interrupt_service
begin

lemma interrupt_keeps_inv:
  assumes "sleep_inv ok millis t0 b (p, m)" "m_if m" "\<not> returned p"
    and "benign (interrupt_handlers (con_io (m_con m))) r" "H r (m_con m) = Inr k"
  shows "sleep_inv ok millis t0 b (p, m\<lparr>m_con := k, m_halted := False\<rparr>)"
proof -
  have ok: "ok (m_con m)" and p: "sleep_point millis t0 b p m" using assms(1) by (simp_all add: sleep_inv_def)
  note k = served_result [OF ok assms(4,5)]
  have "sleep_point millis t0 b p (m\<lparr>m_con := k, m_halted := False\<rparr>)"
    using p assms(2,3) k(3) by (cases p) (auto simp: returned_def intro: ends_at_tick ticked_tick)
  then show ?thesis using k(1) by (simp add: sleep_inv_def)
qed

lemma step_keeps_inv:
  assumes "sleep_step H millis s s'" "sleep_inv ok millis t0 b s"
  shows "sleep_inv ok millis t0 b s'"
  using assms by cases (auto intro: program_keeps_inv interrupt_keeps_inv)

lemma run_keeps_inv:
  assumes "(sleep_step H millis)\<^sup>*\<^sup>* s s'" "sleep_inv ok millis t0 b s"
  shows "sleep_inv ok millis t0 b s'"
  using assms by (induction rule: rtranclp_induct) (auto intro: step_keeps_inv)

lemma inv_progress:
  assumes "sleep_inv ok millis t0 b (p, m)" "\<not> returned p"
  shows "\<exists>s. sleep_step H millis (p, m) s"
proof (cases "m_halted m")
  case True
  then have on: "m_if m" using assms(1) by (cases p) (simp_all add: sleep_inv_def)
  obtain k where "H reg_example (m_con m) = Inr k" using tick_served assms(1) by (auto simp: sleep_inv_def)
  moreover have "benign (interrupt_handlers (con_io (m_con m))) reg_example" by (simp add: benign_def reg_example_def)
  ultimately show ?thesis using sleep_step.interrupt [OF on assms(2)] by blast
next
  case False
  obtain s where "sleep_prog millis p m = Some s" using assms(2) by (cases p) (auto simp: returned_def)
  from sleep_step.program [OF False this] show ?thesis by blast
qed

end

section \<open>Termination\<close>

lemma ticks_left_start: "ticks_left (t + ucast (millis :: u32) * 1000000) t \<le> ticks_of millis"
proof -
  have m: "unat (ucast millis :: u64) = unat millis"
    using less_trans [OF unat_lt_2p32 [of millis], of "18446744073709551616"] by (simp add: unsigned_ucast_eq take_bit_eq_mod)
  have "unat (t + ucast millis * 1000000) \<le> unat t + unat (ucast millis * 1000000 :: u64)" by (metis unat_word_ariths(1) mod_less_eq_dividend)
  also have "unat (ucast millis * 1000000 :: u64) \<le> unat millis * 1000000" using m by (simp add: unat_word_ariths(2))
  finally show ?thesis unfolding ticks_left_def ticks_of_def by (intro div_le_mono) simp
qed

lemma ticks_left_tick:
  assumes "unat t + unat ns_per_tick < 2 ^ 64"
  shows "ticks_left e (t + ns_per_tick) = ticks_left e t - 1"
proof -
  have "unat (t + ns_per_tick) = unat t + 54924563" using assms by (intro unat_u64_tick) (simp add: ns_per_tick_value)
  then have "ticks_left e (t + ns_per_tick) = (unat e - unat t - 54924563 + 54924562) div 54924563" by (simp add: ticks_left_def)
  also have "\<dots> = (unat e - unat t + 54924562) div 54924563 - 1" by linarith
  finally show ?thesis by (simp add: ticks_left_def)
qed

lemma ticks_left_pos: "t < e \<Longrightarrow> 1 \<le> ticks_left e t"
  by (simp add: ticks_left_def word_less_nat_alt)

lemma program_steps_left:
  assumes "sleep_point millis t0 b p m" "\<not> m_halted m" "sleep_prog millis p m = Some (p', m')"
  shows "steps_left millis p' m' < steps_left millis p m"
  using assms ticks_left_start [of "clock m" millis] ticks_left_pos [of "clock m"]
  by (cases p) (auto simp: instr_simps join_halves)

lemma tick_steps_left:
  assumes "sleep_point millis t0 b p m" "m_if m" "\<not> returned p" "unat (clock m) + unat ns_per_tick < 2 ^ 64"
    and "ns_since_boot (con_io k) = clock m + ns_per_tick"
  shows "steps_left millis p (m\<lparr>m_con := k, m_halted := False\<rparr>) \<le> steps_left millis p m"
  using assms ticks_left_tick [OF assms(4)] by (cases p) (auto simp: returned_def)

context interrupt_service
begin

lemma ticking_run_bound:
  assumes "ticking_run H millis n s s'" "sleep_inv ok millis t0 b s"
  shows "sleep_inv ok millis t0 b s' \<and> n + steps_left millis (fst s') (snd s') \<le> steps_left millis (fst s) (snd s)"
  using assms
proof induction
  case (program n s p m s')
  then have inv: "sleep_inv ok millis t0 b (p, m)" by blast
  then have "steps_left millis (fst s') (snd s') < steps_left millis p m"
    using program_steps_left [of millis t0 b p m] program.hyps(2,3) by (cases s') (simp add: sleep_inv_def)
  then show ?case using program program_keeps_inv [OF inv] by fastforce
next
  case (tick n s p m regs k)
  then have inv: "sleep_inv ok millis t0 b (p, m)" by blast
  have be: "benign (interrupt_handlers (con_io (m_con m))) regs" using tick.hyps(4) by (simp add: benign_def)
  have "ns_since_boot (con_io k) = clock m + ns_per_tick"
    using served_result(3) [OF _ be tick.hyps(5)] inv tick.hyps(4) by (simp add: sleep_inv_def)
  then have "steps_left millis p (m\<lparr>m_con := k, m_halted := False\<rparr>) \<le> steps_left millis p m"
    using tick_steps_left [of millis t0 b p m k] inv tick.hyps(2,3,6) by (simp add: sleep_inv_def)
  then show ?case using tick interrupt_keeps_inv [OF inv tick.hyps(2,3) be tick.hyps(5)] by fastforce
qed simp

end

section \<open>Refinement\<close>

lemma steps_program:
  "(sleep_step H millis)\<^sup>*\<^sup>* s (p, m) \<Longrightarrow> \<not> m_halted m \<Longrightarrow> sleep_prog millis p m = Some s' \<Longrightarrow>
   (sleep_step H millis)\<^sup>*\<^sup>* s s'"
  by (meson rtranclp.rtrancl_into_rtrancl sleep_step.program)

lemma steps_interrupt:
  "(sleep_step H millis)\<^sup>*\<^sup>* s (p, m) \<Longrightarrow> m_if m \<Longrightarrow> \<not> returned p \<Longrightarrow> benign (interrupt_handlers (con_io (m_con m))) r \<Longrightarrow>
   H r (m_con m) = Inr k \<Longrightarrow> (sleep_step H millis)\<^sup>*\<^sup>* s (p, m\<lparr>m_con := k, m_halted := False\<rparr>)"
  by (rule rtranclp.rtrancl_into_rtrancl) (assumption, rule sleep_step.interrupt)

lemma steps_sti:
  assumes "ns_since_boot (con_io k) < e"
  shows "(sleep_step H millis)\<^sup>*\<^sup>* (Test_lo e, machine_of False k) (Loop_halt e, machine_of True k)"
proof -
  let ?S = "(sleep_step H millis)\<^sup>*\<^sup>* (Test_lo e, machine_of False k)"
  have "?S (Test_hi e (lo_half (ns_since_boot (con_io k))), machine_of False k)"
    by (rule steps_program [OF rtranclp.rtrancl_refl]) (simp_all add: machine_of_def)
  then have "?S (Loop_sti e, machine_of False k)"
    by (rule steps_program) (simp_all add: machine_of_def join_halves assms)
  then show ?thesis by (rule steps_program) (simp_all add: machine_of_def sti_def)
qed

lemma steps_wake:
  assumes "(sleep_step H millis)\<^sup>*\<^sup>* s (Loop_halt e, machine_of True k)"
    and "benign (interrupt_handlers (con_io k)) r" "H r k = Inr k'"
  shows "(sleep_step H millis)\<^sup>*\<^sup>* s (Test_lo e, machine_of False k')"
proof -
  let ?S = "(sleep_step H millis)\<^sup>*\<^sup>* s"
  have "?S (Loop_cli e, halt (machine_of True k))" using assms(1) by (rule steps_program) (simp_all add: machine_of_def)
  then have "?S (Loop_cli e, (halt (machine_of True k))\<lparr>m_con := k', m_halted := False\<rparr>)"
    by (rule steps_interrupt) (use assms(2,3) in \<open>simp_all add: machine_of_def halt_def returned_def\<close>)
  then show ?thesis by (rule steps_program) (simp_all add: machine_of_def halt_def cli_def)
qed

lemma steps_leave:
  assumes "\<not> ns_since_boot (con_io k) < e"
  shows "(sleep_step H millis)\<^sup>*\<^sup>* (Test_lo e, machine_of False k) (Done e, machine_of True k)"
proof -
  let ?S = "(sleep_step H millis)\<^sup>*\<^sup>* (Test_lo e, machine_of False k)"
  have "?S (Test_hi e (lo_half (ns_since_boot (con_io k))), machine_of False k)"
    by (rule steps_program [OF rtranclp.rtrancl_refl]) (simp_all add: machine_of_def)
  then have "?S (Leave e, machine_of False k)"
    by (rule steps_program) (simp_all add: machine_of_def join_halves assms)
  then show ?thesis by (rule steps_program) (simp_all add: machine_of_def sti_def)
qed

lemma steps_enter:
  "(sleep_step H millis)\<^sup>*\<^sup>* (Enter, machine_of b k)
     (Test_lo (ns_since_boot (con_io k) + ucast millis * 1000000), machine_of False k)"
proof -
  let ?S = "(sleep_step H millis)\<^sup>*\<^sup>* (Enter, machine_of b k)"
  have "?S (Read_lo, machine_of False k)"
    by (rule steps_program [OF rtranclp.rtrancl_refl]) (simp_all add: machine_of_def cli_def)
  then have "?S (Read_hi (lo_half (ns_since_boot (con_io k))), machine_of False k)"
    by (rule steps_program) (simp_all add: machine_of_def)
  then show ?thesis by (rule steps_program) (simp_all add: machine_of_def join_halves)
qed

lemma sleep_loop_run:
  assumes "\<forall>c. 0 \<le> R c" "con_ready B u k" "quiet (interrupt_handlers (con_io k)) env"
    "sleep_loop R B F env i e k = Some (Inr (n, k'))"
  shows "(sleep_step (isr_handler R B F) millis)\<^sup>*\<^sup>* (Test_lo e, machine_of False k) (Done e, machine_of True k')"
proof -
  define P where "P = (\<lambda>(R :: u8 \<Rightarrow> int) (B :: 'a bus) F env (i :: nat) e k (y :: (nat \<times> 'a con) res). (\<forall>c. 0 \<le> R c) \<longrightarrow> con_ready B u k \<longrightarrow>
    quiet (interrupt_handlers (con_io k)) env \<longrightarrow>
    (\<forall>n k'. y = Inr (n, k') \<longrightarrow> (sleep_step (isr_handler R B F) millis)\<^sup>*\<^sup>* (Test_lo e, machine_of False k) (Done e, machine_of True k')))"
  have "P R B F env i e k (Inr (n, k'))"
  proof (rule sleep_loop.raw_induct [where P = P, OF _ assms(4)], goal_cases)
    case (1 loop R B F env i e k y)
    show ?case
      unfolding P_def
    proof (intro impI allI)
      fix n k' assume a: "\<forall>c. 0 \<le> R c" "con_ready B u k" "quiet (interrupt_handlers (con_io k)) env" "y = Inr (n, k')"
      show "(sleep_step (isr_handler R B F) millis)\<^sup>*\<^sup>* (Test_lo e, machine_of False k) (Done e, machine_of True k')"
      proof (cases "ns_since_boot (con_io k) < e")
        case True
        from quiet_step [OF a(2,1,3), of F i] obtain k1 where
          k1: "isr_handler R B F (env i) k = Inr k1" "con_ready B u k1" "interrupt_handlers (con_io k1) = interrupt_handlers (con_io k)"
          by blast
        then have "loop R B F env (Suc i) e k1 = Some y" using 1(2) True by simp
        from 1(1) [OF this] a k1(2,3)
        have "(sleep_step (isr_handler R B F) millis)\<^sup>*\<^sup>* (Test_lo e, machine_of False k1) (Done e, machine_of True k')" by (simp add: P_def)
        moreover have "benign (interrupt_handlers (con_io k)) (env i)" using a(3) by (simp add: quiet_def)
        then have "(sleep_step (isr_handler R B F) millis)\<^sup>*\<^sup>* (Test_lo e, machine_of False k) (Test_lo e, machine_of False k1)"
          using k1(1) by (rule steps_wake [OF steps_sti [OF True]])
        ultimately show ?thesis by (meson rtranclp_trans)
      next
        case False
        then show ?thesis using 1(2) a(4) steps_leave by auto
      qed
    qed
  qed
  then show ?thesis using assms(1-3) by (simp add: P_def)
qed

section \<open>Properties\<close>

text \<open>
  C8. \<^verbatim>\<open>sleep\<close> with interrupts between any two of its steps: interrupts are off whenever the clock is
  read, so its two halves belong together; the processor is halted only with interrupts on, so it can
  always be woken; there is always a next step until \<^verbatim>\<open>sleep\<close> returns; and when it returns, interrupts
  are on and the clock has reached the end time, which is the requested time after the clock as it
  was when interrupts were turned off.
\<close>

theorem sleep_interleaved:
  assumes "con_ready B u (m_con m)" "\<forall>c. 0 \<le> R c" "interrupt_handlers (con_io (m_con m)) ! 32 = Some H_timer"
    and "\<not> m_halted m" "(sleep_step (isr_handler R B F) millis)\<^sup>*\<^sup>* (Enter, m) (p, m')"
  shows "(\<forall>l. p = Read_hi l \<or> (\<exists>e. p = Test_hi e l) \<longrightarrow> \<not> m_if m' \<and> l = lo_half (clock m')) \<and>
    (m_halted m' \<longrightarrow> m_if m') \<and>
    (returned p \<or> (\<exists>s. sleep_step (isr_handler R B F) millis (p, m') s)) \<and>
    (\<forall>e. p = Done e \<longrightarrow> m_if m' \<and> e \<le> clock m' \<and> ends_at millis (m_if m) (clock m) e (clock m'))"
proof -
  have "sleep_inv (\<lambda>k. con_ready B u k \<and> (\<forall>c. 0 \<le> R c) \<and> interrupt_handlers (con_io k) ! 32 = Some H_timer)
      millis (clock m) (m_if m) (Enter, m)"
    using assms(1-4) by (simp add: sleep_inv_def ticked_start)
  note inv = isr.run_keeps_inv [OF assms(5) this]
  then have p: "sleep_point millis (clock m) (m_if m) p m'" by (simp add: sleep_inv_def)
  then have "m_halted m' \<longrightarrow> m_if m'" by (cases p) auto
  with isr.inv_progress [OF inv] p show ?thesis by auto
qed

theorem sleep_interleaved_witness:
  "\<exists>m'. (sleep_step (isr_handler (\<lambda>_. 0) uart_bus fault_example) 0)\<^sup>*\<^sup>*
       (Enter, machine_of True (con_example\<lparr>con_io := (con_io con_example)\<lparr>interrupt_handlers := (replicate 256 None)[32 := Some H_timer]\<rparr>\<rparr>))
       (Done 0, m') \<and> m_if m' \<and> ends_at 0 True 0 0 (clock m')"
proof -
  let ?k = "con_example\<lparr>con_io := (con_io con_example)\<lparr>interrupt_handlers := (replicate 256 None)[32 := Some H_timer]\<rparr>\<rparr>"
  have k: "con_ready uart_bus (\<lambda>d. d) (m_con (machine_of True ?k))"
    using con_example_ready by (simp add: con_ready_def machine_of_def)
  have 0: "ns_since_boot (con_io ?k) = 0" by (simp add: con_example_def io_boot_def)
  have run: "(sleep_step (isr_handler (\<lambda>_. 0) uart_bus fault_example) 0)\<^sup>*\<^sup>* (Enter, machine_of True ?k) (Done 0, machine_of True ?k)"
    using steps_enter [where k = ?k and millis = 0 and b = True] steps_leave [where k = ?k and e = 0 and millis = 0] 0
    by (auto intro: rtranclp_trans)
  from sleep_interleaved [OF k _ _ _ run] run 0 show ?thesis by (auto simp: machine_of_def)
qed

text \<open>
  C9. \<^verbatim>\<open>sleep\<close> terminates while the timer is ticking, whenever the ticks come: if all interrupts are timer
  interrupts, it makes at most six steps for each tick the requested time lasts and seven more, and it is
  never stuck before it has returned.
\<close>

theorem sleep_terminates:
  assumes "con_ready B u (m_con m)" "\<forall>c. 0 \<le> R c" "interrupt_handlers (con_io (m_con m)) ! 32 = Some H_timer"
    and "\<not> m_halted m" "ticking_run (isr_handler R B F) millis n (Enter, m) (p, m')"
  shows "n \<le> 6 * ticks_of millis + 7 \<and> (returned p \<or> (\<exists>s. sleep_step (isr_handler R B F) millis (p, m') s))"
proof -
  have "sleep_inv (\<lambda>k. con_ready B u k \<and> (\<forall>c. 0 \<le> R c) \<and> interrupt_handlers (con_io k) ! 32 = Some H_timer)
      millis (clock m) (m_if m) (Enter, m)"
    using assms(1-4) by (simp add: sleep_inv_def ticked_start)
  from isr.ticking_run_bound [OF assms(5) this] isr.inv_progress show ?thesis by fastforce
qed

theorem sleep_terminates_witness:
  "ticking_run (isr_handler (\<lambda>_. 0) uart_bus fault_example) 1000 1
     (Enter, machine_of True (con_example\<lparr>con_io := (con_io con_example)\<lparr>interrupt_handlers := (replicate 256 None)[32 := Some H_timer]\<rparr>\<rparr>))
     (Read_lo, machine_of False (con_example\<lparr>con_io := (con_io con_example)\<lparr>interrupt_handlers := (replicate 256 None)[32 := Some H_timer]\<rparr>\<rparr>)) \<and>
   (1 :: nat) \<le> 6 * 19 + 7"
proof -
  let ?k = "con_example\<lparr>con_io := (con_io con_example)\<lparr>interrupt_handlers := (replicate 256 None)[32 := Some H_timer]\<rparr>\<rparr>"
  have k: "con_ready uart_bus (\<lambda>d. d) (m_con (machine_of True ?k))"
    using con_example_ready by (simp add: con_ready_def machine_of_def)
  have run: "ticking_run (isr_handler (\<lambda>_. 0) uart_bus fault_example) 1000 1 (Enter, machine_of True ?k) (Read_lo, machine_of False ?k)"
    using ticking_run.program [OF ticking_run.start, of "machine_of True ?k" 1000 Enter "(Read_lo, machine_of False ?k)"]
    by (simp add: machine_of_def cli_def)
  have "ticks_of 1000 = 19" by (simp add: ticks_of_def)
  with sleep_terminates [OF k _ _ _ run] run show ?thesis by (simp add: machine_of_def)
qed



text \<open>
  A tick that comes after \<^verbatim>\<open>sti\<close> and before \<^verbatim>\<open>hlt\<close> is missed by the halt: although one tick would have
  been enough, \<^verbatim>\<open>sleep\<close> can take two.
\<close>

lemma sleep_late:
  assumes "con_ready B u k" "\<forall>c. 0 \<le> R c" "interrupt_handlers (con_io k) ! 32 = Some H_timer"
    and "ns_since_boot (con_io k) < e" "unat e \<le> unat (ns_since_boot (con_io k)) + 54924563"
    "unat (ns_since_boot (con_io k)) + 2 * 54924563 < 2 ^ 64"
  shows "\<exists>k'. (sleep_step (isr_handler R B F) millis)\<^sup>*\<^sup>* (Test_lo e, machine_of False k) (Done e, machine_of True k') \<and>
    ns_since_boot (con_io k') = ns_since_boot (con_io k) + 2 * ns_per_tick"
proof -
  let ?S = "(sleep_step (isr_handler R B F) millis)\<^sup>*\<^sup>* (Test_lo e, machine_of False k)"
  have r: "reg_int_no reg_example = 32" by (simp add: reg_example_def)
  then have be: "benign hs reg_example" for hs by (simp add: benign_def)
  from benign_handler [OF assms(1-3) be, of F] r obtain k1 where k1: "isr_handler R B F reg_example k = Inr k1" "con_ready B u k1"
    "interrupt_handlers (con_io k1) = interrupt_handlers (con_io k)" "ns_since_boot (con_io k1) = ns_since_boot (con_io k) + ns_per_tick" by auto
  from benign_handler [OF k1(2) assms(2) _ be, of F] r k1(3,4) assms(3) obtain k2 where k2: "isr_handler R B F reg_example k1 = Inr k2"
    "ns_since_boot (con_io k2) = ns_since_boot (con_io k) + 2 * ns_per_tick" by auto
  have ge: "\<not> ns_since_boot (con_io k2) < e"
    using k2(2) assms(5,6) by (simp add: word_less_nat_alt unat_word_ariths ns_per_tick_value)
  have "?S (Loop_halt e, (machine_of True k)\<lparr>m_con := k1, m_halted := False\<rparr>)"
    using k1(1) be by (intro steps_interrupt [OF steps_sti [OF assms(4)]]) (simp_all add: machine_of_def returned_def)
  then have "?S (Loop_halt e, machine_of True k1)" by (simp add: machine_of_def)
  from steps_wake [OF this be k2(1)] steps_leave [OF ge] k2(2) show ?thesis by (meson rtranclp_trans)
qed

end
