(* ===== verification/Spec2Isabelle.thy ===== *)
theory Spec2Isabelle
  imports Irq_Lines Debug Decimal Boot Stubs Sleep
begin

text \<open>
  MaOS is a small 32-bit x86 kernel with its own C library. \<^verbatim>\<open>kernel_main\<close> sets up the screen, the
  descriptor tables and interrupt controllers, the serial line, physical and virtual memory, the
  timer and the PCI scan, and then draws for ever. This development models these parts, proves what
  each promises, and composes them: \<open>Boot\<close> runs the boot code up to the call of \<^verbatim>\<open>kernel_main\<close>, and the
  theorems of \<open>Kernel\<close> run \<^verbatim>\<open>kernel_main\<close> from its entry on.
  Paths below are relative to \<^verbatim>\<open>src/\<close>.

  \<^bold>\<open>Conventions.\<close> A C integer of width \<open>w\<close> is a word, so arithmetic wraps as the code's does. A
  function that can fail returns a value of type \<open>'a res\<close>: \<open>Inr\<close> its result, or \<open>Inl\<close> a fault,
  which is a panic (\<^verbatim>\<open>ASSERT\<close>, \<^verbatim>\<open>PANIC\<close>), undefined behaviour (an access outside an array, a null
  dereference, a shift by a negative amount) or a loop that does not end. Static variables of a
  file are the fields of a record that is passed through. A \<^verbatim>\<open>for\<close> loop is \<open>for_each\<close> or a recursive
  function with a measure; a loop that polls a device or follows pointers is a partial function, and
  theorems about it show that it returns. Calls of \<^verbatim>\<open>DEBUG\<close> are left out, since \<^verbatim>\<open>dbflags\<close> is 0 and nothing
  sets it; the macro itself is in \<open>Debug\<close>. Devices are a parameter: a bus whose operations act on a
  device state; what a driver relies on is a named hypothesis (\<open>has_uart\<close>, \<open>has_pics\<close>, \<open>has_pci\<close>, \<open>has_i8042\<close>, \<open>mask_ports\<close>) which states the
  register behaviour of the device, and each has an example device that satisfies it.

  \<^bold>\<open>Theories.\<close>

  \<^descr> \<open>Prelude\<close>: the integer types, the macros of \<^verbatim>\<open>kernel/include/kernel/common.h\<close> and \<^verbatim>\<open>memory.h\<close>, the
    result type and its rules, and the transfer of word arithmetic to natural numbers.
  \<^descr> \<open>Bitset\<close>: \<^verbatim>\<open>libc/bitset/bitset.c\<close>. The locale \<open>index_set\<close> is its interface as a set of numbers;
    the bit sets are an interpretation of it.
  \<^descr> \<open>Pmm\<close>: the buddy allocator of page frames, \<^verbatim>\<open>kernel/memory/pmm.c\<close>. The invariant says that the
    seven levels mark disjoint blocks; the locale \<open>frame_allocator\<close> is what the virtual memory manager
    relies on. Shown: conservation of frames over all reachable states, the two outcomes of an
    allocation, the splitting of blocks, initialisation, and what goes wrong for requests that are
    not a power of two.
  \<^descr> \<open>Vm_List\<close> and \<open>Vm_Bucket\<close>: the doubly linked lists of free page ranges of \<^verbatim>\<open>kernel/memory/vm.c\<close>
    over an explicit heap, \<^verbatim>\<open>vm_reserve_pages\<close>, \<^verbatim>\<open>vm_optimize\<close> and the insertion of
    \<^verbatim>\<open>vm_return_pages\<close>. They refine first fit and coalescing insertion on lists of ranges; the locale
    \<open>page_source\<close> is interpreted on the abstract lists and on the linked ones.
  \<^descr> \<open>Paging\<close>: the page directory and tables as records of bit fields, \<^verbatim>\<open>vm_map_page\<close>,
    \<^verbatim>\<open>vm_unmap_page\<close>, \<^verbatim>\<open>vm_dma\<close> and the paging part of \<^verbatim>\<open>vm_init\<close>, against the walk the processor does.
  \<^descr> \<open>Cstring\<close>: \<^verbatim>\<open>strlen\<close>, \<^verbatim>\<open>memset\<close>, \<^verbatim>\<open>memcpy\<close> of \<^verbatim>\<open>libc/string\<close> with the assembly loop, over loads and
    stores; the locale \<open>byte_memory\<close> is interpreted on flat memory here and on memory behind the page
    tables in \<open>Vm\<close>.
  \<^descr> \<open>Vm\<close>: the composition of the four: \<^verbatim>\<open>vm_init\<close>, \<^verbatim>\<open>vm_alloc_kpages\<close>, \<^verbatim>\<open>vm_free_kpages\<close>,
    \<^verbatim>\<open>vm_kernel_stealmem\<close>, \<^verbatim>\<open>vm_item\<close>, \<^verbatim>\<open>vm_return_pages\<close>.
  \<^descr> \<open>Liballoc\<close>, \<open>Liballoc_Inv\<close>, \<open>Liballoc_Ops\<close>, \<open>Liballoc_Free\<close>, \<open>Liballoc_Data\<close>: the heap allocator
    \<^verbatim>\<open>libc/liballoc/liballoc.c\<close>. \<open>Liballoc\<close> has the model and the specification: runs of pages that are
    tiled by tagged blocks, free lists by size class, no two free neighbours, and the set of live
    blocks. \<open>Liballoc_Inv\<close> shows that linking, unlinking, merging and splitting of tags keep the
    invariant, \<open>Liballoc_Ops\<close> treats \<^verbatim>\<open>malloc\<close>, \<open>Liballoc_Free\<close> treats \<^verbatim>\<open>free\<close>, and \<open>Liballoc_Data\<close> what
    \<^verbatim>\<open>calloc\<close>, \<^verbatim>\<open>realloc\<close> and \<^verbatim>\<open>strdup\<close> do to the bytes. The locale \<open>page_provider\<close> is what the allocator
    relies on of its hook, \<open>page_memory\<close> adds loads and stores.
  \<^descr> \<open>Kmalloc\<close>: the hooks of \<^verbatim>\<open>libc/stdlib/stdlib.c\<close>, which make the virtual memory manager an
    interpretation of \<open>page_memory\<close>, the operators of \<^verbatim>\<open>libc/cpp/new.cpp\<close>, and the heap of the kernel from
    boot on. A release that gives the
    pages of a whole run back ends in \<^verbatim>\<open>vm_free_kpages\<close>; what the hook does then is stated in \<open>Vm\<close>,
    and the histories of the heap stop short of it.
  \<^descr> \<open>Tty\<close>: the text screen \<^verbatim>\<open>kernel/io/tty.c\<close>, refined by an abstract screen.
  \<^descr> \<open>Io\<close>, \<open>Tables\<close>, \<open>Serial\<close>, \<open>Pci\<close>: ports and interrupt registration (\<^verbatim>\<open>port.c\<close>), the descriptor tables
    and interrupt controllers (\<^verbatim>\<open>tables.c\<close>), the serial line (\<^verbatim>\<open>serial.c\<close>), PCI configuration space
    (\<^verbatim>\<open>pci.c\<close>).
  \<^descr> \<open>Printf\<close>, \<open>Decimal\<close> and \<open>Console\<close>: \<^verbatim>\<open>libc/stdio\<close>. \<open>Printf\<close> is \<^verbatim>\<open>vprintf\<close> over an output function and shows that it
    writes what \<open>render\<close> says a format means. A floating-point argument is a codatatype value that holds
    what the operations of \<^verbatim>\<open>print_double\<close> yield on it; \<open>Decimal\<close> makes real numbers such values and shows
    which digits are written for them, and for which numbers a conversion overflows. \<open>Console\<close> supplies \<^verbatim>\<open>putchar\<close>, which writes to the screen
    and the serial line, and \<^verbatim>\<open>kernel_panic\<close>.
  \<^descr> \<open>Keyboard\<close> and \<open>Isr\<close>: \<^verbatim>\<open>kernel/io/keyboard.c\<close>, the interrupt dispatch \<^verbatim>\<open>kernel/kernel/isr.c\<close> with its
    page fault report, and the timer \<^verbatim>\<open>kernel/kernel/timer.c\<close> with \<^verbatim>\<open>sleep\<close>. The locale \<open>interrupt_service\<close> is
    what waiting code relies on of the dispatch: every interrupt of the timer, of the serial line, or
    without a handler is served, and only the timer's moves the clock.
  \<^descr> \<open>Stubs\<close>: the entry stubs \<^verbatim>\<open>kernel/kernel/isr.asm\<close> as lists of instructions, with the processor's
    delivery of an interrupt before and \<^verbatim>\<open>isr_handler\<close> in between. An interrupt is transparent to the program
    it interrupts, and is not itself interrupted.
  \<^descr> \<open>Sleep\<close>: \<^verbatim>\<open>halt\<close>, \<^verbatim>\<open>sti\<close>, \<^verbatim>\<open>cli\<close>, \<^verbatim>\<open>nop\<close> of \<^verbatim>\<open>kernel/kernel/common.c\<close>, and \<^verbatim>\<open>sleep\<close> as a step relation in which interrupts
    arrive between its steps: an invariant by rule induction, a bound on the steps it makes, and that the
    model of \<open>Isr\<close> is one of its runs. The theory at hand shows that an interrupt step of it is what stub and
    handler do.
  \<^descr> \<open>Boot\<close>: the boot code \<^verbatim>\<open>kernel/kernel/boot.asm\<close>, over memory behind the processor's address translation. It
    leaves the mapping and the page structures that the models of \<open>Paging\<close> and \<open>Vm\<close> start from.
  \<^descr> \<open>Debug\<close>: \<^verbatim>\<open>pmm_debug\<close>, \<^verbatim>\<open>debug_as\<close> and \<^verbatim>\<open>vm_debug\<close>, which print the state of the memory managers, and the
    stack dump of \<^verbatim>\<open>common.c\<close>. What the former write is the free frames and the free ranges.
  \<^descr> \<open>Colors\<close>: \<^verbatim>\<open>libmath/math.cpp\<close> and \<^verbatim>\<open>kernel/gfx/colors.cpp\<close>. The floating-point unit is a record of its
    instructions; the loop of \<^verbatim>\<open>fmod\<close> ends if \<^verbatim>\<open>fprem\<close> makes progress, and on exact arithmetic the two
    colour functions compute the same colour circle.
  \<^descr> \<open>Gfx\<close>: \<^verbatim>\<open>kernel/gfx/gfx.cpp\<close>, the mapping of the frame buffer and the copy to it, over \<open>Vm\<close> and \<open>Cstring\<close>.
  \<^descr> \<open>Picture\<close>, \<open>Kernel\<close>, \<open>Irq_Lines\<close>: \<^verbatim>\<open>kernel/kernel/kernel.cpp\<close>. \<open>Picture\<close> is the computation of one image into
    memory; \<open>Kernel\<close> is \<^verbatim>\<open>kernel_main\<close>, whose state consists of those of the components. Its loop never
    ends, so the number of images to draw is an argument, and the theorem holds for every number. Shown:
    what is on the screen and the clock after any number of images, what is written when there are no
    graphics, and in \<open>Irq_Lines\<close> that exactly the interrupt lines with a handler are open.

  \<^bold>\<open>Parameters.\<close> The addresses the linker chooses (the kernel's end, the bss section, the descriptor tables,
  the interrupt stubs); the device state and its bus; the interrupts that arrive during each \<^verbatim>\<open>sleep\<close>; the
  structure the boot loader passes; what the compiled body of \<^verbatim>\<open>isr_handler\<close> does to the registers, of which the
  C calling convention is assumed; the floating-point unit; the contents of memory at start; and the
  value \<^verbatim>\<open>putchar\<close> leaves as its result, since it has no return statement.

  \<^bold>\<open>Not modelled.\<close> The loops of halts at the end of \<^verbatim>\<open>kernel_panic\<close> and of the boot code, which are never left;
  \<^verbatim>\<open>dump_array\<close> and the other code of \<^verbatim>\<open>liballoc.c\<close> that is compiled only under \<^verbatim>\<open>DEBUG\<close>, which calls the
  function \<^verbatim>\<open>fflush\<close> the library does not have; the translation cache of the processor; the time that passes
  between two instructions, so that \<open>Sleep\<close> bounds steps and ticks but not the ticks that arrive while
  \<^verbatim>\<open>sleep\<close> is about to halt; the rounding of the floating-point unit, about which no law is assumed. What is left
  of the headers are declarations of the functions above.
\<close>

text \<open>
  An interrupt that arrives while \<^verbatim>\<open>sleep\<close> is waiting, from the processor's point of view: whatever gate it
  comes through, the stub and the handler together make an interrupt step of \<open>Sleep\<close>, and the
  processor continues in the state in which it was interrupted.
\<close>

lemma sleep_interrupt_served:
  assumes "c_call clob" "64 \<le> regs c ESP" "segs c ES = segs c DS" "segs c FS = segs c DS" "segs c GS = segs c DS"
    and "m_if m" "\<not> returned p" "benign (interrupt_handlers (con_io (m_con m))) (frame n err c)"
    and "service (isr_handler R B F) clob e n err (c, m_con m) = Inr (c', k)"
  shows "same_cpu c c' \<and> sleep_step (isr_handler R B F) millis (p, m) (p, m\<lparr>m_con := k, m_halted := False\<rparr>)"
proof -
  from service_spec [OF assms(1-5), of "isr_handler R B F" e n err "m_con m"] assms(9)
  have "same_cpu c c'" "isr_handler R B F (frame n err c) (m_con m) = Inr k"
    by (cases "isr_handler R B F (frame n err c) (m_con m)"; auto)+
  then show ?thesis using sleep_step.interrupt [OF assms(6-8)] by blast
qed

end
